(* ===== verification/Prelude.thy ===== *)
theory Prelude
  imports Complex_Main "HOL-Library.Word" "HOL-Library.Code_Target_Numeral"
begin

text \<open>
  Shared vocabulary of the development: Rust's machine integers as words, byte strings, the
  checked arithmetic of the standard library, and the generic facts on lists, naturals and
  words that the component theories use.  Rust's \<open>i64\<close> and \<open>u64\<close> are both \<open>64 word\<close>; a
  signed reading is \<open>sint\<close>, an unsigned one \<open>unat\<close>.  \<open>usize\<close> lengths and indices are \<open>nat\<close>.
\<close>

unbundle bit_operations_syntax

section \<open>Machine integers and bytes\<close>

type_synonym u8 = "8 word"
type_synonym u32 = "32 word"
type_synonym u64 = "64 word"
type_synonym u128 = "128 word"
type_synonym i64 = "64 word"
type_synonym bytes = "u8 list"

named_theorems i64_simps \<open>facts on the signed reading of 64 bit words\<close>
named_theorems byte_simps \<open>facts on bytes and decimal digits\<close>

abbreviation i64_min :: int where "i64_min \<equiv> - (2 ^ 63)"
abbreviation i64_max :: int where "i64_max \<equiv> 2 ^ 63 - 1"

definition in_i64 :: "int \<Rightarrow> bool" where
  "in_i64 x \<longleftrightarrow> i64_min \<le> x \<and> x \<le> i64_max"

text \<open>\<open>checked_add\<close> and its relatives: \<open>None\<close> when the exact result does not fit.\<close>

definition i64_of_int_checked :: "int \<Rightarrow> i64 option" where
  "i64_of_int_checked x = (if in_i64 x then Some (word_of_int x) else None)"

definition checked_add :: "i64 \<Rightarrow> i64 \<Rightarrow> i64 option" where
  "checked_add a b = i64_of_int_checked (sint a + sint b)"

definition checked_sub :: "i64 \<Rightarrow> i64 \<Rightarrow> i64 option" where
  "checked_sub a b = i64_of_int_checked (sint a - sint b)"

definition checked_mul :: "i64 \<Rightarrow> i64 \<Rightarrow> i64 option" where
  "checked_mul a b = i64_of_int_checked (sint a * sint b)"

definition checked_neg :: "i64 \<Rightarrow> i64 option" where
  "checked_neg a = i64_of_int_checked (- sint a)"

text \<open>Division and remainder of Rust's signed integers truncate towards zero.\<close>

definition trunc_div :: "int \<Rightarrow> int \<Rightarrow> int" where
  "trunc_div a b = (if (a < 0) = (b < 0) then \<bar>a\<bar> div \<bar>b\<bar> else - (\<bar>a\<bar> div \<bar>b\<bar>))"

definition trunc_mod :: "int \<Rightarrow> int \<Rightarrow> int" where
  "trunc_mod a b = (if a < 0 then - (\<bar>a\<bar> mod \<bar>b\<bar>) else \<bar>a\<bar> mod \<bar>b\<bar>)"

text \<open>Unsigned \<open>checked_mul\<close> and \<open>checked_add\<close> on \<open>u64\<close>, read as naturals.\<close>

definition u64_checked_mul :: "nat \<Rightarrow> nat \<Rightarrow> nat option" where
  "u64_checked_mul a b = (if a * b < 2 ^ 64 then Some (a * b) else None)"

definition u64_checked_add :: "nat \<Rightarrow> nat \<Rightarrow> nat option" where
  "u64_checked_add a b = (if a + b < 2 ^ 64 then Some (a + b) else None)"

lemma sint_bounds [i64_simps]: "i64_min \<le> sint (a :: i64)" "sint (a :: i64) \<le> i64_max"
  using sint_ge [of a] sint_lt [of a] by simp_all

lemma in_i64_sint [simp, i64_simps]: "in_i64 (sint (a :: i64))"
  by (simp add: in_i64_def sint_bounds [simplified])

lemma sint_of_int [i64_simps]: "in_i64 x \<Longrightarrow> sint (word_of_int x :: i64) = x"
  by (simp add: in_i64_def signed_take_bit_int_eq_self sint_sbintrunc')

lemma checked_Some_iff [i64_simps]:
  "i64_of_int_checked x = Some r \<longleftrightarrow> in_i64 x \<and> sint r = x"
  by (auto simp: i64_of_int_checked_def sint_of_int)

lemma checked_None_iff [i64_simps]: "i64_of_int_checked x = None \<longleftrightarrow> \<not> in_i64 x"
  by (simp add: i64_of_int_checked_def)

lemma sint_eq_iff: "sint (a :: i64) = sint b \<longleftrightarrow> a = b"
  by (auto intro: signed_word_eqI)

lemma trunc_div_mod: "b \<noteq> 0 \<Longrightarrow> trunc_div a b * b + trunc_mod a b = a"
proof -
  define q r where "q = \<bar>a\<bar> div \<bar>b\<bar>" and "r = \<bar>a\<bar> mod \<bar>b\<bar>"
  have eq: "\<bar>a\<bar> = q * \<bar>b\<bar> + r" by (simp add: q_def r_def)
  have "trunc_div a b = (if (a < 0) = (b < 0) then q else - q)"
    and "trunc_mod a b = (if a < 0 then - r else r)"
    by (simp_all add: trunc_div_def trunc_mod_def q_def r_def)
  then show ?thesis
    using eq by (cases "a < 0"; cases "b < 0") simp_all
qed

lemma trunc_mod_abs_less: "b \<noteq> 0 \<Longrightarrow> \<bar>trunc_mod a b\<bar> < \<bar>b\<bar>"
  by (simp add: trunc_mod_def)

lemma trunc_mod_sign: "0 \<le> a \<Longrightarrow> 0 \<le> trunc_mod a b" "a \<le> 0 \<Longrightarrow> trunc_mod a b \<le> 0" if "b \<noteq> 0"
  using that by (auto simp: trunc_mod_def)

lemma unat_u64_less: "unat (w :: u64) < 2 ^ 64"
  using unsigned_less [of w] by simp

lemma unat_of_nat_u64: "n < 2 ^ 64 \<Longrightarrow> unat (word_of_nat n :: u64) = n"
  by (simp add: unat_of_nat)

lemma unat_and_mask: "unat (x AND mask k) = unat x mod 2 ^ k" for x :: "'a::len word"
proof -
  have "x AND mask k = take_bit k x" by (simp only: take_bit_eq_mask)
  then have "unat (x AND mask k) = take_bit k (unat x)" by (simp only: unsigned_take_bit_eq)
  then show ?thesis by (simp only: take_bit_eq_mod)
qed

lemma unat_nonneg: "0 \<le> sint (a :: i64) \<Longrightarrow> int (unat a) = sint a"
proof -
  assume "0 \<le> sint a"
  then have "a = word_of_nat (nat (sint a))" "nat (sint a) < 2 ^ 64"
    using sint_bounds(2) [of a] by (simp_all add: nat_less_iff)
  then have "unat a = nat (sint a)" using unat_of_nat_u64 by metis
  then show ?thesis using \<open>0 \<le> sint a\<close> by simp
qed

section \<open>Words of two sizes\<close>

lemma u32_less: "unat (x :: u32) < 2 ^ 32"
  using unsigned_less [of x] by simp

lemma unat_lo: "unat (ucast (t :: u64) :: u32) = unat t mod 2 ^ 32"
  by (simp add: unsigned_ucast_eq take_bit_eq_mod)

lemma unat_hi: "unat (drop_bit 32 (t :: u64)) = unat t div 2 ^ 32"
  by (simp add: drop_bit_eq_div unat_div)

lemma unat_up: "unat (ucast (x :: u32) :: u64) = unat x"
  using u32_less [of x] by (simp add: unsigned_ucast_eq take_bit_nat_eq_self_iff)

lemma unat_add_fits: "unat (a :: u64) + unat b < 2 ^ 64 \<Longrightarrow> unat (a + b) = unat a + unat b"
  by (simp add: unat_word_ariths)

lemma unat_mul_fits: "unat (a :: u64) * unat b < 2 ^ 64 \<Longrightarrow> unat (a * b) = unat a * unat b"
  by (simp add: unat_word_ariths)

section \<open>Little-endian words\<close>

text \<open>\<open>from_le_bytes\<close> and \<open>to_le_bytes\<close> of a 64 bit word.\<close>

fun le_word :: "bytes \<Rightarrow> u64" where
  "le_word [] = 0"
| "le_word (b # bs) = ucast b OR push_bit 8 (le_word bs)"

definition le_bytes :: "u64 \<Rightarrow> bytes" where
  "le_bytes w = map (\<lambda>i. ucast (drop_bit (8 * i) w)) [0..<8]"

text \<open>\<open>next_power_of_two\<close>: doubling from 1.\<close>

function pow2_from :: "nat \<Rightarrow> nat \<Rightarrow> nat" where
  "pow2_from p n = (if n \<le> p \<or> p = 0 then p else pow2_from (2 * p) n)"
  by pat_completeness auto
termination
  by (relation "measure (\<lambda>(p, n). n - p)") auto

declare pow2_from.simps [simp del]

definition next_power_of_two :: "nat \<Rightarrow> nat" where
  "next_power_of_two n = pow2_from 1 n"

lemma pow2_from_spec: "p = 2 ^ j \<Longrightarrow> n \<le> pow2_from p n \<and> (\<exists>k. pow2_from p n = 2 ^ k)"
proof (induction p n arbitrary: j rule: pow2_from.induct)
  case (1 p n)
  show ?case
  proof (cases "n \<le> p")
    case True
    with "1.prems" show ?thesis by (subst (1 2) pow2_from.simps) auto
  next
    case False
    then have *: "\<not> (n \<le> p \<or> p = 0)" using "1.prems" by simp
    have eq: "pow2_from p n = pow2_from (2 * p) n"
      using * by (subst pow2_from.simps) simp
    have "2 * p = 2 ^ Suc j" using "1.prems" by simp
    from "1.IH" [OF * this] show ?thesis by (simp only: eq)
  qed
qed

lemma next_power_of_two_spec: "n \<le> next_power_of_two n" "\<exists>k. next_power_of_two n = 2 ^ k"
  using pow2_from_spec [of 1 0 n] by (auto simp: next_power_of_two_def)

end
