(* ===== verification/IntText.thy ===== *)
theory IntText
  imports Prelude
begin

text \<open>
  Decimal text of PHP integers: \<open>int_digits\<close> and its callers of \<open>convert.rs\<close>, and the parser
  \<open>canonical_int\<close> of \<open>array.rs\<close> that decides which string keys of an array are stored as
  integers.  \<open>dec_digits\<close> is the reference both are compared with.
\<close>

section \<open>Bytes\<close>

text \<open>An ASCII literal of the source as bytes.\<close>

definition ascii :: "string \<Rightarrow> bytes" where
  "ascii s = map of_char s"

definition is_ascii_digit :: "u8 \<Rightarrow> bool" where
  "is_ascii_digit c \<longleftrightarrow> 0x30 \<le> c \<and> c \<le> 0x39"

text \<open>\<open>c - b'0'\<close> as a number, and the byte of a digit.\<close>

definition digit_val :: "u8 \<Rightarrow> nat" where
  "digit_val c = unat (c - 0x30)"

definition digit_byte :: "nat \<Rightarrow> u8" where
  "digit_byte d = 0x30 + word_of_nat d"

section \<open>Writing: \<open>convert::int_digits\<close>\<close>

definition pairs :: bytes where
  "pairs = ascii
    (''0001020304050607080910111213141516171819'' @
     ''2021222324252627282930313233343536373839'' @
     ''4041424344454647484950515253545556575859'' @
     ''6061626364656667686970717273747576777879'' @
     ''8081828384858687888990919293949596979899'')"

text \<open>
  The loop writes two digits per step, from the right end of a 20 byte buffer; \<open>out\<close> is the
  written part \<open>buf[p..]\<close>.
\<close>

fun write_pairs :: "nat \<Rightarrow> bytes \<Rightarrow> bytes" where
  "write_pairs n out =
     (if 100 \<le> n then
        let d = n mod 100 * 2 in write_pairs (n div 100) (pairs ! d # pairs ! (d + 1) # out)
      else if 10 \<le> n then let d = n * 2 in pairs ! d # pairs ! (d + 1) # out
      else digit_byte n # out)"

declare write_pairs.simps [simp del]

definition unsigned_abs :: "i64 \<Rightarrow> nat" where
  "unsigned_abs i = nat \<bar>sint i\<bar>"

definition int_digits :: "i64 \<Rightarrow> bytes" where
  "int_digits i =
     (let out = write_pairs (unsigned_abs i) [] in if sint i < 0 then 0x2D # out else out)"

definition push_int :: "bytes \<Rightarrow> i64 \<Rightarrow> bytes" where
  "push_int out i = out @ int_digits i"

definition int_to_string :: "i64 \<Rightarrow> bytes" where
  "int_to_string i =
     (if 0 \<le> sint i \<and> sint i < 10 then [0x30 + word_of_int (sint i)] else int_digits i)"

section \<open>Parsing: \<open>array::canonical_int\<close>\<close>

fun accumulate :: "nat \<Rightarrow> bytes \<Rightarrow> nat option" where
  "accumulate v [] = Some v"
| "accumulate v (c # cs) =
     (if \<not> is_ascii_digit c then None
      else case u64_checked_mul v 10 of None \<Rightarrow> None
        | Some w \<Rightarrow> (case u64_checked_add w (digit_val c) of None \<Rightarrow> None
            | Some x \<Rightarrow> accumulate x cs))"

definition canonical_int :: "bytes \<Rightarrow> i64 option" where
  "canonical_int b =
     (case b of [] \<Rightarrow> None
      | c # rest \<Rightarrow>
        let (neg, digits) = (if c = 0x2D then (True, rest) else (False, b)) in
        case digits of [] \<Rightarrow> None
        | first # _ \<Rightarrow>
          if \<not> is_ascii_digit first \<or> (first = 0x30 \<and> (1 < length digits \<or> neg)) then None
          else if 19 < length digits then None
          else case accumulate 0 digits of None \<Rightarrow> None
            | Some v \<Rightarrow>
              if neg then (if v \<le> 2 ^ 63 then Some (- word_of_nat v) else None)
              else if v \<le> 2 ^ 63 - 1 then Some (word_of_nat v) else None)"

text \<open>Array keys (\<open>array::Key\<close>).\<close>

datatype key = KInt i64 | KStr bytes

definition key_from_bytes :: "bytes \<Rightarrow> key" where
  "key_from_bytes b = (case canonical_int b of Some i \<Rightarrow> KInt i | None \<Rightarrow> KStr b)"

definition key_from_php_str :: "bytes \<Rightarrow> key" where
  "key_from_php_str s = (case canonical_int s of Some i \<Rightarrow> KInt i | None \<Rightarrow> KStr s)"

section \<open>The reference\<close>

fun dec_digits :: "nat \<Rightarrow> bytes" where
  "dec_digits n = (if n < 10 then [digit_byte n] else dec_digits (n div 10) @ [digit_byte (n mod 10)])"

declare dec_digits.simps [simp del]

text \<open>The value of a digit string.\<close>

definition dec_val :: "nat \<Rightarrow> bytes \<Rightarrow> nat" where
  "dec_val v ds = foldl (\<lambda>a c. 10 * a + digit_val c) v ds"

lemma digit_byte_facts [byte_simps]:
  assumes "d < 10"
  shows "is_ascii_digit (digit_byte d)" "digit_val (digit_byte d) = d"
    "digit_byte d = 0x30 \<longleftrightarrow> d = 0" "digit_byte d \<noteq> 0x2D"
proof -
  have "d \<in> {0,1,2,3,4,5,6,7,8,9}" using assms by auto
  then show "is_ascii_digit (digit_byte d)" "digit_val (digit_byte d) = d"
    "digit_byte d = 0x30 \<longleftrightarrow> d = 0" "digit_byte d \<noteq> 0x2D"
    by (auto simp: is_ascii_digit_def digit_val_def digit_byte_def)
qed

lemma digit_val_less [byte_simps]:
  assumes "is_ascii_digit c"
  shows "digit_val c < 10" "digit_byte (digit_val c) = c"
proof -
  have "unat (c - 0x30) = unat c - unat (0x30 :: u8)"
    using assms by (simp add: is_ascii_digit_def unat_sub)
  moreover have "unat c \<le> unat (0x39 :: u8)"
    using assms by (simp only: is_ascii_digit_def word_le_nat_alt)
  ultimately show "digit_val c < 10" by (simp add: digit_val_def)
  show "digit_byte (digit_val c) = c" by (simp add: digit_byte_def digit_val_def)
qed

lemma dec_val_append [simp]: "dec_val v (xs @ ys) = dec_val (dec_val v xs) ys"
  by (simp add: dec_val_def)

lemma dec_val_simps [simp]: "dec_val v [] = v" "dec_val v (c # cs) = dec_val (10 * v + digit_val c) cs"
  by (simp_all add: dec_val_def)

lemma dec_val_mono: "v \<le> dec_val v ds"
proof (induction ds arbitrary: v)
  case (Cons c cs)
  have "v \<le> 10 * v + digit_val c" by simp
  also have "\<dots> \<le> dec_val (10 * v + digit_val c) cs" by (rule Cons.IH)
  finally show ?case by simp
qed simp

lemma accumulate_Cons:
  "accumulate v (c # cs) =
     (if is_ascii_digit c \<and> 10 * v + digit_val c < 2 ^ 64 then accumulate (10 * v + digit_val c) cs
      else None)"
  by (simp add: u64_checked_mul_def u64_checked_add_def mult.commute)

declare accumulate.simps [simp del]

lemma accumulate_eq:
  "v < 2 ^ 64 \<Longrightarrow> accumulate v ds =
     (if (\<forall>c\<in>set ds. is_ascii_digit c) \<and> dec_val v ds < 2 ^ 64 then Some (dec_val v ds) else None)"
proof (induction ds arbitrary: v)
  case (Cons c cs)
  have *: "10 * v + digit_val c \<le> dec_val (10 * v + digit_val c) cs" by (rule dec_val_mono)
  show ?case
  proof (cases "10 * v + digit_val c < 2 ^ 64")
    case True
    from Cons.IH [OF True] True show ?thesis
      unfolding accumulate_Cons dec_val_simps by auto
  next
    case False
    with * show ?thesis unfolding accumulate_Cons dec_val_simps by auto
  qed
qed (simp add: accumulate.simps)

lemma dec_digits_facts [simp]:
  "dec_digits n \<noteq> []" "\<forall>c\<in>set (dec_digits n). is_ascii_digit c" "dec_val 0 (dec_digits n) = n"
proof (induction n rule: dec_digits.induct)
  case (1 n)
  { case 1 show ?case by (subst dec_digits.simps) simp }
  { case 2 show ?case using "1.IH" by (subst dec_digits.simps) (auto simp: byte_simps) }
  { case 3 show ?case using "1.IH" by (subst dec_digits.simps) (auto simp: byte_simps) }
qed

lemma hd_dec_digits: "0 < n \<Longrightarrow> hd (dec_digits n) \<noteq> 0x30"
proof (induction n rule: dec_digits.induct)
  case (1 n)
  then show ?case by (subst dec_digits.simps) (auto simp: byte_simps)
qed

lemma dec_digits_mult: "0 < n \<Longrightarrow> d < 10 \<Longrightarrow> dec_digits (10 * n + d) = dec_digits n @ [digit_byte d]"
  by (subst dec_digits.simps) simp

text \<open>A digit string without a leading zero is the text of its value.\<close>

lemma dec_digits_unique:
  assumes "\<forall>c\<in>set ds. is_ascii_digit c" "ds \<noteq> []" "hd ds = 0x30 \<longrightarrow> ds = [0x30]"
  shows "dec_digits (dec_val 0 ds) = ds"
  using assms
proof (induction ds rule: rev_induct)
  case (snoc c ds)
  have c: "digit_val c < 10" "digit_byte (digit_val c) = c"
    using snoc.prems by (auto simp: byte_simps)
  show ?case
  proof (cases "ds = []")
    case True
    with c show ?thesis by (subst dec_digits.simps) simp
  next
    case False
    with snoc.prems have nz: "hd ds \<noteq> 0x30" by (cases ds) auto
    with snoc False have IH: "dec_digits (dec_val 0 ds) = ds" by auto
    have "0 < dec_val 0 ds"
    proof (rule ccontr)
      assume "\<not> 0 < dec_val 0 ds"
      with IH have "ds = dec_digits 0" by simp
      then have "hd ds = digit_byte 0" by (simp add: dec_digits.simps)
      with nz show False by (simp add: digit_byte_def)
    qed
    with c IH show ?thesis by (simp add: dec_digits_mult)
  qed
qed simp

lemma length_dec_digits: "0 < k \<Longrightarrow> length (dec_digits n) \<le> k \<longleftrightarrow> n < 10 ^ k"
proof (induction n arbitrary: k rule: dec_digits.induct)
  case (1 n)
  show ?case
  proof (cases "n < 10")
    case True
    obtain j where "k = Suc j" using "1.prems" gr0_implies_Suc by blast
    then have "(10::nat) \<le> 10 ^ k" by simp
    with True "1.prems" show ?thesis by (subst dec_digits.simps) auto
  next
    case False
    have step: "dec_digits n = dec_digits (n div 10) @ [digit_byte (n mod 10)]"
      using False by (subst dec_digits.simps) simp
    show ?thesis
    proof (cases "k = 1")
      case True
      then show ?thesis using False by (simp add: step)
    next
      case k: False
      then obtain j where j: "k = Suc j" "0 < j" using "1.prems" by (cases k) auto
      have "n div 10 < 10 ^ j \<longleftrightarrow> n < 10 ^ k"
        by (simp add: j div_less_iff_less_mult mult.commute)
      with "1.IH" [OF False j(2)] show ?thesis by (simp add: step j)
    qed
  qed
qed

section \<open>The writer agrees with the reference\<close>

lemma nth_concat_pairs:
  "d < n \<Longrightarrow> concat (map (\<lambda>d. [f d, g d]) [0..<n]) ! (d * 2) = f d \<and>
     concat (map (\<lambda>d. [f d, g d]) [0..<n]) ! (d * 2 + 1) = g d"
proof (induction n)
  case (Suc n)
  have len: "length (concat (map (\<lambda>d. [f d, g d]) [0..<n])) = 2 * n" for n
    by (induction n) simp_all
  from Suc len [of n] show ?case by (cases "d = n") (simp_all add: nth_append)
qed simp

lemma pairs_eq: "pairs = concat (map (\<lambda>d. [digit_byte (d div 10), digit_byte (d mod 10)]) [0..<100])"
  by code_simp

lemma pairs_nth:
  "d < 100 \<Longrightarrow> pairs ! (d * 2) = digit_byte (d div 10) \<and> pairs ! (d * 2 + 1) = digit_byte (d mod 10)"
  unfolding pairs_eq by (rule nth_concat_pairs)

lemma write_pairs_eq: "write_pairs n out = dec_digits n @ out"
proof (induction n out rule: write_pairs.induct)
  case (1 n out)
  consider "100 \<le> n" | "10 \<le> n" "n < 100" | "n < 10" by linarith
  then show ?case
  proof cases
    case 1
    have "write_pairs n out =
        dec_digits (n div 100) @ digit_byte (n mod 100 div 10) # digit_byte (n mod 100 mod 10) # out"
      using "1.IH" [OF 1 refl] 1 pairs_nth [of "n mod 100"]
      by (subst write_pairs.simps) (simp add: Let_def)
    moreover have "n mod 100 div 10 = n div 10 mod 10" "n mod 100 mod 10 = n mod 10"
      by (simp_all add: mod_mult2_eq [of n 10 10, simplified] mod_mod_cancel)
    moreover have "dec_digits n = dec_digits (n div 10 div 10) @ [digit_byte (n div 10 mod 10)] @ [digit_byte (n mod 10)]"
      using 1 by (subst dec_digits.simps, subst dec_digits.simps) simp
    ultimately show ?thesis by (simp add: div_mult2_eq [of n 10 10, simplified])
  next
    case 2
    then have "dec_digits n = [digit_byte (n div 10), digit_byte (n mod 10)]"
      by (subst dec_digits.simps, subst dec_digits.simps) simp
    with 2 pairs_nth [of n] show ?thesis
      by (subst write_pairs.simps) (simp add: Let_def)
  next
    case 3
    then show ?thesis by (subst write_pairs.simps, subst dec_digits.simps) simp
  qed
qed

lemma int_digits_eq:
  "int_digits i = (if sint i < 0 then 0x2D # dec_digits (nat (- sint i)) else dec_digits (nat (sint i)))"
  by (simp add: int_digits_def unsigned_abs_def write_pairs_eq)

lemma length_int_digits: "length (int_digits i) \<le> 20"
proof -
  have "nat \<bar>sint i\<bar> < 10 ^ 19"
    using sint_bounds [of i] by (simp add: nat_less_iff)
  then have "length (dec_digits (nat \<bar>sint i\<bar>)) \<le> 19"
    by (simp add: length_dec_digits)
  then show ?thesis by (auto simp: int_digits_eq)
qed

lemma int_to_string_eq: "int_to_string i = int_digits i"
proof (cases "0 \<le> sint i \<and> sint i < 10")
  case True
  have "(word_of_nat (nat (sint i)) :: u8) = word_of_int (int (nat (sint i)))"
    by (rule of_nat_nat_take_bit_eq [where ?k = "sint i"] | simp)
  with True show ?thesis
    by (simp add: int_to_string_def int_digits_eq dec_digits.simps digit_byte_def nat_less_iff)
qed (simp only: int_to_string_def if_False)

text \<open>The checks of \<open>canonical_int\<close> on an unsigned digit string.\<close>

definition canonical_digits :: "bytes \<Rightarrow> bool" where
  "canonical_digits ds \<longleftrightarrow>
     ds \<noteq> [] \<and> (\<forall>c\<in>set ds. is_ascii_digit c) \<and> (hd ds = 0x30 \<longrightarrow> ds = [0x30]) \<and> length ds \<le> 19"

lemma canonical_digits_iff: "canonical_digits ds \<longleftrightarrow> (\<exists>n < 10 ^ 19. ds = dec_digits n)"
proof
  assume *: "canonical_digits ds"
  then have eq: "ds = dec_digits (dec_val 0 ds)"
    by (auto simp: canonical_digits_def dec_digits_unique)
  moreover have "dec_val 0 ds < 10 ^ 19"
    using * eq length_dec_digits [of 19 "dec_val 0 ds"] by (simp add: canonical_digits_def)
  ultimately show "\<exists>n < 10 ^ 19. ds = dec_digits n" by blast
next
  assume "\<exists>n < 10 ^ 19. ds = dec_digits n"
  then obtain n where n: "n < 10 ^ 19" "ds = dec_digits n" by blast
  have "hd ds = 0x30 \<longrightarrow> ds = [0x30]"
  proof (cases "n = 0")
    case True
    then show ?thesis by (simp add: n dec_digits.simps digit_byte_def)
  next
    case False
    then show ?thesis using hd_dec_digits [of n] n by simp
  qed
  then show "canonical_digits ds"
    using n length_dec_digits [of 19 n] by (simp add: canonical_digits_def)
qed

lemma accumulate_canonical:
  "canonical_digits ds \<Longrightarrow> dec_val 0 ds < 10 ^ 19 \<and> accumulate 0 ds = Some (dec_val 0 ds)"
proof -
  assume *: "canonical_digits ds"
  then obtain n where n: "n < 10 ^ 19" "ds = dec_digits n" by (auto simp: canonical_digits_iff)
  then have "dec_val 0 ds < 10 ^ 19" by simp
  then show ?thesis using * by (simp add: accumulate_eq canonical_digits_def)
qed

definition signed_value :: "bool \<Rightarrow> nat \<Rightarrow> i64 option" where
  "signed_value neg v = (if neg then (if v \<le> 2 ^ 63 then Some (- word_of_nat v) else None)
     else if v \<le> 2 ^ 63 - 1 then Some (word_of_nat v) else None)"

definition checked_digits :: "bool \<Rightarrow> bytes \<Rightarrow> i64 option" where
  "checked_digits neg ds =
     (case ds of [] \<Rightarrow> None
        | first # _ \<Rightarrow>
          if \<not> is_ascii_digit first \<or> (first = 0x30 \<and> (1 < length ds \<or> neg)) then None
          else if 19 < length ds then None
          else case accumulate 0 ds of None \<Rightarrow> None | Some v \<Rightarrow> signed_value neg v)"

lemma checked_digits_eq:
  "checked_digits neg ds =
     (if canonical_digits ds \<and> \<not> (neg \<and> ds = [0x30]) then signed_value neg (dec_val 0 ds) else None)"
proof (cases "canonical_digits ds")
  case True
  then show ?thesis using accumulate_canonical [OF True]
    by (cases ds) (auto simp: canonical_digits_def checked_digits_def)
next
  case False
  then show ?thesis using accumulate_eq [of 0 ds]
    by (cases ds; cases "tl ds") (auto simp: canonical_digits_def checked_digits_def)
qed

lemma canonical_int_alt:
  "canonical_int b = (if b \<noteq> [] \<and> hd b = 0x2D then checked_digits True (tl b) else checked_digits False b)"
  by (cases b) (simp_all add: canonical_int_def checked_digits_def signed_value_def split: list.split option.split)

lemma signed_value_Some:
  "signed_value neg v = Some i \<longleftrightarrow>
     (if neg then sint i = - int v \<and> v \<le> 2 ^ 63 else sint i = int v)"
proof -
  have neg: "sint (- word_of_nat v :: i64) = - int v" if "v \<le> 2 ^ 63"
    using sint_of_int [of "- int v"] that by (simp add: in_i64_def)
  have pos: "sint (word_of_nat v :: i64) = int v" if "v \<le> 2 ^ 63 - 1"
    using sint_of_int [of "int v"] that by (simp add: in_i64_def)
  have high: "sint i \<noteq> int v" if "\<not> v \<le> 2 ^ 63 - 1"
    using sint_bounds(2) [of i] that by simp
  show ?thesis
  proof (cases neg)
    case True
    then show ?thesis
      using neg sint_eq_iff [of "- word_of_nat v" i] by (metis option.inject option.distinct(1) signed_value_def)
  next
    case False
    then show ?thesis
      using pos high sint_eq_iff [of "word_of_nat v" i]
      by (metis option.inject option.distinct(1) signed_value_def)
  qed
qed

text \<open>C9: a string key is stored as the integer \<open>i\<close> exactly when it is the decimal text that
  \<open>int_digits\<close> writes for \<open>i\<close>: the two functions are inverse on all $2^{64}$ integers, and no other
  byte string ("08", "+8", "-0", " 8", $2^{63}$ and beyond) is an integer key.\<close>

theorem canonical_int_iff: "canonical_int b = Some i \<longleftrightarrow> b = int_digits i"
proof
  assume L: "canonical_int b = Some i"
  define neg where "neg \<longleftrightarrow> b \<noteq> [] \<and> hd b = 0x2D"
  define ds where "ds = (if neg then tl b else b)"
  have "checked_digits neg ds = Some i"
    using L unfolding canonical_int_alt ds_def neg_def [symmetric] by (cases neg) simp_all
  then have ds: "canonical_digits ds" "\<not> (neg \<and> ds = [0x30])" "signed_value neg (dec_val 0 ds) = Some i"
    by (simp_all add: checked_digits_eq split: if_split_asm)
  have same: "dec_digits (dec_val 0 ds) = ds"
    using ds(1) by (auto simp: canonical_digits_def dec_digits_unique)
  have b: "b = (if neg then 0x2D # ds else ds)"
    by (cases b) (auto simp: ds_def neg_def)
  have "dec_val 0 ds \<noteq> 0" if neg
  proof
    assume "dec_val 0 ds = 0"
    with same have "ds = [0x30]" by (simp add: dec_digits.simps digit_byte_def)
    with ds(2) that show False by simp
  qed
  show "b = int_digits i"
  proof (cases neg)
    case True
    then have "sint i = - int (dec_val 0 ds)" using ds(3) by (simp add: signed_value_Some)
    with True b same \<open>neg \<Longrightarrow> dec_val 0 ds \<noteq> 0\<close> show ?thesis by (simp add: int_digits_eq)
  next
    case False
    then have "sint i = int (dec_val 0 ds)" using ds(3) by (simp add: signed_value_Some)
    with False b same show ?thesis by (simp add: int_digits_eq)
  qed
next
  assume R: "b = int_digits i"
  have bound: "nat \<bar>sint i\<bar> < 10 ^ 19" using sint_bounds [of i] by (simp add: nat_less_iff)
  define ds where "ds = dec_digits (nat \<bar>sint i\<bar>)"
  have ds: "canonical_digits ds" "dec_val 0 ds = nat \<bar>sint i\<bar>"
    using bound by (auto simp: ds_def canonical_digits_iff)
  have hd: "hd ds \<noteq> 0x2D"
    using ds(1) by (cases ds) (auto simp: canonical_digits_def is_ascii_digit_def)
  have b: "b = (if sint i < 0 then 0x2D # ds else ds)"
    by (simp add: R int_digits_eq ds_def)
  have "ds \<noteq> [0x30]" if "sint i < 0"
    using ds(2) that by (auto simp: digit_val_def)
  have v: "signed_value (sint i < 0) (nat \<bar>sint i\<bar>) = Some i"
    using sint_bounds(1) [of i] by (simp add: signed_value_Some nat_le_iff)
  show "canonical_int b = Some i"
  proof (cases "sint i < 0")
    case True
    with b ds v \<open>sint i < 0 \<Longrightarrow> ds \<noteq> [0x30]\<close> show ?thesis by (simp add: canonical_int_alt checked_digits_eq)
  next
    case False
    with b ds v hd show ?thesis by (simp add: canonical_int_alt checked_digits_eq)
  qed
qed

end
