(* ===== verification/HashStore.thy ===== *)
theory HashStore
  imports IntText "HOL-Library.AList"
begin

text \<open>
  The hash representation of PHP arrays (\<open>array.rs\<close>, \<open>HashStore\<close>): an insertion-ordered
  vector of buckets, whose deleted entries stay as tombstones, and an open-addressing index
  of slots probed in triangular steps.  The loops over the index have no bound in the source;
  here they carry as fuel the number of slots, and the lemmas on \<open>index_ok\<close> show that a free
  slot or the wanted entry is met before it is spent.
\<close>

section \<open>Hashes\<close>

text \<open>\<open>string::hash_bytes\<close>: eight bytes per round, then the rest.\<close>

definition hash_mul :: u64 where
  "hash_mul = 0x9E3779B97F4A7C15"

definition hash_round :: "u64 \<Rightarrow> u64 \<Rightarrow> u64" where
  "hash_round h w = (let h = (h XOR w) * hash_mul in h XOR drop_bit 29 h)"

fun rest_word :: "u64 \<Rightarrow> nat \<Rightarrow> bytes \<Rightarrow> u64" where
  "rest_word w s [] = w"
| "rest_word w s (b # bs) = rest_word (w OR push_bit s (ucast b)) (s + 8) bs"

function hash_blocks :: "u64 \<Rightarrow> bytes \<Rightarrow> u64" where
  "hash_blocks h b =
     (if 8 \<le> length b then hash_blocks (hash_round h (le_word (take 8 b))) (drop 8 b)
      else if b = [] then h else hash_round h (rest_word 0 0 b))"
  by pat_completeness auto
termination
  by (relation "measure (\<lambda>(h, b). length b)") auto

declare hash_blocks.simps [simp del]

definition hash_bytes :: "bytes \<Rightarrow> u64" where
  "hash_bytes b =
     (let h = hash_blocks ((word_of_nat (length b) * hash_mul) XOR 0x243F6A8885A308D3) b;
          h = h * 0xFF51AFD7ED558CCD
      in (h XOR drop_bit 32 h) OR 1)"

definition hash_int :: "i64 \<Rightarrow> u64" where
  "hash_int i =
     (let x = i XOR drop_bit 30 i;
          x = x * 0xBF58476D1CE4E5B9;
          x = x XOR drop_bit 27 x;
          x = x * 0x94D049BB133111EB
      in x XOR drop_bit 31 x)"

definition bucket_hash :: "key \<Rightarrow> u64" where
  "bucket_hash k = (case k of KInt i \<Rightarrow> i | KStr s \<Rightarrow> hash_bytes s)"

definition slot_hash :: "u64 \<Rightarrow> bool \<Rightarrow> u64" where
  "slot_hash bh is_int =
     (if is_int then
        (hash_int bh AND 0xFFFFFFFF00000000)
        OR ((bh XOR drop_bit 16 bh XOR drop_bit 32 bh) AND 0xFFFFFFFF)
      else bh)"

fun is_int_key :: "key \<Rightarrow> bool" where
  "is_int_key (KInt _) = True"
| "is_int_key (KStr _) = False"

section \<open>Buckets and the store\<close>

record 'v bucket =
  b_val :: "'v option"
  b_hash :: u64
  b_skey :: "bytes option"

definition b_key :: "'v bucket \<Rightarrow> key" where
  "b_key b = (case b_skey b of Some s \<Rightarrow> KStr s | None \<Rightarrow> KInt (b_hash b))"

definition b_matches :: "'v bucket \<Rightarrow> u64 \<Rightarrow> key \<Rightarrow> bool" where
  "b_matches b bh k \<longleftrightarrow> b_hash b = bh \<and>
     (case (b_skey b, k) of (None, KInt _) \<Rightarrow> True | (Some a, KStr s) \<Rightarrow> a = s | _ \<Rightarrow> False)"

definition new_bucket :: "key \<Rightarrow> u64 \<Rightarrow> 'v \<Rightarrow> 'v bucket" where
  "new_bucket k bh v =
     \<lparr>b_val = Some v, b_hash = bh, b_skey = (case k of KInt _ \<Rightarrow> None | KStr s \<Rightarrow> Some s)\<rparr>"

definition b_live :: "'v bucket \<Rightarrow> bool" where
  "b_live b \<longleftrightarrow> b_val b \<noteq> None"

record 'v hash_store =
  hs_entries :: "'v bucket list"
  hs_index :: "u64 list"
  hs_live :: nat

definition small_limit :: nat where
  "small_limit = 8"

definition hs_with_capacity :: "nat \<Rightarrow> 'v hash_store" where
  "hs_with_capacity n =
     \<lparr>hs_entries = [],
      hs_index = (if n \<le> small_limit then [] else replicate (next_power_of_two (n * 2)) 0),
      hs_live = 0\<rparr>"

definition hs_limit :: "'v hash_store \<Rightarrow> nat" where
  "hs_limit s = (if hs_index s = [] then small_limit else length (hs_index s) div 2)"

section \<open>Probing\<close>

definition slot_of :: "nat \<Rightarrow> u64 \<Rightarrow> u64" where
  "slot_of idx sh = push_bit 32 (drop_bit 32 sh) OR (word_of_nat idx + 1)"

text \<open>\<open>(s as u32).wrapping_sub(1)\<close>.\<close>

definition slot_entry :: "u64 \<Rightarrow> nat" where
  "slot_entry s = unat ((ucast s :: u32) - 1)"

fun find_scan :: "'v bucket list \<Rightarrow> nat \<Rightarrow> u64 \<Rightarrow> key \<Rightarrow> nat option" where
  "find_scan [] i bh k = None"
| "find_scan (b # bs) i bh k = (if b_matches b bh k \<and> b_live b then Some i else find_scan bs (Suc i) bh k)"

text \<open>Outer \<open>None\<close>: the fuel is spent; inner \<open>None\<close>: the key is absent.\<close>

fun find_probe :: "nat \<Rightarrow> u64 list \<Rightarrow> 'v bucket list \<Rightarrow> u64 \<Rightarrow> key \<Rightarrow> u64 \<Rightarrow> nat \<Rightarrow> nat \<Rightarrow> nat option option" where
  "find_probe 0 ix es bh k tag i step = None"
| "find_probe (Suc fuel) ix es bh k tag i step =
     (let s = ix ! i in
      if s = 0 then Some None
      else if drop_bit 32 s = tag \<and> b_matches (es ! slot_entry s) bh k \<and> b_live (es ! slot_entry s)
        then Some (Some (slot_entry s))
      else find_probe fuel ix es bh k tag ((i + (step + 1)) AND (length ix - 1)) (step + 1))"

definition hs_find_opt :: "'v hash_store \<Rightarrow> key \<Rightarrow> u64 \<Rightarrow> nat option option" where
  "hs_find_opt s k bh =
     (if hs_index s = [] then Some (find_scan (hs_entries s) 0 bh k)
      else
        let sh = slot_hash bh (is_int_key k) in
        find_probe (length (hs_index s)) (hs_index s) (hs_entries s) bh k (drop_bit 32 sh)
          (unat sh AND (length (hs_index s) - 1)) 0)"

definition hs_find :: "'v hash_store \<Rightarrow> key \<Rightarrow> u64 \<Rightarrow> nat option" where
  "hs_find s k bh = (case hs_find_opt s k bh of Some r \<Rightarrow> r | None \<Rightarrow> None)"

fun free_probe :: "nat \<Rightarrow> u64 list \<Rightarrow> nat \<Rightarrow> nat \<Rightarrow> nat option" where
  "free_probe 0 ix i step = None"
| "free_probe (Suc fuel) ix i step =
     (if ix ! i = 0 then Some i
      else free_probe fuel ix ((i + (step + 1)) AND (length ix - 1)) (step + 1))"

definition ix_place :: "u64 list \<Rightarrow> nat \<Rightarrow> u64 \<Rightarrow> u64 list" where
  "ix_place ix idx sh =
     (if ix = [] then ix
      else case free_probe (length ix) ix (unat sh AND (length ix - 1)) 0 of
        Some i \<Rightarrow> ix[i := slot_of idx sh] | None \<Rightarrow> ix)"

section \<open>Rebuilding\<close>

fun remap_scan :: "nat \<Rightarrow> 'v bucket list \<Rightarrow> nat list" where
  "remap_scan n [] = [n]"
| "remap_scan n (b # bs) = n # remap_scan (if b_live b then n + 1 else n) bs"

definition bucket_slot_hash :: "'v bucket \<Rightarrow> u64" where
  "bucket_slot_hash b = slot_hash (b_hash b) (b_skey b = None)"

fun place_all :: "u64 list \<Rightarrow> nat \<Rightarrow> 'v bucket list \<Rightarrow> u64 list" where
  "place_all ix i [] = ix"
| "place_all ix i (b # bs) =
     place_all (ix_place ix i (bucket_slot_hash b)) (Suc i) bs"

definition hs_rebuild :: "'v hash_store \<Rightarrow> nat \<Rightarrow> 'v hash_store \<times> nat list option" where
  "hs_rebuild s min_cap =
     (let had_holes = (hs_live s \<noteq> length (hs_entries s));
          remap = (if had_holes then Some (remap_scan 0 (hs_entries s)) else None);
          es = (if had_holes then filter b_live (hs_entries s) else hs_entries s);
          n = max min_cap (length es)
      in if n \<le> small_limit then (s\<lparr>hs_entries := es, hs_index := []\<rparr>, remap)
         else (s\<lparr>hs_entries := es,
                 hs_index := place_all (replicate (next_power_of_two (n * 2)) 0) 0 es\<rparr>, remap))"

section \<open>Triangular probing\<close>

text \<open>The slot visited at step \<open>t\<close>, from start \<open>c\<close>, in a table of \<open>n\<close> slots.\<close>

definition tri :: "nat \<Rightarrow> nat" where
  "tri t = t * (t + 1) div 2"

definition probe_pos :: "nat \<Rightarrow> nat \<Rightarrow> nat \<Rightarrow> nat" where
  "probe_pos n c t = (c + tri t) mod n"

lemma tri_double: "2 * tri t = t * (t + 1)"
  unfolding tri_def by (rule dvd_mult_div_cancel) simp

lemma tri_Suc: "tri (Suc t) = tri t + (t + 1)"
proof -
  have "2 * tri (Suc t) = 2 * (tri t + (t + 1))"
    unfolding add_mult_distrib2 tri_double by (simp add: algebra_simps)
  then show ?thesis by simp
qed

lemma and_pow2_mod: "(a :: nat) AND (2 ^ k - 1) = a mod 2 ^ k"
  by (simp only: mask_eq_exp_minus_1 [symmetric] take_bit_eq_mask [symmetric] take_bit_eq_mod)

lemma probe_pos_Suc:
  assumes "n = 2 ^ k"
  shows "(probe_pos n c t + (t + 1)) AND (n - 1) = probe_pos n c (Suc t)"
  unfolding probe_pos_def assms and_pow2_mod mod_add_left_eq tri_Suc by (simp add: add.assoc)

lemma probe_pos_0: "n = 2 ^ k \<Longrightarrow> c AND (n - 1) = probe_pos n c 0"
  by (simp only: probe_pos_def and_pow2_mod) (simp add: tri_def)

text \<open>
  No slot is visited twice in the first \<open>n\<close> steps: of the two factors of
  \<open>(t - s) \<times> (t + s + 1)\<close> one is odd, so \<open>2\<^sup>k\<^sup>+\<^sup>1\<close> would have to divide the other.
\<close>

lemma triangular_inj:
  assumes "s < t" "t < 2 ^ k"
  shows "(c + tri s) mod 2 ^ k \<noteq> (c + tri t) mod 2 ^ k"
proof
  assume "(c + tri s) mod 2 ^ k = (c + tri t) mod 2 ^ k"
  then have "int ((c + tri t) mod 2 ^ k) = int ((c + tri s) mod 2 ^ k)" by simp
  then have "int (c + tri t) mod 2 ^ k = int (c + tri s) mod 2 ^ k"
    by (simp only: zmod_int of_nat_power of_nat_numeral)
  then have "2 ^ k dvd int (c + tri t) - int (c + tri s)"
    by (simp only: mod_eq_dvd_iff)
  then have "2 * 2 ^ k dvd 2 * (int (c + tri t) - int (c + tri s))"
    by (rule mult_dvd_mono [OF dvd_refl])
  moreover have "2 * (int (c + tri t) - int (c + tri s)) = (int t - int s) * (int t + int s + 1)"
  proof -
    have "int (2 * tri x) = int x * (int x + 1)" for x
      unfolding tri_double by (simp add: algebra_simps)
    from this [of t] this [of s] show ?thesis by (simp add: algebra_simps)
  qed
  ultimately have dvd: "2 ^ Suc k dvd (int t - int s) * (int t + int s + 1)" by simp
  have cop: "coprime (2 ^ Suc k) x" if "odd x" for x :: int
    using that by simp
  have lt: "int t < 2 ^ k" using assms(2) by (simp flip: of_nat_power)
  show False
  proof (cases "odd (int t - int s)")
    case True
    then have "2 ^ Suc k dvd int t + int s + 1"
      using dvd cop coprime_dvd_mult_right_iff by blast
    then have "2 ^ Suc k \<le> int t + int s + 1" by (rule zdvd_imp_le) simp
    then have "2 * 2 ^ k \<le> int t + int s + 1" by (simp only: power_Suc)
    then show False using lt assms(1) by linarith
  next
    case False
    then have "odd (int t + int s + 1)" by presburger
    then have "2 ^ Suc k dvd int t - int s"
      using dvd cop coprime_dvd_mult_left_iff by blast
    then have "2 ^ Suc k \<le> int t - int s" using assms(1) by (intro zdvd_imp_le) simp_all
    then have "2 * 2 ^ k \<le> int t - int s" by (simp only: power_Suc)
    then show False using lt by linarith
  qed
qed

text \<open>So the first \<open>n\<close> steps visit every slot.\<close>

lemma probe_pos_surj:
  assumes "n = 2 ^ k" "p < n"
  shows "\<exists>t < n. probe_pos n c t = p"
proof -
  have "inj_on (probe_pos n c) {..<n}"
  proof (rule inj_onI, rule ccontr)
    fix s t assume *: "s \<in> {..<n}" "t \<in> {..<n}" "probe_pos n c s = probe_pos n c t" "s \<noteq> t"
    then consider "s < t" | "t < s" by linarith
    then show False
      using * triangular_inj [of s t k c] triangular_inj [of t s k c] assms(1)
      by cases (auto simp: probe_pos_def)
  qed
  moreover have "probe_pos n c ` {..<n} \<subseteq> {..<n}"
    using assms by (auto simp: probe_pos_def)
  ultimately have "probe_pos n c ` {..<n} = {..<n}"
    by (simp add: endo_inj_surj)
  then show ?thesis using assms(2) by (metis imageE lessThan_iff)
qed

section \<open>Slots\<close>

lemma unat_slot_of:
  assumes "idx < 2 ^ 32 - 1"
  shows "unat (slot_of idx sh) = 2 ^ 32 * (unat sh div 2 ^ 32) + (idx + 1)"
proof -
  define h l where "h = unat sh div 2 ^ 32" and "l = idx + 1"
  have h: "h < 2 ^ 32"
    using unat_u64_less [of sh] by (simp add: h_def less_mult_imp_div_less)
  have l: "l < 2 ^ 32" using assms by (simp add: l_def)
  have lo: "unat (word_of_nat idx + 1 :: u64) = l"
  proof -
    have "(word_of_nat idx + 1 :: u64) = word_of_nat l" by (simp add: l_def)
    then show ?thesis using l by (simp add: unat_of_nat_u64)
  qed
  have hi: "unat (push_bit 32 (drop_bit 32 sh)) = 2 ^ 32 * h"
  proof -
    have "unat (push_bit 32 (drop_bit 32 sh)) = 2 ^ 32 * h mod 2 ^ 64"
      unfolding unsigned_push_bit_eq unat_drop_bit_eq
      unfolding push_bit_eq_mult drop_bit_eq_div take_bit_eq_mod h_def by (simp add: mult.commute)
    also have "\<dots> = 2 ^ 32 * h" using h by (intro mod_less) simp
    finally show ?thesis .
  qed
  have "unat (slot_of idx sh) = (2 ^ 32 * h) OR l"
    by (simp only: slot_of_def unsigned_or_eq hi lo)
  also have "\<dots> = push_bit 32 h OR take_bit 32 l"
    using l by (simp add: push_bit_eq_mult take_bit_eq_mod mult.commute)
  also have "\<dots> = push_bit 32 h + take_bit 32 l"
  proof -
    have "push_bit 32 h AND take_bit 32 l = 0"
      by (auto simp: bit_eq_iff bit_simps)
    then show ?thesis by (rule disjunctive_add_eq_or [symmetric])
  qed
  also have "\<dots> = 2 ^ 32 * h + l"
    using l by (simp add: push_bit_eq_mult take_bit_eq_mod mult.commute)
  finally show ?thesis by (simp add: h_def l_def)
qed


lemma slot_of_simps:
  assumes "idx < 2 ^ 32 - 1"
  shows "slot_of idx sh \<noteq> 0" "slot_entry (slot_of idx sh) = idx"
    "drop_bit 32 (slot_of idx sh) = drop_bit 32 sh"
proof -
  note u = unat_slot_of [OF assms, of sh]
  show "slot_of idx sh \<noteq> 0" using u by auto
  have "unat (ucast (slot_of idx sh) :: u32) = unat (word_of_nat (idx + 1) :: u32)"
    using assms by (simp add: unsigned_ucast_eq take_bit_eq_mod u unat_of_nat del: of_nat_Suc of_nat_add)
  then have "(ucast (slot_of idx sh) :: u32) = word_of_nat (idx + 1)"
    by (rule unsigned_word_eqI)
  then have "slot_entry (slot_of idx sh) = unat (word_of_nat (idx + 1) - 1 :: u32)"
    by (simp only: slot_entry_def)
  also have "\<dots> = idx" using assms by (simp add: unat_of_nat)
  finally show "slot_entry (slot_of idx sh) = idx" .
  have "unat (drop_bit 32 (slot_of idx sh)) = unat (drop_bit 32 sh)"
    using assms unfolding unat_drop_bit_eq unfolding drop_bit_eq_div u by simp
  then show "drop_bit 32 (slot_of idx sh) = drop_bit 32 sh"
    by (rule unsigned_word_eqI)
qed

text \<open>
  The index invariant, for the slot hashes \<open>hs\<close> of the entries in order: every entry is on its
  probe path with no free slot before it, and every used slot is the one of some entry.
\<close>

definition ix_path :: "u64 list \<Rightarrow> u64 \<Rightarrow> nat \<Rightarrow> u64" where
  "ix_path ix sh t = ix ! probe_pos (length ix) (unat sh) t"

definition index_ok :: "u64 list \<Rightarrow> u64 list \<Rightarrow> bool" where
  "index_ok ix hs \<longleftrightarrow> (\<exists>k. length ix = 2 ^ k) \<and>
     (\<forall>i < length hs. \<exists>t < length ix. ix_path ix (hs ! i) t = slot_of i (hs ! i) \<and>
        (\<forall>s < t. ix_path ix (hs ! i) s \<noteq> 0)) \<and>
     (\<forall>p < length ix. ix ! p \<noteq> 0 \<longrightarrow> (\<exists>i < length hs. ix ! p = slot_of i (hs ! i))) \<and>
     (\<forall>p < length ix. \<forall>q < length ix. ix ! p \<noteq> 0 \<and> ix ! p = ix ! q \<longrightarrow> p = q)"

lemma index_okD:
  assumes "index_ok ix hs"
  shows "\<exists>k. length ix = 2 ^ k" "0 < length ix"
    "i < length hs \<Longrightarrow> \<exists>t < length ix. ix_path ix (hs ! i) t = slot_of i (hs ! i) \<and>
        (\<forall>s < t. ix_path ix (hs ! i) s \<noteq> 0)"
    "p < length ix \<Longrightarrow> ix ! p \<noteq> 0 \<Longrightarrow> \<exists>i < length hs. ix ! p = slot_of i (hs ! i)"
    "p < length ix \<Longrightarrow> q < length ix \<Longrightarrow> ix ! p \<noteq> 0 \<Longrightarrow> ix ! p = ix ! q \<Longrightarrow> p = q"
  using assms by (auto simp: index_ok_def)

lemma probe_pos_less: "0 < n \<Longrightarrow> probe_pos n c t < n"
  by (simp add: probe_pos_def)

lemma index_free_slot:
  assumes "index_ok ix hs" "length hs < length ix"
  shows "\<exists>p < length ix. ix ! p = 0"
proof (rule ccontr)
  assume no: "\<not> (\<exists>p < length ix. ix ! p = 0)"
  define f where "f p = (SOME i. i < length hs \<and> ix ! p = slot_of i (hs ! i))" for p
  have f: "f p < length hs \<and> ix ! p = slot_of (f p) (hs ! f p)" if "p < length ix" for p
  proof -
    have "ix ! p \<noteq> 0" using no that by blast
    from someI_ex [OF index_okD(4) [OF assms(1) that this]] show ?thesis by (simp only: f_def)
  qed
  have "inj_on f {..<length ix}"
  proof (rule inj_onI)
    fix p q assume "p \<in> {..<length ix}" "q \<in> {..<length ix}" "f p = f q"
    then show "p = q"
      using f [of p] f [of q] no index_okD(5) [OF assms(1), of p q] by auto
  qed
  moreover have "f ` {..<length ix} \<subseteq> {..<length hs}" using f by auto
  ultimately have "card {..<length ix} \<le> card {..<length hs}"
    by (intro card_inj_on_le) auto
  with assms(2) show False by simp
qed

text \<open>The first free slot on a path.\<close>

lemma path_free:
  assumes "index_ok ix hs" "length hs < length ix"
  obtains t where "t < length ix" "ix_path ix sh t = 0" "\<forall>s < t. ix_path ix sh s \<noteq> 0"
proof -
  obtain k where k: "length ix = 2 ^ k" using index_okD(1) [OF assms(1)] by blast
  obtain p where p: "p < length ix" "ix ! p = 0" using index_free_slot [OF assms] by blast
  obtain t0 where t0: "t0 < length ix" "ix_path ix sh t0 = 0"
    using probe_pos_surj [OF k p(1), of "unat sh"] p(2) by (auto simp: ix_path_def)
  define t where "t = (LEAST t. ix_path ix sh t = 0)"
  have "ix_path ix sh t = 0" unfolding t_def by (rule LeastI) (rule t0(2))
  moreover have "t \<le> t0" unfolding t_def by (rule Least_le) (rule t0(2))
  moreover have "\<forall>s < t. ix_path ix sh s \<noteq> 0" unfolding t_def using not_less_Least by blast
  ultimately show thesis using t0(1) by (intro that) auto
qed

lemma free_probe_steps:
  assumes "length ix = 2 ^ k" "t \<le> t1" "t1 < t + fuel" "ix_path ix sh t1 = 0"
    "\<forall>s < t1. ix_path ix sh s \<noteq> 0"
  shows "free_probe fuel ix (probe_pos (length ix) (unat sh) t) t
    = Some (probe_pos (length ix) (unat sh) t1)"
  using assms(2,3)
proof (induction fuel arbitrary: t)
  case (Suc fuel)
  show ?case
  proof (cases "t = t1")
    case True
    with assms(4) show ?thesis by (simp add: ix_path_def)
  next
    case False
    then have nz: "ix ! probe_pos (length ix) (unat sh) t \<noteq> 0"
      using assms(5) Suc.prems by (simp add: ix_path_def)
    have "Suc t \<le> t1" "t1 < Suc t + fuel" using False Suc.prems by auto
    from Suc.IH [OF this] show ?thesis
      using nz probe_pos_Suc [OF assms(1), of "unat sh" t] by simp
  qed
qed simp


text \<open>Placing one more entry keeps the invariant.\<close>

lemma ix_place_ok:
  assumes ok: "index_ok ix hs" and room: "length hs < length ix" "length hs < 2 ^ 32 - 1"
  shows "index_ok (ix_place ix (length hs) sh) (hs @ [sh])"
    and "length (ix_place ix (length hs) sh) = length ix"
proof -
  obtain k where k: "length ix = 2 ^ k" using index_okD(1) [OF ok] by blast
  obtain t where t: "t < length ix" "ix_path ix sh t = 0" "\<forall>s < t. ix_path ix sh s \<noteq> 0"
    using path_free [OF ok room(1)] by blast
  define i where "i = probe_pos (length ix) (unat sh) t"
  define ix' where "ix' = ix[i := slot_of (length hs) sh]"
  have i: "i < length ix" "ix ! i = 0"
    using t(2) index_okD(2) [OF ok] by (simp_all add: i_def ix_path_def probe_pos_less)
  have place: "ix_place ix (length hs) sh = ix'"
    using free_probe_steps [OF k _ _ t(2,3), of 0 "length ix"] t(1) index_okD(2) [OF ok]
    by (simp add: ix_place_def ix'_def i_def probe_pos_0 [OF k, simplified])
  then show "length (ix_place ix (length hs) sh) = length ix" by (simp add: ix'_def)
  have new: "slot_of (length hs) sh \<noteq> 0" using slot_of_simps [OF room(2)] by simp
  have nth: "ix' ! p = (if p = i then slot_of (length hs) sh else ix ! p)" if "p < length ix" for p
    using that by (simp add: ix'_def nth_list_update)
  have len: "length ix' = length ix" by (simp add: ix'_def)
  have path: "ix_path ix' h s = (if probe_pos (length ix) (unat h) s = i then slot_of (length hs) sh else ix_path ix h s)"
    for h s
    using nth [OF probe_pos_less [OF index_okD(2) [OF ok]], of "unat h" s] len by (simp add: ix_path_def)
  have one: "\<exists>t < length ix'. ix_path ix' ((hs @ [sh]) ! j) t = slot_of j ((hs @ [sh]) ! j) \<and>
      (\<forall>s < t. ix_path ix' ((hs @ [sh]) ! j) s \<noteq> 0)" if j: "j < length (hs @ [sh])" for j
  proof (cases "j < length hs")
    case True
    then obtain u where u: "u < length ix" "ix_path ix (hs ! j) u = slot_of j (hs ! j)"
      "\<forall>s < u. ix_path ix (hs ! j) s \<noteq> 0"
      using index_okD(3) [OF ok] by blast
    have "ix_path ix (hs ! j) u \<noteq> 0"
      using u(2) True room(2) slot_of_simps(1) [of j] by simp
    then have "probe_pos (length ix) (unat (hs ! j)) u \<noteq> i"
      using i(2) by (auto simp: ix_path_def)
    with u True new show ?thesis by (auto simp: path len nth_append)
  next
    case False
    then have "j = length hs" using j by simp
    with t new show ?thesis
      by (auto simp: path len nth_append i_def [symmetric] intro!: exI [of _ t])
  qed
  have two: "\<exists>j < length (hs @ [sh]). ix' ! p = slot_of j ((hs @ [sh]) ! j)"
    if "p < length ix'" "ix' ! p \<noteq> 0" for p
  proof (cases "p = i")
    case True
    then have "ix' ! p = slot_of (length hs) sh" using nth [OF i(1)] by simp
    then show ?thesis by (intro exI [of _ "length hs"]) simp
  next
    case False
    then have p: "p < length ix" "ix ! p \<noteq> 0" "ix' ! p = ix ! p"
      using that nth [of p] len by simp_all
    obtain j where "j < length hs" "ix ! p = slot_of j (hs ! j)"
      using index_okD(4) [OF ok p(1,2)] by blast
    then show ?thesis using p(3) by (intro exI [of _ j]) (simp add: nth_append)
  qed
  have fresh: "ix ! p \<noteq> slot_of (length hs) sh" if "p < length ix" "ix ! p \<noteq> 0" for p
  proof -
    from index_okD(4) [OF ok that] obtain j where "j < length hs" "ix ! p = slot_of j (hs ! j)"
      by blast
    then show ?thesis
      using slot_of_simps(2) [OF room(2), of sh] slot_of_simps(2) [of j "hs ! j"] room(2) by auto
  qed
  have three: "p = q" if "p < length ix'" "q < length ix'" "ix' ! p \<noteq> 0" "ix' ! p = ix' ! q" for p q
  proof -
    have pq: "p < length ix" "q < length ix" using that len by simp_all
    have "\<not> (r \<noteq> i \<and> ix' ! r = slot_of (length hs) sh)" if "r < length ix" for r
      using nth [OF that] fresh [OF that] new by metis
    with pq that(4) nth [OF i(1)] have "p = i \<longleftrightarrow> q = i" by metis
    with pq that(3,4) nth [OF pq(1)] nth [OF pq(2)] index_okD(5) [OF ok pq] show ?thesis by metis
  qed
  show "index_ok (ix_place ix (length hs) sh) (hs @ [sh])"
    unfolding place index_ok_def
  proof (intro conjI allI impI)
    show "\<exists>k. length ix' = 2 ^ k" using k len by simp
  qed (use one two three in \<open>blast+\<close>)
qed

lemma index_ok_empty: "length ix = 2 ^ k \<Longrightarrow> \<forall>p < length ix. ix ! p = 0 \<Longrightarrow> index_ok ix []"
  by (auto simp: index_ok_def)

text \<open>The index built for a list of buckets.\<close>

lemma place_all_ok:
  assumes "index_ok ix hs" "length hs + length es \<le> length ix" "length hs + length es < 2 ^ 32 - 1"
  shows "index_ok (place_all ix (length hs) es) (hs @ map bucket_slot_hash es)
    \<and> length (place_all ix (length hs) es) = length ix"
  using assms
proof (induction es arbitrary: ix hs)
  case (Cons b es)
  have room: "length hs < length ix" "length hs < 2 ^ 32 - 1" using Cons.prems by simp_all
  define ix' where "ix' = ix_place ix (length hs) (bucket_slot_hash b)"
  have ix': "index_ok ix' (hs @ [bucket_slot_hash b])" "length ix' = length ix"
    using ix_place_ok [OF Cons.prems(1) room] by (simp_all add: ix'_def)
  have "index_ok (place_all ix' (length (hs @ [bucket_slot_hash b])) es)
      ((hs @ [bucket_slot_hash b]) @ map bucket_slot_hash es)
    \<and> length (place_all ix' (length (hs @ [bucket_slot_hash b])) es) = length ix'"
    using Cons.prems ix' by (intro Cons.IH) simp_all
  then show ?case using ix'(2) by (simp add: ix'_def)
qed simp

lemma built_index_ok:
  assumes "length es \<le> n" "length es < 2 ^ 32 - 1"
  shows "index_ok (place_all (replicate (next_power_of_two n) 0) 0 es) (map bucket_slot_hash es)"
    and "length (place_all (replicate (next_power_of_two n) 0) 0 es) = next_power_of_two n"
proof -
  obtain k where k: "next_power_of_two n = 2 ^ k" using next_power_of_two_spec(2) by blast
  have "index_ok (replicate (next_power_of_two n) 0) []"
    using k by (intro index_ok_empty [of _ k]) simp_all
  from place_all_ok [OF this, of es] assms next_power_of_two_spec(1) [of n]
  show "index_ok (place_all (replicate (next_power_of_two n) 0) 0 es) (map bucket_slot_hash es)"
    and "length (place_all (replicate (next_power_of_two n) 0) 0 es) = next_power_of_two n"
    by simp_all
qed

section \<open>The store invariant and lookup\<close>

definition bucket_ok :: "'v bucket \<Rightarrow> bool" where
  "bucket_ok b \<longleftrightarrow> b_hash b = bucket_hash (b_key b)"

lemma bucket_ok_int: "b_skey b = None \<Longrightarrow> bucket_ok b"
  by (simp add: bucket_ok_def b_key_def bucket_hash_def)

lemma b_matches_iff: "bucket_ok b \<Longrightarrow> b_matches b (bucket_hash k) k \<longleftrightarrow> b_key b = k"
  by (auto simp: bucket_ok_def b_matches_def b_key_def bucket_hash_def split: option.splits key.splits)

lemma bucket_slot_hash_key:
  "bucket_ok b \<Longrightarrow> bucket_slot_hash b = slot_hash (bucket_hash (b_key b)) (is_int_key (b_key b))"
  by (auto simp: bucket_ok_def bucket_slot_hash_def b_key_def split: option.split)

lemma new_bucket_simps [simp]:
  "bucket_ok (new_bucket k (bucket_hash k) v)" "b_key (new_bucket k (bucket_hash k) v) = k"
  "b_val (new_bucket k bh v) = Some v" "b_live (new_bucket k bh v)" "b_hash (new_bucket k bh v) = bh"
  by (cases k; simp add: new_bucket_def bucket_ok_def b_key_def b_live_def bucket_hash_def)+

definition max_entries :: nat where
  "max_entries = 2 ^ 32 - 1"

definition hs_inv :: "'v hash_store \<Rightarrow> bool" where
  "hs_inv s \<longleftrightarrow> (\<forall>b \<in> set (hs_entries s). bucket_ok b) \<and>
     distinct (map b_key (filter b_live (hs_entries s))) \<and>
     hs_live s = length (filter b_live (hs_entries s)) \<and>
     length (hs_entries s) < max_entries \<and>
     (if hs_index s = [] then length (hs_entries s) \<le> small_limit
      else index_ok (hs_index s) (map bucket_slot_hash (hs_entries s)) \<and>
        2 * length (hs_entries s) \<le> length (hs_index s))"

definition live_pos :: "'v bucket list \<Rightarrow> key \<Rightarrow> nat \<Rightarrow> bool" where
  "live_pos es k i \<longleftrightarrow> i < length es \<and> b_live (es ! i) \<and> b_key (es ! i) = k"

lemma distinct_filter_nth:
  assumes "distinct (map f (filter P xs))" "i < length xs" "j < length xs" "P (xs ! i)" "P (xs ! j)"
    "f (xs ! i) = f (xs ! j)"
  shows "i = j"
  using assms
proof (induction xs arbitrary: i j)
  case (Cons x xs)
  show ?case
  proof (cases i; cases j)
    fix i' j' assume "i = Suc i'" "j = Suc j'"
    then show ?thesis using Cons.prems Cons.IH [of i' j'] by (simp split: if_splits)
  next
    fix j' assume "i = 0" "j = Suc j'"
    then show ?thesis using Cons.prems nth_mem [of j' xs] by (auto simp: image_iff)
  next
    fix i' assume "i = Suc i'" "j = 0"
    then show ?thesis using Cons.prems nth_mem [of i' xs] by (auto simp: image_iff)
  qed simp
qed simp

lemma live_pos_unique:
  "distinct (map b_key (filter b_live es)) \<Longrightarrow> live_pos es k i \<Longrightarrow> live_pos es k j \<Longrightarrow> i = j"
  unfolding live_pos_def by (rule distinct_filter_nth [of b_key b_live es]) simp_all

lemma find_scan_spec:
  assumes "\<forall>b \<in> set es. bucket_ok b"
  shows "case find_scan es i0 (bucket_hash k) k of None \<Rightarrow> \<forall>i. \<not> live_pos es k i
    | Some j \<Rightarrow> i0 \<le> j \<and> live_pos es k (j - i0)"
  using assms
proof (induction es arbitrary: i0)
  case (Cons b es)
  have shift: "live_pos (b # es) k i \<longleftrightarrow> (case i of 0 \<Rightarrow> b_live b \<and> b_key b = k | Suc j \<Rightarrow> live_pos es k j)" for i
    by (auto simp: live_pos_def split: nat.split)
  show ?case
  proof (cases "b_live b \<and> b_key b = k")
    case True
    with Cons.prems show ?thesis by (simp add: b_matches_iff shift)
  next
    case False
    have "\<not> (b_matches b (bucket_hash k) k \<and> b_live b)"
      using False Cons.prems b_matches_iff [of b k] by auto
    then have eq: "find_scan (b # es) i0 (bucket_hash k) k = find_scan es (Suc i0) (bucket_hash k) k"
      by (simp only: find_scan.simps if_False simp_thms)
    from Cons.prems have IH: "case find_scan es (Suc i0) (bucket_hash k) k of None \<Rightarrow> \<forall>i. \<not> live_pos es k i
        | Some j \<Rightarrow> Suc i0 \<le> j \<and> live_pos es k (j - Suc i0)"
      by (intro Cons.IH) simp
    show ?thesis
    proof (cases "find_scan es (Suc i0) (bucket_hash k) k")
      case None
      with IH have "\<forall>i. \<not> live_pos es k i" by simp
      then have "\<forall>i. \<not> live_pos (b # es) k i"
        using False by (simp add: shift split: nat.split)
      with None show ?thesis by (simp only: eq option.case simp_thms)
    next
      case (Some j)
      with IH have j: "Suc i0 \<le> j" "live_pos es k (j - Suc i0)" by simp_all
      then have "j - i0 = Suc (j - Suc i0)" by simp
      with j have "i0 \<le> j" "live_pos (b # es) k (j - i0)" by (simp_all add: shift)
      with Some show ?thesis by (simp only: eq option.case simp_thms)
    qed
  qed
qed (simp add: live_pos_def)

text \<open>A step of the probe stops at a free slot or at a hit.\<close>

definition probe_hit :: "u64 list \<Rightarrow> 'v bucket list \<Rightarrow> key \<Rightarrow> u64 \<Rightarrow> u64 \<Rightarrow> bool" where
  "probe_hit ix es k tag s \<longleftrightarrow>
     drop_bit 32 s = tag \<and> b_matches (es ! slot_entry s) (bucket_hash k) k \<and> b_live (es ! slot_entry s)"

lemma find_probe_steps:
  assumes "length ix = 2 ^ n" "t \<le> t1" "t1 < t + fuel"
    "\<forall>s < t1. ix_path ix sh s \<noteq> 0 \<and> \<not> probe_hit ix es k tag (ix_path ix sh s)"
    "ix_path ix sh t1 = 0 \<or> probe_hit ix es k tag (ix_path ix sh t1)"
  shows "find_probe fuel ix es (bucket_hash k) k tag (probe_pos (length ix) (unat sh) t) t
    = Some (if ix_path ix sh t1 = 0 then None else Some (slot_entry (ix_path ix sh t1)))"
  using assms(2,3)
proof (induction fuel arbitrary: t)
  case (Suc fuel)
  show ?case
  proof (cases "t = t1")
    case True
    with assms(5) show ?thesis by (auto simp: ix_path_def probe_hit_def Let_def)
  next
    case False
    then have go: "ix ! probe_pos (length ix) (unat sh) t \<noteq> 0"
      "\<not> probe_hit ix es k tag (ix ! probe_pos (length ix) (unat sh) t)"
      using assms(4) Suc.prems by (simp_all add: ix_path_def)
    have "Suc t \<le> t1" "t1 < Suc t + fuel" using False Suc.prems by auto
    from Suc.IH [OF this] show ?thesis
      unfolding find_probe.simps Let_def
      using go [unfolded probe_hit_def] probe_pos_Suc [OF assms(1), of "unat sh" t]
      by (simp only: if_False simp_thms Suc_eq_plus1)
  qed
qed simp

theorem hs_find_opt_spec:
  assumes inv: "hs_inv s"
  shows "\<exists>r. hs_find_opt s k (bucket_hash k) = Some r \<and>
    (case r of None \<Rightarrow> \<forall>i. \<not> live_pos (hs_entries s) k i | Some i \<Rightarrow> live_pos (hs_entries s) k i)"
proof (cases "hs_index s = []")
  case True
  have "\<forall>b \<in> set (hs_entries s). bucket_ok b" using inv by (simp add: hs_inv_def)
  from find_scan_spec [OF this, where k = k and ?i0.0 = 0] True show ?thesis
    by (auto simp: hs_find_opt_def split: option.splits)
next
  case False
  define ix es sh where "ix = hs_index s" and "es = hs_entries s"
    and "sh = slot_hash (bucket_hash k) (is_int_key k)"
  have ok: "index_ok ix (map bucket_slot_hash es)" "2 * length es \<le> length ix" "length es < 2 ^ 32 - 1"
    "\<forall>b \<in> set es. bucket_ok b" "0 < length ix"
    using inv False by (simp_all add: hs_inv_def ix_def es_def max_entries_def)
  then have lt: "length es < length ix" by linarith
  obtain n where n: "length ix = 2 ^ n" using index_okD(1) [OF ok(1)] by blast
  define stop where "stop t \<longleftrightarrow> ix_path ix sh t = 0 \<or> probe_hit ix es k (drop_bit 32 sh) (ix_path ix sh t)" for t
  obtain t0 where t0: "t0 < length ix" "ix_path ix sh t0 = 0"
    using path_free [OF ok(1), of sh] lt by auto
  define t1 where "t1 = (LEAST t. stop t)"
  have "stop t0" using t0(2) by (simp add: stop_def)
  then have t1: "stop t1" "t1 \<le> t0" "\<forall>t < t1. \<not> stop t"
    unfolding t1_def by (auto intro: LeastI Least_le dest: not_less_Least)
  have res: "hs_find_opt s k (bucket_hash k)
      = Some (if ix_path ix sh t1 = 0 then None else Some (slot_entry (ix_path ix sh t1)))"
  proof -
    have "find_probe (length ix) ix es (bucket_hash k) k (drop_bit 32 sh) (probe_pos (length ix) (unat sh) 0) 0
      = Some (if ix_path ix sh t1 = 0 then None else Some (slot_entry (ix_path ix sh t1)))"
      using t1 t0(1) by (intro find_probe_steps [OF n]) (auto simp: stop_def)
    then show ?thesis
      using False unfolding hs_find_opt_def Let_def sh_def [symmetric] ix_def [symmetric] es_def [symmetric]
      by (simp add: probe_pos_0 [OF n, simplified])
  qed
  have absent: "\<not> live_pos es k i" if zero: "ix_path ix sh t1 = 0" for i
  proof
    assume lp: "live_pos es k i"
    then have i: "i < length es" "bucket_ok (es ! i)" "b_key (es ! i) = k" "b_live (es ! i)"
      using ok(4) by (auto simp: live_pos_def)
    then have hsi: "map bucket_slot_hash es ! i = sh"
      by (simp add: bucket_slot_hash_key sh_def)
    obtain t where t: "ix_path ix sh t = slot_of i sh" "\<forall>s < t. ix_path ix sh s \<noteq> 0"
      using index_okD(3) [OF ok(1), of i] i(1) hsi by auto
    have "probe_hit ix es k (drop_bit 32 sh) (slot_of i sh)"
      using slot_of_simps [of i sh] i ok(3) by (simp add: probe_hit_def b_matches_iff)
    then have "stop t" using t(1) by (simp add: stop_def)
    then have "t1 \<le> t" using t1(3) not_less by blast
    moreover have "t1 \<noteq> t" using zero t(1) slot_of_simps(1) [of i sh] i(1) ok(3) by auto
    ultimately show False using t(2) zero by auto
  qed
  have present: "live_pos es k (slot_entry (ix_path ix sh t1))" if nz: "ix_path ix sh t1 \<noteq> 0"
  proof -
    have hit: "probe_hit ix es k (drop_bit 32 sh) (ix_path ix sh t1)"
      using t1(1) nz by (simp add: stop_def)
    have "probe_pos (length ix) (unat sh) t1 < length ix"
      using t0(1) by (intro probe_pos_less) auto
    from index_okD(4) [OF ok(1) this] nz
    obtain j where j: "j < length es" "ix_path ix sh t1 = slot_of j (map bucket_slot_hash es ! j)"
      unfolding ix_path_def length_map by blast
    then have "slot_entry (ix_path ix sh t1) = j"
      using slot_of_simps(2) [of j] ok(3) by simp
    with hit j(1) ok(4) show ?thesis by (auto simp: probe_hit_def live_pos_def b_matches_iff)
  qed
  show ?thesis
    using res absent present by (auto simp: es_def)
qed

lemma hs_find_iff:
  assumes inv: "hs_inv s"
  shows "hs_find s k (bucket_hash k) = Some i \<longleftrightarrow> live_pos (hs_entries s) k i"
proof -
  have d: "distinct (map b_key (filter b_live (hs_entries s)))" using inv by (simp add: hs_inv_def)
  from hs_find_opt_spec [OF inv, of k] show ?thesis
    using live_pos_unique [OF d] by (auto simp: hs_find_def split: option.splits)
qed

lemma hs_find_None:
  "hs_inv s \<Longrightarrow> hs_find s k (bucket_hash k) = None \<longleftrightarrow> (\<forall>i. \<not> live_pos (hs_entries s) k i)"
  using hs_find_iff [of s k] by (metis not_None_eq option.distinct(1))

section \<open>The store as an insertion-ordered map\<close>

text \<open>The live entries in order, and the number of them before a position.\<close>

definition live_list :: "'v bucket list \<Rightarrow> (key \<times> 'v) list" where
  "live_list es = map (\<lambda>b. (b_key b, the (b_val b))) (filter b_live es)"

definition live_rank :: "'v bucket list \<Rightarrow> nat \<Rightarrow> nat" where
  "live_rank es p = length (filter b_live (take p es))"

lemma live_list_simps [simp]:
  "live_list [] = []" "live_list (xs @ ys) = live_list xs @ live_list ys"
  "live_list (b # es) = (case b_val b of None \<Rightarrow> live_list es | Some v \<Rightarrow> (b_key b, v) # live_list es)"
  by (simp_all add: live_list_def b_live_def split: option.split)

lemma length_live_list [simp]: "length (live_list es) = length (filter b_live es)"
  by (simp add: live_list_def)

lemma fst_live_list: "map fst (live_list es) = map b_key (filter b_live es)"
  by (simp add: live_list_def)

lemma fst_set_live_list: "fst ` set (live_list es) = b_key ` set (filter b_live es)"
  by (simp only: set_map [symmetric] fst_live_list)

lemma live_pos_split:
  assumes "live_pos es k i" "distinct (map b_key (filter b_live es))"
  obtains xs b ys w where "es = xs @ b # ys" "length xs = i" "b_val b = Some w" "b_key b = k"
    "k \<notin> fst ` set (live_list xs)" "k \<notin> fst ` set (live_list ys)"
proof -
  have i: "i < length es" "b_live (es ! i)" "b_key (es ! i) = k" using assms(1) by (simp_all add: live_pos_def)
  then obtain w where w: "b_val (es ! i) = Some w" by (auto simp: b_live_def)
  have es: "es = take i es @ es ! i # drop (Suc i) es" using i(1) by (rule id_take_nth_drop)
  have "distinct (map b_key (filter b_live (take i es @ es ! i # drop (Suc i) es)))"
    using assms(2) es by simp
  then have "k \<notin> b_key ` set (filter b_live (take i es))" "k \<notin> b_key ` set (filter b_live (drop (Suc i) es))"
    using i(2,3) by auto
  then show ?thesis
    using that [of "take i es" "es ! i" "drop (Suc i) es" w] es i w by (simp only: fst_set_live_list) simp
qed

lemma live_pos_map_of:
  assumes "live_pos es k i" "distinct (map b_key (filter b_live es))"
  shows "map_of (live_list es) k = b_val (es ! i)"
  using assms by (rule live_pos_split) (auto simp: map_add_def map_of_eq_None_iff [THEN iffD2] split: option.split)

lemma no_live_pos_map_of: "(\<forall>i. \<not> live_pos es k i) \<longleftrightarrow> map_of (live_list es) k = None"
  unfolding map_of_eq_None_iff fst_set_live_list
  by (auto simp: live_pos_def in_set_conv_nth)

subsection \<open>Updates of an association list at a known key\<close>

lemma update_at:
  "k \<notin> fst ` set xs \<Longrightarrow> AList.update k v (xs @ (k, w) # ys) = xs @ (k, v) # ys"
  by (induction xs) auto

lemma update_absent: "k \<notin> fst ` set xs \<Longrightarrow> AList.update k v xs = xs @ [(k, v)]"
  by (induction xs) auto

lemma delete_absent: "k \<notin> fst ` set xs \<Longrightarrow> AList.delete k xs = xs"
  by (induction xs) auto

lemma delete_at:
  "k \<notin> fst ` set xs \<Longrightarrow> k \<notin> fst ` set ys \<Longrightarrow> AList.delete k (xs @ (k, w) # ys) = xs @ ys"
  by (induction xs) (auto simp: delete_absent)

section \<open>Writing, deleting and appending entries\<close>

text \<open>The three writes of the array operations: \<open>val.replace(v)\<close>, \<open>val.take()\<close> and the push of \<open>hash_insert_new\<close>.\<close>

definition hs_set :: "'v hash_store \<Rightarrow> nat \<Rightarrow> 'v \<Rightarrow> 'v hash_store" where
  "hs_set s i v = s\<lparr>hs_entries := (hs_entries s)[i := (hs_entries s ! i)\<lparr>b_val := Some v\<rparr>]\<rparr>"

definition hs_take :: "'v hash_store \<Rightarrow> nat \<Rightarrow> 'v hash_store" where
  "hs_take s i =
     s\<lparr>hs_entries := (hs_entries s)[i := (hs_entries s ! i)\<lparr>b_val := None\<rparr>], hs_live := hs_live s - 1\<rparr>"

definition hs_push :: "'v hash_store \<Rightarrow> key \<Rightarrow> u64 \<Rightarrow> 'v \<Rightarrow> 'v hash_store" where
  "hs_push s k bh v =
     s\<lparr>hs_entries := hs_entries s @ [new_bucket k bh v],
       hs_live := hs_live s + 1,
       hs_index := ix_place (hs_index s) (length (hs_entries s)) (slot_hash bh (is_int_key k))\<rparr>"

definition hs_list :: "'v hash_store \<Rightarrow> (key \<times> 'v) list" where
  "hs_list s = live_list (hs_entries s)"

lemma b_val_update [simp]:
  "b_key (b\<lparr>b_val := x\<rparr>) = b_key b" "bucket_ok (b\<lparr>b_val := x\<rparr>) = bucket_ok b"
  "bucket_slot_hash (b\<lparr>b_val := x\<rparr>) = bucket_slot_hash b" "b_live (b\<lparr>b_val := x\<rparr>) \<longleftrightarrow> x \<noteq> None"
  by (simp_all add: b_key_def bucket_ok_def bucket_slot_hash_def b_live_def split: option.split)

lemma slot_hash_new_bucket [simp]: "bucket_slot_hash (new_bucket k bh v) = slot_hash bh (is_int_key k)"
  by (cases k) (simp_all add: bucket_slot_hash_def new_bucket_def)

lemma map_list_update_same: "f y = f (xs ! i) \<Longrightarrow> map f (xs[i := y]) = map f xs"
  by (metis list_update_id map_update)

text \<open>A write at a position keeps the hashes of the entries, hence the index.\<close>

lemma hs_inv_D:
  assumes "hs_inv s"
  shows "\<forall>b \<in> set (hs_entries s). bucket_ok b"
    "distinct (map b_key (filter b_live (hs_entries s)))"
    "distinct (map fst (hs_list s))"
    "hs_live s = length (hs_list s)"
    "length (hs_entries s) < max_entries"
  using assms unfolding hs_inv_def hs_list_def fst_live_list length_live_list by blast+

lemma hs_inv_write:
  assumes inv: "hs_inv s" and i: "i < length (hs_entries s)"
    and s': "hs_entries s' = (hs_entries s)[i := (hs_entries s ! i)\<lparr>b_val := x\<rparr>]" "hs_index s' = hs_index s"
    and l: "distinct (map b_key (filter b_live (hs_entries s')))" "hs_live s' = length (filter b_live (hs_entries s'))"
  shows "hs_inv s'"
proof -
  have "map bucket_slot_hash (hs_entries s') = map bucket_slot_hash (hs_entries s)"
    unfolding s'(1) by (rule map_list_update_same) simp
  moreover have "\<forall>b \<in> set (hs_entries s'). bucket_ok b"
    using hs_inv_D(1) [OF inv] i unfolding s'(1) by (auto dest!: set_update_subset_insert [THEN subsetD])
  ultimately show ?thesis
    using inv l s' unfolding hs_inv_def by simp
qed

lemma hs_set_ok:
  assumes inv: "hs_inv s" and lp: "live_pos (hs_entries s) k i"
  shows "hs_inv (hs_set s i v)" "hs_list (hs_set s i v) = AList.update k v (hs_list s)"
proof -
  obtain xs b ys w where sp: "hs_entries s = xs @ b # ys" "length xs = i" "b_val b = Some w" "b_key b = k"
    "k \<notin> fst ` set (live_list xs)" "k \<notin> fst ` set (live_list ys)"
    using live_pos_split [OF lp hs_inv_D(2) [OF inv]] .
  have e: "hs_entries (hs_set s i v) = xs @ b\<lparr>b_val := Some v\<rparr> # ys"
    using sp(1,2) by (simp add: hs_set_def nth_append list_update_append)
  show "hs_list (hs_set s i v) = AList.update k v (hs_list s)"
    using sp by (simp add: hs_list_def e update_at)
  have lb: "b_live b" using sp(3) by (simp add: b_live_def)
  show "hs_inv (hs_set s i v)"
  proof (rule hs_inv_write [OF inv, of i _ "Some v"])
    show "i < length (hs_entries s)" using lp by (simp add: live_pos_def)
    show "distinct (map b_key (filter b_live (hs_entries (hs_set s i v))))"
      using hs_inv_D(2) [OF inv] lb unfolding e sp(1) by simp
    show "hs_live (hs_set s i v) = length (filter b_live (hs_entries (hs_set s i v)))"
      using inv lb unfolding e by (simp add: hs_inv_def hs_set_def sp(1))
  qed (simp_all add: hs_set_def)
qed

lemma hs_take_ok:
  assumes inv: "hs_inv s" and lp: "live_pos (hs_entries s) k i"
  shows "hs_inv (hs_take s i)" "hs_list (hs_take s i) = AList.delete k (hs_list s)"
    "hs_live (hs_take s i) = hs_live s - 1"
proof -
  obtain xs b ys w where sp: "hs_entries s = xs @ b # ys" "length xs = i" "b_val b = Some w" "b_key b = k"
    "k \<notin> fst ` set (live_list xs)" "k \<notin> fst ` set (live_list ys)"
    using live_pos_split [OF lp hs_inv_D(2) [OF inv]] .
  have e: "hs_entries (hs_take s i) = xs @ b\<lparr>b_val := None\<rparr> # ys"
    using sp(1,2) by (simp add: hs_take_def nth_append list_update_append)
  show "hs_list (hs_take s i) = AList.delete k (hs_list s)"
    using sp by (simp add: hs_list_def e delete_at)
  have lb: "b_live b" using sp(3) by (simp add: b_live_def)
  show "hs_inv (hs_take s i)"
  proof (rule hs_inv_write [OF inv, of i _ None])
    show "i < length (hs_entries s)" using lp by (simp add: live_pos_def)
    show "distinct (map b_key (filter b_live (hs_entries (hs_take s i))))"
      using hs_inv_D(2) [OF inv] lb unfolding e sp(1) by simp
    show "hs_live (hs_take s i) = length (filter b_live (hs_entries (hs_take s i)))"
      using inv lb unfolding e by (simp add: hs_inv_def hs_take_def sp(1))
  qed (simp_all add: hs_take_def)
  show "hs_live (hs_take s i) = hs_live s - 1" by (simp add: hs_take_def)
qed

lemma hs_push_ok:
  assumes inv: "hs_inv s" and new: "k \<notin> fst ` set (hs_list s)"
    and room: "length (hs_entries s) < hs_limit s" "Suc (length (hs_entries s)) < max_entries"
  shows "hs_inv (hs_push s k (bucket_hash k) v)"
    "hs_list (hs_push s k (bucket_hash k) v) = AList.update k v (hs_list s)"
proof -
  define es where "es = hs_entries s"
  have e: "hs_entries (hs_push s k (bucket_hash k) v) = es @ [new_bucket k (bucket_hash k) v]"
    by (simp add: hs_push_def es_def)
  show "hs_list (hs_push s k (bucket_hash k) v) = AList.update k v (hs_list s)"
    using new by (simp add: hs_list_def e update_absent es_def)
  have d: "distinct (map b_key (filter b_live (es @ [new_bucket k (bucket_hash k) v])))"
    using hs_inv_D(2) [OF inv] new by (simp add: hs_list_def fst_set_live_list es_def)
  have ix: "if hs_index s = [] then Suc (length es) \<le> small_limit
    else index_ok (ix_place (hs_index s) (length es) (slot_hash (bucket_hash k) (is_int_key k)))
        (map bucket_slot_hash es @ [slot_hash (bucket_hash k) (is_int_key k)]) \<and>
      length (ix_place (hs_index s) (length es) (slot_hash (bucket_hash k) (is_int_key k))) = length (hs_index s) \<and>
      2 * Suc (length es) \<le> length (hs_index s)"
  proof (cases "hs_index s = []")
    case True
    with room show ?thesis by (simp add: hs_limit_def es_def)
  next
    case False
    with inv have ok: "index_ok (hs_index s) (map bucket_slot_hash es)" by (simp add: hs_inv_def es_def)
    have lt: "2 * Suc (length es) \<le> length (hs_index s)" "Suc (length es) < max_entries"
      using room False by (simp_all add: hs_limit_def es_def)
    show ?thesis
      using False lt ix_place_ok [OF ok, of "slot_hash (bucket_hash k) (is_int_key k)"]
      by (simp add: max_entries_def)
  qed
  have empty: "ix_place (hs_index s) n h = [] \<longleftrightarrow> hs_index s = []" for n h
    by (simp add: ix_place_def split: option.split)
  show "hs_inv (hs_push s k (bucket_hash k) v)"
    using inv room d ix unfolding hs_inv_def e
    by (simp add: hs_push_def empty es_def split: if_splits)
qed

section \<open>Rebuilding\<close>

text \<open>
  The remap list sends every position to the number of live entries before it, which is its
  position among the entries once the tombstones are dropped.
\<close>

lemma remap_scan_nth: "p \<le> length es \<Longrightarrow> remap_scan n es ! p = n + live_rank es p"
  by (induction es arbitrary: n p)
    (auto simp: live_rank_def nth_Cons take_Cons split: nat.split)

lemma length_remap_scan [simp]: "length (remap_scan n es) = Suc (length es)"
  by (induction es arbitrary: n) auto

lemma live_rank_le: "live_rank es p \<le> length (filter b_live es)"
  unfolding live_rank_def by (metis append_take_drop_id filter_append le_add1 length_append)

lemma live_rank_all: "length es \<le> p \<Longrightarrow> live_rank es p = length (filter b_live es)"
  by (simp add: live_rank_def)

lemma live_rank_no_holes: "filter b_live es = es \<Longrightarrow> live_rank es p = min p (length es)"
proof -
  assume "filter b_live es = es"
  then have "\<forall>b \<in> set es. b_live b" by (simp add: filter_id_conv)
  then have "filter b_live (take p es) = take p es" by (auto simp: filter_id_conv dest: in_set_takeD)
  then show ?thesis by (simp add: live_rank_def)
qed

lemma no_holes_iff: "length (filter b_live es) = length es \<longleftrightarrow> filter b_live es = es"
  by (metis length_filter_less nless_le filter_id_conv length_filter_le less_irrefl)

lemma hs_rebuild_entries:
  assumes "hs_inv s"
  shows "hs_entries (fst (hs_rebuild s n)) = filter b_live (hs_entries s)"
    "hs_live (fst (hs_rebuild s n)) = hs_live s"
    "snd (hs_rebuild s n) = (if filter b_live (hs_entries s) = hs_entries s then None
       else Some (remap_scan 0 (hs_entries s)))"
  using assms no_holes_iff [of "hs_entries s"]
  by (simp_all add: hs_rebuild_def hs_inv_def Let_def)

lemma live_list_filter [simp]: "live_list (filter b_live es) = live_list es"
  by (simp add: live_list_def)

lemma hs_rebuild_ok:
  assumes inv: "hs_inv s"
  shows "hs_inv (fst (hs_rebuild s n))" "hs_list (fst (hs_rebuild s n)) = hs_list s"
    "max n (length (hs_list s)) \<le> hs_limit (fst (hs_rebuild s n))"
proof -
  define es where "es = filter b_live (hs_entries s)"
  define m where "m = max n (length es)"
  have len: "length es < 2 ^ 32 - 1"
    using hs_inv_D(5) [OF inv] length_filter_le [of b_live "hs_entries s"]
    unfolding es_def max_entries_def by linarith
  have small: "hs_index (fst (hs_rebuild s n)) = (if m \<le> small_limit then []
      else place_all (replicate (next_power_of_two (m * 2)) 0) 0 es)"
    using inv no_holes_iff [of "hs_entries s"]
    by (auto simp add: hs_rebuild_def hs_inv_def Let_def es_def m_def)
  note e = hs_rebuild_entries [OF inv, of n, folded es_def]
  have "length es \<le> m * 2" unfolding m_def by linarith
  note ix = built_index_ok [OF this len]
  have p2: "m * 2 \<le> next_power_of_two (m * 2)" by (rule next_power_of_two_spec(1))
  have big: "length (hs_index (fst (hs_rebuild s n))) = next_power_of_two (m * 2)"
    if "\<not> m \<le> small_limit" using that by (simp only: small if_False ix(2))
  show "hs_list (fst (hs_rebuild s n)) = hs_list s"
    by (simp add: hs_list_def e es_def)
  have ne: "hs_index (fst (hs_rebuild s n)) = [] \<longleftrightarrow> m \<le> small_limit"
    using big p2 small by (cases "m \<le> small_limit") (auto simp: small_limit_def)
  show "max n (length (hs_list s)) \<le> hs_limit (fst (hs_rebuild s n))"
    using ne big p2 unfolding hs_limit_def hs_list_def length_live_list es_def [symmetric] m_def [symmetric]
    by auto
  have "hs_entries (fst (hs_rebuild s n)) = es" by (rule e(1))
  moreover have "length es \<le> m" by (simp add: m_def)
  moreover have "\<forall>b \<in> set es. bucket_ok b" "filter b_live es = es"
    using hs_inv_D(1) [OF inv] by (auto simp: es_def)
  moreover have "distinct (map b_key es)" "hs_live s = length es"
    using inv unfolding hs_inv_def es_def by blast+
  ultimately show "hs_inv (fst (hs_rebuild s n))"
    unfolding hs_inv_def e(1,2) ne
    using ix(1) big p2 small len by (auto simp: max_entries_def)
qed

section \<open>The store of a list\<close>

text \<open>\<open>packed_to_hash\<close>: the values of a list under the keys 0, 1, \<dots>.\<close>

fun int_buckets :: "nat \<Rightarrow> 'v list \<Rightarrow> 'v bucket list" where
  "int_buckets i [] = []"
| "int_buckets i (v # vs) = \<lparr>b_val = Some v, b_hash = word_of_nat i, b_skey = None\<rparr> # int_buckets (Suc i) vs"

definition hs_of_list :: "'v list \<Rightarrow> nat \<Rightarrow> 'v hash_store" where
  "hs_of_list vs extra =
     (let h = hs_with_capacity (length vs + extra); es = int_buckets 0 vs
      in h\<lparr>hs_live := length vs, hs_entries := es, hs_index := place_all (hs_index h) 0 es\<rparr>)"

fun int_keyed :: "nat \<Rightarrow> 'v list \<Rightarrow> (key \<times> 'v) list" where
  "int_keyed i [] = []"
| "int_keyed i (v # vs) = (KInt (word_of_nat i), v) # int_keyed (Suc i) vs"

lemma length_int_buckets [simp]: "length (int_buckets i vs) = length vs"
  by (induction i vs rule: int_buckets.induct) auto

lemma length_int_keyed [simp]: "length (int_keyed i vs) = length vs"
  by (induction i vs rule: int_keyed.induct) auto

lemma int_buckets_live: "b \<in> set (int_buckets i vs) \<Longrightarrow> b_live b \<and> bucket_ok b"
  by (induction i vs rule: int_buckets.induct) (auto simp: b_live_def bucket_ok_def b_key_def bucket_hash_def)

lemma filter_int_buckets [simp]: "filter b_live (int_buckets i vs) = int_buckets i vs"
  by (simp add: filter_id_conv int_buckets_live)

lemma live_list_int_buckets [simp]: "live_list (int_buckets i vs) = int_keyed i vs"
  by (induction i vs rule: int_buckets.induct) (simp_all add: b_key_def)

lemma keys_int_keyed: "map fst (int_keyed i vs) = map (\<lambda>n. KInt (word_of_nat n)) [i..<i + length vs]"
proof (induction i vs rule: int_keyed.induct)
  case (2 i v vs)
  have "[i..<i + length (v # vs)] = i # [Suc i..<Suc i + length vs]"
    using upt_conv_Cons [of i "i + length (v # vs)"] by simp
  with 2 show ?case by (simp only: int_keyed.simps list.map fst_conv)
qed simp

lemma int_keyed_nth: "j < length vs \<Longrightarrow> int_keyed i vs ! j = (KInt (word_of_nat (i + j)), vs ! j)"
  by (induction i vs arbitrary: j rule: int_keyed.induct) (auto simp: nth_Cons split: nat.split)

lemma int_keyed_append: "int_keyed i (vs @ ws) = int_keyed i vs @ int_keyed (i + length vs) ws"
  by (induction i vs rule: int_keyed.induct) auto

lemma word_of_nat_inj_u64: "m < 2 ^ 64 \<Longrightarrow> n < 2 ^ 64 \<Longrightarrow> (word_of_nat m :: u64) = word_of_nat n \<longleftrightarrow> m = n"
  by (metis unat_of_nat_u64)

lemma distinct_int_keyed:
  assumes "i + length vs \<le> 2 ^ 64"
  shows "distinct (map fst (int_keyed i vs))"
proof -
  have "inj_on (\<lambda>n. KInt (word_of_nat n)) (set [i..<i + length vs])"
    using assms by (auto intro!: inj_onI simp: word_of_nat_inj_u64)
  then show ?thesis by (simp only: keys_int_keyed distinct_map distinct_upt simp_thms)
qed

lemma place_all_empty [simp]: "place_all [] i es = []"
  by (induction es arbitrary: i) (simp_all add: ix_place_def)

lemma hs_of_list_ok:
  assumes "length vs < max_entries"
  shows "hs_inv (hs_of_list vs extra)" "hs_list (hs_of_list vs extra) = int_keyed 0 vs"
proof -
  define es where "es = int_buckets 0 vs"
  define n where "n = length vs + extra"
  have es: "length es = length vs" "\<forall>b \<in> set es. bucket_ok b" "filter b_live es = es" "length es < 2 ^ 32 - 1"
    using assms by (simp_all add: es_def int_buckets_live max_entries_def)
  have ix: "hs_index (hs_of_list vs extra) = (if n \<le> small_limit then []
      else place_all (replicate (next_power_of_two (n * 2)) 0) 0 es)"
    by (simp add: hs_of_list_def Let_def hs_with_capacity_def es_def n_def)
  have fields: "hs_entries (hs_of_list vs extra) = es" "hs_live (hs_of_list vs extra) = length vs"
    by (simp_all add: hs_of_list_def Let_def es_def)
  have "length es \<le> n * 2" by (simp add: es n_def)
  note built = built_index_ok [OF this es(4)]
  have p2: "n * 2 \<le> next_power_of_two (n * 2)" by (rule next_power_of_two_spec(1))
  have "live_list es = int_keyed 0 vs" by (simp add: es_def)
  then have d: "distinct (map b_key (filter b_live es))"
    using distinct_int_keyed [of 0 vs] assms unfolding fst_live_list [symmetric] by (simp add: max_entries_def)
  show "hs_list (hs_of_list vs extra) = int_keyed 0 vs"
    by (simp add: hs_list_def fields es_def)
  show "hs_inv (hs_of_list vs extra)"
  proof (cases "n \<le> small_limit")
    case True
    then show ?thesis
      using d es assms unfolding hs_inv_def fields ix by (simp add: n_def)
  next
    case False
    define ix' where "ix' = place_all (replicate (next_power_of_two (n * 2)) 0) 0 es"
    have "length ix' = next_power_of_two (n * 2)" "index_ok ix' (map bucket_slot_hash es)"
      using built by (simp_all add: ix'_def)
    moreover from this p2 False have "ix' \<noteq> []" "2 * length es \<le> length ix'"
      by (auto simp: small_limit_def es n_def)
    ultimately show ?thesis
      using d es assms False unfolding hs_inv_def fields ix ix'_def [symmetric] by simp
  qed
qed

end
