(* ===== verification/F64.thy ===== *)
theory F64
  imports Prelude
begin

text \<open>
  Rust's \<open>f64\<close> (IEEE 754 binary64).  A float is its bit pattern, as \<open>to_bits\<close> returns it;
  \<open>f64_view\<close> decodes the pattern into sign, mantissa and exponent, with every NaN payload
  viewed as the one value \<open>Nan\<close>.  The arithmetic the runtime uses is computed exactly on
  integers and rounded once, to nearest with ties to even, as the standard prescribes.
\<close>

datatype f64 = F64 (to_bits: u64)

text \<open>\<open>Fin s m e\<close> is \<open>(-1)\<^sup>s \<times> m \<times> 2\<^sup>e\<close>.\<close>

datatype f64_view = Nan | Infinite bool | Fin bool nat int

definition f64_sign :: "f64 \<Rightarrow> bool" where
  "f64_sign f = (2 ^ 63 \<le> unat (to_bits f))"

definition f64_biased :: "f64 \<Rightarrow> nat" where
  "f64_biased f = unat (to_bits f) div 2 ^ 52 mod 2048"

definition f64_fraction :: "f64 \<Rightarrow> nat" where
  "f64_fraction f = unat (to_bits f) mod 2 ^ 52"

definition view :: "f64 \<Rightarrow> f64_view" where
  "view f =
     (let be = f64_biased f; fr = f64_fraction f in
      if be = 2047 then (if fr = 0 then Infinite (f64_sign f) else Nan)
      else if be = 0 then Fin (f64_sign f) fr (- 1074)
      else Fin (f64_sign f) (fr + 2 ^ 52) (int be - 1075))"

text \<open>The canonical decodings: what \<open>view\<close> returns.\<close>

definition canonical :: "nat \<Rightarrow> int \<Rightarrow> bool" where
  "canonical m e \<longleftrightarrow> m < 2 ^ 53 \<and> - 1074 \<le> e \<and> e \<le> 971 \<and> (2 ^ 52 \<le> m \<or> e = - 1074)"

fun canonical_view :: "f64_view \<Rightarrow> bool" where
  "canonical_view (Fin s m e) = canonical m e"
| "canonical_view v = True"

definition sign_bit :: "bool \<Rightarrow> nat" where
  "sign_bit s = (if s then 2 ^ 63 else 0)"

fun of_view :: "f64_view \<Rightarrow> f64" where
  "of_view Nan = F64 (word_of_nat (2047 * 2 ^ 52 + 2 ^ 51))"
| "of_view (Infinite s) = F64 (word_of_nat (sign_bit s + 2047 * 2 ^ 52))"
| "of_view (Fin s m e) =
     F64 (word_of_nat (sign_bit s +
       (if m < 2 ^ 52 then m else nat (e + 1075) * 2 ^ 52 + (m - 2 ^ 52))))"

text \<open>Rounding of the positive rational \<open>n / d\<close> to the nearest float, ties to even.\<close>

fun bit_len :: "nat \<Rightarrow> nat" where
  "bit_len n = (if n = 0 then 0 else Suc (bit_len (n div 2)))"

declare bit_len.simps [simp del]

definition scale2 :: "nat \<Rightarrow> int \<Rightarrow> nat" where
  "scale2 n e = (if 0 \<le> e then n * 2 ^ nat e else n)"

text \<open>\<open>floor (log2 (n / d))\<close>.\<close>

definition ilog2_ratio :: "nat \<Rightarrow> nat \<Rightarrow> int" where
  "ilog2_ratio n d =
     (let b = int (bit_len n) - int (bit_len d) in
      if scale2 d b \<le> scale2 n (- b) then b else b - 1)"

definition round_ratio :: "bool \<Rightarrow> nat \<Rightarrow> nat \<Rightarrow> f64_view" where
  "round_ratio s n d =
     (if n = 0 then Fin s 0 (- 1074)
      else
        let e = max (- 1074) (ilog2_ratio n d - 52);
            n' = scale2 n (- e); d' = scale2 d e;
            q = n' div d'; r = n' mod d';
            m = (if 2 * r > d' \<or> (2 * r = d' \<and> odd q) then q + 1 else q);
            m' = (if m = 2 ^ 53 then 2 ^ 52 else m);
            e' = (if m = 2 ^ 53 then e + 1 else e)
        in if e' > 971 then Infinite s else Fin s m' e')"

text \<open>Rounding of the dyadic \<open>k \<times> 2\<^sup>e\<close>; \<open>z\<close> is the sign of an exact zero.\<close>

definition round_dyadic :: "bool \<Rightarrow> int \<Rightarrow> int \<Rightarrow> f64_view" where
  "round_dyadic z k e =
     (if k = 0 then Fin z 0 (- 1074)
      else round_ratio (k < 0) (scale2 (nat \<bar>k\<bar>) e) (scale2 1 (- e)))"

definition signed_nat :: "bool \<Rightarrow> nat \<Rightarrow> int" where
  "signed_nat s m = (if s then - int m else int m)"

section \<open>Arithmetic\<close>

fun view_add :: "f64_view \<Rightarrow> f64_view \<Rightarrow> f64_view" where
  "view_add (Fin s m e) (Fin t n g) =
     (let l = min e g in
      round_dyadic (s \<and> t) (signed_nat s m * 2 ^ nat (e - l) + signed_nat t n * 2 ^ nat (g - l)) l)"
| "view_add (Infinite s) (Infinite t) = (if s = t then Infinite s else Nan)"
| "view_add (Infinite s) (Fin _ _ _) = Infinite s"
| "view_add (Fin _ _ _) (Infinite t) = Infinite t"
| "view_add _ _ = Nan"

fun view_neg :: "f64_view \<Rightarrow> f64_view" where
  "view_neg Nan = Nan"
| "view_neg (Infinite s) = Infinite (\<not> s)"
| "view_neg (Fin s m e) = Fin (\<not> s) m e"

fun view_mul :: "f64_view \<Rightarrow> f64_view \<Rightarrow> f64_view" where
  "view_mul (Fin s m e) (Fin t n g) = round_ratio (s \<noteq> t) (scale2 (m * n) (e + g)) (scale2 1 (- (e + g)))"
| "view_mul (Infinite s) (Infinite t) = Infinite (s \<noteq> t)"
| "view_mul (Infinite s) (Fin t n _) = (if n = 0 then Nan else Infinite (s \<noteq> t))"
| "view_mul (Fin s m _) (Infinite t) = (if m = 0 then Nan else Infinite (s \<noteq> t))"
| "view_mul _ _ = Nan"

fun view_div :: "f64_view \<Rightarrow> f64_view \<Rightarrow> f64_view" where
  "view_div (Fin s m e) (Fin t n g) =
     (if n = 0 then (if m = 0 then Nan else Infinite (s \<noteq> t))
      else round_ratio (s \<noteq> t) (scale2 m (e - g)) (scale2 n (g - e)))"
| "view_div (Infinite s) (Fin t _ _) = Infinite (s \<noteq> t)"
| "view_div (Fin s _ _) (Infinite t) = Fin (s \<noteq> t) 0 (- 1074)"
| "view_div _ _ = Nan"

text \<open>The truncated remainder (\<open>%\<close>): exact, with the sign of the dividend.\<close>

fun view_rem :: "f64_view \<Rightarrow> f64_view \<Rightarrow> f64_view" where
  "view_rem (Fin s m e) (Fin t n g) =
     (if n = 0 then Nan
      else let l = min e g in
        round_dyadic s (signed_nat s ((m * 2 ^ nat (e - l)) mod (n * 2 ^ nat (g - l)))) l)"
| "view_rem (Fin s m e) (Infinite _) = Fin s m e"
| "view_rem _ _ = Nan"

fun trunc_magnitude :: "nat \<Rightarrow> int \<Rightarrow> nat" where
  "trunc_magnitude m e = (if 0 \<le> e then m * 2 ^ nat e else m div 2 ^ nat (- e))"

fun view_trunc :: "f64_view \<Rightarrow> f64_view" where
  "view_trunc (Fin s m e) = round_ratio s (trunc_magnitude m e) 1"
| "view_trunc v = v"

definition f_add :: "f64 \<Rightarrow> f64 \<Rightarrow> f64" where
  "f_add a b = of_view (view_add (view a) (view b))"

definition f_neg :: "f64 \<Rightarrow> f64" where
  "f_neg a = of_view (view_neg (view a))"

definition f_sub :: "f64 \<Rightarrow> f64 \<Rightarrow> f64" where
  "f_sub a b = of_view (view_add (view a) (view_neg (view b)))"

definition f_mul :: "f64 \<Rightarrow> f64 \<Rightarrow> f64" where
  "f_mul a b = of_view (view_mul (view a) (view b))"

definition f_div :: "f64 \<Rightarrow> f64 \<Rightarrow> f64" where
  "f_div a b = of_view (view_div (view a) (view b))"

definition f_rem :: "f64 \<Rightarrow> f64 \<Rightarrow> f64" where
  "f_rem a b = of_view (view_rem (view a) (view b))"

definition f_trunc :: "f64 \<Rightarrow> f64" where
  "f_trunc a = of_view (view_trunc (view a))"

definition f_abs :: "f64 \<Rightarrow> f64" where
  "f_abs a = (case view a of Fin _ m e \<Rightarrow> of_view (Fin False m e)
    | Infinite _ \<Rightarrow> of_view (Infinite False) | Nan \<Rightarrow> of_view Nan)"

definition is_nan :: "f64 \<Rightarrow> bool" where
  "is_nan a = (view a = Nan)"

definition is_finite :: "f64 \<Rightarrow> bool" where
  "is_finite a = (case view a of Fin _ _ _ \<Rightarrow> True | _ \<Rightarrow> False)"

definition is_infinite :: "f64 \<Rightarrow> bool" where
  "is_infinite a = (case view a of Infinite _ \<Rightarrow> True | _ \<Rightarrow> False)"

section \<open>Comparison and conversion\<close>

datatype ordering = Less | Equal | Greater

definition int_cmp :: "int \<Rightarrow> int \<Rightarrow> ordering" where
  "int_cmp a b = (if a < b then Less else if a = b then Equal else Greater)"

text \<open>\<open>partial_cmp\<close>: \<open>None\<close> when an operand is NaN; the two zeros are equal.\<close>

fun view_cmp :: "f64_view \<Rightarrow> f64_view \<Rightarrow> ordering option" where
  "view_cmp (Fin s m e) (Fin t n g) =
     (let l = min e g in
      Some (int_cmp (signed_nat s m * 2 ^ nat (e - l)) (signed_nat t n * 2 ^ nat (g - l))))"
| "view_cmp (Infinite s) (Infinite t) =
     Some (if s = t then Equal else if s then Less else Greater)"
| "view_cmp (Infinite s) (Fin _ _ _) = Some (if s then Less else Greater)"
| "view_cmp (Fin _ _ _) (Infinite t) = Some (if t then Greater else Less)"
| "view_cmp _ _ = None"

definition f_partial_cmp :: "f64 \<Rightarrow> f64 \<Rightarrow> ordering option" where
  "f_partial_cmp a b = view_cmp (view a) (view b)"

definition f_eq :: "f64 \<Rightarrow> f64 \<Rightarrow> bool" where
  "f_eq a b = (f_partial_cmp a b = Some Equal)"

definition f_lt :: "f64 \<Rightarrow> f64 \<Rightarrow> bool" where
  "f_lt a b = (f_partial_cmp a b = Some Less)"

definition f_le :: "f64 \<Rightarrow> f64 \<Rightarrow> bool" where
  "f_le a b = (f_partial_cmp a b \<in> {Some Less, Some Equal})"

text \<open>\<open>i as f64\<close>: the nearest float; zero is positive.\<close>

definition f_of_int :: "int \<Rightarrow> f64" where
  "f_of_int i = of_view (round_dyadic False i 0)"

definition f_of_i64 :: "i64 \<Rightarrow> f64" where
  "f_of_i64 i = f_of_int (sint i)"

text \<open>The integer part, with the sign.\<close>

fun view_to_int :: "f64_view \<Rightarrow> int" where
  "view_to_int (Fin s m e) = signed_nat s (trunc_magnitude m e)"
| "view_to_int _ = 0"

definition trunc_int :: "f64 \<Rightarrow> int" where
  "trunc_int f = view_to_int (view f)"

text \<open>\<open>f as i64\<close> and \<open>f as u64\<close> saturate; NaN gives 0.\<close>

definition saturate :: "int \<Rightarrow> int \<Rightarrow> f64 \<Rightarrow> int" where
  "saturate lo hi f = (case view f of Nan \<Rightarrow> 0 | Infinite s \<Rightarrow> (if s then lo else hi)
     | Fin _ _ _ \<Rightarrow> max lo (min hi (trunc_int f)))"

definition f_as_i64 :: "f64 \<Rightarrow> i64" where
  "f_as_i64 f = word_of_int (saturate i64_min i64_max f)"

definition f_as_u64 :: "f64 \<Rightarrow> u64" where
  "f_as_u64 f = word_of_int (saturate 0 (2 ^ 64 - 1) f)"

section \<open>Decoding and encoding\<close>

lemma view_canonical [simp]: "canonical_view (view f)"
proof -
  have "f64_fraction f < 2 ^ 52" "f64_biased f < 2048"
    by (simp_all add: f64_fraction_def f64_biased_def)
  then show ?thesis
    by (auto simp: view_def Let_def canonical_def)
qed

lemma encode_decode:
  assumes "b < 2048" "r < 2 ^ 52"
  shows "f64_biased (F64 (word_of_nat (sign_bit s + (b * 2 ^ 52 + r)))) = b"
    and "f64_fraction (F64 (word_of_nat (sign_bit s + (b * 2 ^ 52 + r)))) = r"
    and "f64_sign (F64 (word_of_nat (sign_bit s + (b * 2 ^ 52 + r)))) = s"
proof -
  have lt: "b * 2 ^ 52 + r < 2 ^ 63"
    using assms by simp
  have u: "unat (word_of_nat (sign_bit s + (b * 2 ^ 52 + r)) :: u64) = sign_bit s + (b * 2 ^ 52 + r)"
    using lt by (intro unat_of_nat_u64) (simp add: sign_bit_def)
  have sb: "sign_bit s = (if s then 2048 else 0) * 2 ^ 52"
    by (simp add: sign_bit_def)
  have sum: "sign_bit s + (b * 2 ^ 52 + r) = r + ((if s then 2048 else 0) + b) * 2 ^ 52"
    by (simp add: sb)
  show "f64_biased (F64 (word_of_nat (sign_bit s + (b * 2 ^ 52 + r)))) = b"
    unfolding f64_biased_def f64.sel u unfolding sum using assms
    by (subst div_mult_self1) simp_all
  show "f64_fraction (F64 (word_of_nat (sign_bit s + (b * 2 ^ 52 + r)))) = r"
    unfolding f64_fraction_def f64.sel u unfolding sum using assms
    by (subst mod_mult_self1) simp
  show "f64_sign (F64 (word_of_nat (sign_bit s + (b * 2 ^ 52 + r)))) = s"
    unfolding f64_sign_def f64.sel u using lt by (simp add: sign_bit_def)
qed

lemma view_of_view [simp]: "canonical_view v \<Longrightarrow> view (of_view v) = v"
proof (cases v)
  case Nan
  have "view (F64 (word_of_nat (2047 * 2 ^ 52 + 2 ^ 51))) = Nan"
    using encode_decode [of 2047 "2 ^ 51" False]
    by (simp add: view_def sign_bit_def)
  with Nan show ?thesis by simp
next
  case (Infinite s)
  have "view (F64 (word_of_nat (sign_bit s + 2047 * 2 ^ 52))) = Infinite s"
    using encode_decode [of 2047 0 s] by (simp add: view_def)
  with Infinite show ?thesis by simp
next
  case (Fin s m e)
  assume "canonical_view v"
  with Fin have c: "m < 2 ^ 53" "- 1074 \<le> e" "e \<le> 971" "2 ^ 52 \<le> m \<or> e = - 1074"
    by (auto simp: canonical_def)
  show ?thesis
  proof (cases "m < 2 ^ 52")
    case True
    then have "view (F64 (word_of_nat (sign_bit s + m))) = Fin s m (- 1074)"
      using encode_decode [of 0 m s] by (simp add: view_def)
    with True Fin c show ?thesis by auto
  next
    case False
    define b r where "b = nat (e + 1075)" and "r = m - 2 ^ 52"
    have b: "b < 2048" "b \<noteq> 0" "b \<noteq> 2047" "int b = e + 1075" and r: "r < 2 ^ 52" "r + 2 ^ 52 = m"
      using c False by (auto simp: b_def r_def)
    have "view (F64 (word_of_nat (sign_bit s + (b * 2 ^ 52 + r)))) = Fin s (r + 2 ^ 52) (int b - 1075)"
      using b unfolding view_def Let_def encode_decode [OF b(1) r(1)] by simp
    moreover have "of_view (Fin s m e) = F64 (word_of_nat (sign_bit s + (b * 2 ^ 52 + r)))"
      using False unfolding b_def r_def by (simp only: of_view.simps if_False)
    ultimately show ?thesis
      using Fin b r by (simp only:) simp
  qed
qed

section \<open>Rounding\<close>

lemma bit_len_bounds: "0 < n \<Longrightarrow> 2 ^ (bit_len n - 1) \<le> n \<and> n < 2 ^ bit_len n \<and> 0 < bit_len n"
proof (induction n rule: bit_len.induct)
  case (1 n)
  show ?case
  proof (cases "n div 2 = 0")
    case True
    with "1.prems" have "n = 1" by auto
    then show ?thesis by (simp add: bit_len.simps)
  next
    case False
    with 1 have IH: "2 ^ (bit_len (n div 2) - 1) \<le> n div 2" "n div 2 < 2 ^ bit_len (n div 2)"
      "0 < bit_len (n div 2)" by auto
    have eq: "bit_len n = Suc (bit_len (n div 2))"
      using "1.prems" by (subst bit_len.simps) simp
    obtain k where k: "bit_len (n div 2) = Suc k" using IH(3) gr0_implies_Suc by blast
    have "2 * (n div 2) \<le> n" "n < 2 * (n div 2) + 2" by linarith+
    then show ?thesis using IH(1,2) by (simp add: eq k)
  qed
qed

text \<open>The real value of a scaled quotient.\<close>

lemma scale2_pos [simp]: "0 < scale2 n e \<longleftrightarrow> 0 < n"
  by (simp add: scale2_def)

lemma scale2_eq_0 [simp]: "scale2 n e = 0 \<longleftrightarrow> n = 0"
  by (simp add: scale2_def)

lemma scale2_ratio:
  assumes "0 < d"
  shows "real (scale2 n e) / real (scale2 d (- e)) = real n / real d * 2 powi e"
proof (cases "0 \<le> e")
  case True
  then obtain k where "e = int k" using nonneg_int_cases by blast
  with assms show ?thesis
    by (cases "k = 0") (simp_all add: scale2_def power_int_def)
next
  case False
  then obtain k where k: "e = - int k" "0 < k"
    by (metis int_cases2 linorder_not_less neg_0_le_iff_le of_nat_0_less_iff of_nat_0_le_iff
        order_less_le verit_minus_simplify(4))
  with assms show ?thesis
    by (simp add: scale2_def power_int_minus field_simps)
qed

lemma ilog2_ratio_bounds:
  assumes "0 < n" "0 < d"
  shows "2 powi (ilog2_ratio n d) \<le> real n / real d" "real n / real d < 2 powi (ilog2_ratio n d + 1)"
proof -
  define b where "b = int (bit_len n) - int (bit_len d)"
  have rn: "2 ^ (bit_len n - 1) \<le> real n" "real n < 2 ^ bit_len n" "0 < bit_len n"
    using bit_len_bounds [OF assms(1)] by (simp_all flip: of_nat_power)
  have rd: "2 ^ (bit_len d - 1) \<le> real d" "real d < 2 ^ bit_len d" "0 < bit_len d"
    using bit_len_bounds [OF assms(2)] by (simp_all flip: of_nat_power)
  have pos: "0 < real d" using assms by simp
  have e1: "(2::real) ^ (k - 1) = 2 powi (int k) / 2" if "0 < k" for k
    using that by (cases k) (simp_all add: power_int_add)
  have two: "2 powi (int (bit_len n)) / 2 powi (int (bit_len d)) = (2::real) powi b"
    by (simp add: b_def power_int_diff)
  have up: "real n / real d < 2 powi (b + 1)"
  proof -
    have "real n / real d < 2 ^ bit_len n / real d"
      using rn(2) pos by (simp add: divide_strict_right_mono)
    also have "\<dots> \<le> 2 ^ bit_len n / 2 ^ (bit_len d - 1)"
      using rd(1) pos by (intro divide_left_mono) (auto intro: mult_pos_pos)
    also have "\<dots> = 2 powi (b + 1)"
      using arg_cong [OF two, of "\<lambda>x. x * 2"] unfolding e1 [OF rd(3)] by (simp add: power_int_add)
    finally show ?thesis .
  qed
  have low: "2 powi (b - 1) \<le> real n / real d"
  proof -
    have "(2::real) powi (b - 1) = 2 ^ (bit_len n - 1) / 2 ^ bit_len d"
      using arg_cong [OF two, of "\<lambda>x. x / 2"] unfolding e1 [OF rn(3)] by (simp add: power_int_diff)
    also have "\<dots> \<le> real n / 2 ^ bit_len d"
      using rn(1) by (simp add: divide_right_mono)
    also have "\<dots> \<le> real n / real d"
      using rd(2) pos by (intro divide_left_mono) (auto intro: mult_pos_pos)
    finally show ?thesis .
  qed
  have test: "scale2 d b \<le> scale2 n (- b) \<longleftrightarrow> 2 powi b \<le> real n / real d"
  proof -
    have "scale2 d b \<le> scale2 n (- b) \<longleftrightarrow> 1 \<le> real (scale2 n (- b)) / real (scale2 d (- (- b)))"
      using assms by (simp add: le_divide_eq)
    also have "\<dots> \<longleftrightarrow> 1 \<le> real n / real d * 2 powi (- b)"
      using scale2_ratio [OF assms(2), of n "- b"] by simp
    also have "\<dots> \<longleftrightarrow> 2 powi b \<le> real n / real d"
      using zero_less_power_int [of "2::real" b] pos
      by (simp add: power_int_minus divide_simps mult.commute)
    finally show ?thesis .
  qed
  have "ilog2_ratio n d = (if 2 powi b \<le> real n / real d then b else b - 1)"
    by (simp add: ilog2_ratio_def b_def [symmetric] test Let_def)
  then show "2 powi (ilog2_ratio n d) \<le> real n / real d" "real n / real d < 2 powi (ilog2_ratio n d + 1)"
    using up low by (auto simp: not_le)
qed

lemma powi_floor_unique:
  assumes "2 powi a \<le> x" "x < 2 powi (a + 1)" "2 powi b \<le> x" "x < (2::real) powi (b + 1)"
  shows "a = b"
proof -
  have "(2::real) powi a < 2 powi (b + 1)" "(2::real) powi b < 2 powi (a + 1)"
    using assms by linarith+
  then have "a < b + 1" "b < a + 1"
    by (meson leD not_le_imp_less one_le_numeral power_int_increasing)+
  then show ?thesis by linarith
qed

text \<open>A quotient that is a float is rounded to that float.\<close>

lemma round_ratio_exact:
  assumes "0 < d" "canonical m e" "0 < m" and eq: "real n / real d = real m * 2 powi e"
  shows "round_ratio s n d = Fin s m e"
proof -
  have c: "m < 2 ^ 53" "- 1074 \<le> e" "e \<le> 971" "2 ^ 52 \<le> m \<or> e = - 1074"
    using assms(2) by (auto simp: canonical_def)
  have n: "0 < n"
    using eq assms(3) by (cases n) auto
  define L where "L = ilog2_ratio n d"
  have L: "2 powi L \<le> real m * 2 powi e" "real m * 2 powi e < 2 powi (L + 1)"
    using ilog2_ratio_bounds [OF n assms(1)] by (simp_all add: L_def eq)
  have upper: "L \<le> 52 + e"
  proof -
    have "real m < 2 ^ 53" using c(1) by (simp flip: of_nat_power)
    then have "real m * 2 powi e < 2 powi (53 + e)"
      by (simp add: power_int_add)
    with L(1) have "(2::real) powi L < 2 powi (53 + e)" by linarith
    then have "L < 53 + e"
      by (meson leD not_le_imp_less one_le_numeral power_int_increasing)
    then show ?thesis by linarith
  qed
  have e_eq: "max (- 1074) (L - 52) = e"
  proof (cases "2 ^ 52 \<le> m")
    case True
    then have "2 ^ 52 \<le> real m" by (simp flip: of_nat_power)
    then have "2 powi (52 + e) \<le> real m * 2 powi e"
      by (simp add: power_int_add)
    with L(2) have "(2::real) powi (52 + e) < 2 powi (L + 1)" by linarith
    then have "52 + e < L + 1"
      by (meson leD not_le_imp_less one_le_numeral power_int_increasing)
    with upper c show ?thesis by linarith
  next
    case False
    with c upper show ?thesis by linarith
  qed
  have "real (scale2 n (- e)) / real (scale2 d e) = real m"
    using scale2_ratio [OF assms(1), of n "- e"] eq by (simp add: power_int_minus)
  moreover have "0 < scale2 d e" using assms(1) by simp
  ultimately have "real (scale2 n (- e)) = real (m * scale2 d e)"
    by (simp add: divide_eq_eq)
  then have q: "scale2 n (- e) = m * scale2 d e"
    by (simp only: of_nat_eq_iff)
  then have "scale2 n (- e) div scale2 d e = m" "scale2 n (- e) mod scale2 d e = 0"
    using \<open>0 < scale2 d e\<close> by simp_all
  then show ?thesis
    using n c \<open>0 < scale2 d e\<close> by (simp add: round_ratio_def L_def [symmetric] e_eq Let_def)
qed

lemma round_ratio_canonical:
  assumes "0 < d"
  shows "canonical_view (round_ratio s n d)"
proof (cases "n = 0")
  case True
  then show ?thesis by (simp add: round_ratio_def canonical_def)
next
  case False
  then have n: "0 < n" by simp
  define L where "L = ilog2_ratio n d"
  define e where "e = max (- 1074) (L - 52)"
  define n' d' where "n' = scale2 n (- e)" and "d' = scale2 d e"
  have d': "0 < d'" using assms by (simp add: d'_def)
  have ratio: "real n' / real d' = real n / real d * 2 powi (- e)"
    using scale2_ratio [OF assms, of n "- e"] by (simp add: n'_def d'_def)
  have L: "2 powi L \<le> real n / real d" "real n / real d < 2 powi (L + 1)"
    using ilog2_ratio_bounds [OF n assms] by (simp_all add: L_def)
  have upper: "n' div d' < 2 ^ 53"
  proof -
    have "real n / real d * 2 powi (- e) < 2 powi (L + 1) * 2 powi (- e)"
      using L(2) by (intro mult_strict_right_mono) simp_all
    also have "\<dots> = (2::real) powi (L + 1 - e)" by (simp flip: power_int_add)
    also have "\<dots> \<le> 2 powi 53"
      by (intro power_int_increasing) (simp_all add: e_def)
    finally have "real n' / real d' < 2 ^ 53" by (simp add: ratio)
    then have "real n' < real (2 ^ 53 * d')" using d' by (simp add: divide_less_eq)
    then have "n' < 2 ^ 53 * d'" by (simp only: of_nat_less_iff)
    then show ?thesis by (simp add: less_mult_imp_div_less)
  qed
  have lower: "2 ^ 52 \<le> n' div d' \<or> e = - 1074"
  proof (cases "e = L - 52")
    case True
    have "2 powi L * 2 powi (- e) \<le> real n / real d * 2 powi (- e)"
      using L(1) by (intro mult_right_mono) simp_all
    moreover have "2 powi L * 2 powi (- e) = (2::real) powi 52"
      using True by (simp flip: power_int_add)
    ultimately have "2 ^ 52 \<le> real n' / real d'" by (simp add: ratio)
    then have "real (2 ^ 52 * d') \<le> real n'" using d' by (simp add: le_divide_eq)
    then have "2 ^ 52 * d' \<le> n'" by (simp only: of_nat_le_iff)
    then have "2 ^ 52 \<le> n' div d'" using d' by (simp add: less_eq_div_iff_mult_less_eq)
    then show ?thesis ..
  next
    case False
    then show ?thesis by (auto simp: e_def)
  qed
  have ge: "- 1074 \<le> e" by (simp add: e_def)
  show ?thesis
    using upper lower ge n
    by (auto simp: round_ratio_def Let_def L_def [symmetric] e_def [symmetric]
        n'_def [symmetric] d'_def [symmetric] canonical_def)
qed

end
