(* ===== verification/Values.thy ===== *)
theory Values
  imports F64 IntText
begin

text \<open>
  PHP values (\<open>value.rs\<close>) and reference cells (\<open>reference.rs\<close>).  Strings are their bytes.  Arrays,
  objects, resources and references are handles, here addresses; the cells that the reference
  handles point to live in an explicit store, a list indexed by the address, with the count of
  handles each cell has.
\<close>

section \<open>Values\<close>

text \<open>\<open>VArray None\<close> is the empty array, which has no allocation.\<close>

datatype val =
    VNull
  | VBool bool
  | VInt i64
  | VFloat f64
  | VStr bytes
  | VArray "nat option"
  | VObject nat
  | VResource nat
  | VRef nat

datatype php_type = TNull | TBool | TInt | TFloat | TString | TArray | TObject | TResource

definition type_name :: "php_type \<Rightarrow> bytes" where
  "type_name t = ascii (case t of TNull \<Rightarrow> ''null'' | TBool \<Rightarrow> ''bool'' | TInt \<Rightarrow> ''int''
     | TFloat \<Rightarrow> ''float'' | TString \<Rightarrow> ''string'' | TArray \<Rightarrow> ''array''
     | TObject \<Rightarrow> ''object'' | TResource \<Rightarrow> ''resource'')"

definition is_ref :: "val \<Rightarrow> bool" where
  "is_ref v = (case v of VRef _ \<Rightarrow> True | _ \<Rightarrow> False)"

section \<open>Reference cells\<close>

record ref_cell =
  rc_val :: val
  rc_count :: nat
  rc_typed :: bool

type_synonym refs = "ref_cell list"

text \<open>A cell never holds a reference (\<open>PhpRef::new\<close>, and the \<open>debug_assert\<close> of \<open>PhpRef::set\<close>).\<close>

definition flat_refs :: "refs \<Rightarrow> bool" where
  "flat_refs R \<longleftrightarrow> (\<forall>c \<in> set R. \<not> is_ref (rc_val c))"

definition ref_new :: "refs \<Rightarrow> val \<Rightarrow> refs \<times> nat" where
  "ref_new R v =
     (case v of VRef r \<Rightarrow> (R, r)
      | _ \<Rightarrow> (R @ [\<lparr>rc_val = v, rc_count = 1, rc_typed = False\<rparr>], length R))"

definition ref_get :: "refs \<Rightarrow> nat \<Rightarrow> val" where
  "ref_get R r = rc_val (R ! r)"

definition ref_set :: "refs \<Rightarrow> nat \<Rightarrow> val \<Rightarrow> refs \<times> val" where
  "ref_set R r v = (R[r := (R ! r)\<lparr>rc_val := v\<rparr>], rc_val (R ! r))"

definition ref_clone :: "refs \<Rightarrow> nat \<Rightarrow> refs" where
  "ref_clone R r = R[r := (R ! r)\<lparr>rc_count := rc_count (R ! r) + 1\<rparr>]"

definition ref_refcount :: "refs \<Rightarrow> nat \<Rightarrow> nat" where
  "ref_refcount R r = rc_count (R ! r)"

definition ref_set_typed :: "refs \<Rightarrow> nat \<Rightarrow> bool \<Rightarrow> refs" where
  "ref_set_typed R r on = R[r := (R ! r)\<lparr>rc_typed := on\<rparr>]"

section \<open>Operations on values\<close>

definition type_of :: "refs \<Rightarrow> val \<Rightarrow> php_type" where
  "type_of R v =
     (case (case v of VRef r \<Rightarrow> ref_get R r | _ \<Rightarrow> v) of
        VNull \<Rightarrow> TNull | VBool _ \<Rightarrow> TBool | VInt _ \<Rightarrow> TInt | VFloat _ \<Rightarrow> TFloat | VStr _ \<Rightarrow> TString
      | VArray _ \<Rightarrow> TArray | VObject _ \<Rightarrow> TObject | VResource _ \<Rightarrow> TResource | VRef _ \<Rightarrow> TNull)"

text \<open>\<open>Value::deref\<close>; \<open>into_deref\<close> has the same result, consuming the value.\<close>

definition deref :: "refs \<Rightarrow> val \<Rightarrow> val" where
  "deref R v = (case v of VRef r \<Rightarrow> ref_get R r | _ \<Rightarrow> v)"

text \<open>\<open>Value::make_ref\<close>: the cells, the slot afterwards and the cell's address.\<close>

definition make_ref :: "refs \<Rightarrow> val \<Rightarrow> refs \<times> val \<times> nat" where
  "make_ref R slot =
     (case slot of VRef r \<Rightarrow> (ref_clone R r, slot, r)
      | _ \<Rightarrow> (let (R', r) = ref_new R slot in (ref_clone R' r, VRef r, r)))"

text \<open>\<open>Value::assign\<close>: the cells, the slot afterwards and the old value.\<close>

definition assign_slot :: "refs \<Rightarrow> val \<Rightarrow> val \<Rightarrow> refs \<times> val \<times> val" where
  "assign_slot R slot v =
     (let v = deref R v in
      case slot of VRef r \<Rightarrow> (let (R', old) = ref_set R r v in (R', slot, old))
      | _ \<Rightarrow> (R, v, slot))"

definition as_int :: "val \<Rightarrow> i64 option" where
  "as_int v = (case v of VInt i \<Rightarrow> Some i | _ \<Rightarrow> None)"

definition as_float :: "val \<Rightarrow> f64 option" where
  "as_float v = (case v of VFloat f \<Rightarrow> Some f | _ \<Rightarrow> None)"

definition as_str :: "val \<Rightarrow> bytes option" where
  "as_str v = (case v of VStr s \<Rightarrow> Some s | _ \<Rightarrow> None)"

definition as_array :: "val \<Rightarrow> nat option option" where
  "as_array v = (case v of VArray a \<Rightarrow> Some a | _ \<Rightarrow> None)"

definition as_object :: "val \<Rightarrow> nat option" where
  "as_object v = (case v of VObject p \<Rightarrow> Some p | _ \<Rightarrow> None)"

section \<open>References\<close>

text \<open>A value whose references point to allocated cells.\<close>

lemma is_ref_simps [simp]:
  "is_ref (VRef r)" "\<not> is_ref VNull" "\<not> is_ref (VBool b)" "\<not> is_ref (VInt i)" "\<not> is_ref (VFloat f)"
  "\<not> is_ref (VStr s)" "\<not> is_ref (VArray a)" "\<not> is_ref (VObject n)" "\<not> is_ref (VResource n)"
  by (simp_all add: is_ref_def)

definition ref_ok :: "refs \<Rightarrow> val \<Rightarrow> bool" where
  "ref_ok R v = (case v of VRef r \<Rightarrow> r < length R | _ \<Rightarrow> True)"

lemma flat_refs_nth: "flat_refs R \<Longrightarrow> r < length R \<Longrightarrow> \<not> is_ref (rc_val (R ! r))"
  by (simp add: flat_refs_def)

lemma deref_not_ref: "flat_refs R \<Longrightarrow> ref_ok R v \<Longrightarrow> \<not> is_ref (deref R v)"
  by (cases v) (auto simp: deref_def ref_get_def ref_ok_def is_ref_def [of "VNull"] is_ref_def flat_refs_def
      split: val.splits)

lemma deref_idem: "\<not> is_ref v \<Longrightarrow> deref R v = v"
  by (cases v) (simp_all add: deref_def is_ref_def)

lemma flat_refs_update: "flat_refs R \<Longrightarrow> \<not> is_ref (rc_val c) \<Longrightarrow> flat_refs (R[r := c])"
  unfolding flat_refs_def by (blast dest: set_update_subset_insert [THEN subsetD])

lemma make_ref_spec:
  assumes "flat_refs R" "ref_ok R slot" "make_ref R slot = (R', slot', r)"
  shows "flat_refs R'" "slot' = VRef r" "r < length R'" "deref R' slot' = deref R slot"
    "r < length R \<longleftrightarrow> is_ref slot" "\<And>q. q < length R \<Longrightarrow> ref_get R' q = ref_get R q"
proof -
  have *: "flat_refs R' \<and> slot' = VRef r \<and> r < length R' \<and> deref R' slot' = deref R slot
    \<and> (r < length R \<longleftrightarrow> is_ref slot) \<and> (\<forall>q < length R. ref_get R' q = ref_get R q)"
  proof (cases "is_ref slot")
    case True
    then obtain q where q: "slot = VRef q" by (cases slot) (auto simp: is_ref_def)
    then have q': "q < length R" using assms(2) by (simp add: ref_ok_def)
    then have "flat_refs (R[q := (R ! q)\<lparr>rc_count := rc_count (R ! q) + 1\<rparr>])"
      by (intro flat_refs_update [OF assms(1)]) (simp add: flat_refs_nth [OF assms(1)])
    moreover have eqs: "R' = R[q := (R ! q)\<lparr>rc_count := rc_count (R ! q) + 1\<rparr>]" "slot' = VRef q" "r = q"
      using assms(3) q by (auto simp: make_ref_def ref_clone_def)
    ultimately show ?thesis
      unfolding eqs q using q' by (simp add: deref_def ref_get_def nth_list_update)
  next
    case False
    define c where "c = \<lparr>rc_val = slot, rc_count = 2, rc_typed = False\<rparr>"
    have "make_ref R slot = (R @ [c], VRef (length R), length R)"
      using False by (cases slot) (simp_all add: make_ref_def ref_new_def ref_clone_def c_def)
    then have eqs: "R' = R @ [c]" "slot' = VRef (length R)" "r = length R" using assms(3) by simp_all
    have "flat_refs (R @ [c])" using assms(1) False by (auto simp: flat_refs_def c_def)
    moreover have "deref R slot = slot" using False by (rule deref_idem)
    moreover have "deref (R @ [c]) (VRef (length R)) = slot" by (simp add: deref_def ref_get_def c_def)
    moreover have "\<forall>q < length R. ref_get (R @ [c]) q = ref_get R q" by (simp add: ref_get_def nth_append)
    ultimately show ?thesis
      unfolding eqs using False by simp
  qed
  then show "flat_refs R'" "slot' = VRef r" "r < length R'" "deref R' slot' = deref R slot"
    "r < length R \<longleftrightarrow> is_ref slot" "\<And>q. q < length R \<Longrightarrow> ref_get R' q = ref_get R q"
    by blast+
qed

text \<open>Assigning through a reference is seen by every slot bound to the cell, and by no other slot.\<close>

lemma assign_slot_spec:
  assumes "flat_refs R" "ref_ok R slot" "ref_ok R v" "assign_slot R slot v = (R', slot', old)"
  shows "flat_refs R'" "deref R' slot' = deref R v" "old = deref R slot"
    "\<And>q. q < length R \<Longrightarrow> slot \<noteq> VRef q \<Longrightarrow> ref_get R' q = ref_get R q"
    "slot = VRef r \<Longrightarrow> ref_get R' r = deref R v" "length R' = length R"
proof -
  have nr: "\<not> is_ref (deref R v)" using assms(1,3) by (rule deref_not_ref)
  have *: "flat_refs R' \<and> deref R' slot' = deref R v \<and> old = deref R slot
    \<and> (\<forall>q < length R. slot \<noteq> VRef q \<longrightarrow> ref_get R' q = ref_get R q)
    \<and> (slot = VRef r \<longrightarrow> ref_get R' r = deref R v) \<and> length R' = length R"
  proof (cases "is_ref slot")
    case True
    then obtain p where p: "slot = VRef p" by (cases slot) (auto simp: is_ref_def)
    then have p': "p < length R" using assms(2) by (simp add: ref_ok_def)
    have fl: "flat_refs (R[p := (R ! p)\<lparr>rc_val := deref R v\<rparr>])"
      by (rule flat_refs_update [OF assms(1)]) (simp add: nr)
    have eqs: "R' = R[p := (R ! p)\<lparr>rc_val := deref R v\<rparr>]" "slot' = VRef p" "old = rc_val (R ! p)"
      using assms(4) p by (simp_all add: assign_slot_def Let_def ref_set_def)
    show ?thesis
      unfolding eqs(1,2,3) using fl p p'
      by (auto simp: deref_def [of _ "VRef p"] ref_get_def [of "_[_ := _]"] ref_get_def [of R] nth_list_update)
  next
    case False
    then have "R' = R \<and> slot' = deref R v \<and> old = slot"
      using assms(4) by (cases slot) (auto simp: assign_slot_def Let_def)
    then show ?thesis
      using False assms(1) nr by (auto simp: deref_idem is_ref_def)
  qed
  then show "flat_refs R'" "deref R' slot' = deref R v" "old = deref R slot"
    "\<And>q. q < length R \<Longrightarrow> slot \<noteq> VRef q \<Longrightarrow> ref_get R' q = ref_get R q"
    "slot = VRef r \<Longrightarrow> ref_get R' r = deref R v" "length R' = length R"
    by blast+
qed

end
