(* ===== verification/ArrayData.thy ===== *)
theory ArrayData
  imports HashStore Values
begin

text \<open>
  The data of a PHP array (\<open>array.rs\<close>, \<open>ArrayData\<close>): a packed list or a hash store, the next
  append index with its two state bits, the internal pointer and the registered iterators of
  by-reference \<open>foreach\<close>.  An operation that returns a mutable reference to an element returns
  here the position of the element; \<open>arr_put\<close> is the write through it.
\<close>

section \<open>State\<close>

datatype store = Packed "val list" | Hash "val hash_store"

record array_data =
  a_store :: store
  a_next_free :: i64
  a_nstate :: u8
  a_flags :: u8
  a_pos :: nat
  a_iters :: "(u32 \<times> nat) list"

definition a_may_cycle :: u8 where "a_may_cycle = 1"
definition a_gc_buffered :: u8 where "a_gc_buffered = 2"
definition a_literal :: u8 where "a_literal = 4"
definition n_has_int :: u8 where "n_has_int = 1"
definition n_full :: u8 where "n_full = 2"

datatype array_error = NextIndexOccupied

definition next_index_occupied_message :: bytes where
  "next_index_occupied_message =
     ascii ''Cannot add element to the array as the next element is already occupied''"

definition may_cycle_value :: "val \<Rightarrow> bool" where
  "may_cycle_value v = (case v of VArray _ \<Rightarrow> True | VObject _ \<Rightarrow> True | VRef _ \<Rightarrow> True | _ \<Rightarrow> False)"

definition needs_drop :: "val \<Rightarrow> bool" where
  "needs_drop v = (case v of VNull \<Rightarrow> False | VBool _ \<Rightarrow> False | VInt _ \<Rightarrow> False | VFloat _ \<Rightarrow> False | _ \<Rightarrow> True)"

definition arr_new :: array_data where
  "arr_new = \<lparr>a_store = Packed [], a_next_free = 0, a_nstate = 0, a_flags = 0, a_pos = 0, a_iters = []\<rparr>"

definition arr_len :: "array_data \<Rightarrow> nat" where
  "arr_len a = (case a_store a of Packed vs \<Rightarrow> length vs | Hash h \<Rightarrow> hs_live h)"

definition arr_is_packed :: "array_data \<Rightarrow> bool" where
  "arr_is_packed a = (case a_store a of Packed _ \<Rightarrow> True | Hash _ \<Rightarrow> False)"

fun keys_from :: "nat \<Rightarrow> 'v bucket list \<Rightarrow> bool" where
  "keys_from i [] = True"
| "keys_from i (b # bs) = (b_key b = KInt (word_of_nat i) \<and> keys_from (Suc i) bs)"

definition arr_is_list :: "array_data \<Rightarrow> bool" where
  "arr_is_list a =
     (case a_store a of Packed _ \<Rightarrow> True | Hash h \<Rightarrow> keys_from 0 (filter b_live (hs_entries h)))"

section \<open>Copying\<close>

text \<open>\<open>copy_elem\<close>: a reference held only by the array being copied is resolved.\<close>

definition copy_elem :: "refs \<Rightarrow> val \<Rightarrow> val" where
  "copy_elem R v =
     (if needs_drop v then
        (case v of VRef r \<Rightarrow> if ref_refcount R r = 1 then ref_get R r else v | _ \<Rightarrow> v)
      else v)"

definition arr_clone :: "refs \<Rightarrow> array_data \<Rightarrow> array_data" where
  "arr_clone R a =
     a\<lparr>a_store := (case a_store a of
          Packed vs \<Rightarrow> Packed (map (copy_elem R) vs)
        | Hash h \<Rightarrow> Hash (h\<lparr>hs_entries :=
             map (\<lambda>b. b\<lparr>b_val := map_option (copy_elem R) (b_val b)\<rparr>) (hs_entries h)\<rparr>)),
       a_flags := a_flags a AND a_may_cycle\<rparr>"

section \<open>The next append index\<close>

definition next_index :: "array_data \<Rightarrow> i64 option" where
  "next_index a =
     (if a_nstate a AND n_full \<noteq> 0 then None
      else if a_nstate a AND n_has_int \<noteq> 0 then Some (a_next_free a) else Some 0)"

definition set_next_index :: "array_data \<Rightarrow> i64 \<Rightarrow> array_data" where
  "set_next_index a n = a\<lparr>a_next_free := n, a_nstate := n_has_int\<rparr>"

definition note_int_key :: "array_data \<Rightarrow> i64 \<Rightarrow> array_data" where
  "note_int_key a k =
     (if a_nstate a AND n_has_int = 0 then
        (let a = a\<lparr>a_nstate := a_nstate a OR n_has_int\<rparr> in
         case checked_add k 1 of Some n \<Rightarrow> a\<lparr>a_next_free := n\<rparr>
         | None \<Rightarrow> a\<lparr>a_nstate := a_nstate a OR n_full\<rparr>)
      else if a_next_free a \<le>s k \<and> a_nstate a AND n_full = 0 then
        (case checked_add k 1 of Some n \<Rightarrow> a\<lparr>a_next_free := n\<rparr>
         | None \<Rightarrow> a\<lparr>a_nstate := a_nstate a OR n_full\<rparr>)
      else a)"

definition note_value :: "array_data \<Rightarrow> val \<Rightarrow> array_data" where
  "note_value a v = (if may_cycle_value v then a\<lparr>a_flags := a_flags a OR a_may_cycle\<rparr> else a)"

definition note_mut_access :: "array_data \<Rightarrow> array_data" where
  "note_mut_access a = a\<lparr>a_flags := a_flags a OR a_may_cycle\<rparr>"

definition mark_literal :: "array_data \<Rightarrow> array_data" where
  "mark_literal a = a\<lparr>a_flags := a_flags a OR a_literal\<rparr>"

definition unmark_literal :: "array_data \<Rightarrow> array_data" where
  "unmark_literal a = a\<lparr>a_flags := a_flags a AND NOT a_literal\<rparr>"

section \<open>Lookup\<close>

definition arr_get_int :: "array_data \<Rightarrow> i64 \<Rightarrow> val option" where
  "arr_get_int a i =
     (case a_store a of
        Packed vs \<Rightarrow> if unat i < length vs then Some (vs ! unat i) else None
      | Hash h \<Rightarrow> (case hs_find h (KInt i) i of None \<Rightarrow> None | Some p \<Rightarrow> b_val (hs_entries h ! p)))"

definition arr_get_str :: "array_data \<Rightarrow> bytes \<Rightarrow> val option" where
  "arr_get_str a s =
     (case a_store a of
        Packed _ \<Rightarrow> None
      | Hash h \<Rightarrow> (case hs_find h (KStr s) (hash_bytes s) of None \<Rightarrow> None | Some p \<Rightarrow> b_val (hs_entries h ! p)))"

definition arr_get :: "array_data \<Rightarrow> key \<Rightarrow> val option" where
  "arr_get a k = (case k of KInt i \<Rightarrow> arr_get_int a i | KStr s \<Rightarrow> arr_get_str a s)"

definition arr_get_bytes :: "array_data \<Rightarrow> bytes \<Rightarrow> val option" where
  "arr_get_bytes a b =
     (case canonical_int b of Some i \<Rightarrow> arr_get_int a i
      | None \<Rightarrow> (case a_store a of
          Packed _ \<Rightarrow> None
        | Hash h \<Rightarrow> (case hs_find h (KStr b) (hash_bytes b) of None \<Rightarrow> None | Some p \<Rightarrow> b_val (hs_entries h ! p))))"

definition contains_key :: "array_data \<Rightarrow> key \<Rightarrow> bool" where
  "contains_key a k \<longleftrightarrow> arr_get a k \<noteq> None"

text \<open>\<open>get_mut\<close>: the position of the element.\<close>

definition arr_get_mut :: "array_data \<Rightarrow> key \<Rightarrow> array_data \<times> nat option" where
  "arr_get_mut a k =
     (note_mut_access a,
      case a_store a of
        Packed vs \<Rightarrow> (case k of KInt i \<Rightarrow> if unat i < length vs then Some (unat i) else None | KStr _ \<Rightarrow> None)
      | Hash h \<Rightarrow> hs_find h k (bucket_hash k))"

definition arr_at :: "array_data \<Rightarrow> nat \<Rightarrow> val" where
  "arr_at a p = (case a_store a of Packed vs \<Rightarrow> vs ! p | Hash h \<Rightarrow> the (b_val (hs_entries h ! p)))"

definition arr_put :: "array_data \<Rightarrow> nat \<Rightarrow> val \<Rightarrow> array_data" where
  "arr_put a p v =
     a\<lparr>a_store := (case a_store a of Packed vs \<Rightarrow> Packed (vs[p := v]) | Hash h \<Rightarrow> Hash (hs_set h p v))\<rparr>"

section \<open>Insertion\<close>

definition convert_to_hash :: "array_data \<Rightarrow> nat \<Rightarrow> array_data" where
  "convert_to_hash a extra =
     (case a_store a of Packed vs \<Rightarrow> a\<lparr>a_store := Hash (hs_of_list vs extra)\<rparr> | Hash _ \<Rightarrow> a)"

definition apply_remap :: "array_data \<Rightarrow> nat list option \<Rightarrow> array_data" where
  "apply_remap a remap =
     (case remap of None \<Rightarrow> a
      | Some r \<Rightarrow>
          let f = (\<lambda>p. r ! min p (length r - 1))
          in a\<lparr>a_pos := f (a_pos a), a_iters := map (\<lambda>(iid, p). (iid, f p)) (a_iters a)\<rparr>)"

definition hash_reserve_one :: "array_data \<Rightarrow> array_data" where
  "hash_reserve_one a =
     (case a_store a of Packed _ \<Rightarrow> a
      | Hash h \<Rightarrow>
          if length (hs_entries h) < hs_limit h then a
          else
            let target = (if hs_live h * 2 \<le> length (hs_entries h) then hs_live h + 1 else hs_limit h * 2);
                (h', remap) = hs_rebuild h target
            in apply_remap (a\<lparr>a_store := Hash h'\<rparr>) remap)"

text \<open>The new element's position comes back with the array.\<close>

definition hash_insert_new :: "array_data \<Rightarrow> key \<Rightarrow> u64 \<Rightarrow> val \<Rightarrow> array_data \<times> nat" where
  "hash_insert_new a k bh v =
     (let a = hash_reserve_one a in
      case a_store a of Packed _ \<Rightarrow> (a, 0)
      | Hash h \<Rightarrow> (a\<lparr>a_store := Hash (hs_push h k bh v)\<rparr>, length (hs_entries h)))"

definition hash_insert :: "array_data \<Rightarrow> key \<Rightarrow> val \<Rightarrow> array_data \<times> val option" where
  "hash_insert a k v =
     (case a_store a of Packed _ \<Rightarrow> (a, None)
      | Hash h \<Rightarrow>
          (case hs_find h k (bucket_hash k) of
             Some p \<Rightarrow> (a\<lparr>a_store := Hash (hs_set h p v)\<rparr>, b_val (hs_entries h ! p))
           | None \<Rightarrow> (fst (hash_insert_new a k (bucket_hash k) v), None)))"

definition arr_insert :: "array_data \<Rightarrow> key \<Rightarrow> val \<Rightarrow> array_data \<times> val option" where
  "arr_insert a k v =
     (let a = note_value a v in
      case k of
        KInt i \<Rightarrow>
          (case a_store a of
             Packed vs \<Rightarrow>
               if unat i < length vs then (a\<lparr>a_store := Packed (vs[unat i := v])\<rparr>, Some (vs ! unat i))
               else if unat i = length vs \<and> next_index a = Some i
                 then (note_int_key (a\<lparr>a_store := Packed (vs @ [v])\<rparr>) i, None)
               else hash_insert (note_int_key (convert_to_hash a 1) i) k v
           | Hash _ \<Rightarrow> hash_insert (note_int_key (convert_to_hash a 1) i) k v)
      | KStr _ \<Rightarrow> hash_insert (convert_to_hash a 1) k v)"

text \<open>\<open>assign\<close>: writes through a reference element, so the cells may change.\<close>

definition arr_assign :: "refs \<Rightarrow> array_data \<Rightarrow> key \<Rightarrow> val \<Rightarrow> refs \<times> array_data \<times> val option" where
  "arr_assign R a k v =
     (let v = deref R v; (a, slot) = arr_get_mut a k in
      case slot of
        Some p \<Rightarrow> (let (R', new, old) = assign_slot R (arr_at a p) v in (R', arr_put a p new, Some old))
      | None \<Rightarrow> (let (a', old) = arr_insert a k v in (R, a', old)))"

definition hash_entry :: "array_data \<Rightarrow> key \<Rightarrow> array_data \<times> nat" where
  "hash_entry a k =
     (case a_store a of Packed _ \<Rightarrow> (a, 0)
      | Hash h \<Rightarrow>
          (case hs_find h k (bucket_hash k) of
             Some p \<Rightarrow> (a, p)
           | None \<Rightarrow> hash_insert_new a k (bucket_hash k) VNull))"

definition arr_entry :: "array_data \<Rightarrow> key \<Rightarrow> array_data \<times> nat" where
  "arr_entry a k =
     (let a = note_mut_access a in
      case k of
        KInt i \<Rightarrow>
          (case a_store a of
             Packed vs \<Rightarrow>
               (let append = (unat i = length vs \<and> next_index a = Some i) in
                if unat i < length vs \<or> append then
                  (let a = (if append then note_int_key a i else a);
                       a = (if append then a\<lparr>a_store := Packed (vs @ [VNull])\<rparr> else a)
                   in (a, unat i))
                else hash_entry (note_int_key (convert_to_hash a 1) i) k)
           | Hash _ \<Rightarrow> hash_entry (note_int_key (convert_to_hash a 1) i) k)
      | KStr _ \<Rightarrow> hash_entry (convert_to_hash a 1) k)"

definition arr_push :: "array_data \<Rightarrow> val \<Rightarrow> array_data \<times> (array_error + i64)" where
  "arr_push a v =
     (case next_index a of
        None \<Rightarrow> (a, Inl NextIndexOccupied)
      | Some i \<Rightarrow>
          (let a = note_value a v in
           case a_store a of
             Packed vs \<Rightarrow>
               if word_of_nat (length vs) = i
               then (note_int_key (a\<lparr>a_store := Packed (vs @ [v])\<rparr>) i, Inr i)
               else (fst (arr_insert a (KInt i) v), Inr i)
           | Hash _ \<Rightarrow> (fst (arr_insert a (KInt i) v), Inr i)))"

definition arr_push_entry :: "array_data \<Rightarrow> array_data \<times> (array_error + nat)" where
  "arr_push_entry a =
     (case next_index a of
        None \<Rightarrow> (a, Inl NextIndexOccupied)
      | Some i \<Rightarrow> (let (a', p) = arr_entry a (KInt i) in (a', Inr p)))"

section \<open>Removal\<close>

definition hash_remove :: "array_data \<Rightarrow> key \<Rightarrow> array_data \<times> val option" where
  "hash_remove a k =
     (case a_store a of Packed _ \<Rightarrow> (a, None)
      | Hash h \<Rightarrow>
          (case hs_find h k (bucket_hash k) of
             None \<Rightarrow> (a, None)
           | Some p \<Rightarrow>
               (let v = b_val (hs_entries h ! p); h = hs_take h p; a = a\<lparr>a_store := Hash h\<rparr> in
                if hs_live h = 0 \<and> a_iters a = [] \<and> a_pos a = 0
                then (a\<lparr>a_store := Packed [], a_pos := 0\<rparr>, v) else (a, v))))"

definition arr_remove :: "array_data \<Rightarrow> key \<Rightarrow> array_data \<times> val option" where
  "arr_remove a k =
     (case a_store a of
        Packed vs \<Rightarrow>
          (case k of
             KStr _ \<Rightarrow> (a, None)
           | KInt i \<Rightarrow>
               if length vs \<le> unat i then (a, None)
               else if unat i = length vs - 1 \<and> a_pos a \<le> unat i \<and> (\<forall>it \<in> set (a_iters a). snd it \<le> unat i)
                 then (a\<lparr>a_store := Packed (butlast vs)\<rparr>, Some (last vs))
               else hash_remove (convert_to_hash a 0) k)
      | Hash _ \<Rightarrow> hash_remove a k)"

section \<open>Positions\<close>

definition arr_used :: "array_data \<Rightarrow> nat" where
  "arr_used a = (case a_store a of Packed vs \<Rightarrow> length vs | Hash h \<Rightarrow> length (hs_entries h))"

fun scan_live :: "'v bucket list \<Rightarrow> nat \<Rightarrow> nat option" where
  "scan_live [] p = None"
| "scan_live (b # bs) p = (if b_live b then Some p else scan_live bs (Suc p))"

definition valid_pos :: "array_data \<Rightarrow> nat \<Rightarrow> nat option" where
  "valid_pos a p =
     (case a_store a of
        Packed vs \<Rightarrow> if p < length vs then Some p else None
      | Hash h \<Rightarrow> scan_live (drop p (hs_entries h)) p)"

text \<open>The downward scan of \<open>valid_pos_back\<close>: the live position below \<open>n\<close> nearest to it.\<close>

fun scan_back :: "'v bucket list \<Rightarrow> nat \<Rightarrow> nat option" where
  "scan_back es 0 = None"
| "scan_back es (Suc p) = (if b_live (es ! p) then Some p else scan_back es p)"

definition valid_pos_back :: "array_data \<Rightarrow> nat \<Rightarrow> nat option" where
  "valid_pos_back a p =
     (case a_store a of
        Packed vs \<Rightarrow> if vs = [] then None else Some (min p (length vs - 1))
      | Hash h \<Rightarrow> if hs_entries h = [] then None
          else scan_back (hs_entries h) (Suc (min p (length (hs_entries h) - 1))))"

definition first_pos :: "array_data \<Rightarrow> nat option" where
  "first_pos a = valid_pos a 0"

definition last_pos :: "array_data \<Rightarrow> nat option" where
  "last_pos a = (if arr_used a = 0 then None else valid_pos_back a (arr_used a - 1))"

definition key_at :: "array_data \<Rightarrow> nat \<Rightarrow> key option" where
  "key_at a p =
     (case a_store a of
        Packed vs \<Rightarrow> if p < length vs then Some (KInt (word_of_nat p)) else None
      | Hash h \<Rightarrow> if p < length (hs_entries h) \<and> b_live (hs_entries h ! p)
          then Some (b_key (hs_entries h ! p)) else None)"

definition entry_at :: "array_data \<Rightarrow> nat \<Rightarrow> (key \<times> val) option" where
  "entry_at a p =
     (case a_store a of
        Packed vs \<Rightarrow> if p < length vs then Some (KInt (word_of_nat p), vs ! p) else None
      | Hash h \<Rightarrow> if p < length (hs_entries h) then
          map_option (\<lambda>v. (b_key (hs_entries h ! p), v)) (b_val (hs_entries h ! p)) else None)"

definition value_at_mut :: "array_data \<Rightarrow> nat \<Rightarrow> array_data \<times> nat option" where
  "value_at_mut a p =
     (note_mut_access a,
      case a_store a of
        Packed vs \<Rightarrow> if p < length vs then Some p else None
      | Hash h \<Rightarrow> if p < length (hs_entries h) \<and> b_live (hs_entries h ! p) then Some p else None)"

definition next_from :: "array_data \<Rightarrow> nat \<Rightarrow> (nat \<times> key \<times> val) option" where
  "next_from a p =
     (case valid_pos a p of None \<Rightarrow> None
      | Some q \<Rightarrow> (case entry_at a q of None \<Rightarrow> None | Some (k, v) \<Rightarrow> Some (q, k, v)))"

text \<open>\<open>Iter::next\<close> until it returns \<open>None\<close>; the fuel bounds the number of steps.\<close>

fun iter_from :: "nat \<Rightarrow> array_data \<Rightarrow> nat \<Rightarrow> (key \<times> val) list" where
  "iter_from 0 a p = []"
| "iter_from (Suc fuel) a p =
     (case next_from a p of None \<Rightarrow> [] | Some (q, k, v) \<Rightarrow> (k, v) # iter_from fuel a (q + 1))"

definition arr_iter :: "array_data \<Rightarrow> (key \<times> val) list" where
  "arr_iter a = iter_from (arr_used a + 1) a 0"

fun max_int_key :: "i64 option \<Rightarrow> (key \<times> val) list \<Rightarrow> i64 option" where
  "max_int_key m [] = m"
| "max_int_key m ((KInt i, _) # es) =
     max_int_key (Some (case m of None \<Rightarrow> i | Some j \<Rightarrow> if j \<le>s i then i else j)) es"
| "max_int_key m ((KStr _, _) # es) = max_int_key m es"

definition recompute_next_index :: "array_data \<Rightarrow> array_data" where
  "recompute_next_index a =
     (case max_int_key None (arr_iter a) of
        None \<Rightarrow> a\<lparr>a_nstate := 0, a_next_free := 0\<rparr>
      | Some m \<Rightarrow>
          (let a = a\<lparr>a_nstate := n_has_int\<rparr> in
           case checked_add m 1 of Some n \<Rightarrow> a\<lparr>a_next_free := n\<rparr>
           | None \<Rightarrow> a\<lparr>a_nstate := a_nstate a OR n_full\<rparr>))"

definition arr_pop :: "array_data \<Rightarrow> array_data \<times> val option" where
  "arr_pop a =
     (case last_pos a of None \<Rightarrow> (a, None)
      | Some p \<Rightarrow>
          (case key_at a p of None \<Rightarrow> (a, None)
           | Some k \<Rightarrow>
               (let (a', v) = arr_remove a k; a' = recompute_next_index a' in (a'\<lparr>a_pos := 0\<rparr>, v))))"

definition arr_clear :: "array_data \<Rightarrow> array_data" where
  "arr_clear a = arr_new"

section \<open>The internal pointer\<close>

definition arr_current :: "array_data \<Rightarrow> val option" where
  "arr_current a =
     (case valid_pos a (a_pos a) of None \<Rightarrow> None | Some p \<Rightarrow> map_option snd (entry_at a p))"

definition current_key :: "array_data \<Rightarrow> key option" where
  "current_key a = (case valid_pos a (a_pos a) of None \<Rightarrow> None | Some p \<Rightarrow> key_at a p)"

definition advance :: "array_data \<Rightarrow> array_data" where
  "advance a =
     (case valid_pos a (a_pos a) of Some p \<Rightarrow> a\<lparr>a_pos := p + 1\<rparr> | None \<Rightarrow> a\<lparr>a_pos := arr_used a\<rparr>)"

definition retreat :: "array_data \<Rightarrow> array_data" where
  "retreat a =
     (case valid_pos a (a_pos a) of
        Some p \<Rightarrow>
          if 0 < p then
            (case valid_pos_back a (p - 1) of Some q \<Rightarrow> a\<lparr>a_pos := q\<rparr> | None \<Rightarrow> a\<lparr>a_pos := arr_used a\<rparr>)
          else a\<lparr>a_pos := arr_used a\<rparr>
      | None \<Rightarrow> a\<lparr>a_pos := arr_used a\<rparr>)"

definition arr_reset :: "array_data \<Rightarrow> array_data" where
  "arr_reset a = a\<lparr>a_pos := (case first_pos a of Some p \<Rightarrow> p | None \<Rightarrow> 0)\<rparr>"

definition arr_end :: "array_data \<Rightarrow> array_data" where
  "arr_end a = a\<lparr>a_pos := (case last_pos a of Some p \<Rightarrow> p | None \<Rightarrow> 0)\<rparr>"

section \<open>Registered iterators\<close>

fun find_iter :: "(u32 \<times> nat) list \<Rightarrow> u32 \<Rightarrow> nat \<Rightarrow> nat option" where
  "find_iter [] iid i = None"
| "find_iter (it # its) iid i = (if fst it = iid then Some i else find_iter its iid (Suc i))"

definition iter_slot :: "array_data \<Rightarrow> u32 \<Rightarrow> array_data \<times> nat" where
  "iter_slot a iid =
     (case find_iter (a_iters a) iid 0 of Some i \<Rightarrow> (a, i)
      | None \<Rightarrow> (a\<lparr>a_iters := a_iters a @ [(iid, 0)]\<rparr>, length (a_iters a)))"

definition iter_pos :: "array_data \<Rightarrow> u32 \<Rightarrow> array_data \<times> nat" where
  "iter_pos a iid = (let (a, i) = iter_slot a iid in (a, snd (a_iters a ! i)))"

definition set_iter_pos :: "array_data \<Rightarrow> u32 \<Rightarrow> nat \<Rightarrow> array_data" where
  "set_iter_pos a iid p =
     (let (a, i) = iter_slot a iid in a\<lparr>a_iters := (a_iters a)[i := (fst (a_iters a ! i), p)]\<rparr>)"

definition iter_release :: "array_data \<Rightarrow> u32 \<Rightarrow> array_data" where
  "iter_release a iid = a\<lparr>a_iters := filter (\<lambda>it. fst it \<noteq> iid) (a_iters a)\<rparr>"

text \<open>The step of a by-reference \<open>foreach\<close>.\<close>

definition iter_next_ref :: "refs \<Rightarrow> array_data \<Rightarrow> u32 \<Rightarrow> refs \<times> array_data \<times> (key \<times> nat) option" where
  "iter_next_ref R a iid =
     (let (a, p0) = iter_pos a iid in
      case valid_pos a p0 of
        None \<Rightarrow> (R, set_iter_pos a iid (arr_used a), None)
      | Some p \<Rightarrow>
          (let a = set_iter_pos a iid (p + 1) in
           case key_at a p of None \<Rightarrow> (R, a, None)
           | Some k \<Rightarrow>
               (let (a, slot) = value_at_mut a p in
                case slot of None \<Rightarrow> (R, a, None)
                | Some q \<Rightarrow> (let (R', new, r) = make_ref R (arr_at a q) in (R', arr_put a q new, Some (k, r))))))"

end
