(* ===== verification/ArrayMap.thy ===== *)
theory ArrayMap
  imports ArrayData
begin

text \<open>
  What an array promises: an ordered association list with a next append index, a cursor for
  the internal pointer and one for each registered iterator, counted in elements.  The lemmas
  show that the operations of \<open>ArrayData\<close> implement the abstract ones on this state, whatever
  the representation, the tombstones and the rebuilding of the index.
\<close>

section \<open>Abstract arrays\<close>

datatype next_state = NoIntKey | NextIs i64 | NextFull

record abs_array =
  ab_list :: "(key \<times> val) list"
  ab_next :: next_state
  ab_cursor :: nat
  ab_iters :: "(u32 \<times> nat) list"

fun key_below :: "next_state \<Rightarrow> i64 \<Rightarrow> bool" where
  "key_below NoIntKey i = False"
| "key_below (NextIs n) i = (i <s n)"
| "key_below NextFull i = True"

fun succ_index :: "i64 \<Rightarrow> next_state" where
  "succ_index i = (case checked_add i 1 of Some n \<Rightarrow> NextIs n | None \<Rightarrow> NextFull)"

definition abs_note :: "i64 \<Rightarrow> next_state \<Rightarrow> next_state" where
  "abs_note i n = (if key_below n i then n else succ_index i)"

definition abs_insert :: "key \<Rightarrow> val \<Rightarrow> abs_array \<Rightarrow> abs_array" where
  "abs_insert k v s = s\<lparr>ab_list := AList.update k v (ab_list s),
     ab_next := (case k of KInt i \<Rightarrow> abs_note i (ab_next s) | KStr _ \<Rightarrow> ab_next s)\<rparr>"

text \<open>A cursor after the removed element moves back by one.\<close>

definition drop_cursor :: "key \<Rightarrow> (key \<times> val) list \<Rightarrow> nat \<Rightarrow> nat" where
  "drop_cursor k es c = (if k \<in> fst ` set (take c es) then c - 1 else c)"

definition abs_remove :: "key \<Rightarrow> abs_array \<Rightarrow> abs_array" where
  "abs_remove k s = s\<lparr>ab_list := AList.delete k (ab_list s),
     ab_cursor := drop_cursor k (ab_list s) (ab_cursor s),
     ab_iters := map (\<lambda>(i, c). (i, drop_cursor k (ab_list s) c)) (ab_iters s)\<rparr>"

section \<open>Abstraction and invariant\<close>

definition a_list :: "array_data \<Rightarrow> (key \<times> val) list" where
  "a_list a = (case a_store a of Packed vs \<Rightarrow> int_keyed 0 vs | Hash h \<Rightarrow> hs_list h)"

definition a_next :: "array_data \<Rightarrow> next_state" where
  "a_next a = (if a_nstate a AND n_full \<noteq> 0 then NextFull
     else if a_nstate a AND n_has_int \<noteq> 0 then NextIs (a_next_free a) else NoIntKey)"

definition a_rank :: "store \<Rightarrow> nat \<Rightarrow> nat" where
  "a_rank s p = (case s of Packed vs \<Rightarrow> min p (length vs) | Hash h \<Rightarrow> live_rank (hs_entries h) p)"

definition abs_arr :: "array_data \<Rightarrow> abs_array" where
  "abs_arr a = \<lparr>ab_list = a_list a, ab_next = a_next a, ab_cursor = a_rank (a_store a) (a_pos a),
     ab_iters = map (\<lambda>(i, p). (i, a_rank (a_store a) p)) (a_iters a)\<rparr>"

definition store_inv :: "store \<Rightarrow> bool" where
  "store_inv s = (case s of Packed vs \<Rightarrow> length vs < max_entries | Hash h \<Rightarrow> hs_inv h)"

definition nstate_ok :: "array_data \<Rightarrow> bool" where
  "nstate_ok a \<longleftrightarrow> a_nstate a \<in> {0, 1, 3}"

definition keys_below :: "array_data \<Rightarrow> bool" where
  "keys_below a \<longleftrightarrow> (\<forall>i. KInt i \<in> fst ` set (a_list a) \<longrightarrow> key_below (a_next a) i)"

definition pos_ok :: "array_data \<Rightarrow> bool" where
  "pos_ok a \<longleftrightarrow> a_pos a \<le> arr_used a \<and> (\<forall>it \<in> set (a_iters a). snd it \<le> arr_used a)"

definition arr_inv :: "array_data \<Rightarrow> bool" where
  "arr_inv a \<longleftrightarrow> store_inv (a_store a) \<and> nstate_ok a \<and> keys_below a \<and> pos_ok a"

definition arr_room :: "nat \<Rightarrow> array_data \<Rightarrow> bool" where
  "arr_room n a \<longleftrightarrow> arr_used a + n < max_entries"

lemmas array_defs = a_list_def a_next_def abs_arr_def arr_inv_def store_inv_def nstate_ok_def
  keys_below_def pos_ok_def arr_used_def

lemma arr_new_ok: "arr_inv arr_new" "abs_arr arr_new = \<lparr>ab_list = [], ab_next = NoIntKey, ab_cursor = 0, ab_iters = []\<rparr>"
  by (simp_all add: array_defs arr_new_def max_entries_def a_rank_def n_full_def n_has_int_def)

text \<open>The parts an operation leaves alone.\<close>

lemma note_value_simps [simp]:
  "a_store (note_value a v) = a_store a" "a_next_free (note_value a v) = a_next_free a"
  "a_nstate (note_value a v) = a_nstate a" "a_pos (note_value a v) = a_pos a"
  "a_iters (note_value a v) = a_iters a" "next_index (note_value a v) = next_index a"
  "abs_arr (note_value a v) = abs_arr a" "arr_inv (note_value a v) = arr_inv a"
  "arr_used (note_value a v) = arr_used a" "arr_room n (note_value a v) = arr_room n a"
  by (simp_all add: note_value_def array_defs arr_room_def next_index_def)

lemma note_mut_access_simps [simp]:
  "a_store (note_mut_access a) = a_store a" "a_next_free (note_mut_access a) = a_next_free a"
  "a_nstate (note_mut_access a) = a_nstate a" "a_pos (note_mut_access a) = a_pos a"
  "a_iters (note_mut_access a) = a_iters a" "next_index (note_mut_access a) = next_index a"
  "abs_arr (note_mut_access a) = abs_arr a" "arr_inv (note_mut_access a) = arr_inv a"
  "arr_used (note_mut_access a) = arr_used a" "arr_room n (note_mut_access a) = arr_room n a"
  by (simp_all add: note_mut_access_def array_defs arr_room_def next_index_def)

lemma next_index_a_next:
  "next_index a = (case a_next a of NoIntKey \<Rightarrow> Some 0 | NextIs n \<Rightarrow> Some n | NextFull \<Rightarrow> None)"
  by (simp add: next_index_def a_next_def)

section \<open>The next append index\<close>

lemma nstate_cases:
  assumes "nstate_ok a"
  obtains "a_nstate a = 0" "a_next a = NoIntKey" | "a_nstate a = 1" "a_next a = NextIs (a_next_free a)"
    | "a_nstate a = 3" "a_next a = NextFull"
  using assms by (auto simp: nstate_ok_def a_next_def n_full_def n_has_int_def)

lemma note_int_key_frame [simp]:
  "a_store (note_int_key a k) = a_store a" "a_pos (note_int_key a k) = a_pos a"
  "a_iters (note_int_key a k) = a_iters a" "a_flags (note_int_key a k) = a_flags a"
  "a_list (note_int_key a k) = a_list a" "arr_used (note_int_key a k) = arr_used a"
  by (simp_all add: note_int_key_def Let_def a_list_def arr_used_def split: option.split)

lemma note_int_key_next:
  assumes "nstate_ok a"
  shows "a_next (note_int_key a k) = abs_note k (a_next a)" "nstate_ok (note_int_key a k)"
  using assms
  by (cases rule: nstate_cases;
      auto simp: note_int_key_def Let_def n_has_int_def n_full_def abs_note_def a_next_def nstate_ok_def
        word_sle_eq word_sless_alt split: option.split)+

text \<open>Noting a key puts every smaller key, and the key itself, below the next index.\<close>

lemma key_below_mono: "key_below n j \<Longrightarrow> i \<le>s j \<Longrightarrow> key_below n i"
  by (cases n) (auto simp: word_sle_eq word_sless_alt)

lemma abs_note_below: "i \<le>s k \<Longrightarrow> key_below (abs_note k n) i" "key_below n i \<Longrightarrow> key_below (abs_note k n) i"
proof -
  have succ: "key_below (succ_index k) i" if "i \<le>s k"
    using that by (auto simp: checked_add_def i64_simps word_sle_eq word_sless_alt split: option.split)
  show "i \<le>s k \<Longrightarrow> key_below (abs_note k n) i"
    using succ key_below_mono by (auto simp: abs_note_def)
  show "key_below n i \<Longrightarrow> key_below (abs_note k n) i"
  proof (cases "key_below n k")
    case False
    assume "key_below n i"
    then have "i \<le>s k"
      using False by (cases n) (auto simp: word_sle_eq word_sless_alt)
    then show ?thesis using False succ by (simp add: abs_note_def)
  qed (simp add: abs_note_def)
qed

section \<open>Ranks\<close>

text \<open>The elements before a position.\<close>

definition a_before :: "store \<Rightarrow> nat \<Rightarrow> (key \<times> val) list" where
  "a_before s p = (case s of Packed vs \<Rightarrow> int_keyed 0 (take p vs) | Hash h \<Rightarrow> live_list (take p (hs_entries h)))"

lemma length_a_before: "length (a_before s p) = a_rank s p"
  by (cases s) (simp_all add: a_before_def a_rank_def live_rank_def)

lemma take_a_rank: "take (a_rank (a_store a) p) (a_list a) = a_before (a_store a) p"
proof (cases "a_store a")
  case (Packed vs)
  have "int_keyed 0 (take p vs @ drop p vs) = int_keyed 0 (take p vs) @ int_keyed (0 + length (take p vs)) (drop p vs)"
    by (rule int_keyed_append)
  then show ?thesis
    unfolding length_a_before [symmetric] by (simp add: Packed a_before_def a_list_def)
next
  case (Hash h)
  have "hs_list h = live_list (take p (hs_entries h)) @ live_list (drop p (hs_entries h))"
    unfolding hs_list_def live_list_simps(2) [symmetric] by simp
  then show ?thesis
    unfolding length_a_before [symmetric] by (simp add: Hash a_before_def a_list_def)
qed

lemma a_rank_le: "a_rank (a_store a) p \<le> length (a_list a)"
  by (cases "a_store a") (simp_all add: a_rank_def a_list_def hs_list_def live_rank_le)

lemma a_rank_0 [simp]: "a_rank s 0 = 0"
  by (cases s) (simp_all add: a_rank_def live_rank_def)

lemma a_rank_used: "arr_used a \<le> p \<Longrightarrow> a_rank (a_store a) p = length (a_list a)"
  by (cases "a_store a") (simp_all add: a_rank_def a_list_def arr_used_def hs_list_def live_rank_all)

lemma rank_remap: "q \<le> length es \<Longrightarrow> live_rank (filter b_live es) (live_rank es q) = live_rank es q"
  using live_rank_no_holes [of "filter b_live es" "live_rank es q"] live_rank_le [of es q] by simp

section \<open>Changing the representation\<close>

lemma live_rank_int_buckets [simp]: "live_rank (int_buckets 0 vs) p = min p (length vs)"
  using live_rank_no_holes [of "int_buckets 0 vs" p] by simp

lemma hs_entries_of_list [simp]: "hs_entries (hs_of_list vs extra) = int_buckets 0 vs"
  by (simp add: hs_of_list_def Let_def)

lemma convert_to_hash_frame [simp]:
  "a_next_free (convert_to_hash a n) = a_next_free a" "a_nstate (convert_to_hash a n) = a_nstate a"
  "a_pos (convert_to_hash a n) = a_pos a" "a_iters (convert_to_hash a n) = a_iters a"
  "a_flags (convert_to_hash a n) = a_flags a" "arr_used (convert_to_hash a n) = arr_used a"
  by (simp_all add: convert_to_hash_def arr_used_def split: store.split)

lemma convert_to_hash_rank [simp]: "a_rank (a_store (convert_to_hash a n)) p = a_rank (a_store a) p"
  by (cases "a_store a") (simp_all add: convert_to_hash_def a_rank_def)

lemma convert_to_hash_ok:
  assumes "arr_inv a"
  shows "arr_inv (convert_to_hash a n)" "abs_arr (convert_to_hash a n) = abs_arr a"
    "\<exists>h. a_store (convert_to_hash a n) = Hash h"
proof -
  have si: "store_inv (a_store (convert_to_hash a n)) \<and> a_list (convert_to_hash a n) = a_list a"
    using assms
    by (cases "a_store a") (simp_all add: convert_to_hash_def store_inv_def a_list_def arr_inv_def hs_of_list_ok)
  have nx: "a_next (convert_to_hash a n) = a_next a" by (simp add: a_next_def)
  show "arr_inv (convert_to_hash a n)"
    using assms si by (simp add: arr_inv_def nstate_ok_def keys_below_def pos_ok_def nx)
  show "abs_arr (convert_to_hash a n) = abs_arr a"
    using si by (simp add: abs_arr_def nx)
  show "\<exists>h. a_store (convert_to_hash a n) = Hash h"
    by (cases "a_store a") (simp_all add: convert_to_hash_def)
qed

text \<open>Room for one more entry is made without changing what the array holds or points at.\<close>

lemma live_le_entries: "hs_inv h \<Longrightarrow> hs_live h \<le> length (hs_entries h)"
  by (simp add: hs_inv_def)

lemma hs_limit_ge: "hs_inv h \<Longrightarrow> length (hs_entries h) \<le> hs_limit h"
  by (auto simp: hs_inv_def hs_limit_def split: if_splits)

lemma apply_remap_rebuild:
  assumes inv: "hs_inv h" and st: "a_store a = Hash h" and pos: "pos_ok a"
    and rb: "hs_rebuild h n = (h', remap)"
  defines "a' \<equiv> apply_remap (a\<lparr>a_store := Hash h'\<rparr>) remap"
  shows "a_store a' = Hash h'" "a_next a' = a_next a" "a_nstate a' = a_nstate a" "pos_ok a'"
    "ab_cursor (abs_arr a') = ab_cursor (abs_arr a)" "ab_iters (abs_arr a') = ab_iters (abs_arr a)"
proof -
  define es where "es = hs_entries h"
  have e: "hs_entries h' = filter b_live es"
    "remap = (if filter b_live es = es then None else Some (remap_scan 0 es))"
    using hs_rebuild_entries [OF inv, of n] rb by (simp_all add: es_def)
  show "a_store a' = Hash h'" "a_next a' = a_next a" "a_nstate a' = a_nstate a"
    by (simp_all add: a'_def apply_remap_def a_next_def Let_def split: option.split)
  have le: "a_pos a \<le> length es" "\<forall>it \<in> set (a_iters a). snd it \<le> length es"
    using pos st by (simp_all add: pos_ok_def arr_used_def es_def)
  have "pos_ok a' \<and> ab_cursor (abs_arr a') = ab_cursor (abs_arr a) \<and> ab_iters (abs_arr a') = ab_iters (abs_arr a)"
  proof (cases "filter b_live es = es")
    case True
    then show ?thesis
      using st pos e by (simp add: a'_def apply_remap_def abs_arr_def a_rank_def pos_ok_def arr_used_def es_def)
  next
    case False
    have m: "remap_scan 0 es ! min p (length es) = live_rank es p" if "p \<le> length es" for p
      using that by (simp add: remap_scan_nth min_absorb1)
    have a': "a_pos a' = live_rank es (a_pos a)" "a_iters a' = map (\<lambda>(i, p). (i, live_rank es p)) (a_iters a)"
      using False le m by (auto simp: a'_def apply_remap_def e Let_def)
    have "\<forall>it \<in> set (a_iters a). live_rank (filter b_live es) (live_rank es (snd it)) = live_rank es (snd it)"
      using le(2) rank_remap by blast
    then show ?thesis
      using st le rank_remap [of "a_pos a" es] \<open>a_store a' = Hash h'\<close> live_rank_le [of es]
      by (auto simp: abs_arr_def a_rank_def pos_ok_def arr_used_def a' e es_def [symmetric])
  qed
  then show "pos_ok a'" "ab_cursor (abs_arr a') = ab_cursor (abs_arr a)" "ab_iters (abs_arr a') = ab_iters (abs_arr a)"
    by blast+
qed

lemma hash_reserve_one_ok:
  assumes inv: "arr_inv a" and st: "a_store a = Hash h"
  obtains h' where "a_store (hash_reserve_one a) = Hash h'" "arr_inv (hash_reserve_one a)"
    "abs_arr (hash_reserve_one a) = abs_arr a" "length (hs_entries h') < hs_limit h'"
    "length (hs_entries h') \<le> length (hs_entries h)"
proof (cases "length (hs_entries h) < hs_limit h")
  case True
  then show ?thesis using that [of h] inv st by (simp add: hash_reserve_one_def)
next
  case False
  have hi: "hs_inv h" using inv st by (simp add: arr_inv_def store_inv_def)
  define target where "target = (if hs_live h * 2 \<le> length (hs_entries h) then hs_live h + 1 else hs_limit h * 2)"
  obtain h' remap where rb: "hs_rebuild h target = (h', remap)" by fastforce
  have eq: "hash_reserve_one a = apply_remap (a\<lparr>a_store := Hash h'\<rparr>) remap"
    using False st rb by (simp add: hash_reserve_one_def target_def [symmetric] Let_def)
  have pos: "pos_ok a" using inv by (simp add: arr_inv_def)
  note r = apply_remap_rebuild [OF hi st pos rb, folded eq]
  have ok: "hs_inv h'" "hs_list h' = hs_list h" "max target (length (hs_list h)) \<le> hs_limit h'"
    using hs_rebuild_ok [OF hi, of target] by (simp_all add: rb)
  have len: "length (hs_entries h') = hs_live h" "hs_live h \<le> length (hs_entries h)"
    using hs_rebuild_entries [OF hi, of target] hi by (simp_all add: rb hs_inv_def)
  have "hs_live h < target"
    using False live_le_entries [OF hi] hs_limit_ge [OF hi] by (auto simp: target_def)
  then have room: "length (hs_entries h') < hs_limit h'" using ok(3) len by simp
  have "a_list (hash_reserve_one a) = a_list a" using r(1) st ok(2) by (simp add: a_list_def)
  then have abs: "abs_arr (hash_reserve_one a) = abs_arr a"
    using r(2,5,6) by (simp add: abs_arr_def)
  have "arr_inv (hash_reserve_one a)"
    using inv r(1-4) ok(1) \<open>a_list (hash_reserve_one a) = a_list a\<close>
    by (simp add: arr_inv_def store_inv_def nstate_ok_def keys_below_def)
  with that [of h'] r(1) abs room len show ?thesis by simp
qed

section \<open>Insertion\<close>

lemma hs_find_cases:
  assumes "hs_inv h"
  obtains p where "hs_find h k (bucket_hash k) = Some p" "live_pos (hs_entries h) k p"
      "map_of (hs_list h) k = b_val (hs_entries h ! p)" "b_val (hs_entries h ! p) \<noteq> None"
    | "hs_find h k (bucket_hash k) = None" "map_of (hs_list h) k = None" "k \<notin> fst ` set (hs_list h)"
proof (cases "hs_find h k (bucket_hash k)")
  case None
  then have "\<forall>i. \<not> live_pos (hs_entries h) k i" using hs_find_None [OF assms] by blast
  then have "map_of (hs_list h) k = None" unfolding hs_list_def by (simp only: no_live_pos_map_of)
  with None that(2) show ?thesis by (simp add: map_of_eq_None_iff)
next
  case (Some p)
  then have lp: "live_pos (hs_entries h) k p" using hs_find_iff [OF assms] by blast
  have "map_of (hs_list h) k = b_val (hs_entries h ! p)"
    unfolding hs_list_def by (rule live_pos_map_of [OF lp hs_inv_D(2) [OF assms]])
  with Some lp that(1) show ?thesis by (simp add: live_pos_def b_live_def)
qed

text \<open>Writing a live entry keeps the ranks.\<close>

lemma live_rank_set:
  assumes "live_pos (hs_entries h) k p"
  shows "live_rank (hs_entries (hs_set h p v)) q = live_rank (hs_entries h) q"
proof -
  have p: "p < length (hs_entries h)" "b_live (hs_entries h ! p)" using assms by (simp_all add: live_pos_def)
  have filt: "length (filter b_live (xs[i := b])) = length (filter b_live xs)"
    if "i < length xs \<longrightarrow> b_live (xs ! i)" "b_live b" for xs :: "'a bucket list" and i b
    using that by (induction xs arbitrary: i) (auto split: nat.split)
  show ?thesis
    unfolding live_rank_def hs_set_def using p
    by (simp add: take_update_swap filt)
qed

lemma keys_below_update:
  assumes "keys_below a" "a_list a' = AList.update k v (a_list a)" "a_next a' = a_next a"
    "\<And>i. k = KInt i \<Longrightarrow> key_below (a_next a) i"
  shows "keys_below a'"
  using assms unfolding keys_below_def by (auto simp: AList.dom_update)

text \<open>The position of a key: where a reference to its element points.\<close>

definition key_pos :: "array_data \<Rightarrow> key \<Rightarrow> nat \<Rightarrow> bool" where
  "key_pos a k p \<longleftrightarrow> (case a_store a of
      Packed vs \<Rightarrow> p < length vs \<and> k = KInt (word_of_nat p)
    | Hash h \<Rightarrow> live_pos (hs_entries h) k p)"

lemma live_rank_push: "p \<le> length es \<Longrightarrow> live_rank (es @ [b]) p = live_rank es p"
  by (simp add: live_rank_def)

lemma hash_set_ok:
  fixes v
  assumes inv: "arr_inv a" and st: "a_store a = Hash h" and lp: "live_pos (hs_entries h) k p"
  defines "a' \<equiv> a\<lparr>a_store := Hash (hs_set h p v)\<rparr>"
  shows "arr_inv a'" "abs_arr a' = (abs_arr a)\<lparr>ab_list := AList.update k v (a_list a)\<rparr>" "arr_used a' = arr_used a"
proof -
  have hi: "hs_inv h" using inv st by (simp add: arr_inv_def store_inv_def)
  note ok = hs_set_ok [OF hi lp, of v]
  have l: "a_list a = hs_list h" "a_list a' = AList.update k v (a_list a)"
    using st ok(2) by (simp_all add: a_list_def a'_def)
  have u: "arr_used a' = arr_used a" using st by (simp add: arr_used_def a'_def hs_set_def)
  have n: "a_next a' = a_next a" by (simp add: a_next_def a'_def)
  have rank: "a_rank (a_store a') q = a_rank (a_store a) q" for q
    using st live_rank_set [OF lp] by (simp add: a_rank_def a'_def)
  have "k \<in> fst ` set (a_list a)"
    using lp by (auto simp: l hs_list_def fst_set_live_list live_pos_def)
  then have "keys_below a'"
    using inv l(2) n by (intro keys_below_update [of a a' k v]) (auto simp: arr_inv_def keys_below_def)
  then show "arr_inv a'"
    using inv ok(1) u by (simp add: arr_inv_def store_inv_def nstate_ok_def pos_ok_def a'_def)
  show "abs_arr a' = (abs_arr a)\<lparr>ab_list := AList.update k v (a_list a)\<rparr>"
    using l(2) n rank by (simp add: abs_arr_def) (simp add: a'_def)
  show "arr_used a' = arr_used a" by (rule u)
qed

lemma hash_insert_new_ok:
  assumes inv: "arr_inv a" and st: "a_store a = Hash h" and new: "k \<notin> fst ` set (a_list a)"
    and key: "\<And>i. k = KInt i \<Longrightarrow> key_below (a_next a) i" and room: "arr_room 1 a"
    and eq: "hash_insert_new a k (bucket_hash k) v = (a', p)"
  shows "arr_inv a'" "abs_arr a' = (abs_arr a)\<lparr>ab_list := AList.update k v (a_list a)\<rparr>"
    "arr_used a' \<le> Suc (arr_used a)" "key_pos a' k p"
proof -
  define b where "b = hash_reserve_one a"
  obtain h' where b: "a_store b = Hash h'" "arr_inv b" "abs_arr b = abs_arr a"
    "length (hs_entries h') < hs_limit h'" "length (hs_entries h') \<le> length (hs_entries h)"
    using hash_reserve_one_ok [OF inv st] unfolding b_def by blast
  have lists: "a_list b = a_list a" "a_next b = a_next a" "a_list b = hs_list h'"
    using b(1,3) by (simp_all add: abs_arr_def) (simp add: a_list_def)
  have used: "length (hs_entries h) = arr_used a" using st by (simp add: arr_used_def)
  have a': "a' = b\<lparr>a_store := Hash (hs_push h' k (bucket_hash k) v)\<rparr>" "p = length (hs_entries h')"
    using eq b(1) by (simp_all add: hash_insert_new_def b_def [symmetric])
  have "hs_inv h'" using b(1,2) by (simp add: arr_inv_def store_inv_def)
  moreover have "k \<notin> fst ` set (hs_list h')" using new lists by simp
  moreover have "Suc (length (hs_entries h')) < max_entries"
    using room b(5) used by (simp add: arr_room_def)
  ultimately have hs: "hs_inv h'" "k \<notin> fst ` set (hs_list h')" "Suc (length (hs_entries h')) < max_entries" .
  note ok = hs_push_ok [OF hs(1,2) b(4) hs(3), of v]
  have nb: "a_next a' = a_next b" by (simp add: a' a_next_def)
  have "a_list a' = hs_list (hs_push h' k (bucket_hash k) v)" by (simp add: a' a_list_def)
  with nb have l: "a_list a' = AList.update k v (a_list a)" "a_next a' = a_next b"
    using ok(2) lists by simp_all
  have u: "arr_used a' = Suc (length (hs_entries h'))" "arr_used b = length (hs_entries h')"
    using b(1) by (simp_all add: a' arr_used_def hs_push_def)
  have rank: "a_rank (a_store a') q = a_rank (a_store b) q" if "q \<le> arr_used b" for q
    using that b(1) u(2) by (simp add: a_rank_def a' hs_push_def live_rank_push)
  have pos: "pos_ok b" using b(2) by (simp add: arr_inv_def)
  have kb: "keys_below a'"
    by (rule keys_below_update [of b]) (use b(2) l lists key in \<open>simp_all add: arr_inv_def\<close>)
  show "arr_inv a'"
    using b(2) ok(1) u kb pos by (auto simp: arr_inv_def store_inv_def nstate_ok_def pos_ok_def a')
  show "abs_arr a' = (abs_arr a)\<lparr>ab_list := AList.update k v (a_list a)\<rparr>"
    unfolding b(3) [symmetric] using l pos rank by (auto simp: abs_arr_def pos_ok_def) (auto simp: a')
  show "arr_used a' \<le> Suc (arr_used a)" using u b(5) used by simp
  show "key_pos a' k p" by (simp add: key_pos_def a' live_pos_def hs_push_def)
qed

lemma hash_insert_ok:
  assumes inv: "arr_inv a" and st: "a_store a = Hash h"
    and key: "\<And>i. k = KInt i \<Longrightarrow> key_below (a_next a) i" and room: "arr_room 1 a"
    and eq: "hash_insert a k v = (a', old)"
  shows "arr_inv a'" "abs_arr a' = (abs_arr a)\<lparr>ab_list := AList.update k v (a_list a)\<rparr>"
    "old = map_of (a_list a) k" "arr_used a' \<le> Suc (arr_used a)"
proof -
  have hi: "hs_inv h" using inv st by (simp add: arr_inv_def store_inv_def)
  have l: "a_list a = hs_list h" using st by (simp add: a_list_def)
  have "arr_inv a' \<and> abs_arr a' = (abs_arr a)\<lparr>ab_list := AList.update k v (a_list a)\<rparr>
    \<and> old = map_of (a_list a) k \<and> arr_used a' \<le> Suc (arr_used a)"
  proof (cases rule: hs_find_cases [OF hi, of k])
    case (1 p)
    then have "a' = a\<lparr>a_store := Hash (hs_set h p v)\<rparr>" "old = map_of (a_list a) k"
      using eq st l by (simp_all add: hash_insert_def)
    with hash_set_ok [OF inv st 1(2), of v] show ?thesis by simp
  next
    case 2
    obtain b q where new: "hash_insert_new a k (bucket_hash k) v = (b, q)" by fastforce
    then have "a' = b" "old = None" using 2 eq st by (simp_all add: hash_insert_def)
    with hash_insert_new_ok [OF inv st _ key room new] 2 l show ?thesis by simp
  qed
  then show "arr_inv a'" "abs_arr a' = (abs_arr a)\<lparr>ab_list := AList.update k v (a_list a)\<rparr>"
    "old = map_of (a_list a) k" "arr_used a' \<le> Suc (arr_used a)" by blast+
qed

subsection \<open>Packed arrays\<close>

lemma fst_int_keyed: "fst ` set (int_keyed 0 vs) = (\<lambda>n. KInt (word_of_nat n)) ` {..<length vs}"
proof -
  have "fst ` set (int_keyed 0 vs) = set (map fst (int_keyed 0 vs))" by simp
  also have "\<dots> = (\<lambda>n. KInt (word_of_nat n)) ` set [0..<0 + length vs]" by (simp only: keys_int_keyed set_map)
  finally show ?thesis by (simp add: atLeast0LessThan)
qed

lemma word_of_unat: "word_of_nat (unat i) = (i :: i64)"
  by simp

lemma KInt_in_packed:
  assumes "length vs < max_entries"
  shows "KInt i \<in> fst ` set (int_keyed 0 vs) \<longleftrightarrow> unat i < length vs"
proof
  assume "KInt i \<in> fst ` set (int_keyed 0 vs)"
  then obtain n where "n < length vs" "i = word_of_nat n" unfolding fst_int_keyed by auto
  then show "unat i < length vs" using assms by (simp add: max_entries_def unat_of_nat_u64)
next
  assume "unat i < length vs"
  then have "KInt (word_of_nat (unat i)) \<in> fst ` set (int_keyed 0 vs)" unfolding fst_int_keyed by blast
  then show "KInt i \<in> fst ` set (int_keyed 0 vs)" by simp
qed

lemma KStr_not_in_packed: "KStr s \<notin> fst ` set (int_keyed 0 vs)"
  unfolding fst_int_keyed by auto

lemma map_of_packed:
  assumes "length vs < max_entries"
  shows "map_of (int_keyed 0 vs) (KInt i) = (if unat i < length vs then Some (vs ! unat i) else None)"
    "map_of (int_keyed 0 vs) (KStr s) = None"
proof -
  show "map_of (int_keyed 0 vs) (KStr s) = None" by (simp only: map_of_eq_None_iff KStr_not_in_packed not_False_eq_True)
  have d: "distinct (map fst (int_keyed 0 vs))"
    using assms by (intro distinct_int_keyed) (simp add: max_entries_def)
  show "map_of (int_keyed 0 vs) (KInt i) = (if unat i < length vs then Some (vs ! unat i) else None)"
  proof (cases "unat i < length vs")
    case True
    then have "int_keyed 0 vs ! unat i = (KInt i, vs ! unat i)" by (simp add: int_keyed_nth)
    then have "(KInt i, vs ! unat i) \<in> set (int_keyed 0 vs)"
      using True nth_mem [of "unat i" "int_keyed 0 vs"] by simp
    with True show ?thesis by (simp add: map_of_is_SomeI [OF d])
  next
    case False
    then have "KInt i \<notin> fst ` set (int_keyed 0 vs)" using KInt_in_packed [OF assms] by blast
    with False show ?thesis by (simp only: map_of_eq_None_iff if_False not_False_eq_True)
  qed
qed

lemma update_packed:
  assumes "length vs < max_entries" "unat i < length vs"
  shows "AList.update (KInt i) v (int_keyed 0 vs) = int_keyed 0 (vs[unat i := v])"
proof -
  have len: "unat i < max_entries" using assms by linarith
  then have lt: "length (take (unat i) vs) < max_entries" by simp
  have "\<not> unat i < length (take (unat i) vs)" by simp
  then have k: "KInt i \<notin> fst ` set (int_keyed 0 (take (unat i) vs))"
    using KInt_in_packed [OF lt, of i] by blast
  have l: "length (take (unat i) vs) = unat i" using assms(2) by simp
  have "int_keyed 0 (take (unat i) vs @ w # drop (Suc (unat i)) vs)
      = int_keyed 0 (take (unat i) vs) @ (KInt i, w) # int_keyed (Suc (unat i)) (drop (Suc (unat i)) vs)" for w
    unfolding int_keyed_append l by simp
  then show ?thesis
    using id_take_nth_drop [OF assms(2)] upd_conv_take_nth_drop [OF assms(2), of v] update_at [OF k] by metis
qed

lemma update_packed_push:
  assumes "length vs < max_entries" "unat i = length vs"
  shows "AList.update (KInt i) v (int_keyed 0 vs) = int_keyed 0 (vs @ [v])"
proof -
  have "KInt i \<notin> fst ` set (int_keyed 0 vs)" using KInt_in_packed [OF assms(1), of i] assms(2) by simp
  moreover have "word_of_nat (length vs) = i" using assms(2) by (metis word_of_unat)
  ultimately show ?thesis by (simp add: update_absent int_keyed_append)
qed

lemma arr_get_spec:
  assumes "arr_inv a"
  shows "arr_get a k = map_of (a_list a) k"
proof (cases "a_store a")
  case (Packed vs)
  then have "length vs < max_entries" using assms by (simp add: arr_inv_def store_inv_def)
  with Packed show ?thesis
    by (cases k) (simp_all add: arr_get_def arr_get_int_def arr_get_str_def a_list_def map_of_packed)
next
  case (Hash h)
  then have hi: "hs_inv h" using assms by (simp add: arr_inv_def store_inv_def)
  have "arr_get a k = (case hs_find h k (bucket_hash k) of None \<Rightarrow> None | Some p \<Rightarrow> b_val (hs_entries h ! p))"
    by (cases k) (simp_all add: Hash arr_get_def arr_get_int_def arr_get_str_def bucket_hash_def)
  then show ?thesis
    by (cases rule: hs_find_cases [OF hi, of k]) (simp_all add: Hash a_list_def)
qed

subsection \<open>The refinement of insertion\<close>

lemma abs_note_present: "key_below n i \<Longrightarrow> abs_note i n = n"
  by (simp add: abs_note_def)

lemma note_int_key_ok:
  assumes "arr_inv a"
  shows "arr_inv (note_int_key a i)" "abs_arr (note_int_key a i) = (abs_arr a)\<lparr>ab_next := abs_note i (a_next a)\<rparr>"
    "key_below (a_next (note_int_key a i)) i"
proof -
  have ns: "nstate_ok a" using assms by (simp add: arr_inv_def)
  note nx = note_int_key_next [OF ns, of i]
  have i: "i \<le>s i" by (simp add: word_sle_eq)
  show "key_below (a_next (note_int_key a i)) i" unfolding nx by (rule abs_note_below(1) [OF i])
  have "keys_below (note_int_key a i)"
    using assms by (auto simp: arr_inv_def keys_below_def nx(1) intro: abs_note_below(2))
  then show "arr_inv (note_int_key a i)" using assms nx(2) by (simp add: arr_inv_def pos_ok_def)
  show "abs_arr (note_int_key a i) = (abs_arr a)\<lparr>ab_next := abs_note i (a_next a)\<rparr>"
    by (simp add: abs_arr_def nx(1))
qed

lemma abs_arr_sel: "ab_list (abs_arr a) = a_list a" "ab_next (abs_arr a) = a_next a"
  by (simp_all add: abs_arr_def)

text \<open>Converting to the hash form, noting the key and inserting there.\<close>

lemma convert_insert_ok:
  assumes inv: "arr_inv a" and room: "arr_room 1 a"
    and eq: "hash_insert (case k of KInt i \<Rightarrow> note_int_key (convert_to_hash a n) i | KStr _ \<Rightarrow> convert_to_hash a n) k v
      = (a', old)"
  shows "arr_inv a' \<and> abs_arr a' = abs_insert k v (abs_arr a) \<and> old = map_of (a_list a) k
    \<and> arr_used a' \<le> Suc (arr_used a)"
proof -
  define c where "c = convert_to_hash a n"
  define b where "b = (case k of KInt i \<Rightarrow> note_int_key c i | KStr _ \<Rightarrow> c)"
  note c = convert_to_hash_ok [OF inv, of n, folded c_def]
  obtain h where h: "a_store b = Hash h" using c(3) by (cases k) (auto simp: b_def)
  have binv: "arr_inv b" using c(1) note_int_key_ok(1) by (cases k) (simp_all add: b_def)
  have key: "key_below (a_next b) i" if "k = KInt i" for i
    using that note_int_key_ok(3) [OF c(1)] by (simp add: b_def)
  have used: "arr_used b = arr_used a" by (cases k) (simp_all add: b_def c_def)
  then have room': "arr_room 1 b" using room by (simp add: arr_room_def)
  have eq': "hash_insert b k v = (a', old)" using eq by (simp only: b_def c_def)
  note ok = hash_insert_ok [OF binv h key room' eq']
  have lists: "a_list c = a_list a" "a_next c = a_next a"
    using c(2) by (simp_all add: abs_arr_def)
  have bl: "a_list b = a_list a" using lists by (cases k) (simp_all add: b_def)
  have "(abs_arr b)\<lparr>ab_list := AList.update k v (a_list b)\<rparr> = abs_insert k v (abs_arr a)"
  proof (cases k)
    case (KInt i)
    then have "abs_arr b = (abs_arr a)\<lparr>ab_next := abs_note i (a_next a)\<rparr>"
      using note_int_key_ok(2) [OF c(1)] c(2) lists by (simp add: b_def)
    then show ?thesis using KInt bl by (simp add: abs_insert_def abs_arr_sel)
  next
    case (KStr s)
    then show ?thesis using c(2) bl by (simp add: b_def abs_insert_def abs_arr_sel)
  qed
  then show ?thesis using ok used bl by simp
qed

lemma packed_write_ok:
  assumes inv: "arr_inv a" and st: "a_store a = Packed vs" and i: "unat i < length vs"
  shows "arr_inv (a\<lparr>a_store := Packed (vs[unat i := v])\<rparr>)"
    "abs_arr (a\<lparr>a_store := Packed (vs[unat i := v])\<rparr>) = abs_insert (KInt i) v (abs_arr a)"
proof -
  let ?b = "a\<lparr>a_store := Packed (vs[unat i := v])\<rparr>"
  have len: "length vs < max_entries" using inv st by (simp add: arr_inv_def store_inv_def)
  have mem: "KInt i \<in> fst ` set (a_list a)" using KInt_in_packed [OF len] i st by (simp add: a_list_def)
  then have kb: "key_below (a_next a) i" using inv by (auto simp: arr_inv_def keys_below_def)
  have nx: "a_next ?b = a_next a" by (simp add: a_next_def)
  have l: "a_list ?b = AList.update (KInt i) v (a_list a)"
    using update_packed [OF len i, of v] st by (simp add: a_list_def)
  have r: "a_rank (a_store ?b) p = a_rank (a_store a) p" for p by (simp add: a_rank_def st)
  have u: "arr_used ?b = arr_used a" by (simp add: arr_used_def st)
  have "keys_below ?b"
    by (rule keys_below_update [OF _ l nx]) (use inv kb in \<open>simp_all add: arr_inv_def\<close>)
  then show "arr_inv ?b" using inv len u by (simp add: arr_inv_def store_inv_def nstate_ok_def pos_ok_def)
  show "abs_arr ?b = abs_insert (KInt i) v (abs_arr a)"
    using l nx r kb by (simp add: abs_arr_def abs_insert_def abs_note_present)
qed

lemma packed_push_ok:
  fixes v
  assumes inv: "arr_inv a" and st: "a_store a = Packed vs" and i: "unat i = length vs" and room: "arr_room 1 a"
  defines "b \<equiv> note_int_key (a\<lparr>a_store := Packed (vs @ [v])\<rparr>) i"
  shows "arr_inv b" "abs_arr b = abs_insert (KInt i) v (abs_arr a)" "arr_used b = Suc (arr_used a)"
proof -
  let ?c = "a\<lparr>a_store := Packed (vs @ [v])\<rparr>"
  have len: "length vs < max_entries" "Suc (length vs) < max_entries"
    using inv st room by (simp_all add: arr_inv_def store_inv_def arr_room_def arr_used_def)
  have ns: "nstate_ok ?c" using inv by (simp add: arr_inv_def nstate_ok_def)
  note nx = note_int_key_next [OF ns, of i]
  have cn: "a_next ?c = a_next a" by (simp add: a_next_def)
  have l: "a_list b = AList.update (KInt i) v (a_list a)"
    using update_packed_push [OF len(1) i, of v] st by (simp add: b_def a_list_def)
  have u: "arr_used b = Suc (arr_used a)" by (simp add: b_def arr_used_def st)
  have sle: "i \<le>s i" by (simp add: word_sle_eq)
  have bn: "a_next b = abs_note i (a_next a)" by (simp add: b_def nx(1) cn)
  have "keys_below a" using inv by (simp add: arr_inv_def)
  then have kb: "keys_below b"
    using abs_note_below(1) [OF sle, of "a_next a"] abs_note_below(2)
    unfolding keys_below_def l bn AList.dom_update by blast
  show "arr_inv b"
    using inv len(2) kb nx(2) by (auto simp: arr_inv_def store_inv_def pos_ok_def b_def arr_used_def st)
  show "abs_arr b = abs_insert (KInt i) v (abs_arr a)"
    using inv l by (auto simp: abs_arr_def abs_insert_def b_def nx(1) cn a_rank_def st arr_inv_def pos_ok_def arr_used_def)
  show "arr_used b = Suc (arr_used a)" by (rule u)
qed

lemma arr_insert_ok:
  assumes inv: "arr_inv a" and room: "arr_room 1 a" and eq: "arr_insert a k v = (a', old)"
  shows "arr_inv a'" "abs_arr a' = abs_insert k v (abs_arr a)" "old = map_of (a_list a) k"
    "arr_used a' \<le> Suc (arr_used a)"
proof -
  define b where "b = note_value a v"
  have b: "arr_inv b" "arr_room 1 b" "abs_arr b = abs_arr a" "arr_used b = arr_used a" "a_store b = a_store a"
    using inv room by (simp_all add: b_def)
  have bl: "a_list b = a_list a" using b(5) by (simp add: a_list_def)
  have "arr_inv a' \<and> abs_arr a' = abs_insert k v (abs_arr b) \<and> old = map_of (a_list b) k
    \<and> arr_used a' \<le> Suc (arr_used b)"
  proof (cases "\<exists>i vs. k = KInt i \<and> a_store b = Packed vs \<and>
      (unat i < length vs \<or> unat i = length vs \<and> next_index b = Some i)")
    case False
    then have "arr_insert a k v
        = hash_insert (case k of KInt i \<Rightarrow> note_int_key (convert_to_hash b 1) i | KStr _ \<Rightarrow> convert_to_hash b 1) k v"
      by (cases k; cases "a_store b") (auto simp: arr_insert_def b_def [symmetric] Let_def)
    with eq convert_insert_ok [OF b(1,2)] show ?thesis by metis
  next
    case True
    then obtain i vs where k: "k = KInt i" and st: "a_store b = Packed vs"
      and i: "unat i < length vs \<or> unat i = length vs \<and> next_index b = Some i" by blast
    have len: "length vs < max_entries" using b(1) st by (simp add: arr_inv_def store_inv_def)
    show ?thesis
    proof (cases "unat i < length vs")
      case True
      then have "a' = b\<lparr>a_store := Packed (vs[unat i := v])\<rparr>" "old = Some (vs ! unat i)"
        using eq k st by (auto simp: arr_insert_def b_def [symmetric] Let_def)
      then show ?thesis
        using packed_write_ok [OF b(1) st True, of v] k map_of_packed(1) [OF len] True st
        by (simp add: a_list_def arr_used_def)
    next
      case False
      with i have i': "unat i = length vs" "next_index b = Some i" by simp_all
      then have "a' = note_int_key (b\<lparr>a_store := Packed (vs @ [v])\<rparr>) i" "old = None"
        using eq k st False by (auto simp: arr_insert_def b_def [symmetric] Let_def)
      then show ?thesis
        using packed_push_ok [OF b(1) st i'(1) b(2), of v] k map_of_packed(1) [OF len] False st
        by (simp add: a_list_def)
    qed
  qed
  then show "arr_inv a'" "abs_arr a' = abs_insert k v (abs_arr a)" "old = map_of (a_list a) k"
    "arr_used a' \<le> Suc (arr_used a)" by (simp_all add: b bl)
qed

section \<open>Appending\<close>

lemma next_index_fresh:
  assumes "arr_inv a" "next_index a = Some i"
  shows "KInt i \<notin> fst ` set (a_list a)"
proof
  assume "KInt i \<in> fst ` set (a_list a)"
  with assms(1) have "key_below (a_next a) i" by (auto simp: arr_inv_def keys_below_def)
  with assms(2) show False by (cases "a_next a") (simp_all add: next_index_a_next word_sless_alt)
qed

lemma arr_push_eq:
  assumes inv: "arr_inv a" and i: "next_index a = Some i"
  shows "arr_push a v = (fst (arr_insert a (KInt i) v), Inr i)"
proof (cases "\<exists>vs. a_store a = Packed vs \<and> word_of_nat (length vs) = i")
  case True
  then obtain vs where st: "a_store a = Packed vs" and w: "word_of_nat (length vs) = i" by blast
  have "length vs < 2 ^ 64" using inv st by (simp add: arr_inv_def store_inv_def max_entries_def)
  then have "unat i = length vs" using w unat_of_nat_u64 by blast
  then show ?thesis
    using st w i by (simp add: arr_push_def arr_insert_def Let_def)
next
  case False
  have nv: "note_value (note_value a v) v = note_value a v"
    by (simp add: note_value_def or.assoc [symmetric])
  have "arr_insert (note_value a v) (KInt i) v = arr_insert a (KInt i) v"
    by (simp add: arr_insert_def nv)
  then show ?thesis
    using False i by (cases "a_store a") (simp_all add: arr_push_def Let_def)
qed

lemma arr_push_ok:
  assumes inv: "arr_inv a" and room: "arr_room 1 a" and i: "next_index a = Some i"
    and eq: "arr_push a v = (a', r)"
  shows "r = Inr i" "arr_inv a'" "a_list a' = a_list a @ [(KInt i, v)]"
    "abs_arr a' = abs_insert (KInt i) v (abs_arr a)" "arr_used a' \<le> Suc (arr_used a)"
proof -
  obtain b old where b: "arr_insert a (KInt i) v = (b, old)" by fastforce
  then have e: "a' = b" "r = Inr i" using eq arr_push_eq [OF inv i, of v] by simp_all
  note ok = arr_insert_ok [OF inv room b]
  show "r = Inr i" "arr_inv a'" "abs_arr a' = abs_insert (KInt i) v (abs_arr a)" "arr_used a' \<le> Suc (arr_used a)"
    using e ok by simp_all
  have "a_list a' = AList.update (KInt i) v (a_list a)"
    using ok(2) e abs_arr_sel(1) [of b] by (simp add: abs_insert_def abs_arr_sel)
  then show "a_list a' = a_list a @ [(KInt i, v)]"
    using next_index_fresh [OF inv i] by (simp add: update_absent)
qed

section \<open>Elements by reference\<close>

lemma key_pos_at:
  assumes inv: "arr_inv a" and kp: "key_pos a k p"
  shows "map_of (a_list a) k = Some (arr_at a p)" "p < arr_used a"
proof -
  have "map_of (a_list a) k = Some (arr_at a p) \<and> p < arr_used a"
  proof (cases "a_store a")
    case (Packed vs)
    then have len: "length vs < max_entries" using inv by (simp add: arr_inv_def store_inv_def)
    have p: "p < length vs" "k = KInt (word_of_nat p)" using kp Packed by (simp_all add: key_pos_def)
    then have "unat (word_of_nat p :: i64) = p" using len by (simp add: max_entries_def unat_of_nat_u64)
    then show ?thesis
      using map_of_packed(1) [OF len, of "word_of_nat p"] p Packed by (simp add: a_list_def arr_at_def arr_used_def)
  next
    case (Hash h)
    then have hi: "hs_inv h" using inv by (simp add: arr_inv_def store_inv_def)
    have lp: "live_pos (hs_entries h) k p" using kp Hash by (simp add: key_pos_def)
    from live_pos_map_of [OF lp hs_inv_D(2) [OF hi]] lp Hash show ?thesis
      by (auto simp: a_list_def hs_list_def arr_at_def arr_used_def live_pos_def b_live_def)
  qed
  then show "map_of (a_list a) k = Some (arr_at a p)" "p < arr_used a" by blast+
qed

lemma arr_put_ok:
  assumes inv: "arr_inv a" and kp: "key_pos a k p"
  shows "arr_inv (arr_put a p v)" "abs_arr (arr_put a p v) = (abs_arr a)\<lparr>ab_list := AList.update k v (a_list a)\<rparr>"
    "arr_used (arr_put a p v) = arr_used a"
proof -
  have "arr_inv (arr_put a p v) \<and> abs_arr (arr_put a p v) = (abs_arr a)\<lparr>ab_list := AList.update k v (a_list a)\<rparr>
    \<and> arr_used (arr_put a p v) = arr_used a"
  proof (cases "a_store a")
    case (Packed vs)
    have len: "length vs < max_entries" using inv Packed by (simp add: arr_inv_def store_inv_def)
    have p: "p < length vs" "k = KInt (word_of_nat p)" using kp Packed by (simp_all add: key_pos_def)
    then have u: "unat (word_of_nat p :: i64) = p" using len by (simp add: max_entries_def unat_of_nat_u64)
    then have i: "unat (word_of_nat p :: i64) < length vs" using p by simp
    have "KInt (word_of_nat p) \<in> fst ` set (a_list a)"
      using KInt_in_packed [OF len] i Packed by (simp add: a_list_def)
    then have "key_below (a_next a) (word_of_nat p)" using inv by (auto simp: arr_inv_def keys_below_def)
    then have "abs_insert k v (abs_arr a) = (abs_arr a)\<lparr>ab_list := AList.update k v (a_list a)\<rparr>"
      by (simp add: abs_insert_def p abs_arr_sel abs_note_present)
    then show ?thesis
      using packed_write_ok [OF inv Packed i, of v] p Packed unfolding u
      by (simp add: arr_put_def arr_used_def)
  next
    case (Hash h)
    then have "live_pos (hs_entries h) k p" using kp by (simp add: key_pos_def)
    from hash_set_ok [OF inv Hash this, of v] Hash show ?thesis by (simp add: arr_put_def)
  qed
  then show "arr_inv (arr_put a p v)" "abs_arr (arr_put a p v) = (abs_arr a)\<lparr>ab_list := AList.update k v (a_list a)\<rparr>"
    "arr_used (arr_put a p v) = arr_used a" by blast+
qed

lemma arr_get_mut_spec:
  assumes inv: "arr_inv a"
  shows "case snd (arr_get_mut a k) of None \<Rightarrow> map_of (a_list a) k = None | Some p \<Rightarrow> key_pos a k p"
proof (cases "a_store a")
  case (Packed vs)
  then have len: "length vs < max_entries" using inv by (simp add: arr_inv_def store_inv_def)
  show ?thesis
    using map_of_packed [OF len] Packed by (cases k) (simp_all add: arr_get_mut_def a_list_def key_pos_def)
next
  case (Hash h)
  then have hi: "hs_inv h" using inv by (simp add: arr_inv_def store_inv_def)
  show ?thesis
    by (cases rule: hs_find_cases [OF hi, of k]) (simp_all add: Hash arr_get_mut_def a_list_def key_pos_def)
qed

lemma convert_entry_ok:
  assumes inv: "arr_inv a" and room: "arr_room 1 a"
    and eq: "hash_entry (case k of KInt i \<Rightarrow> note_int_key (convert_to_hash a n) i | KStr _ \<Rightarrow> convert_to_hash a n) k
      = (a', p)"
  shows "arr_inv a' \<and> key_pos a' k p \<and> arr_used a' \<le> Suc (arr_used a) \<and>
    abs_arr a' = (if k \<in> fst ` set (a_list a) then abs_arr a else abs_insert k VNull (abs_arr a))"
proof -
  define c where "c = convert_to_hash a n"
  define b where "b = (case k of KInt i \<Rightarrow> note_int_key c i | KStr _ \<Rightarrow> c)"
  note c = convert_to_hash_ok [OF inv, of n, folded c_def]
  obtain h where h: "a_store b = Hash h" using c(3) by (cases k) (auto simp: b_def)
  have binv: "arr_inv b" using c(1) note_int_key_ok(1) by (cases k) (simp_all add: b_def)
  then have hi: "hs_inv h" using h by (simp add: arr_inv_def store_inv_def)
  have key: "key_below (a_next b) i" if "k = KInt i" for i
    using that note_int_key_ok(3) [OF c(1)] by (simp add: b_def)
  have used: "arr_used b = arr_used a" by (cases k) (simp_all add: b_def c_def)
  then have room': "arr_room 1 b" using room by (simp add: arr_room_def)
  have eq': "hash_entry b k = (a', p)" using eq by (simp only: b_def c_def)
  have lists: "a_list c = a_list a" "a_next c = a_next a"
    using c(2) by (simp_all add: abs_arr_def)
  have bl: "a_list b = a_list a" using lists by (cases k) (simp_all add: b_def)
  have bh: "a_list b = hs_list h" using h by (simp add: a_list_def)
  have ab: "abs_arr b = (case k of KInt i \<Rightarrow> (abs_arr a)\<lparr>ab_next := abs_note i (a_next a)\<rparr> | KStr _ \<Rightarrow> abs_arr a)"
    using note_int_key_ok(2) [OF c(1)] c(2) lists by (cases k) (simp_all add: b_def)
  have present: "abs_arr b = abs_arr a" if "k \<in> fst ` set (a_list a)"
  proof (cases k)
    case (KInt i)
    then have "key_below (a_next a) i" using that inv by (auto simp: arr_inv_def keys_below_def)
    then show ?thesis using ab KInt by (simp add: abs_note_present abs_arr_def)
  qed (simp add: ab)
  show ?thesis
  proof (cases rule: hs_find_cases [OF hi, of k])
    case (1 q)
    then have "a' = b" "p = q" using eq' h by (simp_all add: hash_entry_def)
    moreover have "k \<in> fst ` set (a_list a)" using 1(3,4) bl bh by (metis map_of_eq_None_iff)
    ultimately show ?thesis using binv used h 1(2) present by (simp add: key_pos_def)
  next
    case 2
    then have new: "hash_insert_new b k (bucket_hash k) VNull = (a', p)" using eq' h by (simp add: hash_entry_def)
    have nk: "k \<notin> fst ` set (a_list b)" using 2(3) bh by simp
    have "(abs_arr b)\<lparr>ab_list := AList.update k VNull (a_list b)\<rparr> = abs_insert k VNull (abs_arr a)"
      using bl by (cases k) (simp_all add: ab abs_insert_def abs_arr_sel)
    then show ?thesis
      using hash_insert_new_ok [OF binv h nk key room' new] used nk bl by simp
  qed
qed

lemma arr_entry_ok:
  assumes inv: "arr_inv a" and room: "arr_room 1 a" and eq: "arr_entry a k = (a', p)"
  shows "arr_inv a'" "key_pos a' k p" "arr_used a' \<le> Suc (arr_used a)"
    "abs_arr a' = (if k \<in> fst ` set (a_list a) then abs_arr a else abs_insert k VNull (abs_arr a))"
proof -
  define b where "b = note_mut_access a"
  have b: "arr_inv b" "arr_room 1 b" "abs_arr b = abs_arr a" "arr_used b = arr_used a"
    using inv room by (simp_all add: b_def)
  have bl: "a_list b = a_list a" by (simp add: a_list_def b_def)
  have "arr_inv a' \<and> key_pos a' k p \<and> arr_used a' \<le> Suc (arr_used b) \<and>
    abs_arr a' = (if k \<in> fst ` set (a_list b) then abs_arr b else abs_insert k VNull (abs_arr b))"
  proof (cases "\<exists>i vs. k = KInt i \<and> a_store b = Packed vs \<and>
      (unat i < length vs \<or> unat i = length vs \<and> next_index b = Some i)")
    case False
    then have "arr_entry a k
        = hash_entry (case k of KInt i \<Rightarrow> note_int_key (convert_to_hash b 1) i | KStr _ \<Rightarrow> convert_to_hash b 1) k"
      by (cases k; cases "a_store b") (auto simp: arr_entry_def b_def [symmetric] Let_def)
    with eq convert_entry_ok [OF b(1,2)] show ?thesis by metis
  next
    case True
    then obtain i vs where k: "k = KInt i" and st: "a_store b = Packed vs"
      and i: "unat i < length vs \<or> unat i = length vs \<and> next_index b = Some i" by blast
    have len: "length vs < max_entries" using b(1) st by (simp add: arr_inv_def store_inv_def)
    have mem: "k \<in> fst ` set (a_list b) \<longleftrightarrow> unat i < length vs"
      using KInt_in_packed [OF len] k st by (simp add: a_list_def)
    show ?thesis
    proof (cases "unat i < length vs")
      case True
      then have "a' = b" "p = unat i"
        using eq k st by (auto simp: arr_entry_def b_def [symmetric] Let_def)
      then show ?thesis using True b(1) st k mem by (simp add: key_pos_def)
    next
      case False
      with i have i': "unat i = length vs" "next_index b = Some i" by simp_all
      have a': "a' = note_int_key (b\<lparr>a_store := Packed (vs @ [VNull])\<rparr>) i" "p = unat i"
        using eq k st False i'
        by (auto simp: arr_entry_def b_def [symmetric] Let_def note_int_key_def split: option.split)
      moreover have "key_pos a' k p" using a' k i' by (simp add: key_pos_def) (metis word_of_unat)
      ultimately show ?thesis
        using packed_push_ok [OF b(1) st i'(1) b(2), of VNull] k mem False by simp
    qed
  qed
  then show "arr_inv a'" "key_pos a' k p" "arr_used a' \<le> Suc (arr_used a)"
    "abs_arr a' = (if k \<in> fst ` set (a_list a) then abs_arr a else abs_insert k VNull (abs_arr a))"
    by (simp_all add: b bl)
qed

section \<open>Removal\<close>

lemma drop_cursor_absent: "k \<notin> fst ` set es \<Longrightarrow> drop_cursor k es c = c"
  by (auto simp: drop_cursor_def dest: in_set_takeD)

lemma abs_remove_absent: "k \<notin> fst ` set (ab_list s) \<Longrightarrow> abs_remove k s = s"
  by (simp add: abs_remove_def drop_cursor_absent delete_absent case_prod_unfold)

lemma live_list_take_iff:
  assumes lp: "live_pos es k p" and d: "distinct (map b_key (filter b_live es))"
  shows "k \<in> fst ` set (live_list (take q es)) \<longleftrightarrow> p < q"
proof
  assume "p < q"
  then have "es ! p \<in> set (take q es)" using lp by (auto simp: live_pos_def in_set_conv_nth)
  then show "k \<in> fst ` set (live_list (take q es))"
    using lp unfolding fst_set_live_list by (auto simp: live_pos_def)
next
  assume "k \<in> fst ` set (live_list (take q es))"
  then obtain b where "b \<in> set (take q es)" "b_live b" "b_key b = k" unfolding fst_set_live_list by auto
  then obtain i where i: "i < length es" "i < q" "es ! i = b" by (auto simp: in_set_conv_nth)
  then have "live_pos es k i" using \<open>b_live b\<close> \<open>b_key b = k\<close> by (simp add: live_pos_def)
  with lp i(2) show "p < q" using live_pos_unique [OF d] by blast
qed

lemma live_rank_take:
  assumes "p < length es" "b_live (es ! p)"
  shows "live_rank (es[p := (es ! p)\<lparr>b_val := None\<rparr>]) q = (if p < q then live_rank es q - 1 else live_rank es q)"
proof -
  have filt: "length (filter b_live (xs[i := b])) = length (filter b_live xs) - 1"
    if "i < length xs" "b_live (xs ! i)" "\<not> b_live b" for xs :: "'a bucket list" and i b
  proof -
    have xs: "xs = take i xs @ xs ! i # drop (Suc i) xs" using that(1) by (rule id_take_nth_drop)
    have "length (filter b_live (take i xs @ xs ! i # drop (Suc i) xs))
      = length (filter b_live (take i xs)) + Suc (length (filter b_live (drop (Suc i) xs)))"
      using that(2) by simp
    then have "length (filter b_live xs)
      = length (filter b_live (take i xs)) + Suc (length (filter b_live (drop (Suc i) xs)))"
      unfolding xs [symmetric] .
    then show ?thesis using that by (simp add: upd_conv_take_nth_drop)
  qed
  show ?thesis
    unfolding live_rank_def using assms filt [of p "take q es"] by (simp add: take_update_swap list_update_beyond)
qed

lemma hash_remove_ok:
  assumes inv: "arr_inv a" and st: "a_store a = Hash h" and eq: "hash_remove a k = (a', old)"
  shows "arr_inv a' \<and> abs_arr a' = abs_remove k (abs_arr a) \<and> old = map_of (a_list a) k
    \<and> arr_used a' \<le> arr_used a"
proof -
  have hi: "hs_inv h" using inv st by (simp add: arr_inv_def store_inv_def)
  have l: "a_list a = hs_list h" using st by (simp add: a_list_def)
  show ?thesis
  proof (cases rule: hs_find_cases [OF hi, of k])
    case 2
    have "a' = a" "old = None" using eq st 2(1) by (auto simp: hash_remove_def)
    moreover have "abs_remove k (abs_arr a) = abs_arr a"
      by (rule abs_remove_absent) (simp add: abs_arr_sel l 2(3))
    ultimately show ?thesis using inv 2(2) l by simp
  next
    case (1 p)
    note ok = hs_take_ok [OF hi 1(2)]
    define h' where "h' = hs_take h p"
    define b where "b = a\<lparr>a_store := Hash h'\<rparr>"
    have lp: "p < length (hs_entries h)" "b_live (hs_entries h ! p)" using 1(2) by (simp_all add: live_pos_def)
    have bl: "a_list b = AList.delete k (a_list a)" using ok(2) l by (simp add: b_def h'_def a_list_def)
    have bn: "a_next b = a_next a" by (simp add: a_next_def b_def)
    have u: "arr_used b = arr_used a" using st by (simp add: b_def h'_def arr_used_def hs_take_def)
    have rank: "a_rank (a_store b) q = drop_cursor k (a_list a) (a_rank (a_store a) q)" for q
    proof -
      have "k \<in> fst ` set (take (a_rank (a_store a) q) (a_list a)) \<longleftrightarrow> p < q"
        unfolding take_a_rank using live_list_take_iff [OF 1(2) hs_inv_D(2) [OF hi]] by (simp add: a_before_def st)
      then show ?thesis
        using live_rank_take [OF lp, of q] by (simp add: drop_cursor_def a_rank_def st b_def h'_def hs_take_def)
    qed
    have abs: "abs_arr b = abs_remove k (abs_arr a)"
      unfolding abs_remove_def using bl bn rank by (simp add: abs_arr_def case_prod_unfold) (simp add: b_def)
    have kb: "keys_below b"
      using inv unfolding keys_below_def bl bn arr_inv_def by (force simp: AList.delete_eq)
    have binv: "arr_inv b"
      using inv ok(1) u kb by (simp add: arr_inv_def store_inv_def nstate_ok_def pos_ok_def b_def h'_def)
    have old: "old = map_of (a_list a) k"
      using eq st 1 l by (simp add: hash_remove_def Let_def split: if_splits)
    show ?thesis
    proof (cases "hs_live h' = 0 \<and> a_iters a = [] \<and> a_pos a = 0")
      case False
      then have "a' = b" using eq st 1(1) by (auto simp: hash_remove_def Let_def b_def h'_def)
      then show ?thesis using binv abs old u by simp
    next
      case True
      then have a': "a' = b\<lparr>a_store := Packed [], a_pos := 0\<rparr>"
        using eq st 1(1) by (auto simp: hash_remove_def Let_def b_def h'_def)
      have "hs_list h' = []" using True ok(1) by (simp add: h'_def hs_inv_def hs_list_def live_list_def)
      then have e: "a_list a' = a_list b" "a_list a' = []" by (simp_all add: a' a_list_def b_def)
      have n: "a_next a' = a_next b" by (simp add: a' a_next_def)
      have "abs_arr a' = abs_arr b"
        using e n True by (simp add: abs_arr_def) (simp add: a' b_def)
      moreover have "arr_inv a'"
        using binv e by (simp add: arr_inv_def store_inv_def nstate_ok_def keys_below_def pos_ok_def a' max_entries_def)
          (use True in \<open>simp add: b_def\<close>)
      ultimately show ?thesis using abs old by (simp add: a' arr_used_def)
    qed
  qed
qed

lemma packed_pop_ok:
  assumes inv: "arr_inv a" and st: "a_store a = Packed vs" and i: "unat i < length vs" "unat i = length vs - 1"
    and pos: "a_pos a \<le> unat i" "\<forall>it \<in> set (a_iters a). snd it \<le> unat i"
  shows "arr_inv (a\<lparr>a_store := Packed (butlast vs)\<rparr>)"
    "abs_arr (a\<lparr>a_store := Packed (butlast vs)\<rparr>) = abs_remove (KInt i) (abs_arr a)"
proof -
  let ?b = "a\<lparr>a_store := Packed (butlast vs)\<rparr>"
  obtain ws w where vs: "vs = ws @ [w]" using i(1) by (metis list.size(3) not_less_zero rev_exhaust)
  have len: "length ws < max_entries" using inv st vs by (simp add: arr_inv_def store_inv_def)
  have u: "unat i = length ws" using i vs by simp
  have l: "a_list a = int_keyed 0 ws @ [(KInt i, w)]" "a_list ?b = int_keyed 0 ws"
    using u st vs by (simp_all add: a_list_def int_keyed_append) (metis word_of_unat)
  have nk: "KInt i \<notin> fst ` set (int_keyed 0 ws)" using KInt_in_packed [OF len] u by simp
  then have del: "AList.delete (KInt i) (a_list a) = int_keyed 0 ws"
    using delete_at [of "KInt i" "int_keyed 0 ws" "[]" w] by (simp add: l)
  have cur: "a_rank (a_store ?b) p = drop_cursor (KInt i) (a_list a) (a_rank (a_store a) p)" if "p \<le> unat i" for p
    using that u nk by (auto simp: a_rank_def st vs drop_cursor_def l dest: in_set_takeD)
  have kb: "keys_below ?b"
    using inv l by (auto simp: arr_inv_def keys_below_def a_next_def)
  show "arr_inv ?b"
    using inv pos len u kb by (auto simp: arr_inv_def store_inv_def nstate_ok_def pos_ok_def arr_used_def vs)
  show "abs_arr ?b = abs_remove (KInt i) (abs_arr a)"
    unfolding abs_remove_def using cur pos del l(2) by (simp add: abs_arr_def case_prod_unfold a_next_def)
qed

text \<open>Removal keeps the order, and every cursor at the element it was at.\<close>

lemma arr_remove_ok:
  assumes inv: "arr_inv a" and eq: "arr_remove a k = (a', old)"
  shows "arr_inv a'" "abs_arr a' = abs_remove k (abs_arr a)" "old = map_of (a_list a) k" "arr_used a' \<le> arr_used a"
proof -
  have "arr_inv a' \<and> abs_arr a' = abs_remove k (abs_arr a) \<and> old = map_of (a_list a) k \<and> arr_used a' \<le> arr_used a"
  proof (cases "a_store a")
    case (Hash h)
    with hash_remove_ok [OF inv Hash] eq show ?thesis by (simp add: arr_remove_def)
  next
    case (Packed vs)
    have len: "length vs < max_entries" using inv Packed by (simp add: arr_inv_def store_inv_def)
    have l: "a_list a = int_keyed 0 vs" by (simp add: a_list_def Packed)
    have absent: ?thesis if "k \<notin> fst ` set (a_list a)" "a' = a" "old = None"
    proof -
      have "map_of (a_list a) k = None" using that(1) by (simp only: map_of_eq_None_iff not_False_eq_True)
      then show ?thesis using that inv abs_remove_absent [of k "abs_arr a"] by (simp add: abs_arr_sel)
    qed
    show ?thesis
    proof (cases k)
      case (KStr s)
      then have "a' = a" "old = None" using eq Packed by (auto simp: arr_remove_def)
      then show ?thesis using KStr KStr_not_in_packed [of s vs] by (intro absent) (simp_all only: l not_False_eq_True)
    next
      case (KInt i)
      consider (out) "length vs \<le> unat i"
        | (last) "unat i < length vs" "unat i = length vs - 1" "a_pos a \<le> unat i" "\<forall>it \<in> set (a_iters a). snd it \<le> unat i"
        | (mid) "unat i < length vs" "\<not> (unat i = length vs - 1 \<and> a_pos a \<le> unat i \<and> (\<forall>it \<in> set (a_iters a). snd it \<le> unat i))"
        by linarith
      then show ?thesis
      proof cases
        case out
        then have "a' = a" "old = None" using eq Packed KInt by (auto simp: arr_remove_def)
        moreover have "k \<notin> fst ` set (a_list a)" using KInt_in_packed [OF len, of i] out KInt by (simp add: l)
        ultimately show ?thesis by (intro absent)
      next
        case last
        then have e: "a' = a\<lparr>a_store := Packed (butlast vs)\<rparr>" "old = Some (List.last vs)"
          using eq Packed KInt by (auto simp: arr_remove_def)
        have "vs ! unat i = List.last vs" using last(1,2) by (subst last_conv_nth) auto
        then show ?thesis
          using packed_pop_ok [OF inv Packed last] map_of_packed(1) [OF len, of i] last(1) KInt e Packed
          by (simp add: l arr_used_def)
      next
        case mid
        then have e: "hash_remove (convert_to_hash a 0) k = (a', old)"
          using eq Packed KInt unfolding arr_remove_def by (simp only: store.case key.case if_not_P not_le if_False)
        note c = convert_to_hash_ok [OF inv, of 0]
        obtain h where h: "a_store (convert_to_hash a 0) = Hash h" using c(3) by blast
        have "a_list (convert_to_hash a 0) = a_list a" using c(2) by (simp add: abs_arr_def)
        then show ?thesis using hash_remove_ok [OF c(1) h e] c(2) by simp
      qed
    qed
  qed
  then show "arr_inv a'" "abs_arr a' = abs_remove k (abs_arr a)" "old = map_of (a_list a) k" "arr_used a' \<le> arr_used a"
    by blast+
qed

section \<open>Positions and iteration\<close>

text \<open>The first live position from \<open>p\<close> on holds the element whose rank is the rank of \<open>p\<close>.\<close>

lemma scan_live_spec:
  "case scan_live es p of None \<Rightarrow> filter b_live es = []
   | Some q \<Rightarrow> p \<le> q \<and> q - p < length es \<and> b_live (es ! (q - p)) \<and> filter b_live (take (q - p) es) = []"
proof (induction es p rule: scan_live.induct)
  case (2 b bs p)
  show ?case
  proof (cases "b_live b")
    case False
    show ?thesis
    proof (cases "scan_live bs (Suc p)")
      case None
      then show ?thesis using 2 False by simp
    next
      case (Some q)
      then have q: "Suc p \<le> q" "q - Suc p < length bs" "b_live (bs ! (q - Suc p))" "filter b_live (take (q - Suc p) bs) = []"
        using 2 [OF False] by simp_all
      then have "q - p = Suc (q - Suc p)" by simp
      then show ?thesis using Some False q by simp
    qed
  qed simp
qed simp

lemma valid_pos_spec:
  assumes inv: "arr_inv a"
  shows "case valid_pos a p of
      None \<Rightarrow> a_rank (a_store a) p = length (a_list a)
    | Some q \<Rightarrow> p \<le> q \<and> q < arr_used a \<and> a_rank (a_store a) q = a_rank (a_store a) p \<and>
        a_rank (a_store a) (Suc q) = Suc (a_rank (a_store a) p) \<and> a_rank (a_store a) p < length (a_list a) \<and>
        entry_at a q = Some (a_list a ! a_rank (a_store a) p)"
proof (cases "a_store a")
  case (Packed vs)
  then show ?thesis
    by (simp add: valid_pos_def a_rank_def a_list_def entry_at_def int_keyed_nth arr_used_def min_absorb1)
next
  case (Hash h)
  define es where "es = hs_entries h"
  show ?thesis
  proof (cases "scan_live (drop p es) p")
    case None
    then have "filter b_live (drop p es) = []" using scan_live_spec [of "drop p es" p] by simp
    then have "filter b_live es = filter b_live (take p es)"
      by (metis append_Nil2 append_take_drop_id filter_append)
    then have "live_rank es p = length (filter b_live es)" by (simp add: live_rank_def)
    then show ?thesis using None Hash by (simp add: valid_pos_def a_rank_def a_list_def hs_list_def es_def)
  next
    case (Some q)
    with scan_live_spec [of "drop p es" p]
    have q: "p \<le> q" "q < length es" "b_live (es ! q)" "filter b_live (take (q - p) (drop p es)) = []"
      by (auto simp: less_diff_conv add.commute)
    have "take q es = take p es @ take (q - p) (drop p es)"
      using q(1) by (metis add_diff_inverse_nat not_less take_add)
    then have r: "live_rank es q = live_rank es p" using q(4) by (simp add: live_rank_def)
    have r2: "live_rank es (Suc q) = Suc (live_rank es q)"
      using q(2,3) by (simp add: live_rank_def take_Suc_conv_app_nth)
    have split: "live_list es = live_list (take q es) @ live_list (es ! q # drop (Suc q) es)"
      unfolding live_list_simps(2) [symmetric] id_take_nth_drop [OF q(2), symmetric] ..
    obtain v where v: "b_val (es ! q) = Some v" using q(3) by (auto simp: b_live_def)
    have "length (live_list (take q es)) = live_rank es q" by (simp add: live_rank_def)
    then have "live_list es ! live_rank es q = (b_key (es ! q), v)" "live_rank es q < length (live_list es)"
      using v by (simp_all only: split) (simp_all add: nth_append)
    then show ?thesis
      using Some Hash q r r2 v
      by (simp add: valid_pos_def a_rank_def a_list_def hs_list_def es_def entry_at_def arr_used_def)
  qed
qed

lemma valid_pos_cases:
  assumes "arr_inv a"
  obtains "valid_pos a p = None" "a_rank (a_store a) p = length (a_list a)"
  | q where "valid_pos a p = Some q" "p \<le> q" "q < arr_used a" "a_rank (a_store a) q = a_rank (a_store a) p"
      "a_rank (a_store a) (Suc q) = Suc (a_rank (a_store a) p)" "a_rank (a_store a) p < length (a_list a)"
      "entry_at a q = Some (a_list a ! a_rank (a_store a) p)"
  using valid_pos_spec [OF assms, of p] by (cases "valid_pos a p") simp_all

lemma key_at_entry: "key_at a p = map_option fst (entry_at a p)"
  by (cases "a_store a") (auto simp: key_at_def entry_at_def b_live_def)

definition cursor_of :: "array_data \<Rightarrow> nat" where
  "cursor_of a = a_rank (a_store a) (a_pos a)"

definition nth_entry :: "'b list \<Rightarrow> nat \<Rightarrow> 'b option" where
  "nth_entry xs n = (if n < length xs then Some (xs ! n) else None)"

lemma current_spec:
  assumes "arr_inv a"
  shows "arr_current a = map_option snd (nth_entry (a_list a) (ab_cursor (abs_arr a)))"
    "current_key a = map_option fst (nth_entry (a_list a) (ab_cursor (abs_arr a)))"
  by (cases rule: valid_pos_cases [OF assms, of "a_pos a"];
      simp add: arr_current_def current_key_def abs_arr_def nth_entry_def key_at_entry)+

lemma iter_from_spec:
  assumes inv: "arr_inv a"
  shows "arr_used a < fuel + p \<Longrightarrow> p \<le> arr_used a \<Longrightarrow> iter_from fuel a p = drop (a_rank (a_store a) p) (a_list a)"
proof (induction fuel arbitrary: p)
  case (Suc fuel)
  show ?case
  proof (cases rule: valid_pos_cases [OF inv, of p])
    case 1
    then show ?thesis by (simp add: next_from_def)
  next
    case (2 q)
    obtain k v where kv: "a_list a ! a_rank (a_store a) p = (k, v)" by fastforce
    have "iter_from fuel a (Suc q) = drop (Suc (a_rank (a_store a) p)) (a_list a)"
      using Suc.IH [of "Suc q"] Suc.prems 2 by simp
    then show ?thesis
      using 2 kv Cons_nth_drop_Suc [OF 2(6)] by (simp add: next_from_def)
  qed
qed simp

lemma arr_iter_spec: "arr_inv a \<Longrightarrow> arr_iter a = a_list a"
  using iter_from_spec [of a "arr_used a + 1" 0] by (simp add: arr_iter_def)

section \<open>The internal pointer\<close>

lemma scan_back_spec:
  "n \<le> length es \<Longrightarrow> case scan_back es n of None \<Rightarrow> live_rank es n = 0
   | Some q \<Rightarrow> q < n \<and> b_live (es ! q) \<and> Suc (live_rank es q) = live_rank es n \<and> live_rank es (Suc q) = live_rank es n"
proof (induction n)
  case (Suc n)
  have r: "live_rank es (Suc n) = live_rank es n + (if b_live (es ! n) then 1 else 0)"
    using Suc.prems by (simp add: live_rank_def take_Suc_conv_app_nth)
  have IH: "case scan_back es n of None \<Rightarrow> live_rank es n = 0
    | Some q \<Rightarrow> q < n \<and> b_live (es ! q) \<and> Suc (live_rank es q) = live_rank es n \<and> live_rank es (Suc q) = live_rank es n"
    using Suc by simp
  show ?case
  proof (cases "b_live (es ! n)")
    case False
    then show ?thesis using IH r by (cases "scan_back es n") auto
  qed (simp add: r)
qed (simp add: live_rank_def)

lemma valid_pos_back_spec:
  assumes "p < arr_used a"
  shows "case valid_pos_back a p of None \<Rightarrow> a_rank (a_store a) (Suc p) = 0
    | Some q \<Rightarrow> q \<le> p \<and> Suc (a_rank (a_store a) q) = a_rank (a_store a) (Suc p) \<and> valid_pos a q = Some q"
proof (cases "a_store a")
  case (Packed vs)
  then show ?thesis using assms by (auto simp: valid_pos_back_def arr_used_def a_rank_def min_def valid_pos_def)
next
  case (Hash h)
  then have p: "p < length (hs_entries h)" using assms by (simp add: arr_used_def)
  have eq: "valid_pos_back a p = scan_back (hs_entries h) (Suc p)"
    using p Hash by (auto simp: valid_pos_back_def min_absorb1)
  have "Suc p \<le> length (hs_entries h)" using p by simp
  note sb = scan_back_spec [OF this]
  have live: "valid_pos a q = Some q" if "q < length (hs_entries h)" "b_live (hs_entries h ! q)" for q
    using that Cons_nth_drop_Suc [OF that(1), symmetric] by (simp add: valid_pos_def Hash)
  show ?thesis
  proof (cases "scan_back (hs_entries h) (Suc p)")
    case None
    with sb show ?thesis by (simp only: eq Hash a_rank_def store.case option.case)
  next
    case (Some q)
    with sb have q: "q < Suc p" "b_live (hs_entries h ! q)"
      "Suc (live_rank (hs_entries h) q) = live_rank (hs_entries h) (Suc p)" by simp_all
    then have "valid_pos a q = Some q" using p by (intro live) simp_all
    with Some q show ?thesis by (simp only: eq Hash a_rank_def store.case option.case) simp
  qed
qed

text \<open>Moving the pointer changes nothing else.\<close>

lemma pos_frame [simp]:
  "a_list (a\<lparr>a_pos := p\<rparr>) = a_list a" "a_next (a\<lparr>a_pos := p\<rparr>) = a_next a" "arr_used (a\<lparr>a_pos := p\<rparr>) = arr_used a"
  "a_list (a\<lparr>a_iters := its\<rparr>) = a_list a" "a_next (a\<lparr>a_iters := its\<rparr>) = a_next a"
  "arr_used (a\<lparr>a_iters := its\<rparr>) = arr_used a"
  by (simp_all add: a_list_def a_next_def arr_used_def)

lemma set_pos_ok:
  assumes "arr_inv a" "p \<le> arr_used a"
  shows "arr_inv (a\<lparr>a_pos := p\<rparr>)" "abs_arr (a\<lparr>a_pos := p\<rparr>) = (abs_arr a)\<lparr>ab_cursor := a_rank (a_store a) p\<rparr>"
  using assms by (simp_all add: arr_inv_def nstate_ok_def keys_below_def pos_ok_def abs_arr_def)

lemma advance_ok:
  assumes inv: "arr_inv a"
  shows "arr_inv (advance a) \<and>
    abs_arr (advance a) = (abs_arr a)\<lparr>ab_cursor := min (Suc (ab_cursor (abs_arr a))) (length (a_list a))\<rparr>"
proof (cases rule: valid_pos_cases [OF inv, of "a_pos a"])
  case 1
  then show ?thesis
    using set_pos_ok [OF inv, of "arr_used a"] by (simp add: advance_def a_rank_used abs_arr_def)
next
  case (2 q)
  then show ?thesis
    using set_pos_ok [OF inv, of "Suc q"] by (simp add: advance_def abs_arr_def)
qed

lemma retreat_ok:
  assumes inv: "arr_inv a"
  shows "arr_inv (retreat a) \<and> abs_arr (retreat a) = (abs_arr a)\<lparr>ab_cursor :=
      (let c = ab_cursor (abs_arr a) in if 0 < c \<and> c < length (a_list a) then c - 1 else length (a_list a))\<rparr>"
proof (cases rule: valid_pos_cases [OF inv, of "a_pos a"])
  case 1
  then show ?thesis
    using set_pos_ok [OF inv, of "arr_used a"] by (simp add: retreat_def a_rank_used abs_arr_def Let_def)
next
  case (2 q)
  show ?thesis
  proof (cases "q = 0")
    case True
    then have "a_rank (a_store a) (a_pos a) = 0" using 2(4) by simp
    then show ?thesis
      using set_pos_ok [OF inv, of "arr_used a"] 2 True
      by (simp add: retreat_def a_rank_used abs_arr_def Let_def)
  next
    case False
    then have "q - 1 < arr_used a" "Suc (q - 1) = q" using 2 by simp_all
    note vb = valid_pos_back_spec [OF this(1), unfolded this(2)]
    show ?thesis
    proof (cases "valid_pos_back a (q - 1)")
      case None
      then have "a_rank (a_store a) (a_pos a) = 0" using vb 2(4) by simp
      then show ?thesis
        using set_pos_ok [OF inv, of "arr_used a"] 2 False None
        by (simp add: retreat_def a_rank_used abs_arr_def Let_def)
    next
      case (Some r)
      then have r: "r \<le> q - 1" "Suc (a_rank (a_store a) r) = a_rank (a_store a) (a_pos a)" using vb 2(4) by simp_all
      then have "r \<le> arr_used a" using 2(3) by simp
      then show ?thesis
        using set_pos_ok [OF inv, of r] 2 False Some r(2) [symmetric]
        by (simp add: retreat_def abs_arr_def Let_def)
    qed
  qed
qed

lemma last_pos_cases:
  assumes inv: "arr_inv a"
  obtains "last_pos a = None" "a_list a = []"
  | q where "last_pos a = Some q" "q < arr_used a" "a_list a \<noteq> []" "a_rank (a_store a) q = length (a_list a) - 1"
      "entry_at a q = Some (last (a_list a))"
proof (cases "arr_used a = 0")
  case True
  then have "a_list a = []" using a_rank_used [of a 0] by simp
  then show ?thesis using that(1) True by (simp add: last_pos_def)
next
  case False
  then have "arr_used a - 1 < arr_used a" "Suc (arr_used a - 1) = arr_used a" by simp_all
  note vb = valid_pos_back_spec [OF this(1), unfolded this(2)]
  have top: "a_rank (a_store a) (arr_used a) = length (a_list a)" by (simp add: a_rank_used)
  show ?thesis
  proof (cases "valid_pos_back a (arr_used a - 1)")
    case None
    then show ?thesis using vb top that(1) False by (simp add: last_pos_def)
  next
    case (Some q)
    then have "q \<le> arr_used a - 1" "Suc (a_rank (a_store a) q) = length (a_list a)" "valid_pos a q = Some q"
      using vb top by simp_all
    moreover from this have "q < arr_used a" "a_list a \<noteq> []" "a_rank (a_store a) q = length (a_list a) - 1"
      using False by auto
    moreover from this \<open>valid_pos a q = Some q\<close> have "entry_at a q = Some (last (a_list a))"
      using valid_pos_spec [OF inv, of q] by (simp add: last_conv_nth)
    moreover have "last_pos a = Some q" using False Some by (simp add: last_pos_def)
    ultimately show ?thesis using that(2) by blast
  qed
qed

lemma arr_end_ok:
  assumes inv: "arr_inv a"
  shows "arr_inv (arr_end a) \<and> abs_arr (arr_end a) = (abs_arr a)\<lparr>ab_cursor := length (a_list a) - 1\<rparr>"
proof (cases rule: last_pos_cases [OF inv])
  case 1
  then show ?thesis using set_pos_ok [OF inv, of 0] by (simp add: arr_end_def)
next
  case (2 q)
  then show ?thesis using set_pos_ok [OF inv, of q] by (simp add: arr_end_def)
qed

lemma arr_reset_ok:
  assumes inv: "arr_inv a"
  shows "arr_inv (arr_reset a) \<and> abs_arr (arr_reset a) = (abs_arr a)\<lparr>ab_cursor := 0\<rparr>"
proof (cases rule: valid_pos_cases [OF inv, of 0])
  case 1
  then show ?thesis using set_pos_ok [OF inv, of 0] by (simp add: arr_reset_def first_pos_def)
next
  case (2 q)
  then show ?thesis using set_pos_ok [OF inv, of q] by (simp add: arr_reset_def first_pos_def)
qed

section \<open>Recomputing the next index, and \<open>array_pop\<close>\<close>

lemma max_int_key_spec:
  "case max_int_key m es of
      None \<Rightarrow> m = None \<and> (\<forall>i. KInt i \<notin> fst ` set es)
    | Some j \<Rightarrow> (m = Some j \<or> KInt j \<in> fst ` set es) \<and> (\<forall>i. KInt i \<in> fst ` set es \<or> m = Some i \<longrightarrow> i \<le>s j)"
proof (induction m es rule: max_int_key.induct)
  case (1 m)
  then show ?case by (cases m) (simp_all add: word_sle_eq)
next
  case (2 m i v es)
  define m' where "m' = (case m of None \<Rightarrow> i | Some j \<Rightarrow> if j \<le>s i then i else j)"
  have m': "i \<le>s m'" "\<And>j. m = Some j \<Longrightarrow> j \<le>s m'" "m' = i \<or> m = Some m'"
    by (auto simp: m'_def word_sle_eq split: option.split)
  have tr: "x \<le>s y \<Longrightarrow> y \<le>s z \<Longrightarrow> x \<le>s z" for x y z :: i64
    by (simp add: word_sle_eq)
  show ?case
  proof (cases "max_int_key (Some m') es")
    case None
    then show ?thesis using 2 by (simp add: m'_def [symmetric])
  next
    case (Some j)
    then have j: "m' = j \<or> KInt j \<in> fst ` set es" "\<forall>x. KInt x \<in> fst ` set es \<or> m' = x \<longrightarrow> x \<le>s j"
      using 2 by (simp_all add: m'_def [symmetric])
    have "x \<le>s j" if "KInt x \<in> fst ` set ((KInt i, v) # es) \<or> m = Some x" for x
      using that m'(1,2) j(2) tr by auto
    moreover have "m = Some j \<or> KInt j \<in> fst ` set ((KInt i, v) # es)"
      using j(1) m'(3) by auto
    ultimately show ?thesis using Some by (simp add: m'_def [symmetric])
  qed
next
  case (3 m s v es)
  then show ?case by (auto split: option.splits)
qed

definition next_after :: "(key \<times> val) list \<Rightarrow> next_state" where
  "next_after es = (case max_int_key None es of None \<Rightarrow> NoIntKey | Some m \<Rightarrow> succ_index m)"

lemma recompute_next_index_ok:
  assumes inv: "arr_inv a"
  shows "arr_inv (recompute_next_index a)"
    "abs_arr (recompute_next_index a) = (abs_arr a)\<lparr>ab_next := next_after (a_list a)\<rparr>"
    "arr_used (recompute_next_index a) = arr_used a"
proof -
  let ?b = "recompute_next_index a"
  have fr: "a_store ?b = a_store a" "a_pos ?b = a_pos a" "a_iters ?b = a_iters a"
    by (simp_all add: recompute_next_index_def Let_def split: option.split)
  then have l: "a_list ?b = a_list a" "arr_used ?b = arr_used a" by (simp_all add: a_list_def arr_used_def)
  have nx: "a_next ?b = next_after (a_list a)" "nstate_ok ?b"
    by (auto simp: recompute_next_index_def Let_def next_after_def arr_iter_spec [OF inv] a_next_def
        nstate_ok_def n_full_def n_has_int_def split: option.split)
  have "key_below (next_after (a_list a)) i" if "KInt i \<in> fst ` set (a_list a)" for i
  proof (cases "max_int_key None (a_list a)")
    case None
    then show ?thesis using that max_int_key_spec [of None "a_list a"] by simp
  next
    case (Some j)
    then have "i \<le>s j" using that max_int_key_spec [of None "a_list a"] by simp
    then have "key_below (succ_index j) i"
      by (auto simp: checked_add_def i64_simps word_sle_eq word_sless_alt split: option.split)
    then show ?thesis using Some by (simp add: next_after_def)
  qed
  then have "keys_below ?b" by (simp add: keys_below_def l nx)
  then show "arr_inv ?b" using inv nx(2) l fr by (simp add: arr_inv_def pos_ok_def)
  show "abs_arr ?b = (abs_arr a)\<lparr>ab_next := next_after (a_list a)\<rparr>"
    using fr l nx by (simp add: abs_arr_def)
  show "arr_used ?b = arr_used a" by (rule l)
qed

lemma delete_last:
  assumes "distinct (map fst (es @ [(k, v)]))"
  shows "AList.delete k (es @ [(k, v)]) = es"
  using delete_at [of k es "[]" v] assms by simp

lemma a_list_distinct: "arr_inv a \<Longrightarrow> distinct (map fst (a_list a))"
  by (cases "a_store a")
    (auto simp: arr_inv_def store_inv_def a_list_def max_entries_def intro: distinct_int_keyed hs_inv_D)

lemma arr_pop_ok:
  assumes inv: "arr_inv a" and eq: "arr_pop a = (a', r)"
  shows "arr_inv a'" "r = (if a_list a = [] then None else Some (snd (last (a_list a))))"
    "a_list a' = butlast (a_list a)"
    "a_list a \<noteq> [] \<Longrightarrow> a_next a' = next_after (a_list a') \<and> ab_cursor (abs_arr a') = 0"
proof -
  have "arr_inv a' \<and> r = (if a_list a = [] then None else Some (snd (last (a_list a)))) \<and>
    a_list a' = butlast (a_list a) \<and> (a_list a \<noteq> [] \<longrightarrow> a_next a' = next_after (a_list a') \<and> ab_cursor (abs_arr a') = 0)"
  proof (cases rule: last_pos_cases [OF inv])
    case 1
    then show ?thesis using eq inv by (simp add: arr_pop_def)
  next
    case (2 q)
    obtain es k v where l: "a_list a = es @ [(k, v)]"
      using 2(3) by (metis rev_exhaust surj_pair)
    have k: "key_at a q = Some k" using 2(5) l by (simp add: key_at_entry)
    obtain b old where rm: "arr_remove a k = (b, old)" by fastforce
    define c where "c = recompute_next_index b"
    have e: "a' = c\<lparr>a_pos := 0\<rparr>" "r = old" using eq 2(1) k rm by (simp_all add: arr_pop_def c_def)
    note rm_ok = arr_remove_ok [OF inv rm]
    note rc = recompute_next_index_ok [OF rm_ok(1), folded c_def]
    have d: "distinct (map fst (es @ [(k, v)]))" using a_list_distinct [OF inv] by (simp only: l)
    have bl: "a_list b = es"
      using rm_ok(2) delete_last [OF d] abs_arr_sel(1) [of b] by (simp add: abs_remove_def abs_arr_sel l)
    have cl: "a_list c = es" "a_next c = next_after es"
      using rc(2) bl abs_arr_sel [of c] by (simp_all add: abs_arr_sel)
    have "map_of es k = None" using d by (simp add: map_of_eq_None_iff)
    then have old: "old = Some v" using rm_ok(3) by (simp add: l map_add_def)
    show ?thesis
      using set_pos_ok [OF rc(1), of 0] e old cl l by simp
  qed
  then show "arr_inv a'" "r = (if a_list a = [] then None else Some (snd (last (a_list a))))"
    "a_list a' = butlast (a_list a)"
    "a_list a \<noteq> [] \<Longrightarrow> a_next a' = next_after (a_list a') \<and> ab_cursor (abs_arr a') = 0" by blast+
qed

section \<open>Lists, copies and iterators\<close>

lemma keys_from_spec: "keys_from i bs \<longleftrightarrow> map b_key bs = map (\<lambda>n. KInt (word_of_nat n)) [i..<i + length bs]"
proof (induction i bs rule: keys_from.induct)
  case (2 i b bs)
  have "[i..<i + length (b # bs)] = i # [Suc i..<Suc i + length bs]"
    using upt_conv_Cons [of i "i + length (b # bs)"] by simp
  with 2 show ?case by (simp only: keys_from.simps list.map list.inject)
qed simp

lemma arr_is_list_spec:
  assumes "arr_inv a"
  shows "arr_is_list a \<longleftrightarrow> map fst (a_list a) = map (\<lambda>n. KInt (word_of_nat n)) [0..<length (a_list a)]"
proof (cases "a_store a")
  case (Packed vs)
  then show ?thesis using keys_int_keyed [of 0 vs] by (simp add: arr_is_list_def a_list_def)
next
  case (Hash h)
  then show ?thesis
    by (simp add: arr_is_list_def a_list_def hs_list_def fst_live_list keys_from_spec)
qed

lemma arr_len_spec: "arr_inv a \<Longrightarrow> arr_len a = length (a_list a)"
  by (cases "a_store a") (auto simp: arr_len_def a_list_def arr_inv_def store_inv_def hs_inv_D)

lemma int_keyed_map: "int_keyed i (map f vs) = map (map_prod id f) (int_keyed i vs)"
  by (induction i vs rule: int_keyed.induct) auto

text \<open>A copy has the same keys, the copied elements and the same pointers.\<close>

lemma live_list_map:
  "live_list (map (\<lambda>b. b\<lparr>b_val := map_option f (b_val b)\<rparr>) es) = map (map_prod id f) (live_list es)"
  by (induction es) (auto split: option.split)

lemma filter_live_map:
  "filter b_live (map (\<lambda>b. b\<lparr>b_val := map_option f (b_val b)\<rparr>) es)
    = map (\<lambda>b. b\<lparr>b_val := map_option f (b_val b)\<rparr>) (filter b_live es)"
  by (induction es) (auto simp: b_live_def)

lemma arr_clone_ok:
  assumes inv: "arr_inv a"
  shows "arr_inv (arr_clone R a)"
    "abs_arr (arr_clone R a) = (abs_arr a)\<lparr>ab_list := map (map_prod id (copy_elem R)) (a_list a)\<rparr>"
proof -
  let ?b = "arr_clone R a"
  have fr: "a_pos ?b = a_pos a" "a_iters ?b = a_iters a" "a_next ?b = a_next a" "a_nstate ?b = a_nstate a"
    by (simp_all add: arr_clone_def a_next_def)
  have st: "a_list ?b = map (map_prod id (copy_elem R)) (a_list a) \<and> arr_used ?b = arr_used a
      \<and> store_inv (a_store ?b) \<and> (\<forall>p. a_rank (a_store ?b) p = a_rank (a_store a) p)"
  proof (cases "a_store a")
    case (Packed vs)
    then show ?thesis using inv
      by (simp add: arr_clone_def a_list_def arr_used_def a_rank_def arr_inv_def store_inv_def int_keyed_map)
  next
    case (Hash h)
    define f where "f b = b\<lparr>b_val := map_option (copy_elem R) (b_val b)\<rparr>" for b :: "val bucket"
    define h' where "h' = h\<lparr>hs_entries := map f (hs_entries h)\<rparr>"
    have sb: "a_store ?b = Hash h'" using Hash by (simp add: arr_clone_def h'_def f_def)
    have hi: "hs_inv h" using inv Hash by (simp add: arr_inv_def store_inv_def)
    have fl: "filter b_live (map f xs) = map f (filter b_live xs)" for xs
      unfolding f_def by (rule filter_live_map)
    have k: "b_key (f b) = b_key b" "bucket_ok (f b) = bucket_ok b" "bucket_slot_hash (f b) = bucket_slot_hash b" for b
      by (simp_all add: f_def)
    have "hs_inv h'"
      using hi unfolding hs_inv_def h'_def by (simp add: fl k comp_def)
    moreover have "f = (\<lambda>b. b\<lparr>b_val := map_option (copy_elem R) (b_val b)\<rparr>)" by (rule ext) (rule f_def)
    then have "hs_list h' = map (map_prod id (copy_elem R)) (hs_list h)"
      using live_list_map [of "copy_elem R" "hs_entries h"] by (simp add: hs_list_def h'_def)
    moreover have "live_rank (map f (hs_entries h)) p = live_rank (hs_entries h) p" for p
      unfolding live_rank_def take_map fl by simp
    ultimately show ?thesis
      using Hash sb by (simp add: a_list_def arr_used_def store_inv_def a_rank_def) (simp add: h'_def)
  qed
  have "keys_below ?b"
    using inv st unfolding keys_below_def fr arr_inv_def by (auto simp: image_image)
  then show "arr_inv ?b" using inv st fr by (simp add: arr_inv_def nstate_ok_def pos_ok_def)
  show "abs_arr ?b = (abs_arr a)\<lparr>ab_list := map (map_prod id (copy_elem R)) (a_list a)\<rparr>"
    using st fr by (simp add: abs_arr_def)
qed

lemma find_iter_spec:
  "case find_iter its iid n of None \<Rightarrow> map_of its iid = None
   | Some i \<Rightarrow> n \<le> i \<and> i - n < length its \<and> map_of its iid = Some (snd (its ! (i - n))) \<and>
       (\<forall>p. its[i - n := (fst (its ! (i - n)), p)] = AList.update iid p its)"
proof (induction its iid n rule: find_iter.induct)
  case (2 it its iid n)
  obtain j q where it: "it = (j, q)" by fastforce
  show ?case
  proof (cases "j = iid")
    case False
    show ?thesis
    proof (cases "find_iter its iid (Suc n)")
      case None
      then show ?thesis using 2 False it by simp
    next
      case (Some i)
      then have i: "Suc n \<le> i" "i - Suc n < length its" "map_of its iid = Some (snd (its ! (i - Suc n)))"
        "\<forall>p. its[i - Suc n := (fst (its ! (i - Suc n)), p)] = AList.update iid p its"
        using 2 False it by simp_all
      then have "i - n = Suc (i - Suc n)" by simp
      then show ?thesis using Some False it i by simp
    qed
  qed (simp add: it)
qed simp

lemma iter_pos_eq:
  "iter_pos a iid = (case map_of (a_iters a) iid of Some p \<Rightarrow> (a, p)
     | None \<Rightarrow> (a\<lparr>a_iters := a_iters a @ [(iid, 0)]\<rparr>, 0))"
  using find_iter_spec [of "a_iters a" iid 0]
  by (cases "find_iter (a_iters a) iid 0") (simp_all add: iter_pos_def iter_slot_def)

lemma set_iter_pos_eq: "set_iter_pos a iid p = a\<lparr>a_iters := AList.update iid p (a_iters a)\<rparr>"
proof (cases "find_iter (a_iters a) iid 0")
  case None
  then have "map_of (a_iters a) iid = None" using find_iter_spec [of "a_iters a" iid 0] by simp
  then have "AList.update iid p (a_iters a) = a_iters a @ [(iid, p)]"
    by (intro update_absent) (simp add: map_of_eq_None_iff)
  then show ?thesis using None by (simp add: set_iter_pos_def iter_slot_def)
next
  case (Some i)
  then show ?thesis
    using find_iter_spec [of "a_iters a" iid 0] by (simp add: set_iter_pos_def iter_slot_def)
qed

definition iter_cursor :: "array_data \<Rightarrow> u32 \<Rightarrow> nat" where
  "iter_cursor a iid = (case map_of (ab_iters (abs_arr a)) iid of Some c \<Rightarrow> c | None \<Rightarrow> 0)"

lemma map_of_ranks: "map_of (map (\<lambda>(i, p). (i, f p)) its) iid = map_option f (map_of its iid)"
  by (induction its) auto

lemma update_ranks: "map (\<lambda>(i, p). (i, f p)) (AList.update iid q its) = AList.update iid (f q) (map (\<lambda>(i, p). (i, f p)) its)"
  by (induction its) auto

lemma set_iters_ok:
  assumes "arr_inv a" "\<forall>it \<in> set its. snd it \<le> arr_used a"
  shows "arr_inv (a\<lparr>a_iters := its\<rparr>)"
    "abs_arr (a\<lparr>a_iters := its\<rparr>) = (abs_arr a)\<lparr>ab_iters := map (\<lambda>(i, p). (i, a_rank (a_store a) p)) its\<rparr>"
  using assms by (simp_all add: arr_inv_def nstate_ok_def keys_below_def pos_ok_def abs_arr_def)

lemma iter_pos_ok:
  assumes inv: "arr_inv a" and eq: "iter_pos a iid = (a', p)"
  shows "arr_inv a'" "p \<le> arr_used a'" "a_rank (a_store a') p = iter_cursor a iid" "a_store a' = a_store a"
    "abs_arr a' = abs_arr a \<or> abs_arr a' = (abs_arr a)\<lparr>ab_iters := ab_iters (abs_arr a) @ [(iid, 0)]\<rparr>"
    "a_pos a' = a_pos a" "a_next a' = a_next a"
proof -
  have pos: "\<forall>it \<in> set (a_iters a). snd it \<le> arr_used a" using inv by (simp add: arr_inv_def pos_ok_def)
  have ic: "iter_cursor a iid = (case map_of (a_iters a) iid of Some p \<Rightarrow> a_rank (a_store a) p | None \<Rightarrow> 0)"
    by (simp add: iter_cursor_def abs_arr_def map_of_ranks split: option.split)
  have "arr_inv a' \<and> p \<le> arr_used a' \<and> a_rank (a_store a') p = iter_cursor a iid \<and> a_store a' = a_store a \<and>
    (abs_arr a' = abs_arr a \<or> abs_arr a' = (abs_arr a)\<lparr>ab_iters := ab_iters (abs_arr a) @ [(iid, 0)]\<rparr>) \<and>
    a_pos a' = a_pos a \<and> a_next a' = a_next a"
  proof (cases "map_of (a_iters a) iid")
    case None
    then have "a' = a\<lparr>a_iters := a_iters a @ [(iid, 0)]\<rparr>" "p = 0" using eq by (auto simp: iter_pos_eq)
    then show ?thesis
      using None ic set_iters_ok [OF inv, of "a_iters a @ [(iid, 0)]"] pos by (simp add: abs_arr_def)
  next
    case (Some q)
    then have "a' = a" "p = q" using eq by (auto simp: iter_pos_eq)
    moreover have "(iid, q) \<in> set (a_iters a)" using Some by (rule map_of_SomeD)
    ultimately show ?thesis using Some ic inv pos by auto
  qed
  then show "arr_inv a'" "p \<le> arr_used a'" "a_rank (a_store a') p = iter_cursor a iid" "a_store a' = a_store a"
    "abs_arr a' = abs_arr a \<or> abs_arr a' = (abs_arr a)\<lparr>ab_iters := ab_iters (abs_arr a) @ [(iid, 0)]\<rparr>"
    "a_pos a' = a_pos a" "a_next a' = a_next a"
    by blast+
qed

lemma set_update_subset: "set (AList.update k v xs) \<subseteq> insert (k, v) (set xs)"
  by (induction xs) auto

lemma set_iter_pos_ok:
  assumes inv: "arr_inv a" and p: "p \<le> arr_used a"
  shows "arr_inv (set_iter_pos a iid p)"
    "abs_arr (set_iter_pos a iid p) = (abs_arr a)\<lparr>ab_iters := AList.update iid (a_rank (a_store a) p) (ab_iters (abs_arr a))\<rparr>"
    "iter_cursor (set_iter_pos a iid p) iid = a_rank (a_store a) p"
proof -
  have pos: "\<forall>it \<in> set (AList.update iid p (a_iters a)). snd it \<le> arr_used a"
    using set_update_subset [of iid p "a_iters a"] p inv by (auto simp: arr_inv_def pos_ok_def)
  note ok = set_iters_ok [OF inv pos, folded set_iter_pos_eq]
  show "arr_inv (set_iter_pos a iid p)" by (rule ok)
  show abs: "abs_arr (set_iter_pos a iid p)
    = (abs_arr a)\<lparr>ab_iters := AList.update iid (a_rank (a_store a) p) (ab_iters (abs_arr a))\<rparr>"
    unfolding ok(2) update_ranks by (simp add: abs_arr_def)
  show "iter_cursor (set_iter_pos a iid p) iid = a_rank (a_store a) p"
    unfolding iter_cursor_def abs by (simp add: AList.update_conv')
qed

lemma valid_pos_key:
  assumes "arr_inv a" "valid_pos a p0 = Some p"
  shows "key_pos a (fst (a_list a ! a_rank (a_store a) p0)) p"
proof -
  have e: "entry_at a p = Some (a_list a ! a_rank (a_store a) p0)" "p < arr_used a"
    using valid_pos_spec [OF assms(1), of p0] assms(2) by simp_all
  then show ?thesis
    by (cases "a_store a")
      (auto simp: entry_at_def key_pos_def live_pos_def b_live_def arr_used_def split: if_splits
        dest: sym [where t = "_ ! _"])
qed

text \<open>A step of a by-reference \<open>foreach\<close>.\<close>

lemma iter_next_ref_ok:
  assumes inv: "arr_inv a" and R: "flat_refs R" "\<forall>kv \<in> set (a_list a). ref_ok R (snd kv)"
    and eq: "iter_next_ref R a iid = (R', a', res)"
  defines "c \<equiv> iter_cursor a iid"
  shows "arr_inv a'" "c = length (a_list a) \<Longrightarrow> res = None \<and> R' = R \<and> a_list a' = a_list a \<and> iter_cursor a' iid = c"
    "c < length (a_list a) \<Longrightarrow> a_list a ! c = (k, v) \<Longrightarrow>
      \<exists>r. res = Some (k, r) \<and> a_list a' = AList.update k (VRef r) (a_list a) \<and>
        iter_cursor a' iid = Suc c \<and> deref R' (VRef r) = deref R v \<and> flat_refs R'"
    "c \<le> length (a_list a)"
proof -
  obtain b p0 where ip: "iter_pos a iid = (b, p0)" by fastforce
  note b = iter_pos_ok [OF inv ip]
  have bl: "a_list b = a_list a" using b(4) by (simp add: a_list_def)
  have rank: "a_rank (a_store b) p0 = c" using b(3) by (simp add: c_def)
  have "arr_inv a' \<and> (c = length (a_list a) \<longrightarrow> res = None \<and> R' = R \<and> a_list a' = a_list a \<and> iter_cursor a' iid = c) \<and>
    (c < length (a_list a) \<longrightarrow> a_list a ! c = (k, v) \<longrightarrow>
      (\<exists>r. res = Some (k, r) \<and> a_list a' = AList.update k (VRef r) (a_list a) \<and>
        iter_cursor a' iid = Suc c \<and> deref R' (VRef r) = deref R v \<and> flat_refs R')) \<and> c \<le> length (a_list a)"
  proof (cases rule: valid_pos_cases [OF b(1), of p0])
    case 1
    then have e: "R' = R" "a' = set_iter_pos b iid (arr_used b)" "res = None"
      using eq ip by (simp_all add: iter_next_ref_def)
    note s = set_iter_pos_ok [OF b(1), of "arr_used b" iid]
    have "a_list a' = a_list b" using s(2) e abs_arr_sel(1) [of a'] by (simp add: abs_arr_sel)
    then show ?thesis using 1 rank bl e s by (simp add: a_rank_used)
  next
    case (2 p)
    define d where "d = set_iter_pos b iid (Suc p)"
    have p1: "Suc p \<le> arr_used b" using 2(3) by simp
    note s = set_iter_pos_ok [OF b(1) p1, of iid, folded d_def]
    have dst: "a_store d = a_store b" by (simp add: d_def set_iter_pos_eq)
    have dl: "a_list d = a_list a" using dst b(4) by (simp add: a_list_def)
    obtain k' v' where kv: "a_list a ! c = (k', v')" by fastforce
    have en: "entry_at d p = Some (k', v')" using 2(7) kv rank bl dst by (simp add: entry_at_def)
    have kp: "key_pos d k' p"
      using valid_pos_key [OF b(1) 2(1)] kv rank bl dst by (simp add: key_pos_def)
    define m where "m = note_mut_access d"
    have m: "arr_inv m" "key_pos m k' p" "a_list m = a_list a" "abs_arr m = abs_arr d"
      using s(1) kp dl by (simp_all add: m_def key_pos_def a_list_def)
    have at: "arr_at m p = v'"
      using en by (cases "a_store d") (auto simp: entry_at_def arr_at_def m_def split: if_splits)
    obtain R1 new r where mr: "make_ref R v' = (R1, new, r)" by (metis surj_pair)
    have slot: "snd (value_at_mut d p) = Some p"
      using en by (cases "a_store d") (auto simp: entry_at_def value_at_mut_def b_live_def split: if_splits)
    then have vm: "value_at_mut d p = (m, Some p)" by (simp add: value_at_mut_def m_def)
    have ka: "key_at d p = Some k'" by (simp add: key_at_entry en)
    have e: "R' = R1" "a' = arr_put m p new" "res = Some (k', r)"
      using eq ip 2(1) ka vm at mr by (simp_all add: iter_next_ref_def d_def [symmetric])
    have "(k', v') \<in> set (a_list a)" using nth_mem [of c "a_list a"] 2(6) rank bl kv by simp
    then have "ref_ok R v'" using R(2) by fastforce
    note spec = make_ref_spec [OF R(1) this mr]
    note put = arr_put_ok [OF m(1,2), of new]
    have l: "a_list a' = AList.update k' (VRef r) (a_list a)"
      using put(2) e spec(2) m(3) abs_arr_sel(1) [of a'] by (simp add: abs_arr_sel)
    have ic: "iter_cursor a' iid = Suc c"
      using put(2) e m(4) s(3) 2(5) rank dst unfolding iter_cursor_def by simp
    show ?thesis using put(1) e l ic spec kv 2(6) rank bl by auto
  qed
  then show "arr_inv a'" "c = length (a_list a) \<Longrightarrow> res = None \<and> R' = R \<and> a_list a' = a_list a \<and> iter_cursor a' iid = c"
    "c < length (a_list a) \<Longrightarrow> a_list a ! c = (k, v) \<Longrightarrow>
      \<exists>r. res = Some (k, r) \<and> a_list a' = AList.update k (VRef r) (a_list a) \<and>
        iter_cursor a' iid = Suc c \<and> deref R' (VRef r) = deref R v \<and> flat_refs R'"
    "c \<le> length (a_list a)" by blast+
qed

end
