(* ===== verification/ArraySpec.thy ===== *)
theory ArraySpec
  imports ArrayMap
begin

text \<open>
  The contract of PHP arrays as an interface, its interpretation on \<open>ArrayData\<close>, and the
  properties of arrays: lookup, insertion, removal, appending, elements by reference, the
  internal pointer and by-reference iteration.
\<close>

section \<open>Ordered maps\<close>

text \<open>
  \<open>ok n m\<close>: the map is well formed and has room for \<open>n\<close> more entries.  The laws tie every
  operation to the association list \<open>entries m\<close>.
\<close>

locale ordered_map =
  fixes ok :: "nat \<Rightarrow> 'm \<Rightarrow> bool"
    and entries :: "'m \<Rightarrow> ('k \<times> 'v) list"
    and put :: "'k \<Rightarrow> 'v \<Rightarrow> 'm \<Rightarrow> 'm"
    and get :: "'m \<Rightarrow> 'k \<Rightarrow> 'v option"
  assumes put_ok: "ok (Suc n) m \<Longrightarrow> ok n (put k v m)"
    and put_entries: "ok (Suc n) m \<Longrightarrow> entries (put k v m) = AList.update k v (entries m)"
    and get_entries: "ok n m \<Longrightarrow> get m k = map_of (entries m) k"
    and entries_distinct: "ok n m \<Longrightarrow> distinct (map fst (entries m))"
begin

lemma get_put: "ok (Suc n) m \<Longrightarrow> get (put k v m) j = (if j = k then Some v else get m j)"
  using get_entries [OF put_ok, of n m k v j] get_entries [of "Suc n" m j] put_entries [of n m k v]
  by (simp add: AList.update_conv')

lemma put_order: "ok (Suc n) m \<Longrightarrow>
    map fst (entries (put k v m)) = map fst (entries m) @ (if get m k = None then [k] else [])"
  using put_entries [of n m k v] get_entries [of "Suc n" m k]
  by (simp add: AList.update_keys map_of_eq_None_iff)

lemma put_all: "ok (length ps + n) m \<Longrightarrow>
    ok n (fold (\<lambda>(k, v). put k v) ps m) \<and>
    entries (fold (\<lambda>(k, v). put k v) ps m) = fold (\<lambda>(k, v). AList.update k v) ps (entries m)"
proof (induction ps arbitrary: m)
  case (Cons p ps)
  obtain k v where p: "p = (k, v)" by fastforce
  have "ok (Suc (length ps + n)) m" using Cons.prems by simp
  then have "ok (length ps + n) (put k v m)" "entries (put k v m) = AList.update k v (entries m)"
    by (rule put_ok, rule put_entries)
  with Cons.IH [of "put k v m"] p show ?case by simp
qed simp

lemma get_put_all:
  assumes "ok (length ps + n) m"
  shows "get (fold (\<lambda>(k, v). put k v) ps m) k = (case map_of (rev ps) k of Some v \<Rightarrow> Some v | None \<Rightarrow> get m k)"
proof -
  have "map_of (fold (\<lambda>(k, v). AList.update k v) ps es) k
      = (case map_of (rev ps) k of Some v \<Rightarrow> Some v | None \<Rightarrow> map_of es k)" for es
    by (induction ps arbitrary: es) (auto simp: AList.update_conv' map_add_def split: option.split)
  then show ?thesis
    using put_all [OF assms] get_entries [of n _ k] get_entries [OF assms, of k]
    by (simp add: put_all [OF assms] split: option.split)
qed

end

text \<open>Maps that also remove.\<close>

locale ordered_map_remove = ordered_map ok entries put get
  for ok :: "nat \<Rightarrow> 'm \<Rightarrow> bool" and entries :: "'m \<Rightarrow> ('k \<times> 'v) list"
    and put :: "'k \<Rightarrow> 'v \<Rightarrow> 'm \<Rightarrow> 'm" and get :: "'m \<Rightarrow> 'k \<Rightarrow> 'v option" +
  fixes del :: "'k \<Rightarrow> 'm \<Rightarrow> 'm"
  assumes del_ok: "ok n m \<Longrightarrow> ok n (del k m)"
    and del_entries: "ok n m \<Longrightarrow> entries (del k m) = AList.delete k (entries m)"
begin

lemma get_del: "ok n m \<Longrightarrow> get (del k m) j = (if j = k then None else get m j)"
  using get_entries [OF del_ok, of n m k j] get_entries [of n m j] del_entries [of n m k]
  by (simp add: AList.delete_conv')

lemma del_put_new:
  assumes "ok (Suc n) m" "get m k = None"
  shows "entries (del k (put k v m)) = entries m"
proof -
  have "k \<notin> fst ` set (entries m)" using assms get_entries by (simp add: map_of_eq_None_iff)
  then show ?thesis
    using del_entries [OF put_ok [OF assms(1)], of k k v] put_entries [OF assms(1), of k v]
      delete_at [of k "entries m" "[]" v] by (simp add: update_absent)
qed

end

definition arr_put_key :: "key \<Rightarrow> val \<Rightarrow> array_data \<Rightarrow> array_data" where
  "arr_put_key k v a = fst (arr_insert a k v)"

definition arr_del_key :: "key \<Rightarrow> array_data \<Rightarrow> array_data" where
  "arr_del_key k a = fst (arr_remove a k)"

definition arr_ok :: "nat \<Rightarrow> array_data \<Rightarrow> bool" where
  "arr_ok n a \<longleftrightarrow> arr_inv a \<and> arr_room n a"

interpretation php: ordered_map_remove arr_ok a_list arr_put_key arr_get arr_del_key
proof
  fix n a k v
  obtain b old where i: "arr_insert a k v = (b, old)" by fastforce
  obtain c old' where r: "arr_remove a k = (c, old')" by fastforce
  show "arr_ok n (arr_put_key k v a)" if "arr_ok (Suc n) a"
    using that arr_insert_ok(1,4) [OF _ _ i] by (auto simp: arr_ok_def arr_room_def arr_put_key_def i)
  show "a_list (arr_put_key k v a) = AList.update k v (a_list a)" if "arr_ok (Suc n) a"
  proof -
    have "abs_arr b = abs_insert k v (abs_arr a)"
      using that arr_insert_ok(2) [OF _ _ i] by (simp add: arr_ok_def arr_room_def)
    then show ?thesis
      using abs_arr_sel(1) [of b] by (simp add: arr_put_key_def i abs_insert_def abs_arr_sel)
  qed
  show "arr_get a k = map_of (a_list a) k" if "arr_ok n a"
    using that arr_get_spec by (simp add: arr_ok_def)
  show "distinct (map fst (a_list a))" if "arr_ok n a"
    using that a_list_distinct by (simp add: arr_ok_def)
  show "arr_ok n (arr_del_key k a)" if "arr_ok n a"
    using that arr_remove_ok(1,4) [OF _ r] by (auto simp: arr_ok_def arr_room_def arr_del_key_def r)
  show "a_list (arr_del_key k a) = AList.delete k (a_list a)" if "arr_ok n a"
  proof -
    have "abs_arr c = abs_remove k (abs_arr a)"
      using that arr_remove_ok(2) [OF _ r] by (simp add: arr_ok_def)
    then show ?thesis
      using abs_arr_sel(1) [of c] by (simp add: arr_del_key_def r abs_remove_def abs_arr_sel)
  qed
qed

section \<open>Building arrays\<close>

text \<open>\<open>PhpArray::from_pairs\<close> and \<open>from_values\<close>; \<open>None\<close> is the panic of \<open>expect\<close>.\<close>

definition arr_from_pairs :: "(key \<times> val) list \<Rightarrow> array_data" where
  "arr_from_pairs ps = fold (\<lambda>(k, v). arr_put_key k v) ps arr_new"

fun push_all :: "val list \<Rightarrow> array_data \<Rightarrow> array_data option" where
  "push_all [] a = Some a"
| "push_all (v # vs) a =
     (case arr_push a v of (a', Inr _) \<Rightarrow> push_all vs a' | (a', Inl _) \<Rightarrow> None)"

definition arr_from_values :: "val list \<Rightarrow> array_data option" where
  "arr_from_values vs = push_all vs arr_new"

lemma arr_ok_new: "n < max_entries \<Longrightarrow> arr_ok n arr_new"
  using arr_new_ok(1) by (simp add: arr_ok_def arr_room_def arr_used_def arr_new_def)

lemma push_all_packed:
  assumes "arr_inv a" "a_store a = Packed ws" "next_index a = Some (word_of_nat (length ws))"
    "length ws + length vs < max_entries"
  shows "\<exists>b. push_all vs a = Some b \<and> arr_inv b \<and> a_store b = Packed (ws @ vs)"
  using assms
proof (induction vs arbitrary: a ws)
  case (Cons v vs)
  let ?i = "word_of_nat (length ws) :: i64"
  have len: "length ws < 2 ^ 63" "Suc (length ws) < 2 ^ 63" using Cons.prems(4) by (simp_all add: max_entries_def)
  have i: "unat ?i = length ws" using len by (simp add: unat_of_nat_u64)
  define b where "b = note_int_key ((note_value a v)\<lparr>a_store := Packed (ws @ [v])\<rparr>) ?i"
  have push: "arr_push a v = (b, Inr ?i)" using Cons.prems(2,3) by (simp add: arr_push_def b_def)
  have room: "arr_room 1 a" using Cons.prems by (simp add: arr_room_def arr_used_def)
  note ok = arr_push_ok [OF Cons.prems(1) room Cons.prems(3) push]
  have st: "a_store b = Packed (ws @ [v])" by (simp add: b_def)
  have sint: "sint ?i = int (length ws)"
    using len(1) by (simp add: word_of_nat_eq_0_iff sint_of_int [of "int (length ws)", simplified] in_i64_def)
  have "checked_add ?i 1 = Some (word_of_nat (Suc (length ws)))"
    using len by (simp add: checked_add_def sint i64_of_int_checked_def in_i64_def add.commute)
  moreover have "a_next b = abs_note ?i (a_next a)"
    using ok(4) by (simp add: abs_arr_def abs_insert_def)
  moreover have "\<not> key_below (a_next a) ?i"
    using Cons.prems(3) by (cases "a_next a") (simp_all add: next_index_a_next)
  ultimately have "next_index b = Some (word_of_nat (length (ws @ [v])))"
    by (simp add: next_index_a_next abs_note_def)
  from Cons.IH [OF ok(2) st this] Cons.prems(4) push show ?case by simp
qed simp

section \<open>Properties\<close>

lemma arr_insert_refines:
  assumes "arr_ok (Suc n) a"
  shows "arr_ok n (fst (arr_insert a k v))" "abs_arr (fst (arr_insert a k v)) = abs_insert k v (abs_arr a)"
    "snd (arr_insert a k v) = map_of (a_list a) k"
proof -
  obtain b old where i: "arr_insert a k v = (b, old)" by fastforce
  have "arr_inv a" "arr_room 1 a" using assms by (simp_all add: arr_ok_def arr_room_def)
  note r = arr_insert_ok [OF this i]
  show "arr_ok n (fst (arr_insert a k v))" "abs_arr (fst (arr_insert a k v)) = abs_insert k v (abs_arr a)"
    "snd (arr_insert a k v) = map_of (a_list a) k"
    using r assms by (simp_all add: i arr_ok_def arr_room_def)
qed

text \<open>C2: looking a key up, in either representation, gives the value of the entry with that key,
  iteration yields the entries in order, and the length is their number.\<close>

theorem array_lookup:
  assumes "arr_inv a"
  shows "arr_get a k = map_of (a_list a) k \<and> arr_iter a = a_list a \<and> arr_len a = length (a_list a)
    \<and> distinct (map fst (a_list a))"
  using arr_get_spec [OF assms] arr_iter_spec [OF assms] arr_len_spec [OF assms] a_list_distinct [OF assms] by simp

definition sample_pairs :: "(key \<times> val) list" where
  "sample_pairs = [(KInt 0, VInt 10), (KInt 7, VInt 20), (KStr (ascii ''k''), VNull), (KInt 7, VBool True), (KInt (- 3), VNull)]"

definition sample_array :: array_data where
  "sample_array = arr_from_pairs sample_pairs"

lemma sample_array_ok: "arr_ok 100 sample_array"
  "a_list sample_array = [(KInt 0, VInt 10), (KInt 7, VBool True), (KStr (ascii ''k''), VNull), (KInt (- 3), VNull)]"
proof -
  have "arr_ok (length sample_pairs + 100) arr_new"
    by (intro arr_ok_new) (simp add: max_entries_def sample_pairs_def)
  moreover have "a_list arr_new = []" using arr_new_ok(2) abs_arr_sel(1) [of arr_new] by simp
  ultimately
  show "arr_ok 100 sample_array"
    "a_list sample_array = [(KInt 0, VInt 10), (KInt 7, VBool True), (KStr (ascii ''k''), VNull), (KInt (- 3), VNull)]"
    using php.put_all [of sample_pairs 100 arr_new]
    by (simp_all add: sample_array_def arr_from_pairs_def sample_pairs_def)
qed

lemma sample_array_inv: "arr_inv sample_array"
  using sample_array_ok(1) by (simp add: arr_ok_def)

theorem array_lookup_witness:
  "arr_inv sample_array \<and> arr_get sample_array (KInt 7) = Some (VBool True) \<and> arr_get sample_array (KInt 8) = None
    \<and> arr_len sample_array = 4"
  using array_lookup [OF sample_array_inv, of "KInt 7"] array_lookup [OF sample_array_inv, of "KInt 8"] sample_array_inv
  by (simp add: sample_array_ok(2))

text \<open>C1: insertion implements the update of an ordered association list: an existing key keeps its place,
  a new one goes last, the next append index is advanced, the internal pointer and every iterator stay
  at their element whatever is rebuilt, the old value is returned, and the invariant is kept.\<close>

theorem array_insert_refines:
  assumes "arr_ok (Suc n) a"
  shows "arr_ok n (fst (arr_insert a k v)) \<and> abs_arr (fst (arr_insert a k v)) = abs_insert k v (abs_arr a)
    \<and> snd (arr_insert a k v) = map_of (a_list a) k"
  using arr_insert_refines [OF assms] by blast

theorem array_insert_refines_witness:
  "arr_ok (Suc 99) sample_array \<and> snd (arr_insert sample_array (KInt 7) VNull) = Some (VBool True)
    \<and> arr_ok 99 (fst (arr_insert sample_array (KInt 7) VNull))"
  using array_insert_refines [of 99 sample_array "KInt 7" VNull] sample_array_ok by simp

text \<open>C3: removal implements deletion from the association list: the order of the rest is kept, the
  internal pointer and the iterators stay at their elements (an element removed under one leaves it at the
  next), the next append index is kept, and the removed value is returned.\<close>

theorem array_remove_refines:
  assumes "arr_ok n a"
  shows "arr_ok n (fst (arr_remove a k)) \<and> abs_arr (fst (arr_remove a k)) = abs_remove k (abs_arr a)
    \<and> snd (arr_remove a k) = map_of (a_list a) k"
proof -
  obtain b old where r: "arr_remove a k = (b, old)" by fastforce
  have "arr_inv a" using assms by (simp add: arr_ok_def)
  from arr_remove_ok [OF this r] assms show ?thesis by (simp add: r arr_ok_def arr_room_def)
qed

theorem array_remove_refines_witness:
  "arr_ok 100 sample_array \<and> snd (arr_remove sample_array (KStr (ascii ''k''))) = Some VNull
    \<and> ab_list (abs_arr (fst (arr_remove sample_array (KInt 0)))) =
        [(KInt 7, VBool True), (KStr (ascii ''k''), VNull), (KInt (- 3), VNull)]"
  using array_remove_refines [OF sample_array_ok(1), of "KStr (ascii ''k'')"]
    array_remove_refines [OF sample_array_ok(1), of "KInt 0"] sample_array_ok
  by (simp add: abs_remove_def abs_arr_sel)

text \<open>C4: \<open>$a[] = v\<close> fails, leaving the array as it is, exactly when the next index is past the largest
  integer; otherwise it appends under a key that is not in the array and returns it.\<close>

theorem array_push_spec:
  assumes "arr_ok (Suc n) a"
  shows "case arr_push a v of
      (a', Inl e) \<Rightarrow> a' = a \<and> next_index a = None
    | (a', Inr i) \<Rightarrow> next_index a = Some i \<and> arr_get a (KInt i) = None \<and> arr_ok n a'
        \<and> a_list a' = a_list a @ [(KInt i, v)] \<and> abs_arr a' = abs_insert (KInt i) v (abs_arr a)"
proof (cases "next_index a")
  case None
  then show ?thesis by (simp add: arr_push_def)
next
  case (Some i)
  obtain b r where p: "arr_push a v = (b, r)" by fastforce
  have inv: "arr_inv a" "arr_room 1 a" using assms by (simp_all add: arr_ok_def arr_room_def)
  have "arr_get a (KInt i) = None"
    using next_index_fresh [OF inv(1) Some] arr_get_spec [OF inv(1)] by (simp add: map_of_eq_None_iff)
  with arr_push_ok [OF inv Some p] assms p Some show ?thesis by (simp add: arr_ok_def arr_room_def)
qed

theorem array_push_spec_witness:
  "arr_ok (Suc 99) sample_array \<and> next_index sample_array = Some 8 \<and>
    a_list (fst (arr_push sample_array VNull)) = a_list sample_array @ [(KInt 8, VNull)]"
proof -
  have "next_index sample_array = Some 8" by code_simp
  then show ?thesis
    using array_push_spec [of 99 sample_array VNull] sample_array_ok(1)
    by (cases "arr_push sample_array VNull") (simp split: sum.splits)
qed

text \<open>\<open>array_pop\<close> takes the last entry, whatever the pointer and the iterators say, makes the next index
  follow the largest remaining integer key and resets the pointer; on an empty array it does nothing.\<close>

theorem array_pop_spec:
  assumes "arr_inv a"
  shows "case arr_pop a of (a', r) \<Rightarrow>
     arr_inv a' \<and> a_list a' = butlast (a_list a) \<and> r = (if a_list a = [] then None else Some (snd (last (a_list a))))
     \<and> (a_list a \<noteq> [] \<longrightarrow> a_next a' = next_after (a_list a') \<and> ab_cursor (abs_arr a') = 0)"
proof -
  obtain b r where p: "arr_pop a = (b, r)" by fastforce
  from arr_pop_ok [OF assms p] show ?thesis unfolding p by blast
qed

theorem array_pop_spec_witness:
  "arr_inv sample_array \<and> snd (arr_pop sample_array) = Some VNull
    \<and> a_list (fst (arr_pop sample_array)) = butlast (a_list sample_array)"
  using array_pop_spec [OF sample_array_inv] sample_array_inv
  by (cases "arr_pop sample_array") (simp add: sample_array_ok(2))

text \<open>\<open>entry\<close> gives a reference to the element of the key, inserting null only if the key is missing;
  a write through it changes that element and nothing else.\<close>

theorem array_entry_spec:
  assumes "arr_ok (Suc n) a"
  shows "case arr_entry a k of (a', p) \<Rightarrow>
     arr_ok n a' \<and> abs_arr a' = (if arr_get a k = None then abs_insert k VNull (abs_arr a) else abs_arr a)
     \<and> arr_get a' k = Some (arr_at a' p)
     \<and> (\<forall>v j. arr_get (arr_put a' p v) j = (if j = k then Some v else arr_get a' j) \<and> arr_inv (arr_put a' p v))"
proof -
  obtain b p where e: "arr_entry a k = (b, p)" by fastforce
  have inv: "arr_inv a" "arr_room 1 a" using assms by (simp_all add: arr_ok_def arr_room_def)
  note ok = arr_entry_ok [OF inv e]
  have mem: "k \<in> fst ` set (a_list a) \<longleftrightarrow> arr_get a k \<noteq> None"
    unfolding arr_get_spec [OF inv(1)] by (simp add: map_of_eq_None_iff)
  have "arr_get (arr_put b p v) j = (if j = k then Some v else arr_get b j) \<and> arr_inv (arr_put b p v)" for v j
  proof -
    note put = arr_put_ok [OF ok(1,2), of v]
    have "a_list (arr_put b p v) = AList.update k v (a_list b)"
      using put(2) abs_arr_sel(1) [of "arr_put b p v"] by simp
    then show ?thesis
      using put(1) arr_get_spec [OF put(1), of j] arr_get_spec [OF ok(1), of j] by (simp add: AList.update_conv')
  qed
  then show ?thesis
    using ok key_pos_at(1) [OF ok(1,2)] arr_get_spec [OF ok(1), of k] assms mem
    by (simp add: e arr_ok_def arr_room_def)
qed

theorem array_entry_spec_witness:
  "arr_ok (Suc 99) sample_array \<and>
    (case arr_entry sample_array (KStr [0x61]) of (a', p) \<Rightarrow> arr_get (arr_put a' p (VInt 1)) (KStr [0x61]) = Some (VInt 1))"
  using array_entry_spec [of 99 sample_array "KStr [0x61]"] sample_array_ok(1)
  by (cases "arr_entry sample_array (KStr [0x61])") simp

text \<open>C8: the internal pointer is a cursor into the entries: \<open>current\<close> and \<open>key\<close> read the entry there,
  \<open>next\<close> and \<open>prev\<close> move by one entry and stop past the end, \<open>reset\<close> and \<open>end\<close> go to the first and
  the last, and none of them changes anything else.\<close>

theorem array_pointer_spec:
  assumes "arr_inv a"
  shows "arr_current a = map_option snd (nth_entry (a_list a) (ab_cursor (abs_arr a)))
    \<and> current_key a = map_option fst (nth_entry (a_list a) (ab_cursor (abs_arr a)))
    \<and> abs_arr (advance a) = (abs_arr a)\<lparr>ab_cursor := min (Suc (ab_cursor (abs_arr a))) (length (a_list a))\<rparr>
    \<and> abs_arr (retreat a) = (abs_arr a)\<lparr>ab_cursor :=
        (let c = ab_cursor (abs_arr a) in if 0 < c \<and> c < length (a_list a) then c - 1 else length (a_list a))\<rparr>
    \<and> abs_arr (arr_reset a) = (abs_arr a)\<lparr>ab_cursor := 0\<rparr>
    \<and> abs_arr (arr_end a) = (abs_arr a)\<lparr>ab_cursor := length (a_list a) - 1\<rparr>
    \<and> arr_inv (advance a) \<and> arr_inv (retreat a) \<and> arr_inv (arr_reset a) \<and> arr_inv (arr_end a)"
  using current_spec [OF assms] advance_ok [OF assms] retreat_ok [OF assms] arr_reset_ok [OF assms] arr_end_ok [OF assms]
  by blast

theorem array_pointer_spec_witness:
  "arr_inv sample_array \<and> ab_cursor (abs_arr (arr_end sample_array)) = 3"
  using array_pointer_spec [OF sample_array_inv] sample_array_inv by (simp add: sample_array_ok(2))

text \<open>C6: a step of a by-reference \<open>foreach\<close> visits the entry at its own iterator's cursor, makes the
  element a reference to a cell with the element's value, moves the cursor to the next entry, and at the end
  reports it without changing the entries.\<close>

theorem array_foreach_ref_spec:
  assumes "arr_inv a" "flat_refs R" "\<forall>kv \<in> set (a_list a). ref_ok R (snd kv)"
  shows "case iter_next_ref R a iid of
      (R', a', None) \<Rightarrow> arr_inv a' \<and> iter_cursor a iid = length (a_list a) \<and> a_list a' = a_list a \<and> R' = R
    | (R', a', Some (k, r)) \<Rightarrow> arr_inv a' \<and> iter_cursor a iid < length (a_list a) \<and> iter_cursor a' iid = Suc (iter_cursor a iid)
        \<and> k = fst (a_list a ! iter_cursor a iid) \<and> a_list a' = AList.update k (VRef r) (a_list a)
        \<and> deref R' (VRef r) = deref R (snd (a_list a ! iter_cursor a iid)) \<and> flat_refs R'"
proof -
  obtain R' a' res where e: "iter_next_ref R a iid = (R', a', res)" by (metis surj_pair)
  obtain k v where kv: "a_list a ! iter_cursor a iid = (k, v)" by fastforce
  note ok = iter_next_ref_ok [OF assms e]
  show ?thesis
  proof (cases "iter_cursor a iid < length (a_list a)")
    case True
    with ok(1) ok(3) [OF True kv] kv show ?thesis by (auto simp: e)
  next
    case False
    with ok(4) have "iter_cursor a iid = length (a_list a)" by simp
    with ok(1,2) show ?thesis by (auto simp: e)
  qed
qed

theorem array_foreach_ref_spec_witness:
  "arr_inv sample_array \<and> flat_refs [] \<and>
    (case iter_next_ref [] sample_array 1 of (R', a', res) \<Rightarrow> arr_inv a')"
proof -
  have f: "flat_refs []" by (simp add: flat_refs_def)
  have r: "\<forall>kv \<in> set (a_list sample_array). ref_ok [] (snd kv)" by (simp add: sample_array_ok(2) ref_ok_def)
  obtain R' a' res where e: "iter_next_ref [] sample_array 1 = (R', a', res)" by (metis surj_pair)
  show ?thesis
    using array_foreach_ref_spec [OF sample_array_inv f r, of 1] sample_array_inv f r
    by (auto simp: e split: option.splits)
qed

text \<open>C7: an assignment to a key is seen when the key is read back through references; the elements of the
  other keys stay as they are, and so does every cell but the one the element is bound to.\<close>

theorem array_assign_spec:
  assumes "arr_ok (Suc n) a" "flat_refs R" "\<forall>kv \<in> set (a_list a). ref_ok R (snd kv)" "ref_ok R v"
  shows "case arr_assign R a k v of (R', a', old) \<Rightarrow>
      arr_ok n a' \<and> flat_refs R' \<and> map_option (deref R') (arr_get a' k) = Some (deref R v)
      \<and> old = map_option (deref R) (arr_get a k)
      \<and> (\<forall>j. j \<noteq> k \<longrightarrow> arr_get a' j = arr_get a j)
      \<and> (\<forall>q < length R. arr_get a k \<noteq> Some (VRef q) \<longrightarrow> ref_get R' q = ref_get R q)"
proof -
  define v' where "v' = deref R v"
  have v': "\<not> is_ref v'" using deref_not_ref [OF assms(2,4)] by (simp add: v'_def)
  then have d': "deref R v' = v'" and rv: "ref_ok R v'" for R by (auto simp: deref_idem ref_ok_def split: val.splits)
  have inv: "arr_inv a" "arr_room 1 a" using assms(1) by (simp_all add: arr_ok_def arr_room_def)
  define b where "b = note_mut_access a"
  have b: "arr_inv b" "arr_ok (Suc n) b" "abs_arr b = abs_arr a" "a_store b = a_store a"
    using assms(1) by (simp_all add: b_def arr_ok_def)
  have bl: "a_list b = a_list a" by (simp add: a_list_def b_def)
  have gm: "arr_get_mut a k = (b, snd (arr_get_mut a k))" by (simp add: arr_get_mut_def b_def)
  have get: "arr_get b j = arr_get a j" for j
    unfolding arr_get_spec [OF b(1)] arr_get_spec [OF inv(1)] bl ..
  show ?thesis
  proof (cases "snd (arr_get_mut a k)")
    case None
    then have abs: "arr_get a k = None"
      using arr_get_mut_spec [OF inv(1), of k] arr_get_spec [OF inv(1), of k] by simp
    obtain c old where ins: "arr_insert b k v' = (c, old)" by fastforce
    have res: "arr_assign R a k v = (R, c, old)"
      using None gm ins by (simp add: arr_assign_def v'_def)
    show ?thesis
      using php.put_ok [OF b(2), of k v'] php.get_put [OF b(2), of k v'] arr_insert_refines(3) [OF b(2), of k v']
        abs assms(2) d' arr_get_spec [OF b(1), of k] get
      unfolding res v'_def [symmetric] by (simp add: arr_put_key_def ins)
  next
    case (Some p)
    have kp: "key_pos b k p"
      using arr_get_mut_spec [OF inv(1), of k] Some by (simp add: key_pos_def b_def)
    note at = key_pos_at(1) [OF b(1) kp]
    obtain R' new old where as: "assign_slot R (arr_at b p) v' = (R', new, old)" by (metis surj_pair)
    have "(k, arr_at b p) \<in> set (a_list a)" using at by (simp add: bl map_of_SomeD)
    then have ro: "ref_ok R (arr_at b p)" using assms(3) by fastforce
    note sp = assign_slot_spec [OF assms(2) ro rv as]
    note put = arr_put_ok [OF b(1) kp, of new]
    have res: "arr_assign R a k v = (R', arr_put b p new, Some old)"
      using Some gm as by (simp add: arr_assign_def v'_def split: prod.split)
    have "a_list (arr_put b p new) = AList.update k new (a_list b)"
      using put(2) abs_arr_sel(1) [of "arr_put b p new"] by simp
    then have g: "arr_get (arr_put b p new) j = (if j = k then Some new else arr_get a j)" for j
      unfolding arr_get_spec [OF put(1)] arr_get_spec [OF inv(1)] bl by (simp add: AList.update_conv')
    have "arr_get a k = Some (arr_at b p)" using at arr_get_spec [OF inv(1), of k] bl by simp
    then show ?thesis
      using put(1,3) b(2) sp g d' by (simp add: res arr_ok_def arr_room_def v'_def)
  qed
qed

theorem array_assign_spec_witness:
  "arr_ok (Suc 99) sample_array \<and> flat_refs [] \<and> ref_ok [] (VInt 9)
    \<and> (case arr_assign [] sample_array (KInt 7) (VInt 9) of (R', a', old) \<Rightarrow> old = Some (VBool True))"
proof -
  have f: "flat_refs []" by (simp add: flat_refs_def)
  have r: "\<forall>kv \<in> set (a_list sample_array). ref_ok [] (snd kv)" "ref_ok [] (VInt 9)"
    by (simp_all add: sample_array_ok(2) ref_ok_def)
  have ok: "arr_ok (Suc 99) sample_array" using sample_array_ok(1) by simp
  have g: "arr_get sample_array (KInt 7) = Some (VBool True)"
    using arr_get_spec [OF sample_array_inv] by (simp add: sample_array_ok(2))
  show ?thesis
    using array_assign_spec [OF ok f r, of "KInt 7"] ok f r g
    by (cases "arr_assign [] sample_array (KInt 7) (VInt 9)") (simp add: deref_def)
qed

text \<open>An array built from a list of pairs maps each key to its last value; one built from values has
  them in order under the keys 0, 1, \<dots>, in the packed form, and never fails.\<close>

theorem array_build_spec:
  assumes "length ps < max_entries" "length vs < max_entries"
  shows "arr_get (arr_from_pairs ps) k = map_of (rev ps) k \<and>
    (\<exists>a. arr_from_values vs = Some a \<and> a_list a = int_keyed 0 vs \<and> arr_is_packed a \<and> arr_inv a)"
proof -
  have "arr_ok (length ps + 0) arr_new" using arr_ok_new assms(1) by simp
  moreover have "arr_get arr_new k = None"
    using arr_get_spec [OF arr_new_ok(1), of k] arr_new_ok(2) abs_arr_sel(1) [of arr_new] by simp
  ultimately have "arr_get (arr_from_pairs ps) k = map_of (rev ps) k"
    using php.get_put_all [of ps 0 arr_new k] by (simp add: arr_from_pairs_def split: option.splits)
  moreover obtain a where "push_all vs arr_new = Some a" "arr_inv a" "a_store a = Packed vs"
    using push_all_packed [OF arr_new_ok(1), of "[]" vs] assms(2) by (auto simp: arr_new_def next_index_def)
  ultimately show ?thesis by (simp add: arr_from_values_def a_list_def arr_is_packed_def)
qed

theorem array_build_spec_witness:
  "length sample_pairs < max_entries \<and> arr_get (arr_from_pairs sample_pairs) (KInt 7) = Some (VBool True)"
  using array_build_spec [of sample_pairs "[VNull]" "KInt 7"] by (simp add: sample_pairs_def max_entries_def)

text \<open>\<open>array_is_list\<close> holds exactly when the keys are 0, 1, \<dots> in order, and a copy of an array has its
  keys, pointers and next index, with the references that only the copied array holds resolved.\<close>

theorem array_copy_spec:
  assumes "arr_inv a"
  shows "arr_is_list a = (map fst (a_list a) = map (\<lambda>n. KInt (word_of_nat n)) [0..<length (a_list a)])
    \<and> arr_inv (arr_clone R a)
    \<and> abs_arr (arr_clone R a) = (abs_arr a)\<lparr>ab_list := map (map_prod id (copy_elem R)) (a_list a)\<rparr>"
  using arr_is_list_spec [OF assms] arr_clone_ok [OF assms, of R] by blast

theorem array_copy_spec_witness:
  "arr_inv sample_array \<and> \<not> arr_is_list sample_array \<and> arr_inv (arr_clone [] sample_array)"
  using array_copy_spec [OF sample_array_inv, of "[]"] sample_array_inv
  by (simp add: sample_array_ok(2) upt_rec)

text \<open>C5: a lookup in the hash form ends within as many probes as the index has slots, and finds the
  position of the live entry with the key, or reports that there is none.\<close>

theorem hash_find_terminates:
  assumes "hs_inv s"
  shows "\<exists>r. hs_find_opt s k (bucket_hash k) = Some r \<and>
    (case r of None \<Rightarrow> \<forall>i. \<not> live_pos (hs_entries s) k i | Some i \<Rightarrow> live_pos (hs_entries s) k i)"
  using assms by (rule hs_find_opt_spec)

theorem hash_find_terminates_witness:
  "hs_inv (hs_of_list [VNull, VInt 4] 9) \<and> length (hs_index (hs_of_list [VNull, VInt 4] 9)) = 32 \<and>
    (\<exists>r. hs_find_opt (hs_of_list [VNull, VInt 4] 9) (KInt 1) (bucket_hash (KInt 1)) = Some r)"
proof -
  have inv: "hs_inv (hs_of_list [VNull, VInt 4] 9)" by (rule hs_of_list_ok) (simp add: max_entries_def)
  moreover have "length (hs_index (hs_of_list [VNull, VInt 4] 9)) = 32" by code_simp
  ultimately show ?thesis using hash_find_terminates [OF inv, of "KInt 1"] by blast
qed

end
