(* ===== verification/RandomCore.thy ===== *)
theory RandomCore
  imports IntText
begin

text \<open>
  What the random engines share (\<open>crates/goro-ext-random\<close>: \<open>lib.rs\<close>, \<open>engine.rs\<close>,
  \<open>state.rs\<close>): the errors, one \<open>generate()\<close> result, the filling of byte buffers with
  little-endian words, and the hexadecimal state items of \<open>__serialize()\<close>.
\<close>

section \<open>Errors and results\<close>

datatype random_error =
    ValueError string
  | BrokenEngine string
  | RandomException string
  | PlainException string
  | Propagate

definition msg_retry_limit :: string where
  "msg_retry_limit = ''Failed to generate an acceptable random number in 50 attempts''"

definition msg_empty_string :: string where
  "msg_empty_string = ''A random engine must return a non-empty string''"

definition engine_class :: "string \<Rightarrow> string" where
  "engine_class n = ''Random'' @ [CHR 0x5C] @ ''Engine'' @ [CHR 0x5C] @ n"

definition class_mt19937 :: string where "class_mt19937 = engine_class ''Mt19937''"
definition class_pcg :: string where "class_pcg = engine_class ''PcgOneseq128XslRr64''"
definition class_xoshiro :: string where "class_xoshiro = engine_class ''Xoshiro256StarStar''"
definition class_secure :: string where "class_secure = engine_class ''Secure''"

definition invalid_serialization :: "string \<Rightarrow> random_error" where
  "invalid_serialization c = PlainException (''Invalid serialization data for '' @ c @ '' object'')"

definition serialization_not_allowed :: "string \<Rightarrow> random_error" where
  "serialization_not_allowed c = PlainException (''Serialization of '' @ [CHR 0x27] @ c @ [CHR 0x27] @ '' is not allowed'')"

record generated =
  g_value :: u64
  g_size :: nat

definition gen_u32 :: "u32 \<Rightarrow> generated" where
  "gen_u32 v = \<lparr>g_value = ucast v, g_size = 4\<rparr>"

definition gen_u64 :: "u64 \<Rightarrow> generated" where
  "gen_u64 v = \<lparr>g_value = v, g_size = 8\<rparr>"

definition gen_from_bytes :: "bytes \<Rightarrow> random_error + generated" where
  "gen_from_bytes b =
     (if b = [] then Inl (BrokenEngine msg_empty_string)
      else let n = min (length b) 8
           in Inr \<lparr>g_value = le_word (take n b @ replicate (8 - n) 0), g_size = n\<rparr>)"

definition gen_bytes :: "generated \<Rightarrow> bytes" where
  "gen_bytes g = take (g_size g) (le_bytes (g_value g))"

text \<open>A result as the engines make it: one to eight bytes, the bits above them clear.\<close>

definition gen_ok :: "generated \<Rightarrow> bool" where
  "gen_ok g \<longleftrightarrow> 1 \<le> g_size g \<and> g_size g \<le> 8 \<and> unat (g_value g) < 2 ^ (8 * g_size g)"

section \<open>Little-endian bytes\<close>

definition le_bytes32 :: "u32 \<Rightarrow> bytes" where
  "le_bytes32 w = map (\<lambda>i. ucast (drop_bit (8 * i) w)) [0..<4]"

definition le_word32 :: "bytes \<Rightarrow> u32" where
  "le_word32 b = ucast (le_word b)"

lemma bit_le_word: "i < 64 \<Longrightarrow> bit (le_word bs) i \<longleftrightarrow> i div 8 < length bs \<and> bit (bs ! (i div 8)) (i mod 8)"
proof (induction bs arbitrary: i)
  case (Cons b bs)
  show ?case
  proof (cases "i < 8")
    case True
    then show ?thesis using Cons.prems by (simp add: bit_or_iff bit_ucast_iff bit_push_bit_iff)
  next
    case False
    then have i: "i - 8 < 64" "(i - 8) div 8 = i div 8 - 1" "(i - 8) mod 8 = i mod 8" "0 < i div 8"
      using Cons.prems by (simp_all add: le_div_geq le_mod_geq)
    have "\<not> bit (ucast b :: u64) i"
      using False by (auto simp: bit_ucast_iff dest: bit_imp_le_length)
    then have "bit (le_word (b # bs)) i \<longleftrightarrow> bit (le_word bs) (i - 8)"
      using False Cons.prems by (simp add: bit_or_iff bit_push_bit_iff)
    also have "\<dots> \<longleftrightarrow> i div 8 - 1 < length bs \<and> bit (bs ! (i div 8 - 1)) (i mod 8)"
      using Cons.IH [OF i(1)] by (simp only: i(2,3))
    also have "\<dots> \<longleftrightarrow> i div 8 < length (b # bs) \<and> bit ((b # bs) ! (i div 8)) (i mod 8)"
      using i(4) by (cases "i div 8") simp_all
    finally show ?thesis .
  qed
qed simp

lemma length_le_bytes [simp]: "length (le_bytes w) = 8" "length (le_bytes32 v) = 4"
  by (simp_all add: le_bytes_def le_bytes32_def)

lemma le_word_bytes [simp]: "le_word (le_bytes w) = w"
proof (rule bit_word_eqI)
  fix n assume "n < LENGTH(64)"
  then show "bit (le_word (le_bytes w)) n = bit w n"
    by (auto simp: bit_le_word le_bytes_def bit_ucast_iff bit_drop_bit_eq less_mult_imp_div_less)
qed

lemma le_word32_bytes [simp]: "le_word32 (le_bytes32 v) = v"
proof (rule bit_word_eqI)
  fix n assume "n < LENGTH(32)"
  then show "bit (le_word32 (le_bytes32 v)) n = bit v n"
    by (auto simp: le_word32_def bit_le_word le_bytes32_def bit_ucast_iff bit_drop_bit_eq less_mult_imp_div_less)
qed

lemma le_bytes_word: "length bs = 8 \<Longrightarrow> le_bytes (le_word bs) = bs"
proof (rule nth_equalityI)
  fix i assume "length bs = 8" "i < length (le_bytes (le_word bs))"
  then have i: "i < 8" and l: "length bs = 8" by simp_all
  show "le_bytes (le_word bs) ! i = bs ! i"
  proof (rule bit_word_eqI)
    fix n assume "n < LENGTH(8)"
    then have "8 * i + n < 64" "(8 * i + n) div 8 = i" "(8 * i + n) mod 8 = n" using i by simp_all
    with i l \<open>n < LENGTH(8)\<close> show "bit (le_bytes (le_word bs) ! i) n = bit (bs ! i) n"
      by (simp add: le_bytes_def bit_ucast_iff bit_drop_bit_eq bit_le_word)
  qed
qed simp

lemma le_word_append_zeros: "le_word (bs @ replicate n 0) = le_word bs"
proof (rule bit_word_eqI)
  fix i assume "i < LENGTH(64)"
  then show "bit (le_word (bs @ replicate n 0)) i = bit (le_word bs) i"
    by (auto simp: bit_le_word nth_append)
qed

lemma le_word_less: "unat (le_word bs) < 2 ^ (8 * length bs)"
proof (cases "8 * length bs < 64")
  case True
  have "take_bit (8 * length bs) (le_word bs) = le_word bs"
  proof (rule bit_word_eqI)
    fix n assume n: "n < LENGTH(64)"
    have "n div 8 < length bs \<longleftrightarrow> n < 8 * length bs" by (simp add: div_less_iff_less_mult mult.commute)
    then show "bit (take_bit (8 * length bs) (le_word bs)) n = bit (le_word bs) n"
      using n by (auto simp: bit_take_bit_iff bit_le_word)
  qed
  then have "unat (le_word bs) = take_bit (8 * length bs) (unat (le_word bs))"
    by (metis unsigned_take_bit_eq)
  then show ?thesis by (metis take_bit_nat_less_exp)
next
  case False
  then have "(2::nat) ^ 64 \<le> 2 ^ (8 * length bs)" by (intro power_increasing) simp_all
  then show ?thesis using unat_u64_less by (rule less_le_trans [rotated])
qed

lemma gen_from_bytes_ok: "gen_from_bytes b = Inr g \<Longrightarrow> gen_ok g \<and> gen_bytes g = take 8 b"
proof -
  assume g: "gen_from_bytes b = Inr g"
  define n where "n = min (length b) 8"
  have ne: "b \<noteq> []" using g by (auto simp: gen_from_bytes_def)
  then have gv: "g_value g = le_word (take n b @ replicate (8 - n) 0)" "g_size g = n"
    using g by (auto simp: gen_from_bytes_def Let_def n_def)
  have n: "1 \<le> n" "n \<le> 8" using ne by (simp_all add: n_def Suc_leI)
  have "length (take n b @ replicate (8 - n) 0) = 8" using n by (simp add: n_def)
  then have "gen_bytes g = take n (take n b @ replicate (8 - n) 0)"
    unfolding gen_bytes_def gv by (simp only: le_bytes_word)
  also have "\<dots> = take 8 b" by (auto simp: n_def min_def)
  finally have bytes: "gen_bytes g = take 8 b" .
  have "unat (g_value g) < 2 ^ (8 * length (take n b))"
    unfolding gv le_word_append_zeros by (rule le_word_less)
  then have "unat (g_value g) < 2 ^ (8 * n)" by (simp add: n_def)
  with bytes n gv(2) show ?thesis by (simp add: gen_ok_def)
qed

lemma gen_native_ok [simp]: "gen_ok (gen_u32 v)" "gen_ok (gen_u64 w)"
proof -
  have "unat (ucast v :: u64) \<le> unat v"
    by (simp add: unsigned_ucast_eq take_bit_nat_less_eq_self)
  then have "unat (ucast v :: u64) < 2 ^ 32" using unsigned_less [of v, where 'a = nat] by simp
  then show "gen_ok (gen_u32 v)" by (simp add: gen_ok_def gen_u32_def)
  show "gen_ok (gen_u64 w)" using unat_u64_less [of w] by (simp add: gen_ok_def gen_u64_def)
qed

lemma length_gen_bytes: "gen_ok g \<Longrightarrow> length (gen_bytes g) = g_size g"
  by (simp add: gen_ok_def gen_bytes_def)

section \<open>Filling a buffer\<close>

text \<open>\<open>fill_words\<close>: whole words while they fit, then one more word, cut.  The buffer's length is
  all that its old contents give.\<close>

function fill_words :: "nat \<Rightarrow> ('e \<Rightarrow> bytes \<times> 'e) \<Rightarrow> nat \<Rightarrow> 'e \<Rightarrow> bytes \<times> 'e" where
  "fill_words w nxt len e =
     (if 0 < w \<and> w \<le> len then
        (let (b, e) = nxt e; (bs, e) = fill_words w nxt (len - w) e in (b @ bs, e))
      else if len = 0 then ([], e)
      else (let (b, e) = nxt e in (take len b, e)))"
  by pat_completeness auto
termination
  by (relation "measure (\<lambda>(w, nxt, len, e). len)") auto

declare fill_words.simps [simp del]

section \<open>State items\<close>

datatype state_item = HexItem bytes | IntItem i64

datatype state_value = StrValue bytes | IntValue i64 | OtherValue | MissingValue

definition hex_digit :: "u8 \<Rightarrow> u8" where
  "hex_digit d = ascii ''0123456789abcdef'' ! unat d"

fun hex_string :: "bytes \<Rightarrow> bytes" where
  "hex_string [] = []"
| "hex_string (b # bs) = hex_digit (drop_bit 4 b) # hex_digit (b AND 15) # hex_string bs"

definition hex_item :: "bytes \<Rightarrow> state_item" where
  "hex_item b = HexItem (hex_string b)"

definition hex_val :: "u8 \<Rightarrow> u8 option" where
  "hex_val c =
     (if 0x30 \<le> c \<and> c \<le> 0x39 then Some (c - 0x30)
      else if 0x61 \<le> c \<and> c \<le> 0x66 then Some (c - 0x61 + 10)
      else if 0x41 \<le> c \<and> c \<le> 0x46 then Some (c - 0x41 + 10) else None)"

fun hex_pairs :: "bytes \<Rightarrow> bytes option" where
  "hex_pairs (x # y # s) =
     (case hex_val x of None \<Rightarrow> None
      | Some h \<Rightarrow> (case hex_val y of None \<Rightarrow> None
        | Some l \<Rightarrow> map_option ((#) (push_bit 4 h OR l)) (hex_pairs s)))"
| "hex_pairs _ = Some []"

definition parse_hex :: "nat \<Rightarrow> bytes \<Rightarrow> bytes option" where
  "parse_hex n s = (if length s \<noteq> 2 * n then None else hex_pairs s)"

fun parse_word_items :: "state_value list \<Rightarrow> u64 list option" where
  "parse_word_items [] = Some []"
| "parse_word_items (StrValue s # items) =
     (case parse_hex 8 s of None \<Rightarrow> None | Some b \<Rightarrow> map_option ((#) (le_word b)) (parse_word_items items))"
| "parse_word_items (_ # items) = None"

definition parse_words :: "nat \<Rightarrow> state_value list \<Rightarrow> u64 list option" where
  "parse_words k items = (if length items \<noteq> k then None else parse_word_items items)"

text \<open>What \<open>__unserialize()\<close> is given back from a serialized state.\<close>

fun item_value :: "state_item \<Rightarrow> state_value" where
  "item_value (HexItem s) = StrValue s"
| "item_value (IntItem i) = IntValue i"

lemma hex_digits: "\<forall>d \<in> set (map word_of_nat [0..<16] :: u8 list). hex_val (hex_digit d) = Some d"
  by code_simp

lemma hex_val_digit: "unat d < 16 \<Longrightarrow> hex_val (hex_digit d) = Some d"
proof -
  assume "unat d < 16"
  then have "word_of_nat (unat d) \<in> (word_of_nat ` set [0..<16] :: u8 set)" by (intro imageI) simp
  then have "d \<in> set (map word_of_nat [0..<16])" by (simp only: set_map) (simp del: set_upt)
  then show ?thesis using hex_digits by blast
qed

lemma nibble_take: "(b :: u8) AND 15 = take_bit 4 b"
proof -
  have "(15 :: u8) = mask 4" by (simp add: mask_eq_exp_minus_1)
  then show ?thesis by (simp only: take_bit_eq_mask)
qed

lemma nibbles: "push_bit 4 (drop_bit 4 b) OR (b AND 15) = (b :: u8)"
  unfolding nibble_take
  by (rule bit_word_eqI) (auto simp: bit_or_iff bit_push_bit_iff bit_drop_bit_eq bit_take_bit_iff not_less)

lemma nibble_less: "unat (drop_bit 4 (b :: u8)) < 16" "unat ((b :: u8) AND 15) < 16"
proof -
  have "unat (drop_bit 4 b) = unat b div 2 ^ 4"
    unfolding unat_drop_bit_eq unfolding drop_bit_eq_div ..
  then show "unat (drop_bit 4 b) < 16" using unsigned_less [of b, where 'a = nat] by simp
  have "unat (take_bit 4 b) = take_bit 4 (unat b)" by (rule unsigned_take_bit_eq)
  also have "\<dots> < 2 ^ 4" by (rule take_bit_nat_less_exp)
  finally show "unat (b AND 15) < 16" by (simp add: nibble_take)
qed

lemma hex_round_trip: "hex_pairs (hex_string b) = Some b"
  by (induction b rule: hex_string.induct) (simp_all add: hex_val_digit nibble_less nibbles)

lemma length_hex_string [simp]: "length (hex_string b) = 2 * length b"
  by (induction b rule: hex_string.induct) simp_all

lemma parse_hex_string: "length b = n \<Longrightarrow> parse_hex n (hex_string b) = Some b"
  by (simp add: parse_hex_def hex_round_trip)

lemma parse_words_items:
  "parse_words (length ws) (map (item_value \<circ> hex_item \<circ> le_bytes) ws) = Some ws"
proof -
  have "parse_word_items (map (item_value \<circ> hex_item \<circ> le_bytes) ws) = Some ws"
    by (induction ws) (simp_all add: hex_item_def parse_hex_string)
  then show ?thesis by (simp add: parse_words_def)
qed

end
