(* ===== verification/Ranges.thy ===== *)
theory Ranges
  imports RandomCore
begin

text \<open>
  Draws and range reduction (\<open>randomizer.rs\<close>, first part).  An engine is its \<open>generate\<close>
  function, from a state to a result or error and the next state, and is a parameter of every
  definition.  A reduced range is shown to be a uniform choice: every value of it comes from
  equally many draws, and less than half of the draws are rejected.
\<close>

section \<open>Draws\<close>

type_synonym 'e gen = "'e \<Rightarrow> (random_error + generated) \<times> 'e"

definition retry_limit :: nat where
  "retry_limit = 50"

definition retry_error :: random_error where
  "retry_error = BrokenEngine msg_retry_limit"

text \<open>The loop that combines results until \<open>limit\<close> bytes are there.  A result has at least one
  byte, so eight rounds are enough (\<open>draw_more_fuel\<close>).\<close>

fun draw_more :: "'e gen \<Rightarrow> nat \<Rightarrow> nat \<Rightarrow> u64 \<Rightarrow> nat \<Rightarrow> 'e \<Rightarrow> (random_error + u64) \<times> 'e" where
  "draw_more gen limit 0 r tot e = (Inr r, e)"
| "draw_more gen limit (Suc fuel) r tot e =
     (if tot < limit then
        (case gen e of
           (Inl err, e) \<Rightarrow> (Inl err, e)
         | (Inr g, e) \<Rightarrow> draw_more gen limit fuel (r OR push_bit (tot * 8) (g_value g)) (tot + g_size g) e)
      else (Inr r, e))"

definition draw_bytes :: "'e gen \<Rightarrow> nat \<Rightarrow> 'e \<Rightarrow> (random_error + u64) \<times> 'e" where
  "draw_bytes gen limit e =
     (case gen e of
        (Inl err, e) \<Rightarrow> (Inl err, e)
      | (Inr g, e) \<Rightarrow> draw_more gen limit 8 (g_value g) (g_size g) e)"

definition draw32 :: "'e gen \<Rightarrow> 'e \<Rightarrow> (random_error + u32) \<times> 'e" where
  "draw32 gen e = (case draw_bytes gen 4 e of (Inl err, e) \<Rightarrow> (Inl err, e) | (Inr r, e) \<Rightarrow> (Inr (ucast r), e))"

definition draw64 :: "'e gen \<Rightarrow> 'e \<Rightarrow> (random_error + u64) \<times> 'e" where
  "draw64 gen e = draw_bytes gen 8 e"

section \<open>Range reduction\<close>

text \<open>\<open>while r > limit\<close>, with the number of retries left.\<close>

fun range_retry :: "('e \<Rightarrow> (random_error + 'w::len word) \<times> 'e) \<Rightarrow> nat \<Rightarrow> 'w word \<Rightarrow> 'w word \<Rightarrow> 'w word \<Rightarrow> 'e
    \<Rightarrow> (random_error + 'w word) \<times> 'e" where
  "range_retry draw left limit n r e =
     (if limit < r then
        (case left of
           0 \<Rightarrow> (Inl retry_error, e)
         | Suc left' \<Rightarrow>
             (case draw e of
                (Inl err, e) \<Rightarrow> (Inl err, e)
              | (Inr r, e) \<Rightarrow> range_retry draw left' limit n r e))
      else (Inr (r mod n), e))"

declare range_retry.simps [simp del]

text \<open>The largest acceptable draw.\<close>

definition range_limit :: "'w::len word \<Rightarrow> 'w word" where
  "range_limit n = - 1 - (- 1 mod n) - 1"

definition range_word :: "('e \<Rightarrow> (random_error + 'w::len word) \<times> 'e) \<Rightarrow> 'w word \<Rightarrow> 'e \<Rightarrow> (random_error + 'w word) \<times> 'e" where
  "range_word draw umax e =
     (case draw e of
        (Inl err, e) \<Rightarrow> (Inl err, e)
      | (Inr r, e) \<Rightarrow>
          if umax = - 1 then (Inr r, e)
          else
            let n = umax + 1 in
            if n AND umax = 0 then (Inr (r AND umax), e)
            else if r \<le> - 1 - n then (Inr (r mod n), e)
            else range_retry draw retry_limit (range_limit n) n r e)"

definition range32 :: "'e gen \<Rightarrow> u32 \<Rightarrow> 'e \<Rightarrow> (random_error + u32) \<times> 'e" where
  "range32 gen = range_word (draw32 gen)"

definition range64 :: "'e gen \<Rightarrow> u64 \<Rightarrow> 'e \<Rightarrow> (random_error + u64) \<times> 'e" where
  "range64 gen = range_word (draw64 gen)"

definition range_u64 :: "'e gen \<Rightarrow> u64 \<Rightarrow> 'e \<Rightarrow> (random_error + u64) \<times> 'e" where
  "range_u64 gen umax e =
     (if 0xFFFFFFFF < umax then range64 gen umax e
      else (case range32 gen (ucast umax) e of (Inl err, e) \<Rightarrow> (Inl err, e) | (Inr v, e) \<Rightarrow> (Inr (ucast v), e)))"

definition range_int :: "'e gen \<Rightarrow> i64 \<Rightarrow> i64 \<Rightarrow> 'e \<Rightarrow> (random_error + i64) \<times> 'e" where
  "range_int gen lo hi e =
     (case range_u64 gen (hi - lo) e of (Inl err, e) \<Rightarrow> (Inl err, e) | (Inr v, e) \<Rightarrow> (Inr (lo + v), e))"

definition range_unchecked :: "'e gen \<Rightarrow> i64 \<Rightarrow> i64 \<Rightarrow> 'e \<Rightarrow> i64 \<times> 'e" where
  "range_unchecked gen lo hi e = (case range_int gen lo hi e of (Inr v, e) \<Rightarrow> (v, e) | (Inl _, e) \<Rightarrow> (lo, e))"

section \<open>What a single draw gives\<close>

text \<open>The value that a draw is reduced to, or \<open>None\<close> when it is rejected.\<close>

definition range_accept :: "'w::len word \<Rightarrow> 'w word \<Rightarrow> 'w word option" where
  "range_accept umax r =
     (if umax = - 1 then Some r
      else if (umax + 1) AND umax = 0 then Some (r AND umax)
      else if r \<le> range_limit (umax + 1) then Some (r mod (umax + 1)) else None)"

fun draw_until :: "('e \<Rightarrow> (random_error + 'w::len word) \<times> 'e) \<Rightarrow> nat \<Rightarrow> 'w word \<Rightarrow> 'e \<Rightarrow> (random_error + 'w word) \<times> 'e" where
  "draw_until draw 0 umax e = (Inl retry_error, e)"
| "draw_until draw (Suc tries) umax e =
     (case draw e of
        (Inl err, e) \<Rightarrow> (Inl err, e)
      | (Inr r, e) \<Rightarrow> (case range_accept umax r of Some v \<Rightarrow> (Inr v, e) | None \<Rightarrow> draw_until draw tries umax e))"

lemma unat_minus1: "unat (- 1 :: 'w::len word) = 2 ^ LENGTH('w) - 1"
  by (simp add: unsigned_minus_1_eq_mask mask_eq_exp_minus_1)

lemma unat_limit:
  fixes umax :: "'w::len word"
  assumes "umax \<noteq> - 1"
  shows "unat (umax + 1) = unat umax + 1"
    "unat (range_limit (umax + 1))
      = unat (umax + 1) * ((2 ^ LENGTH('w) - 1) div unat (umax + 1)) - 1"
    "0 < (2 ^ LENGTH('w) - 1) div unat (umax + 1)"
    "unat (- 1 - (umax + 1) :: 'w word) = 2 ^ LENGTH('w) - 1 - unat (umax + 1)"
proof -
  let ?N = "2 ^ LENGTH('w) :: nat"
  have "unat umax \<noteq> ?N - 1" using assms unat_minus1 by (metis unsigned_word_eqI)
  moreover have "unat umax < ?N" by (rule unsigned_less)
  ultimately have lt: "unat umax + 1 < ?N" by linarith
  then show n: "unat (umax + 1) = unat umax + 1" by (simp add: unat_word_ariths)
  define n where "n = unat (umax + 1)"
  have n1: "0 < n" "n \<le> ?N - 1" using n lt by (simp_all add: n_def)
  then show q: "0 < (?N - 1) div unat (umax + 1)" by (simp add: n_def div_greater_zero_iff)
  have sub: "unat (a - b) = unat a - unat b" if "b \<le> a" for a b :: "'w word"
    using that by (rule unat_sub)
  have top: "x \<le> - 1" for x :: "'w word" by (rule word_order.extremum)
  have m: "unat (- 1 - (- 1 mod (umax + 1)) :: 'w word) = n * ((?N - 1) div n)"
    unfolding sub [OF top] unat_mod unat_minus1 n_def [symmetric] by (simp add: minus_mod_eq_mult_div)
  have "0 < n * ((?N - 1) div n)" using n1 q by (simp add: n_def)
  then have one: "1 \<le> (- 1 - (- 1 mod (umax + 1)) :: 'w word)"
    unfolding word_le_nat_alt m by simp
  then show "unat (range_limit (umax + 1)) = unat (umax + 1) * ((?N - 1) div unat (umax + 1)) - 1"
    unfolding range_limit_def sub [OF one] m n_def by simp
  show "unat (- 1 - (umax + 1) :: 'w word) = ?N - 1 - unat (umax + 1)"
    unfolding sub [OF top] unat_minus1 ..
qed

text \<open>A number whose binary representation shares no digit with its predecessor is a power of two.\<close>

lemma and_pred_pow2: "0 < m \<Longrightarrow> m AND (m - 1) = 0 \<Longrightarrow> \<exists>k. m = (2::nat) ^ k"
proof (induction m rule: less_induct)
  case (less m)
  show ?case
  proof (cases "even m")
    case True
    then obtain a where a: "m = 2 * a" by blast
    then have "0 < a" using less.prems(1) by simp
    then have "m - 1 = 2 * (a - 1) + 1" using a by simp
    then have "m AND (m - 1) = 2 * (a AND (a - 1))"
      unfolding a by (simp add: and_nat_rec [of "2 * a"])
    then have "a AND (a - 1) = 0" using less.prems(2) by simp
    then obtain k where "a = 2 ^ k" using less.IH [of a] a \<open>0 < a\<close> by auto
    then have "m = 2 ^ Suc k" by (simp add: a)
    then show ?thesis by blast
  next
    case False
    then obtain a where a: "m = 2 * a + 1" by (rule oddE)
    then have "m AND (m - 1) = 2 * a"
      by (simp add: and_nat_rec [of "Suc (2 * a)"])
    then have "m = 2 ^ 0" using less.prems(2) a by simp
    then show ?thesis by blast
  qed
qed

lemma mask_range:
  fixes umax :: "'w::len word"
  assumes "umax \<noteq> - 1" "(umax + 1) AND umax = 0"
  shows "\<exists>k < LENGTH('w). unat (umax + 1) = 2 ^ k \<and> (\<forall>r. unat (r AND umax) = unat r mod 2 ^ k)"
proof -
  define n where "n = unat (umax + 1)"
  have n: "n = unat umax + 1" "unat umax = n - 1" using unat_limit(1) [OF assms(1)] by (simp_all add: n_def)
  have "n AND (n - 1) = unat ((umax + 1) AND umax)" 
    unfolding unsigned_and_eq n_def [symmetric] n(2) ..
  then have z: "n AND (n - 1) = 0" by (simp add: assms(2))
  have "0 < n" unfolding n(1) by simp
  then obtain k where k: "n = 2 ^ k" using and_pred_pow2 [OF _ z] by blast
  have "n < 2 ^ LENGTH('w)" unfolding n_def by (rule unsigned_less)
  then have "k < LENGTH('w)" using k by simp
  moreover have "unat (r AND umax) = unat r mod 2 ^ k" for r
    unfolding unsigned_and_eq n(2) k by (simp only: mask_eq_exp_minus_1 [symmetric] take_bit_eq_mask [symmetric] take_bit_eq_mod)
  ultimately have "k < LENGTH('w) \<and> unat (umax + 1) = 2 ^ k \<and> (\<forall>r. unat (r AND umax) = unat r mod 2 ^ k)"
    using k by (simp add: n_def)
  then show ?thesis by blast
qed

lemma range_accept_le: "range_accept umax r = Some v \<Longrightarrow> v \<le> umax"
proof -
  assume a: "range_accept umax r = Some v"
  show "v \<le> umax"
  proof (cases "umax = - 1")
    case False
    note l = unat_limit(1) [OF False]
    have "r mod (umax + 1) \<le> umax"
      using l unfolding word_le_nat_alt unat_mod by (metis Suc_eq_plus1 less_Suc_eq_le mod_less_divisor zero_less_Suc)
    moreover have "r AND umax \<le> umax" by (rule word_and_le1)
    ultimately show ?thesis using a False by (auto simp: range_accept_def split: if_splits)
  qed simp
qed

text \<open>Every value is the reduction of equally many draws.\<close>

lemma card_mod_class:
  assumes "v < n"
  shows "card {r :: nat. r < n * q \<and> r mod n = v} = q"
proof -
  have "{r. r < n * q \<and> r mod n = v} = (\<lambda>i. n * i + v) ` {..<q}"
  proof (rule set_eqI, rule iffI)
    fix r assume r: "r \<in> {r. r < n * q \<and> r mod n = v}"
    then have "r = n * (r div n) + v" by (metis (mono_tags, lifting) mem_Collect_eq mult_div_mod_eq)
    moreover have "r div n < q" using r by (simp add: less_mult_imp_div_less mult.commute)
    ultimately show "r \<in> (\<lambda>i. n * i + v) ` {..<q}" by blast
  next
    fix r assume "r \<in> (\<lambda>i. n * i + v) ` {..<q}"
    then obtain i where i: "i < q" "r = n * i + v" by blast
    have "n * i + v < n * Suc i" using assms by simp
    also have "\<dots> \<le> n * q" using i(1) by (intro mult_le_mono2) simp
    finally show "r \<in> {r. r < n * q \<and> r mod n = v}" using i(2) assms by simp
  qed
  moreover have "inj_on (\<lambda>i. n * i + v) {..<q}" using assms by (auto simp: inj_on_def)
  ultimately show ?thesis by (simp add: card_image)
qed

lemma card_word_class:
  assumes "\<And>r :: 'w::len word. P r \<longleftrightarrow> unat r < n * q \<and> unat r mod n = v" "v < n" "n * q \<le> 2 ^ LENGTH('w)"
  shows "card {r :: 'w word. P r} = q"
proof -
  have "unat ` {r :: 'w word. P r} = {r. r < n * q \<and> r mod n = v}"
  proof (rule set_eqI, rule iffI)
    fix x assume "x \<in> unat ` {r :: 'w word. P r}"
    then show "x \<in> {r. r < n * q \<and> r mod n = v}" using assms(1) by auto
  next
    fix x assume x: "x \<in> {r. r < n * q \<and> r mod n = v}"
    then have "x < 2 ^ LENGTH('w)" using assms(3) by auto
    then have "x = unat (word_of_nat x :: 'w word)" by (simp add: unat_of_nat)
    moreover from this x have "P (word_of_nat x)" using assms(1) by simp
    ultimately show "x \<in> unat ` {r :: 'w word. P r}" by blast
  qed
  moreover have "inj_on unat {r :: 'w word. P r}" by (simp add: inj_on_def unsigned_word_eqI)
  ultimately show ?thesis using card_mod_class [OF assms(2), of q] by (metis card_image)
qed

text \<open>The number of draws that give a value.\<close>

definition range_weight :: "'w::len word \<Rightarrow> nat" where
  "range_weight umax =
     (if umax = - 1 then 1
      else if (umax + 1) AND umax = 0 then 2 ^ LENGTH('w) div unat (umax + 1)
      else (2 ^ LENGTH('w) - 1) div unat (umax + 1))"

lemma card_accept:
  fixes umax v :: "'w::len word"
  assumes v: "v \<le> umax"
  shows "card {r. range_accept umax r = Some v} = range_weight umax"
proof (cases "umax = - 1")
  case True
  then show ?thesis by (simp add: range_accept_def range_weight_def)
next
  case False
  define n where "n = unat (umax + 1)"
  have n: "n = unat umax + 1" using unat_limit(1) [OF False] by (simp add: n_def)
  then have vn: "unat v < n" using v by (simp add: word_le_nat_alt)
  show ?thesis
  proof (cases "(umax + 1) AND umax = 0")
    case True
    obtain k where k: "k < LENGTH('w)" "n = 2 ^ k" "\<And>r. unat (r AND umax) = unat r mod 2 ^ k"
      using mask_range [OF False True] n_def by blast
    have w: "range_weight umax = 2 ^ (LENGTH('w) - k)"
      using False True k(1,2) by (simp add: range_weight_def n_def [symmetric] power_diff)
    have nq: "n * 2 ^ (LENGTH('w) - k) = 2 ^ LENGTH('w)" using k by (simp flip: power_add)
    have "range_accept umax r = Some v \<longleftrightarrow> unat r < n * 2 ^ (LENGTH('w) - k) \<and> unat r mod n = unat v" for r
    proof -
      have "r AND umax = v \<longleftrightarrow> unat r mod n = unat v"
        using k(2,3) by (metis unsigned_word_eqI)
      moreover have "unat r < 2 ^ LENGTH('w)" by (rule unsigned_less)
      ultimately show ?thesis using False True by (simp add: range_accept_def nq)
    qed
    from card_word_class [OF this vn] show ?thesis unfolding w using nq by simp
  next
    case nm: False
    define q where "q = (2 ^ LENGTH('w) - 1) div n"
    have w: "range_weight umax = q" using False nm by (simp add: range_weight_def q_def n_def)
    have q0: "0 < n * q" using unat_limit(3) [OF False] n by (simp add: q_def n_def)
    have nq: "n * q \<le> 2 ^ LENGTH('w)"
      using times_div_less_eq_dividend [of n "2 ^ LENGTH('w) - 1"] unfolding q_def by linarith
    have "range_accept umax r = Some v \<longleftrightarrow> unat r < n * q \<and> unat r mod n = unat v" for r
    proof -
      have "r \<le> range_limit (umax + 1) \<longleftrightarrow> unat r < n * q"
        unfolding word_le_nat_alt unat_limit(2) [OF False] n_def [symmetric] q_def [symmetric] using q0 by linarith
      moreover have "r mod (umax + 1) = v \<longleftrightarrow> unat r mod n = unat v"
        by (metis n_def unat_mod unsigned_word_eqI)
      ultimately show ?thesis using False nm by (simp add: range_accept_def)
    qed
    from card_word_class [OF this vn nq] show ?thesis unfolding w .
  qed
qed

text \<open>At most half of the draws are rejected.\<close>

lemma card_reject:
  fixes umax :: "'w::len word"
  shows "2 * card {r. range_accept umax r = None} \<le> 2 ^ LENGTH('w)"
proof (cases "umax = - 1 \<or> (umax + 1) AND umax = 0")
  case True
  then show ?thesis by (auto simp: range_accept_def)
next
  case False
  then have ne: "umax \<noteq> - 1" by simp
  define N where "N = (2 :: nat) ^ LENGTH('w)"
  define n where "n = unat (umax + 1)"
  define q where "q = (N - 1) div n"
  have q0: "0 < q" "0 < n" using unat_limit(1,3) [OF ne] by (simp_all add: q_def n_def N_def)
  have "range_accept umax r = None \<longleftrightarrow> n * q \<le> unat r" for r
  proof -
    have "0 < n * q" using q0 by simp
    then have "r \<le> range_limit (umax + 1) \<longleftrightarrow> unat r < n * q"
      unfolding word_le_nat_alt unat_limit(2) [OF ne] n_def [symmetric] N_def [symmetric] q_def [symmetric] by linarith
    then show ?thesis using False by (auto simp: range_accept_def)
  qed
  then have "unat ` {r. range_accept umax r = None} \<subseteq> {n * q..<N}"
    using unsigned_less by (auto simp: N_def)
  then have "card (unat ` {r. range_accept umax r = None}) \<le> N - n * q"
    using card_mono [of "{n * q..<N}"] by fastforce
  then have c: "card {r. range_accept umax r = None} \<le> N - n * q"
    by (simp add: card_image inj_on_def unsigned_word_eqI)
  have "N - 1 = n * q + (N - 1) mod n" by (simp add: q_def)
  moreover have "(N - 1) mod n < n" using q0(2) by simp
  moreover have "n \<le> n * q" using q0(1) by simp
  ultimately have "N - n * q \<le> n * q" by linarith
  then show ?thesis using c unfolding N_def [symmetric] by linarith
qed

section \<open>The reduction as draws until one is accepted\<close>

lemma range_retry_eq:
  assumes "umax \<noteq> - 1" "(umax + 1) AND umax \<noteq> 0"
  shows "range_retry draw left (range_limit (umax + 1)) (umax + 1) r e
    = (case range_accept umax r of Some v \<Rightarrow> (Inr v, e) | None \<Rightarrow> draw_until draw left umax e)"
proof (induction left arbitrary: r e)
  case 0
  then show ?case
    using assms by (auto simp: range_retry.simps [of draw 0] range_accept_def)
next
  case (Suc left)
  show ?case
    using assms by (auto simp: range_retry.simps [of draw "Suc left"] range_accept_def [of umax r] Suc.IH split: prod.split sum.split)
qed

lemma range_word_eq: "range_word draw umax e = draw_until draw (Suc retry_limit) umax e"
proof (cases "umax = - 1 \<or> (umax + 1) AND umax = 0")
  case True
  then show ?thesis
    by (auto simp: range_word_def range_accept_def Let_def split: prod.split sum.split)
next
  case False
  then have ne: "umax \<noteq> - 1" "(umax + 1) AND umax \<noteq> 0" by simp_all
  have fast: "range_accept umax r = Some (r mod (umax + 1))" if "r \<le> - 1 - (umax + 1)" for r
  proof -
    define n where "n = unat (umax + 1)"
    define M where "M = (2 :: nat) ^ LENGTH('a) - 1"
    have "unat r \<le> M - n" using that unfolding word_le_nat_alt unat_limit(4) [OF ne(1)] n_def M_def by simp
    moreover have "0 < n" using unat_limit(1) [OF ne(1)] by (simp add: n_def)
    moreover have "M - n < n * (M div n)"
    proof -
      have q: "0 < M div n" using unat_limit(3) [OF ne(1)] by (simp only: n_def M_def)
      have "0 < n" using unat_limit(1) [OF ne(1)] by (simp add: n_def)
      then have "M mod n < n" "0 < n * (M div n)" using q by simp_all
      then show ?thesis using mult_div_mod_eq [of n M] by linarith
    qed
    ultimately have "unat r \<le> n * (M div n) - 1" by linarith
    then have "r \<le> range_limit (umax + 1)"
      unfolding word_le_nat_alt unat_limit(2) [OF ne(1)] n_def M_def .
    then show ?thesis using ne by (simp add: range_accept_def)
  qed
  show ?thesis
    using ne by (auto simp: range_word_def Let_def range_retry_eq [OF ne] fast split: prod.split sum.split)
qed

lemma draw_until_le: "draw_until draw tries umax e = (Inr v, e') \<Longrightarrow> v \<le> umax"
  by (induction tries arbitrary: e)
    (auto split: prod.splits sum.splits option.splits dest: range_accept_le)

text \<open>C10: a draw for \<open>0..=umax\<close> is the reduction of the first acceptable one of at most 51 draws; each
  value of the range is the reduction of equally many draws, at most half of the draws are rejected, and the
  result is in the range.\<close>

theorem range_word_uniform:
  fixes umax v :: "'w::len word"
  assumes "v \<le> umax"
  shows "range_word draw umax e = draw_until draw 51 umax e
    \<and> card {r. range_accept umax r = Some v} = range_weight umax
    \<and> 2 * card {r. range_accept umax r = None} \<le> 2 ^ LENGTH('w)
    \<and> (\<forall>w e'. range_word draw umax e \<noteq> (Inr w, e') \<or> w \<le> umax)"
proof -
  have "Suc retry_limit = 51" by (simp add: retry_limit_def)
  then show ?thesis
    using card_accept [OF assms] card_reject [of umax] draw_until_le [of draw 51 umax e]
    unfolding range_word_eq by metis
qed

theorem range_word_uniform_witness:
  "(5 :: u32) \<le> 6 \<and> card {r. range_accept (6 :: u32) r = Some 5} = 613566756"
  using range_word_uniform [of "5 :: u32" 6 "draw32 (\<lambda>e. (Inr (gen_u32 e), e))" 7]
  by (simp add: range_weight_def)

section \<open>Bounds of integer ranges\<close>

lemma range_word_le: "range_word draw umax e = (Inr v, e') \<Longrightarrow> v \<le> umax"
  unfolding range_word_eq by (rule draw_until_le)

lemma ucast_le_mono:
  fixes umax :: u64
  assumes "v \<le> (ucast umax :: u32)" "\<not> 0xFFFFFFFF < umax"
  shows "(ucast v :: u64) \<le> umax"
proof -
  have "unat umax \<le> unat (0xFFFFFFFF :: u64)" using assms(2) unfolding word_less_nat_alt by linarith
  then have "unat umax < 2 ^ 32" by simp
  then have "unat (ucast umax :: u32) = unat umax" by (simp add: unsigned_ucast_eq take_bit_nat_eq_self)
  moreover have "unat (ucast v :: u64) \<le> unat v" by (simp add: unsigned_ucast_eq take_bit_nat_less_eq_self)
  ultimately show ?thesis using assms(1) unfolding word_le_nat_alt by linarith
qed

lemma range_u64_le: "range_u64 gen umax e = (Inr v, e') \<Longrightarrow> v \<le> umax"
  unfolding range_u64_def range32_def range64_def
  by (auto split: if_splits prod.splits sum.splits dest: range_word_le intro: ucast_le_mono)

lemma offset_bounds:
  fixes lo hi v :: i64
  assumes "lo \<le>s hi" "v \<le> hi - lo"
  shows "lo \<le>s lo + v" "lo + v \<le>s hi" "sint (lo + v) = sint lo + int (unat v)"
proof -
  define d where "d = nat (sint hi - sint lo)"
  have le: "sint lo \<le> sint hi" using assms(1) by (simp add: word_sle_eq)
  have hb: "i64_min \<le> sint lo" "sint hi \<le> i64_max" using sint_bounds(1) [of lo] sint_bounds(2) [of hi] .
  then have "sint hi - sint lo < 2 ^ 64" by simp
  then have dl: "d < 2 ^ 64" using le by (simp add: d_def nat_less_iff)
  have "hi - lo = word_of_int (int d)"
    using le by (simp add: d_def)
  then have "unat (hi - lo) = d" using dl unat_of_nat_u64 [of d] by simp
  then have v: "int (unat v) \<le> sint hi - sint lo" 
    using assms(2) le unfolding word_le_nat_alt d_def by linarith
  have in_r: "in_i64 (sint lo + int (unat v))" using v hb unfolding in_i64_def by linarith
  have "lo + v = word_of_int (sint lo + int (unat v))" by simp
  then show s: "sint (lo + v) = sint lo + int (unat v)" using sint_of_int [OF in_r] by simp
  show "lo \<le>s lo + v" "lo + v \<le>s hi" using v s by (simp_all add: word_sle_eq)
qed

text \<open>An integer drawn for \<open>min..=max\<close> lies between the bounds, whatever the engine returns and also
  when the span does not fit in the signed integers.\<close>

theorem range_int_bounds:
  assumes "lo \<le>s hi" "range_int gen lo hi e = (Inr v, e')"
  shows "sint lo \<le> sint v \<and> sint v \<le> sint hi"
proof -
  obtain w where "range_u64 gen (hi - lo) e = (Inr w, e')" "v = lo + w"
    using assms(2) by (auto simp: range_int_def split: prod.splits sum.splits)
  then show ?thesis using offset_bounds [OF assms(1) range_u64_le] by (auto simp: word_sle_eq)
qed

definition counter_engine :: "u64 gen" where
  "counter_engine e = (Inr (gen_u64 e), e + 0x9E3779B97F4A7C15)"

theorem range_int_bounds_witness:
  "(- 5 :: i64) \<le>s 5 \<and> range_int counter_engine (- 5) 5 77 = (Inr (- 5), 0x9E3779B97F4A7C62) \<and> sint (- 5 :: i64) \<le> sint (5 :: i64)"
proof -
  have le: "(- 5 :: i64) \<le>s 5" by (simp add: word_sle_eq)
  have r: "range_int counter_engine (- 5) 5 77 = (Inr (- 5), 0x9E3779B97F4A7C62)" by code_simp
  from le r range_int_bounds [OF le r] show ?thesis by simp
qed

section \<open>The contract of an engine\<close>

text \<open>Well-formed states stay well-formed and results have one to eight bytes.\<close>

locale random_engine =
  fixes gen :: "'e gen" and ok :: "'e \<Rightarrow> bool"
  assumes gen_keeps: "ok e \<Longrightarrow> ok (snd (gen e))"
    and gen_result: "ok e \<Longrightarrow> fst (gen e) = Inr g \<Longrightarrow> gen_ok g"
begin

text \<open>More fuel changes nothing once there is one round for each missing byte.\<close>

lemma draw_more_fuel:
  "ok e \<Longrightarrow> limit - tot \<le> f \<Longrightarrow> limit - tot \<le> f' \<Longrightarrow> draw_more gen limit f r tot e = draw_more gen limit f' r tot e"
proof (induction f arbitrary: f' r tot e)
  case 0
  then show ?case by (cases f') simp_all
next
  case (Suc f)
  show ?case
  proof (cases "tot < limit")
    case True
    then obtain f2 where f2: "f' = Suc f2" using Suc.prems(3) by (cases f') auto
    obtain res e2 where g: "gen e = (res, e2)" by fastforce
    show ?thesis
    proof (cases res)
      case (Inr x)
      then have "gen_ok x" "ok e2" using Suc.prems(1) gen_result [of e x] gen_keeps [of e] g by simp_all
      then have "limit - (tot + g_size x) \<le> f" "limit - (tot + g_size x) \<le> f2"
        using Suc.prems True f2 by (auto simp: gen_ok_def)
      from Suc.IH [OF \<open>ok e2\<close> this] show ?thesis using True f2 g Inr by simp
    qed (simp add: True f2 g)
  qed (cases f'; simp)
qed

lemma draw_fuel_enough:
  assumes "ok e" "limit \<le> 8" "8 \<le> fuel"
  shows "draw_bytes gen limit e = (case gen e of (Inl err, e) \<Rightarrow> (Inl err, e)
    | (Inr g, e) \<Rightarrow> draw_more gen limit fuel (g_value g) (g_size g) e)"
proof -
  obtain res e2 where g: "gen e = (res, e2)" by fastforce
  show ?thesis
  proof (cases res)
    case (Inr x)
    have "ok e2" using gen_keeps [OF assms(1)] g by simp
    then show ?thesis using draw_more_fuel [of e2 limit "g_size x" 8 fuel] assms Inr g by (simp add: draw_bytes_def)
  qed (simp add: g draw_bytes_def)
qed

lemma draw_more_keeps: "ok e \<Longrightarrow> ok (snd (draw_more gen limit f r tot e))"
proof (induction f arbitrary: r tot e)
  case (Suc f)
  obtain res e2 where g: "gen e = (res, e2)" by fastforce
  then have "ok e2" using gen_keeps [OF Suc.prems] by simp
  then show ?case using Suc g by (cases res) simp_all
qed simp

lemma draw_keeps: "ok e \<Longrightarrow> ok (snd (draw_bytes gen limit e))"
proof -
  assume ok: "ok e"
  obtain res e2 where g: "gen e = (res, e2)" by fastforce
  then have "ok e2" using gen_keeps [OF ok] by simp
  then show ?thesis using draw_more_keeps g by (cases res) (simp_all add: draw_bytes_def)
qed

lemma draws_keep: "ok e \<Longrightarrow> ok (snd (draw32 gen e))" "ok e \<Longrightarrow> ok (snd (draw64 gen e))"
  using draw_keeps [of e 4] draw_keeps [of e 8] by (auto simp: draw32_def draw64_def split: prod.split sum.split)

lemma draw_until_keeps:
  "(\<And>e. ok e \<Longrightarrow> ok (snd (draw e))) \<Longrightarrow> ok e \<Longrightarrow> ok (snd (draw_until draw tries umax e))"
proof (induction tries arbitrary: e)
  case (Suc tries)
  obtain res e2 where g: "draw e = (res, e2)" by fastforce
  then have "ok e2" using Suc.prems(1) [OF Suc.prems(2)] by simp
  then show ?case using Suc.IH Suc.prems(1) g by (cases res) (auto split: option.split)
qed simp

lemma range_keeps: "ok e \<Longrightarrow> ok (snd (range_u64 gen umax e))" "ok e \<Longrightarrow> ok (snd (range_int gen lo hi e))"
proof -
  have u: "ok (snd (range_u64 gen umax e))" if "ok e" for umax e
  proof -
    have "ok (snd (range64 gen umax e))" "ok (snd (range32 gen (ucast umax) e))"
      using draw_until_keeps draws_keep that unfolding range32_def range64_def range_word_eq by blast+
    then show ?thesis by (auto simp: range_u64_def split: prod.split sum.split)
  qed
  show "ok e \<Longrightarrow> ok (snd (range_u64 gen umax e))" by (rule u)
  show "ok e \<Longrightarrow> ok (snd (range_int gen lo hi e))"
    using u [of e "hi - lo"] by (auto simp: range_int_def split: prod.split sum.split)
qed

end

end
