(* ===== verification/Mt19937.thy ===== *)
theory Mt19937
  imports Ranges F64
begin

text \<open>
  \<open>Random\Engine\Mt19937\<close> and the generator of \<open>mt_rand()\<close> (\<open>mt19937.rs\<close>): seeding, the
  in-place reload of the 624 state words, tempering, the range functions of both modes and the
  serialized state.
\<close>

section \<open>State\<close>

definition mt_n :: nat where "mt_n = 624"
definition mt_m :: nat where "mt_m = 397"
definition mt_matrix_a :: u32 where "mt_matrix_a = 0x9908b0df"
definition mt_rand_max :: i64 where "mt_rand_max = 0x7fffffff"

datatype mt_mode = MtStandard | MtPhp

definition mt_mode_from_int :: "i64 \<Rightarrow> mt_mode" where
  "mt_mode_from_int m = (if m = 1 then MtPhp else MtStandard)"

definition mt_mode_to_int :: "mt_mode \<Rightarrow> i64" where
  "mt_mode_to_int m = (case m of MtStandard \<Rightarrow> 0 | MtPhp \<Rightarrow> 1)"

record mt =
  mt_words :: "u32 list"
  mt_index :: nat
  mt_mode_of :: mt_mode

section \<open>Reloading\<close>

definition mt_twist :: "bool \<Rightarrow> u32 \<Rightarrow> u32 \<Rightarrow> u32" where
  "mt_twist php u v =
     (let mix = (u AND 0x80000000) OR (v AND 0x7fffffff);
          low = (if php then u else v) AND 1
      in drop_bit 1 mix XOR (- low AND mt_matrix_a))"

definition mt_reload_mode :: "bool \<Rightarrow> u32 list \<Rightarrow> u32 list" where
  "mt_reload_mode php s =
     (let s = fold (\<lambda>i s. s[i := s ! (i + mt_m) XOR mt_twist php (s ! i) (s ! (i + 1))]) [0..<mt_n - mt_m] s;
          s = fold (\<lambda>i s. s[i := s ! (i + mt_m - mt_n) XOR mt_twist php (s ! i) (s ! (i + 1))])
                [mt_n - mt_m..<mt_n - 1] s
      in s[mt_n - 1 := s ! (mt_m - 1) XOR mt_twist php (s ! (mt_n - 1)) (s ! 0)])"

definition mt_reload :: "mt \<Rightarrow> mt" where
  "mt_reload g = g\<lparr>mt_words := mt_reload_mode (mt_mode_of g = MtPhp) (mt_words g), mt_index := 0\<rparr>"

definition mt_seed_words :: "i64 \<Rightarrow> u32 list" where
  "mt_seed_words seed =
     fold (\<lambda>i s. s[i := 1812433253 * (s ! (i - 1) XOR drop_bit 30 (s ! (i - 1))) + word_of_nat i])
       [1..<mt_n] ((replicate mt_n 0)[0 := ucast seed])"

definition mt_new :: "i64 \<Rightarrow> mt_mode \<Rightarrow> mt" where
  "mt_new seed mode = mt_reload \<lparr>mt_words = mt_seed_words seed, mt_index = mt_n, mt_mode_of = mode\<rparr>"

text \<open>\<open>fill\<close> stands for the operating system's generator.\<close>

definition mt_new_random :: "(nat \<Rightarrow> random_error + bytes) \<Rightarrow> mt_mode \<Rightarrow> random_error + mt" where
  "mt_new_random fill mode =
     (case fill 4 of Inl e \<Rightarrow> Inl e | Inr b \<Rightarrow> Inr (mt_new (ucast (le_word32 b)) mode))"

definition mt_construct :: "(nat \<Rightarrow> random_error + bytes) \<Rightarrow> i64 option \<Rightarrow> i64 \<Rightarrow> random_error + mt" where
  "mt_construct fill seed mode =
     (if mode = 0 \<or> mode = 1 then
        (let mode = (if mode = 0 then MtStandard else MtPhp) in
         case seed of Some s \<Rightarrow> Inr (mt_new s mode) | None \<Rightarrow> mt_new_random fill mode)
      else Inl (ValueError (class_mt19937 @
        ''::__construct(): Argument #2 ($mode) must be either MT_RAND_MT19937 or MT_RAND_PHP'')))"

section \<open>Output\<close>

definition mt_temper :: "u32 \<Rightarrow> u32" where
  "mt_temper y =
     (let y = y XOR drop_bit 11 y;
          y = y XOR (push_bit 7 y AND 0x9d2c5680);
          y = y XOR (push_bit 15 y AND 0xefc60000)
      in y XOR drop_bit 18 y)"

definition mt_next_u32 :: "mt \<Rightarrow> u32 \<times> mt" where
  "mt_next_u32 g =
     (let g = (if mt_n \<le> mt_index g then mt_reload g else g);
          y = mt_words g ! mt_index g
      in (mt_temper y, g\<lparr>mt_index := mt_index g + 1\<rparr>))"

definition mt_generate :: "mt gen" where
  "mt_generate g = (let (w, g) = mt_next_u32 g in (Inr (gen_u32 w), g))"

definition mt_next_int :: "mt \<Rightarrow> i64 \<times> mt" where
  "mt_next_int g = (let (w, g) = mt_next_u32 g in (ucast (drop_bit 1 w), g))"

definition mt_fill_bytes :: "nat \<Rightarrow> mt \<Rightarrow> bytes \<times> mt" where
  "mt_fill_bytes len g = fill_words 4 (\<lambda>g. let (w, g) = mt_next_u32 g in (le_bytes32 w, g)) len g"

text \<open>\<open>float_to_int\<close>: truncation, reduced modulo $2^{64}$ out of range.\<close>

definition mt_float_to_int :: "f64 \<Rightarrow> i64" where
  "mt_float_to_int f =
     (if \<not> is_finite f then 0
      else let t = f_trunc f; two63 = f_of_int (2 ^ 63); two64 = f_of_int (2 ^ 64) in
        if f_le (f_neg two63) t \<and> f_lt t two63 then f_as_i64 t
        else let m = f_rem t two64; m = (if f_lt m (f_of_int 0) then f_add m two64 else m) in f_as_u64 m)"

definition mt_php_scaled_range :: "i64 \<Rightarrow> i64 \<Rightarrow> mt \<Rightarrow> i64 \<times> mt" where
  "mt_php_scaled_range lo hi g =
     (let (i, g) = mt_next_int g;
          n = f_of_i64 i;
          span = f_add (f_sub (f_of_i64 hi) (f_of_i64 lo)) (f_of_int 1)
      in (lo + mt_float_to_int (f_mul span (f_div n (f_add (f_of_i64 mt_rand_max) (f_of_int 1)))), g))"

definition mt_range :: "i64 \<Rightarrow> i64 \<Rightarrow> mt \<Rightarrow> i64 \<times> mt" where
  "mt_range lo hi g =
     (case mt_mode_of g of
        MtStandard \<Rightarrow> range_unchecked mt_generate lo hi g
      | MtPhp \<Rightarrow> mt_php_scaled_range lo hi g)"

definition mt_rand_range :: "i64 \<Rightarrow> i64 \<Rightarrow> mt \<Rightarrow> (random_error + i64) \<times> mt" where
  "mt_rand_range lo hi g =
     (if hi <s lo then (Inl (ValueError
        ''mt_rand(): Argument #2 ($max) must be greater than or equal to argument #1 ($min)''), g)
      else (let (v, g) = mt_range lo hi g in (Inr v, g)))"

definition rand_range :: "i64 \<Rightarrow> i64 \<Rightarrow> mt \<Rightarrow> i64 \<times> mt" where
  "rand_range lo hi g = (if hi <s lo then mt_range hi lo g else mt_range lo hi g)"

section \<open>Serialized state\<close>

definition mt_state_items :: "mt \<Rightarrow> state_item list" where
  "mt_state_items g =
     map (\<lambda>w. hex_item (le_bytes32 w)) (mt_words g)
     @ [IntItem (word_of_nat (mt_index g)), IntItem (mt_mode_to_int (mt_mode_of g))]"

fun mt_parse_words :: "state_value list \<Rightarrow> u32 list option" where
  "mt_parse_words [] = Some []"
| "mt_parse_words (StrValue s # items) =
     (case parse_hex 4 s of None \<Rightarrow> None | Some b \<Rightarrow> map_option ((#) (le_word32 b)) (mt_parse_words items))"
| "mt_parse_words (_ # items) = None"

definition mt_from_state :: "state_value list \<Rightarrow> random_error + mt" where
  "mt_from_state items =
     (let err = Inl (invalid_serialization class_mt19937) in
      if length items \<noteq> mt_n + 2 then err
      else (case mt_parse_words (take mt_n items) of
          None \<Rightarrow> err
        | Some ws \<Rightarrow>
            (case items ! mt_n of
               IntValue i \<Rightarrow>
                 if 0 \<le>s i \<and> i \<le>s word_of_nat mt_n then
                   (case items ! (mt_n + 1) of
                      IntValue m \<Rightarrow>
                        if m = 0 then Inr \<lparr>mt_words = ws, mt_index = unat i, mt_mode_of = MtStandard\<rparr>
                        else if m = 1 then Inr \<lparr>mt_words = ws, mt_index = unat i, mt_mode_of = MtPhp\<rparr>
                        else err
                    | _ \<Rightarrow> err)
                 else err
             | _ \<Rightarrow> err)))"

section \<open>Well-formed states\<close>

definition mt_ok :: "mt \<Rightarrow> bool" where
  "mt_ok g \<longleftrightarrow> length (mt_words g) = mt_n \<and> mt_index g \<le> mt_n"

lemma length_fold_update: "length (fold (\<lambda>i s. s[i := f i s]) is s) = length s"
  by (induction "is" arbitrary: s) simp_all

lemma length_reload_mode [simp]: "length (mt_reload_mode php s) = length s"
  by (simp add: mt_reload_mode_def Let_def length_fold_update)

lemma mt_reload_ok: "length (mt_words g) = mt_n \<Longrightarrow> mt_ok (mt_reload g) \<and> mt_index (mt_reload g) = 0"
  by (simp add: mt_reload_def mt_ok_def)

lemma mt_new_ok: "mt_ok (mt_new seed mode)"
proof -
  have "length (mt_seed_words seed) = mt_n" by (simp add: mt_seed_words_def length_fold_update)
  then show ?thesis using mt_reload_ok by (simp add: mt_new_def)
qed

lemma mt_next_ok: "mt_ok g \<Longrightarrow> mt_ok (snd (mt_next_u32 g))"
  using mt_reload_ok [of g]
  by (auto simp: mt_next_u32_def Let_def mt_ok_def mt_n_def)

lemma mt_generate_ok: "mt_ok g \<Longrightarrow> mt_ok (snd (mt_generate g))"
  using mt_next_ok [of g] by (cases "mt_next_u32 g") (simp add: mt_generate_def)

interpretation mt: random_engine mt_generate mt_ok
proof
  show "mt_ok (snd (mt_generate e))" if "mt_ok e" for e using that by (rule mt_generate_ok)
  show "gen_ok g" if "fst (mt_generate e) = Inr g" for e g
    using that by (auto simp: mt_generate_def split: prod.splits)
qed

section \<open>The recurrence\<close>





section \<open>Serialization\<close>

lemma sint_of_nat_i64: "n < 2 ^ 63 \<Longrightarrow> sint (word_of_nat n :: i64) = int n"
  using sint_of_int [of "int n"] by (simp add: in_i64_def)

lemma mt_parse_words_items:
  "mt_parse_words (map (\<lambda>w. item_value (hex_item (le_bytes32 w))) ws) = Some ws"
  by (induction ws) (simp_all add: hex_item_def parse_hex_string)

lemma mt_state_round_trip:
  assumes "mt_ok g"
  shows "mt_from_state (map item_value (mt_state_items g)) = Inr g"
proof -
  define items where "items = map item_value (mt_state_items g)"
  have len: "length (mt_words g) = mt_n" "mt_index g \<le> mt_n" using assms by (simp_all add: mt_ok_def)
  have it: "items = map (\<lambda>w. item_value (hex_item (le_bytes32 w))) (mt_words g)
      @ [IntValue (word_of_nat (mt_index g)), IntValue (mt_mode_to_int (mt_mode_of g))]"
    by (simp add: items_def mt_state_items_def)
  have l: "length items = mt_n + 2" "mt_parse_words (take mt_n items) = Some (mt_words g)"
    "items ! mt_n = IntValue (word_of_nat (mt_index g))"
    "items ! (mt_n + 1) = IntValue (mt_mode_to_int (mt_mode_of g))"
    using len(1) by (simp_all add: it mt_parse_words_items nth_append)
  have small: "mt_index g < 2 ^ 63" "mt_n < 2 ^ 63" using len(2) by (simp_all add: mt_n_def)
  then have i: "0 \<le>s (word_of_nat (mt_index g) :: i64)" "(word_of_nat (mt_index g) :: i64) \<le>s word_of_nat mt_n"
    "unat (word_of_nat (mt_index g) :: i64) = mt_index g"
    using len(2) by (simp_all add: word_sle_eq sint_of_nat_i64 unat_of_nat_u64)
  have "mt_from_state items = Inr \<lparr>mt_words = mt_words g, mt_index = mt_index g, mt_mode_of = mt_mode_of g\<rparr>"
    using l i by (cases "mt_mode_of g") (simp_all add: mt_from_state_def Let_def mt_mode_to_int_def)
  then show ?thesis by (simp add: items_def)
qed

lemma length_mt_parse_words: "mt_parse_words items = Some ws \<Longrightarrow> length ws = length items"
  by (induction items arbitrary: ws rule: mt_parse_words.induct) (auto split: option.splits)

lemma mt_from_state_ok: "mt_from_state items = Inr g \<Longrightarrow> mt_ok g"
proof -
  assume a: "mt_from_state items = Inr g"
  then have len: "length items = mt_n + 2" by (auto simp: mt_from_state_def Let_def split: if_splits)
  obtain ws where ws: "mt_parse_words (take mt_n items) = Some ws"
    using a len by (cases "mt_parse_words (take mt_n items)") (simp_all add: mt_from_state_def Let_def)
  obtain i where i: "items ! mt_n = IntValue i"
    using a len ws by (cases "items ! mt_n") (simp_all add: mt_from_state_def Let_def)
  have r: "0 \<le>s i \<and> i \<le>s word_of_nat mt_n"
    using a len ws i by (simp add: mt_from_state_def Let_def split: if_splits)
  have "mt_words g = ws \<and> mt_index g = unat i"
    using a len ws i r by (cases "items ! (mt_n + 1)") (auto simp: mt_from_state_def Let_def split: if_splits)
  with ws r have w: "mt_parse_words (take mt_n items) = Some ws" "0 \<le>s i" "i \<le>s word_of_nat mt_n"
    "mt_words g = ws" "mt_index g = unat i" by simp_all
  have "length ws = mt_n" using length_mt_parse_words [OF w(1)] len by simp
  moreover have "unat i \<le> mt_n"
  proof -
    have "sint (word_of_nat mt_n :: i64) = int mt_n" by (rule sint_of_nat_i64) (simp add: mt_n_def)
    then have s: "0 \<le> sint i" "sint i \<le> int mt_n" using w(2,3) by (simp_all add: word_sle_eq)
    have "i = word_of_nat (nat (sint i))" using s(1) by simp
    moreover have "nat (sint i) < 2 ^ 64" using s by (simp add: nat_less_iff mt_n_def)
    ultimately have "unat i = nat (sint i)" by (metis unat_of_nat_u64)
    then show ?thesis using s by linarith
  qed
  ultimately show ?thesis using w by (simp add: mt_ok_def)
qed

end
