(* ===== verification/Pcg.thy ===== *)
theory Pcg
  imports RandomCore
begin

text \<open>
  \<open>Random\Engine\PcgOneseq128XslRr64\<close> (\<open>pcg.rs\<close>): a 128 bit linear congruential state with
  the XSL RR output.  The jump-ahead by square-and-multiply is shown to be that many steps.
\<close>

section \<open>The generator\<close>

definition pcg_mul :: u128 where
  "pcg_mul = push_bit 64 2549297995355413924 OR 4865540595714422341"

definition pcg_inc :: u128 where
  "pcg_inc = push_bit 64 6364136223846793005 OR 1442695040888963407"

record pcg = pcg_state :: u128

definition pcg_step :: "u128 \<Rightarrow> u128" where
  "pcg_step s = s * pcg_mul + pcg_inc"

definition pcg_seeded :: "u128 \<Rightarrow> pcg" where
  "pcg_seeded seed =
     (let s = 0 * pcg_mul + pcg_inc; s = s + seed; s = s * pcg_mul + pcg_inc in \<lparr>pcg_state = s\<rparr>)"

definition pcg_from_int :: "i64 \<Rightarrow> pcg" where
  "pcg_from_int seed = pcg_seeded (ucast seed)"

definition pcg_from_seed_bytes :: "bytes \<Rightarrow> pcg" where
  "pcg_from_seed_bytes seed =
     (let hi = le_word (take 8 seed); lo = le_word (drop 8 seed)
      in pcg_seeded (push_bit 64 (ucast hi) OR ucast lo))"

text \<open>\<open>new_random\<close>: \<open>fill\<close> stands for the operating system's generator.\<close>

definition pcg_new_random :: "(nat \<Rightarrow> random_error + bytes) \<Rightarrow> random_error + pcg" where
  "pcg_new_random fill = (case fill 16 of Inl e \<Rightarrow> Inl e | Inr b \<Rightarrow> Inr (pcg_from_seed_bytes b))"

definition pcg_from_string :: "bytes \<Rightarrow> random_error + pcg" where
  "pcg_from_string seed =
     (if length seed = 16 then Inr (pcg_from_seed_bytes seed)
      else Inl (ValueError (class_pcg @
        ''::__construct(): Argument #1 ($seed) must be a 16 byte (128 bit) string'')))"

definition pcg_next_u64 :: "pcg \<Rightarrow> u64 \<times> pcg" where
  "pcg_next_u64 g =
     (let s = pcg_state g * pcg_mul + pcg_inc;
          hi = ucast (drop_bit 64 s) :: u64;
          lo = ucast s :: u64
      in (word_rotr (unat (drop_bit 58 hi)) (hi XOR lo), \<lparr>pcg_state = s\<rparr>))"

text \<open>The loop of \<open>jump\<close>: the affine maps accumulated and squared.\<close>

function pcg_jump_loop :: "nat \<Rightarrow> u128 \<Rightarrow> u128 \<Rightarrow> u128 \<Rightarrow> u128 \<Rightarrow> u128 \<times> u128" where
  "pcg_jump_loop delta acc_mul acc_add cur_mul cur_add =
     (if 0 < delta then
        (let (acc_mul, acc_add) =
               (if odd delta then (acc_mul * cur_mul, acc_add * cur_mul + cur_add) else (acc_mul, acc_add));
             cur_add = (cur_mul + 1) * cur_add;
             cur_mul = cur_mul * cur_mul
         in pcg_jump_loop (delta div 2) acc_mul acc_add cur_mul cur_add)
      else (acc_mul, acc_add))"
  by pat_completeness auto
termination
  by (relation "measure (\<lambda>(delta, _). delta)") auto

declare pcg_jump_loop.simps [simp del]

definition pcg_jump :: "pcg \<Rightarrow> i64 \<Rightarrow> random_error + pcg" where
  "pcg_jump g adv =
     (if adv <s 0 then Inl (ValueError (class_pcg @
        ''::jump(): Argument #1 ($advance) must be greater than or equal to 0''))
      else let (acc_mul, acc_add) = pcg_jump_loop (unat adv) 1 0 pcg_mul pcg_inc
           in Inr \<lparr>pcg_state = acc_mul * pcg_state g + acc_add\<rparr>)"

definition pcg_state_items :: "pcg \<Rightarrow> state_item list" where
  "pcg_state_items g =
     (let hi = ucast (drop_bit 64 (pcg_state g)) :: u64; lo = ucast (pcg_state g) :: u64
      in [hex_item (le_bytes hi), hex_item (le_bytes lo)])"

definition pcg_from_state :: "state_value list \<Rightarrow> random_error + pcg" where
  "pcg_from_state items =
     (case parse_words 2 items of
        Some [hi, lo] \<Rightarrow> Inr \<lparr>pcg_state = push_bit 64 (ucast hi) OR ucast lo\<rparr>
      | _ \<Rightarrow> Inl (invalid_serialization class_pcg))"

definition pcg_generate :: "pcg \<Rightarrow> (random_error + generated) \<times> pcg" where
  "pcg_generate g = (let (w, g) = pcg_next_u64 g in (Inr (gen_u64 w), g))"

definition pcg_fill_bytes :: "nat \<Rightarrow> pcg \<Rightarrow> bytes \<times> pcg" where
  "pcg_fill_bytes len g = fill_words 8 (\<lambda>g. let (w, g) = pcg_next_u64 g in (le_bytes w, g)) len g"

section \<open>Jumping ahead\<close>

lemma pcg_next_state: "snd (pcg_next_u64 g) = \<lparr>pcg_state = pcg_step (pcg_state g)\<rparr>"
  by (simp add: pcg_next_u64_def pcg_step_def Let_def)

text \<open>The accumulated affine map is the current one applied \<open>delta\<close> times after the given one.\<close>

lemma pcg_jump_loop_spec:
  "case pcg_jump_loop delta am aa cm ca of (rm, ra) \<Rightarrow>
     rm * s + ra = ((\<lambda>x. cm * x + ca) ^^ delta) (am * s + aa)"
proof (induction delta arbitrary: am aa cm ca rule: less_induct)
  case (less delta)
  show ?case
  proof (cases "delta = 0")
    case True
    then show ?thesis by (simp add: pcg_jump_loop.simps [of 0])
  next
    case False
    define f where "f x = cm * x + ca" for x
    define am' where "am' = (if odd delta then am * cm else am)"
    define aa' where "aa' = (if odd delta then aa * cm + ca else aa)"
    have step: "pcg_jump_loop delta am aa cm ca = pcg_jump_loop (delta div 2) am' aa' (cm * cm) ((cm + 1) * ca)"
      using False by (subst pcg_jump_loop.simps) (simp add: am'_def aa'_def Let_def)
    have sq: "(\<lambda>x. (cm * cm) * x + (cm + 1) * ca) = f ^^ 2"
      by (rule ext) (simp add: f_def numeral_2_eq_2 algebra_simps)
    have acc: "am' * s + aa' = (f ^^ (delta mod 2)) (am * s + aa)"
      by (auto simp: am'_def aa'_def f_def algebra_simps odd_iff_mod_2_eq_one)
    have "case pcg_jump_loop (delta div 2) am' aa' (cm * cm) ((cm + 1) * ca) of (rm, ra) \<Rightarrow>
      rm * s + ra = ((f ^^ 2) ^^ (delta div 2)) ((f ^^ (delta mod 2)) (am * s + aa))"
      using less.IH [of "delta div 2", where am = am' and aa = aa' and cm = "cm * cm" and ca = "(cm + 1) * ca"] False by (simp add: sq acc)
    also have "((f ^^ 2) ^^ (delta div 2)) ((f ^^ (delta mod 2)) (am * s + aa)) = (f ^^ delta) (am * s + aa)"
    proof -
      have "(f ^^ (2 * (delta div 2) + delta mod 2)) x = ((f ^^ 2) ^^ (delta div 2)) ((f ^^ (delta mod 2)) x)" for x
        by (simp only: funpow_add comp_apply funpow_mult)
      then show ?thesis by simp
    qed
    finally show ?thesis by (simp only: step) (simp add: f_def [abs_def])
  qed
qed

text \<open>C14: \<open>jump($advance)\<close> fails exactly for a negative argument, and otherwise leaves the state that
  \<open>$advance\<close> steps of the generator leave.\<close>

theorem pcg_jump_steps:
  "pcg_jump g adv = (if sint adv < 0 then
       Inl (ValueError (class_pcg @ ''::jump(): Argument #1 ($advance) must be greater than or equal to 0''))
     else Inr (((\<lambda>g. snd (pcg_next_u64 g)) ^^ unat adv) g))"
proof (cases "sint adv < 0")
  case True
  then show ?thesis by (simp add: pcg_jump_def word_sless_alt)
next
  case False
  have iter: "((\<lambda>g. snd (pcg_next_u64 g)) ^^ n) g = \<lparr>pcg_state = (pcg_step ^^ n) (pcg_state g)\<rparr>" for n
    by (induction n) (simp_all add: pcg_next_state)
  have step: "(\<lambda>x. pcg_mul * x + pcg_inc) = pcg_step"
    by (rule ext) (simp add: pcg_step_def mult.commute)
  from pcg_jump_loop_spec [where delta = "unat adv" and am = 1 and aa = 0 and cm = pcg_mul and ca = pcg_inc
      and s = "pcg_state g"]
  have "case pcg_jump_loop (unat adv) 1 0 pcg_mul pcg_inc of (rm, ra) \<Rightarrow>
    rm * pcg_state g + ra = (pcg_step ^^ unat adv) (pcg_state g)"
    by (simp add: step)
  then show ?thesis
    using False by (simp add: pcg_jump_def word_sless_alt iter split: prod.splits)
qed

lemma join_halves: "push_bit 64 (ucast (ucast (drop_bit 64 s) :: u64)) OR ucast (ucast s :: u64) = (s :: u128)"
  by (rule bit_word_eqI) (auto simp: bit_or_iff bit_push_bit_iff bit_ucast_iff bit_drop_bit_eq not_less)

lemma pcg_state_round_trip: "pcg_from_state (map item_value (pcg_state_items g)) = Inr g"
proof -
  have "parse_words 2 (map item_value (pcg_state_items g))
    = Some [ucast (drop_bit 64 (pcg_state g)), ucast (pcg_state g)]"
    using parse_words_items [of "[ucast (drop_bit 64 (pcg_state g)), ucast (pcg_state g)]"]
    by (simp add: pcg_state_items_def numeral_2_eq_2)
  then show ?thesis by (simp add: pcg_from_state_def join_halves)
qed

end
