(* ===== verification/Xoshiro.thy ===== *)
theory Xoshiro
  imports RandomCore
begin

text \<open>
  \<open>Random\Engine\Xoshiro256StarStar\<close> (\<open>xoshiro.rs\<close>): the step, seeding, jumps and state.  The
  step is linear over exclusive or, so a jump, which sums some of the states ahead, commutes
  with it.  That the published jump constants are the 2^128-th and 2^192-th powers of the step
  is not proved here.
\<close>

section \<open>The generator\<close>

record xoshiro =
  xs0 :: u64
  xs1 :: u64
  xs2 :: u64
  xs3 :: u64

definition xs_jump_poly :: "u64 list" where
  "xs_jump_poly = [0x180ec6d33cfd0aba, 0xd5a61266f0c9392c, 0xa9582618e03fc9aa, 0x39abdc4529b1661c]"

definition xs_long_jump_poly :: "u64 list" where
  "xs_long_jump_poly = [0x76e15d3efefdcbbf, 0xc5004e441c522fb3, 0x77710069854ee241, 0x39109bb02acbe635]"

text \<open>The output and the advanced counter.\<close>

definition splitmix64 :: "u64 \<Rightarrow> u64 \<times> u64" where
  "splitmix64 x =
     (let x = x + 0x9e3779b97f4a7c15;
          z = x;
          z = (z XOR drop_bit 30 z) * 0xbf58476d1ce4e5b9;
          z = (z XOR drop_bit 27 z) * 0x94d049bb133111eb
      in (z XOR drop_bit 31 z, x))"

definition xs_from_words :: "u64 \<Rightarrow> u64 \<Rightarrow> u64 \<Rightarrow> u64 \<Rightarrow> xoshiro" where
  "xs_from_words a b c d = \<lparr>xs0 = a, xs1 = b, xs2 = c, xs3 = d\<rparr>"

definition xs_from_int :: "i64 \<Rightarrow> xoshiro" where
  "xs_from_int seed =
     (let (a, x) = splitmix64 seed; (b, x) = splitmix64 x; (c, x) = splitmix64 x; (d, x) = splitmix64 x
      in xs_from_words a b c d)"

definition xs_from_string :: "bytes \<Rightarrow> random_error + xoshiro" where
  "xs_from_string seed =
     (if length seed \<noteq> 32 then Inl (ValueError (class_xoshiro @
        ''::__construct(): Argument #1 ($seed) must be a 32 byte (256 bit) string''))
      else if \<forall>b \<in> set seed. b = 0 then Inl (ValueError (class_xoshiro @
        ''::__construct(): Argument #1 ($seed) must not consist entirely of NUL bytes''))
      else let w = (\<lambda>i. le_word (take 8 (drop (i * 8) seed))) in Inr (xs_from_words (w 0) (w 1) (w 2) (w 3)))"

text \<open>\<open>new_random\<close>, on the successive results of the operating system's generator; \<open>None\<close> when
  more of them would be drawn.\<close>

fun xs_new_random :: "(random_error + bytes) list \<Rightarrow> (random_error + xoshiro) option" where
  "xs_new_random [] = None"
| "xs_new_random (Inl e # fills) = Some (Inl e)"
| "xs_new_random (Inr b # fills) =
     (case xs_from_string b of Inr g \<Rightarrow> Some (Inr g) | Inl _ \<Rightarrow> xs_new_random fills)"

definition xs_next_u64 :: "xoshiro \<Rightarrow> u64 \<times> xoshiro" where
  "xs_next_u64 g =
     (let result = word_rotl 7 (xs1 g * 5) * 9;
          t = push_bit 17 (xs1 g);
          g = g\<lparr>xs2 := xs2 g XOR xs0 g\<rparr>;
          g = g\<lparr>xs3 := xs3 g XOR xs1 g\<rparr>;
          g = g\<lparr>xs1 := xs1 g XOR xs2 g\<rparr>;
          g = g\<lparr>xs0 := xs0 g XOR xs3 g\<rparr>;
          g = g\<lparr>xs2 := xs2 g XOR t\<rparr>;
          g = g\<lparr>xs3 := word_rotl 45 (xs3 g)\<rparr>
      in (result, g))"

definition xs_xor :: "xoshiro \<Rightarrow> xoshiro \<Rightarrow> xoshiro" where
  "xs_xor a g = \<lparr>xs0 = xs0 a XOR xs0 g, xs1 = xs1 a XOR xs1 g, xs2 = xs2 a XOR xs2 g, xs3 = xs3 a XOR xs3 g\<rparr>"

definition xs_zero :: xoshiro where
  "xs_zero = \<lparr>xs0 = 0, xs1 = 0, xs2 = 0, xs3 = 0\<rparr>"

definition xs_jump_bit :: "u64 \<Rightarrow> nat \<Rightarrow> xoshiro \<times> xoshiro \<Rightarrow> xoshiro \<times> xoshiro" where
  "xs_jump_bit word b = (\<lambda>(acc, g).
     (if word AND push_bit b 1 \<noteq> 0 then xs_xor acc g else acc, snd (xs_next_u64 g)))"

definition xs_jump_with :: "u64 list \<Rightarrow> xoshiro \<Rightarrow> xoshiro" where
  "xs_jump_with poly g =
     fst (fold (\<lambda>word. fold (xs_jump_bit word) [0..<64]) poly (xs_zero, g))"

definition xs_jump :: "xoshiro \<Rightarrow> xoshiro" where
  "xs_jump g = xs_jump_with xs_jump_poly g"

definition xs_jump_long :: "xoshiro \<Rightarrow> xoshiro" where
  "xs_jump_long g = xs_jump_with xs_long_jump_poly g"

definition xs_state_items :: "xoshiro \<Rightarrow> state_item list" where
  "xs_state_items g = map (\<lambda>w. hex_item (le_bytes w)) [xs0 g, xs1 g, xs2 g, xs3 g]"

definition xs_from_state :: "state_value list \<Rightarrow> random_error + xoshiro" where
  "xs_from_state items =
     (case parse_words 4 items of
        Some [a, b, c, d] \<Rightarrow> Inr (xs_from_words a b c d)
      | _ \<Rightarrow> Inl (invalid_serialization class_xoshiro))"

definition xs_generate :: "xoshiro \<Rightarrow> (random_error + generated) \<times> xoshiro" where
  "xs_generate g = (let (w, g) = xs_next_u64 g in (Inr (gen_u64 w), g))"

definition xs_fill_bytes :: "nat \<Rightarrow> xoshiro \<Rightarrow> bytes \<times> xoshiro" where
  "xs_fill_bytes len g = fill_words 8 (\<lambda>g. let (w, g) = xs_next_u64 g in (le_bytes w, g)) len g"

section \<open>Linearity and jumps\<close>

definition xs_step :: "xoshiro \<Rightarrow> xoshiro" where
  "xs_step g = snd (xs_next_u64 g)"

lemma xs_step_simps:
  "xs0 (xs_step g) = xs0 g XOR xs3 g XOR xs1 g"
  "xs1 (xs_step g) = xs1 g XOR xs2 g XOR xs0 g"
  "xs2 (xs_step g) = xs2 g XOR xs0 g XOR push_bit 17 (xs1 g)"
  "xs3 (xs_step g) = word_rotl 45 (xs3 g XOR xs1 g)"
  by (simp_all add: xs_step_def xs_next_u64_def Let_def xor.assoc)

lemma xoshiro_eqI: "xs0 a = xs0 b \<Longrightarrow> xs1 a = xs1 b \<Longrightarrow> xs2 a = xs2 b \<Longrightarrow> xs3 a = xs3 b \<Longrightarrow> a = (b :: xoshiro)"
  by (cases a; cases b) simp

lemma xs_xor_sel [simp]:
  "xs0 (xs_xor a b) = xs0 a XOR xs0 b" "xs1 (xs_xor a b) = xs1 a XOR xs1 b"
  "xs2 (xs_xor a b) = xs2 a XOR xs2 b" "xs3 (xs_xor a b) = xs3 a XOR xs3 b"
  by (simp_all add: xs_xor_def)

lemma xs_step_linear: "xs_step (xs_xor a b) = xs_xor (xs_step a) (xs_step b)"
  by (rule xoshiro_eqI)
    (simp_all add: xs_step_simps push_bit_xor word_rot_logs xor.assoc xor.commute xor.left_commute)

lemma xs_step_zero: "xs_step xs_zero = xs_zero"
  by (rule xoshiro_eqI) (simp_all add: xs_step_simps xs_zero_def)

lemma xs_xor_simps:
  "xs_xor xs_zero a = a" "xs_xor a xs_zero = a" "xs_xor (xs_xor a b) c = xs_xor a (xs_xor b c)" "xs_xor a b = xs_xor b a"
  by (rule xoshiro_eqI; simp add: xs_zero_def xor.assoc xor.commute xor.left_commute)+

text \<open>The pairs of a word and a bit number in the order of the two loops.\<close>

definition poly_bits :: "u64 list \<Rightarrow> bool list" where
  "poly_bits poly = concat (map (\<lambda>w. map (\<lambda>b. bit w b) [0..<64]) poly)"

fun sum_ahead :: "bool list \<Rightarrow> xoshiro \<Rightarrow> xoshiro" where
  "sum_ahead [] g = xs_zero"
| "sum_ahead (c # cs) g = xs_xor (if c then g else xs_zero) (sum_ahead cs (xs_step g))"

lemma jump_bit_eq: "xs_jump_bit w b (acc, g) = (xs_xor acc (if bit w b then g else xs_zero), xs_step g)"
proof -
  have "w AND push_bit b 1 \<noteq> 0 \<longleftrightarrow> bit w b"
  proof
    assume "bit w b"
    then have "bit (w AND push_bit b 1) b" by (auto simp: bit_simps dest: bit_imp_le_length)
    then show "w AND push_bit b 1 \<noteq> 0" by auto
  next
    assume nz: "w AND push_bit b 1 \<noteq> 0"
    show "bit w b"
    proof (rule ccontr)
      assume "\<not> bit w b"
      then have "w AND push_bit b 1 = 0" by (intro bit_word_eqI) (auto simp: bit_simps)
      with nz show False by simp
    qed
  qed
  then show ?thesis by (simp add: xs_jump_bit_def xs_step_def xs_xor_simps(2))
qed

lemma fold_jump_bits:
  "fold (xs_jump_bit w) bs (acc, g)
    = (xs_xor acc (sum_ahead (map (bit w) bs) g), (xs_step ^^ length bs) g)"
proof (induction bs arbitrary: acc g)
  case (Cons b bs)
  then show ?case
    by (simp add: jump_bit_eq xs_xor_simps(3) funpow_Suc_right del: funpow.simps)
qed (simp add: xs_xor_simps)

lemma sum_ahead_append:
  "sum_ahead (xs @ ys) g = xs_xor (sum_ahead xs g) (sum_ahead ys ((xs_step ^^ length xs) g))"
  by (induction xs arbitrary: g) (simp_all add: xs_xor_simps funpow_Suc_right del: funpow.simps)

lemma jump_with_eq: "xs_jump_with poly g = sum_ahead (poly_bits poly) g"
proof -
  have "fold (\<lambda>word. fold (xs_jump_bit word) [0..<64]) poly (acc, g)
      = (xs_xor acc (sum_ahead (poly_bits poly) g), (xs_step ^^ length (poly_bits poly)) g)" for acc g
  proof (induction poly arbitrary: acc g)
    case (Cons w poly)
    have l: "(xs_step ^^ (64 + n)) g = (xs_step ^^ n) ((xs_step ^^ 64) g)" for n
      using funpow_add [of n 64 xs_step] by (simp add: add.commute)
    have pb: "poly_bits (w # poly) = map (bit w) [0..<64] @ poly_bits poly" by (simp add: poly_bits_def)
    have "fold (xs_jump_bit w) [0..<64] (acc, g)
      = (xs_xor acc (sum_ahead (map (bit w) [0..<64]) g), (xs_step ^^ 64) g)"
      by (simp only: fold_jump_bits length_upt) simp
    then show ?case
      unfolding pb sum_ahead_append
      by (simp only: fold_simps Cons.IH xs_xor_simps(3) length_map length_upt length_append) (simp add: l)
  qed (simp add: poly_bits_def xs_xor_simps)
  then show ?thesis by (simp add: xs_jump_with_def xs_xor_simps)
qed

lemma sum_ahead_step: "sum_ahead cs (xs_step g) = xs_step (sum_ahead cs g)"
  by (induction cs arbitrary: g) (simp_all add: xs_step_linear xs_step_zero)

text \<open>A jump is the exclusive or of the states that lie as many steps ahead as the polynomial has
  set bits, so it commutes with generating: the stream after a jump is the jumped stream.\<close>

theorem xs_jump_commutes:
  "xs_jump_with poly g = sum_ahead (poly_bits poly) g
   \<and> snd (xs_next_u64 (xs_jump g)) = xs_jump (snd (xs_next_u64 g))
   \<and> snd (xs_next_u64 (xs_jump_long g)) = xs_jump_long (snd (xs_next_u64 g))"
  by (simp add: jump_with_eq xs_jump_def xs_jump_long_def sum_ahead_step flip: xs_step_def)

lemma xs_state_round_trip: "xs_from_state (map item_value (xs_state_items g)) = Inr g"
  using parse_words_items [of "[xs0 g, xs1 g, xs2 g, xs3 g]"]
  by (simp add: xs_from_state_def xs_state_items_def xs_from_words_def eval_nat_numeral)

end
