(* ===== verification/Randomizer.thy ===== *)
theory Randomizer
  imports Mt19937 Pcg Xoshiro "HOL-Library.Multiset"
begin

text \<open>
  The engine trait and the native engines (\<open>engine.rs\<close>), and the methods of
  \<open>Random\Randomizer\<close> (\<open>randomizer.rs\<close>): integers, floats, bytes, shuffling and picking keys.
\<close>

section \<open>Engines\<close>

text \<open>The methods of \<open>trait Engine\<close>.  \<open>en_as_mt\<close> gives the native generator and how to put it back.\<close>

record 'e engine =
  en_generate :: "'e gen"
  en_mt_php_scaling :: "'e \<Rightarrow> bool"
  en_fill_unobservable :: "nat \<Rightarrow> 'e \<Rightarrow> ((random_error + bytes) \<times> 'e) option"
  en_fill_bytes :: "nat \<Rightarrow> 'e \<Rightarrow> ((random_error + bytes) \<times> 'e) option"
  en_as_mt :: "'e \<Rightarrow> (mt \<times> (mt \<Rightarrow> 'e)) option"

definition user_engine :: "'e gen \<Rightarrow> 'e engine" where
  "user_engine gen = \<lparr>en_generate = gen, en_mt_php_scaling = (\<lambda>_. False),
     en_fill_unobservable = (\<lambda>_ _. None), en_fill_bytes = (\<lambda>_ _. None), en_as_mt = (\<lambda>_. None)\<rparr>"

text \<open>The native engines.  \<open>os\<close> stands for the operating system's generator, with its state: a
  request for bytes gives that many or an error.\<close>

type_synonym 'o os_source = "nat \<Rightarrow> 'o \<Rightarrow> (random_error + bytes) \<times> 'o"

datatype 'o native = NMt mt | NPcg pcg | NXoshiro xoshiro | NSecure 'o

fun native_class_name :: "'o native \<Rightarrow> string" where
  "native_class_name (NMt _) = class_mt19937"
| "native_class_name (NPcg _) = class_pcg"
| "native_class_name (NXoshiro _) = class_xoshiro"
| "native_class_name (NSecure _) = class_secure"

definition secure_generate :: "'o os_source \<Rightarrow> 'o gen" where
  "secure_generate os o1 =
     (case os 8 o1 of (Inl err, o2) \<Rightarrow> (Inl err, o2) | (Inr b, o2) \<Rightarrow> (Inr (gen_u64 (le_word b)), o2))"

fun native_generate :: "'o os_source \<Rightarrow> 'o native gen" where
  "native_generate os (NMt g) = (let (r, g) = mt_generate g in (r, NMt g))"
| "native_generate os (NPcg g) = (let (r, g) = pcg_generate g in (r, NPcg g))"
| "native_generate os (NXoshiro g) = (let (r, g) = xs_generate g in (r, NXoshiro g))"
| "native_generate os (NSecure s) = (let (r, s) = secure_generate os s in (r, NSecure s))"

fun native_mt_php_scaling :: "'o native \<Rightarrow> bool" where
  "native_mt_php_scaling (NMt g) = (mt_mode_of g = MtPhp)"
| "native_mt_php_scaling _ = False"

fun native_fill_unobservable :: "'o os_source \<Rightarrow> nat \<Rightarrow> 'o native \<Rightarrow> ((random_error + bytes) \<times> 'o native) option" where
  "native_fill_unobservable os len (NSecure s) = (let (r, s) = os len s in Some (r, NSecure s))"
| "native_fill_unobservable os len _ = None"

fun native_fill_bytes :: "nat \<Rightarrow> 'o native \<Rightarrow> ((random_error + bytes) \<times> 'o native) option" where
  "native_fill_bytes len (NMt g) = (let (b, g) = mt_fill_bytes len g in Some (Inr b, NMt g))"
| "native_fill_bytes len (NPcg g) = (let (b, g) = pcg_fill_bytes len g in Some (Inr b, NPcg g))"
| "native_fill_bytes len (NXoshiro g) = (let (b, g) = xs_fill_bytes len g in Some (Inr b, NXoshiro g))"
| "native_fill_bytes len (NSecure s) = None"

fun native_as_mt :: "'o native \<Rightarrow> (mt \<times> (mt \<Rightarrow> 'o native)) option" where
  "native_as_mt (NMt g) = Some (g, NMt)"
| "native_as_mt _ = None"

definition native_engine :: "'o os_source \<Rightarrow> 'o native engine" where
  "native_engine os = \<lparr>en_generate = native_generate os, en_mt_php_scaling = native_mt_php_scaling,
     en_fill_unobservable = native_fill_unobservable os, en_fill_bytes = native_fill_bytes, en_as_mt = native_as_mt\<rparr>"

section \<open>Integers and floats\<close>

definition get_int :: "'e engine \<Rightarrow> i64 \<Rightarrow> i64 \<Rightarrow> 'e \<Rightarrow> (random_error + i64) \<times> 'e" where
  "get_int E lo hi e =
     (if hi <s lo then (Inl (ValueError (''Random'' @ [CHR 0x5C] @
        ''Randomizer::getInt(): Argument #2 ($max) must be greater than or equal to argument #1 ($min)'')), e)
      else if en_mt_php_scaling E e then
        (case en_as_mt E e of
           Some (g, back) \<Rightarrow> (let (v, g) = mt_php_scaled_range lo hi g in (Inr v, back g))
         | None \<Rightarrow> range_int (en_generate E) lo hi e)
      else range_int (en_generate E) lo hi e)"

definition next_int :: "'e gen \<Rightarrow> 'e \<Rightarrow> (random_error + i64) \<times> 'e" where
  "next_int gen e =
     (case gen e of (Inl err, e) \<Rightarrow> (Inl err, e) | (Inr g, e) \<Rightarrow> (Inr (drop_bit 1 (g_value g)), e))"

definition next_float :: "'e gen \<Rightarrow> 'e \<Rightarrow> (random_error + f64) \<times> 'e" where
  "next_float gen e =
     (case draw64 gen e of (Inl err, e) \<Rightarrow> (Inl err, e)
      | (Inr r, e) \<Rightarrow> (Inr (f_mul (f_of_int (uint (drop_bit 11 r))) (f_div (f_of_int 1) (f_of_int (2 ^ 53)))), e))"

section \<open>Bytes\<close>

definition splice :: "bytes \<Rightarrow> nat \<Rightarrow> bytes \<Rightarrow> bytes" where
  "splice out pos bs = take pos out @ bs @ drop (pos + length bs) out"

text \<open>The two loops of \<open>get_bytes\<close>; every round adds a byte, so the length is fuel enough.\<close>

fun bytes_words :: "'e gen \<Rightarrow> nat \<Rightarrow> nat \<Rightarrow> bytes \<Rightarrow> nat \<Rightarrow> 'e \<Rightarrow> (random_error + bytes \<times> nat) \<times> 'e" where
  "bytes_words gen 0 len out pos e = (Inr (out, pos), e)"
| "bytes_words gen (Suc fuel) len out pos e =
     (if pos + 8 \<le> len then
        (case gen e of
           (Inl err, e) \<Rightarrow> (Inl err, e)
         | (Inr g, e) \<Rightarrow> bytes_words gen fuel len (splice out pos (le_bytes (g_value g))) (pos + g_size g) e)
      else (Inr (out, pos), e))"

fun bytes_rest :: "'e gen \<Rightarrow> nat \<Rightarrow> nat \<Rightarrow> bytes \<Rightarrow> nat \<Rightarrow> 'e \<Rightarrow> (random_error + bytes) \<times> 'e" where
  "bytes_rest gen 0 len out pos e = (Inr out, e)"
| "bytes_rest gen (Suc fuel) len out pos e =
     (if pos < len then
        (case gen e of
           (Inl err, e) \<Rightarrow> (Inl err, e)
         | (Inr g, e) \<Rightarrow>
             (let n = min (g_size g) (len - pos)
              in bytes_rest gen fuel len (splice out pos (take n (le_bytes (g_value g)))) (pos + n) e))
      else (Inr out, e))"

definition get_bytes_slow :: "'e gen \<Rightarrow> nat \<Rightarrow> 'e \<Rightarrow> (random_error + bytes) \<times> 'e" where
  "get_bytes_slow gen len e =
     (case bytes_words gen len len (replicate len 0) 0 e of
        (Inl err, e) \<Rightarrow> (Inl err, e)
      | (Inr (out, pos), e) \<Rightarrow> bytes_rest gen len len out pos e)"

definition get_bytes :: "'e engine \<Rightarrow> i64 \<Rightarrow> 'e \<Rightarrow> (random_error + bytes) \<times> 'e" where
  "get_bytes E len e =
     (if len <s 1 then (Inl (ValueError (''Random'' @ [CHR 0x5C] @
        ''Randomizer::getBytes(): Argument #1 ($length) must be greater than 0'')), e)
      else
        (case en_fill_unobservable E (unat len) e of
           Some r \<Rightarrow> r
         | None \<Rightarrow>
             (case en_fill_bytes E (unat len) e of
                Some r \<Rightarrow> r
              | None \<Rightarrow> get_bytes_slow (en_generate E) (unat len) e)))"

text \<open>The bytes taken from a source string.  The inner loop has \<open>retry_limit\<close> retries.\<close>

fun string_byte :: "'e gen \<Rightarrow> nat \<Rightarrow> u64 \<Rightarrow> nat \<Rightarrow> u64 \<Rightarrow> nat \<Rightarrow> 'e \<Rightarrow> (random_error + nat \<times> u64 \<times> nat) \<times> 'e" where
  "string_byte gen tries msk max_offset v left e =
     (case (if left = 0 then
              (case gen e of (Inl err, e) \<Rightarrow> (Inl err, e) | (Inr g, e) \<Rightarrow> (Inr (g_value g, g_size g), e))
            else (Inr (v, left), e)) of
        (Inl err, e) \<Rightarrow> (Inl err, e)
      | (Inr (v, left), e) \<Rightarrow>
          (let off = unat (v AND msk AND 0xff); v = drop_bit 8 v; left = left - 1 in
           if off \<le> max_offset then (Inr (off, v, left), e)
           else (case tries of
                   0 \<Rightarrow> (Inl retry_error, e)
                 | Suc tries' \<Rightarrow> string_byte gen tries' msk max_offset v left e)))"

declare string_byte.simps [simp del]

fun string_bytes :: "'e gen \<Rightarrow> bytes \<Rightarrow> u64 \<Rightarrow> nat \<Rightarrow> u64 \<Rightarrow> nat \<Rightarrow> 'e \<Rightarrow> (random_error + bytes) \<times> 'e" where
  "string_bytes gen source msk 0 v left e = (Inr [], e)"
| "string_bytes gen source msk (Suc n) v left e =
     (case string_byte gen retry_limit msk (length source - 1) v left e of
        (Inl err, e) \<Rightarrow> (Inl err, e)
      | (Inr (off, v, left), e) \<Rightarrow>
          (case string_bytes gen source msk n v left e of
             (Inl err, e) \<Rightarrow> (Inl err, e)
           | (Inr out, e) \<Rightarrow> (Inr (source ! off # out), e)))"

fun string_draws :: "'e gen \<Rightarrow> bytes \<Rightarrow> nat \<Rightarrow> 'e \<Rightarrow> (random_error + bytes) \<times> 'e" where
  "string_draws gen source 0 e = (Inr [], e)"
| "string_draws gen source (Suc n) e =
     (case range_u64 gen (word_of_nat (length source - 1)) e of
        (Inl err, e) \<Rightarrow> (Inl err, e)
      | (Inr i, e) \<Rightarrow>
          (case string_draws gen source n e of
             (Inl err, e) \<Rightarrow> (Inl err, e)
           | (Inr out, e) \<Rightarrow> (Inr (source ! unat i # out), e)))"

definition offset_mask :: "nat \<Rightarrow> u64" where
  "offset_mask max_offset = (if max_offset = 0 then 0 else drop_bit (64 - bit_len max_offset) (- 1))"

definition get_bytes_from_string :: "'e gen \<Rightarrow> bytes \<Rightarrow> i64 \<Rightarrow> 'e \<Rightarrow> (random_error + bytes) \<times> 'e" where
  "get_bytes_from_string gen source len e =
     (if source = [] then (Inl (ValueError (''Random'' @ [CHR 0x5C] @
        ''Randomizer::getBytesFromString(): Argument #1 ($string) must not be empty'')), e)
      else if len <s 1 then (Inl (ValueError (''Random'' @ [CHR 0x5C] @
        ''Randomizer::getBytesFromString(): Argument #2 ($length) must be greater than 0'')), e)
      else if 256 < length source then string_draws gen source (unat len) e
      else string_bytes gen source (offset_mask (length source - 1)) (unat len) 0 0 e)"

section \<open>Shuffling\<close>

definition swap :: "'a list \<Rightarrow> nat \<Rightarrow> nat \<Rightarrow> 'a list" where
  "swap xs i j = xs[i := xs ! j, j := xs ! i]"



section \<open>Picking keys\<close>

datatype pick_caller = PickArrayKeys | ArrayRand

definition pick_prefix :: "pick_caller \<Rightarrow> string" where
  "pick_prefix c = (case c of PickArrayKeys \<Rightarrow> ''Random'' @ [CHR 0x5C] @ ''Randomizer::pickArrayKeys()''
     | ArrayRand \<Rightarrow> ''array_rand()'')"

definition check_pick_args :: "pick_caller \<Rightarrow> nat \<Rightarrow> i64 \<Rightarrow> random_error option" where
  "check_pick_args c cnt num =
     (if cnt = 0 then Some (ValueError (pick_prefix c @ '': Argument #1 ($array) must not be empty''))
      else if num <s 1 \<or> cnt < unat num then Some (ValueError (pick_prefix c @
        '': Argument #2 ($num) must be between 1 and the number of elements in argument #1 ($array)''))
      else None)"

record pick_source =
  ps_count :: nat
  ps_slots :: nat
  ps_live :: "nat \<Rightarrow> bool"
  ps_index :: "nat \<Rightarrow> nat"

definition list_source :: "nat \<Rightarrow> pick_source" where
  "list_source n = \<lparr>ps_count = n, ps_slots = n, ps_live = (\<lambda>_. True), ps_index = (\<lambda>i. i)\<rparr>"

fun pick_slot :: "'e gen \<Rightarrow> nat \<Rightarrow> pick_source \<Rightarrow> 'e \<Rightarrow> (random_error + nat) \<times> 'e" where
  "pick_slot gen tries src e =
     (case range_u64 gen (word_of_nat (ps_slots src) - 1) e of
        (Inl err, e) \<Rightarrow> (Inl err, e)
      | (Inr i, e) \<Rightarrow>
          if ps_live src (unat i) then (Inr (ps_index src (unat i)), e)
          else (case tries of 0 \<Rightarrow> (Inl retry_error, e) | Suc tries' \<Rightarrow> pick_slot gen tries' src e))"

declare pick_slot.simps [simp del]

fun pick_bit :: "'e gen \<Rightarrow> nat \<Rightarrow> nat \<Rightarrow> u64 list \<Rightarrow> 'e \<Rightarrow> (random_error + u64 list) \<times> 'e" where
  "pick_bit gen tries cnt bits e =
     (case range_u64 gen (word_of_nat cnt - 1) e of
        (Inl err, e) \<Rightarrow> (Inl err, e)
      | (Inr i, e) \<Rightarrow>
          (let w = unat i div 64; b = push_bit (unat i mod 64) 1 in
           if bits ! w AND b = 0 then (Inr (bits[w := bits ! w OR b]), e)
           else (case tries of 0 \<Rightarrow> (Inl retry_error, e) | Suc tries' \<Rightarrow> pick_bit gen tries' cnt bits e)))"

declare pick_bit.simps [simp del]

fun pick_bits :: "'e gen \<Rightarrow> nat \<Rightarrow> nat \<Rightarrow> u64 list \<Rightarrow> 'e \<Rightarrow> (random_error + u64 list) \<times> 'e" where
  "pick_bits gen 0 cnt bits e = (Inr bits, e)"
| "pick_bits gen (Suc draws) cnt bits e =
     (case pick_bit gen retry_limit cnt bits e of
        (Inl err, e) \<Rightarrow> (Inl err, e)
      | (Inr bits, e) \<Rightarrow> pick_bits gen draws cnt bits e)"

definition pick_keys :: "'e gen \<Rightarrow> pick_caller \<Rightarrow> pick_source \<Rightarrow> i64 \<Rightarrow> 'e \<Rightarrow> (random_error + nat list) \<times> 'e" where
  "pick_keys gen caller src num e =
     (let cnt = ps_count src in
      case check_pick_args caller cnt num of
        Some err \<Rightarrow> (Inl err, e)
      | None \<Rightarrow>
          (let num = unat num in
           if num = 1 then
             (if cnt < ps_slots src - cnt then
                (case range_u64 gen (word_of_nat cnt - 1) e of
                   (Inl err, e) \<Rightarrow> (Inl err, e) | (Inr i, e) \<Rightarrow> (Inr [unat i], e))
              else (case pick_slot gen retry_limit src e of (Inl err, e) \<Rightarrow> (Inl err, e) | (Inr i, e) \<Rightarrow> (Inr [i], e)))
           else
             (let negative = (cnt div 2 < num);
                  draws = (if negative then cnt - num else num)
              in case pick_bits gen draws cnt (replicate ((cnt + 63) div 64) 0) e of
                   (Inl err, e) \<Rightarrow> (Inl err, e)
                 | (Inr bits, e) \<Rightarrow>
                     (Inr (filter (\<lambda>i. (drop_bit (i mod 64) (bits ! (i div 64)) AND 1 \<noteq> 0) \<noteq> negative) [0..<cnt]), e))))"

definition pick_array_keys :: "'e gen \<Rightarrow> nat \<Rightarrow> i64 \<Rightarrow> 'e \<Rightarrow> (random_error + nat list) \<times> 'e" where
  "pick_array_keys gen cnt num e = pick_keys gen PickArrayKeys (list_source cnt) num e"

section \<open>The engines meet the contract\<close>

interpretation pcg: random_engine pcg_generate "\<lambda>_. True"
proof
  show "gen_ok g" if "fst (pcg_generate e) = Inr g" for e g
    using that by (auto simp: pcg_generate_def split: prod.splits)
qed simp

interpretation xoshiro: random_engine xs_generate "\<lambda>_. True"
proof
  show "gen_ok g" if "fst (xs_generate e) = Inr g" for e g
    using that by (auto simp: xs_generate_def split: prod.splits)
qed simp

fun native_ok :: "'o native \<Rightarrow> bool" where
  "native_ok (NMt g) = mt_ok g"
| "native_ok _ = True"

interpretation native: random_engine "native_generate os" native_ok for os :: "'o os_source"
proof
  show "native_ok (snd (native_generate os e))" if "native_ok e" for e
    using that by (cases e) (simp_all add: case_prod_beta mt_generate_ok)
  show "gen_ok g" if "native_ok e" "fst (native_generate os e) = Inr g" for e g
    using that
    by (cases e) (auto simp: mt_generate_def pcg_generate_def xs_generate_def secure_generate_def split: prod.splits sum.splits)
qed

text \<open>A class of the program as an engine: \<open>call\<close> is its \<open>generate()\<close> method.\<close>

definition user_generate :: "('e \<Rightarrow> (random_error + bytes) \<times> 'e) \<Rightarrow> 'e gen" where
  "user_generate call e = (case call e of (Inl err, e) \<Rightarrow> (Inl err, e) | (Inr b, e) \<Rightarrow> (gen_from_bytes b, e))"

interpretation user: random_engine "user_generate call" "\<lambda>_. True" for call :: "'e \<Rightarrow> (random_error + bytes) \<times> 'e"
proof
  show "gen_ok g" if "fst (user_generate call e) = Inr g" for e g
    using that gen_from_bytes_ok by (auto simp: user_generate_def split: prod.splits sum.splits)
qed simp

section \<open>Bytes are the concatenated results\<close>

text \<open>The bytes of successive results, the last one cut.\<close>

function read_stream :: "'e gen \<Rightarrow> nat \<Rightarrow> 'e \<Rightarrow> (random_error + bytes) \<times> 'e" where
  "read_stream gen len e =
     (if len = 0 then (Inr [], e)
      else (case gen e of
              (Inl err, e) \<Rightarrow> (Inl err, e)
            | (Inr g, e) \<Rightarrow>
                (case read_stream gen (len - max 1 (g_size g)) e of
                   (Inl err, e) \<Rightarrow> (Inl err, e)
                 | (Inr bs, e) \<Rightarrow> (Inr (take len (gen_bytes g) @ bs), e))))"
  by pat_completeness auto
termination
  by (relation "measure (\<lambda>(gen, len, e). len)") auto

declare read_stream.simps [simp del]

lemma length_splice [simp]: "pos + length bs \<le> length out \<Longrightarrow> length (splice out pos bs) = length out"
  by (simp add: splice_def)

lemma take_splice: "pos + length bs \<le> length out \<Longrightarrow> n \<le> length bs \<Longrightarrow> take (pos + n) (splice out pos bs) = take pos out @ take n bs"
  by (simp add: splice_def)

lemma take_gen_bytes: "take n (gen_bytes g) = take (min n (g_size g)) (le_bytes (g_value g))"
  by (simp add: gen_bytes_def)

lemma read_stream_0 [simp]: "read_stream gen 0 e = (Inr [], e)"
  by (simp add: read_stream.simps [of gen 0])

lemma read_stream_err: "0 < n \<Longrightarrow> gen e = (Inl err, e2) \<Longrightarrow> read_stream gen n e = (Inl err, e2)"
  by (simp add: read_stream.simps [of gen n e])

lemma read_stream_step:
  "0 < n \<Longrightarrow> gen e = (Inr g, e2) \<Longrightarrow> 1 \<le> g_size g \<Longrightarrow>
   read_stream gen n e = (case read_stream gen (n - g_size g) e2 of
     (Inl err, e) \<Rightarrow> (Inl err, e) | (Inr bs, e) \<Rightarrow> (Inr (take n (gen_bytes g) @ bs), e))"
  by (simp add: read_stream.simps [of gen n e] max_def)

definition emit :: "bytes \<Rightarrow> (random_error + bytes) \<times> 'e \<Rightarrow> (random_error + bytes) \<times> 'e" where
  "emit b r = (case r of (Inl err, e) \<Rightarrow> (Inl err, e) | (Inr bs, e) \<Rightarrow> (Inr (b @ bs), e))"

lemma emit_append: "emit a (emit b r) = emit (a @ b) r" "emit [] r = r"
  by (simp_all add: emit_def split: prod.split sum.split)

context random_engine
begin

lemma bytes_rest_stream:
  "ok e \<Longrightarrow> length out = len \<Longrightarrow> pos \<le> len \<Longrightarrow> len - pos \<le> fuel \<Longrightarrow>
   bytes_rest gen fuel len out pos e = emit (take pos out) (read_stream gen (len - pos) e)"
proof (induction fuel arbitrary: out pos e)
  case 0
  then show ?case by (simp add: emit_def)
next
  case (Suc fuel)
  show ?case
  proof (cases "pos < len")
    case True
    then have pos: "0 < len - pos" by simp
    obtain res e2 where g: "gen e = (res, e2)" by fastforce
    show ?thesis
    proof (cases res)
      case (Inl err)
      then show ?thesis using True g read_stream_err [OF pos, of gen e err e2] by (simp add: emit_def)
    next
      case (Inr x)
      have x: "gen_ok x" "ok e2" using Suc.prems(1) gen_result [of e x] gen_keeps [of e] g Inr by simp_all
      then have sz: "1 \<le> g_size x" "g_size x \<le> 8" by (simp_all add: gen_ok_def)
      define n where "n = min (g_size x) (len - pos)"
      define out2 where "out2 = splice out pos (take n (le_bytes (g_value x)))"
      have n: "1 \<le> n" "n \<le> 8" "pos + n \<le> len" using sz True by (auto simp: n_def)
      have o: "length out2 = len" "take (pos + n) out2 = take pos out @ take (len - pos) (gen_bytes x)"
        using n Suc.prems(2) by (simp_all add: out2_def take_splice take_gen_bytes min.commute n_def)
      have d: "len - (pos + n) = len - pos - g_size x" by (simp add: n_def)
      have step: "read_stream gen (len - pos) e = emit (take (len - pos) (gen_bytes x)) (read_stream gen (len - pos - g_size x) e2)"
        unfolding emit_def by (rule read_stream_step [OF pos _ sz(1)]) (simp add: g Inr)
      have "bytes_rest gen (Suc fuel) len out pos e = bytes_rest gen fuel len out2 (pos + n) e2"
        using True g Inr by (simp add: Let_def n_def out2_def)
      also have "\<dots> = emit (take (pos + n) out2) (read_stream gen (len - (pos + n)) e2)"
        using Suc.prems(4) n by (intro Suc.IH [OF x(2) o(1)]) simp_all
      finally show ?thesis unfolding step emit_append o(2) d .
    qed
  qed (use Suc.prems in \<open>simp add: emit_def\<close>)
qed

lemma bytes_words_stream:
  "ok e \<Longrightarrow> length out = len \<Longrightarrow> pos \<le> len \<Longrightarrow>
   (case bytes_words gen fuel len out pos e of (Inl err, e) \<Rightarrow> (Inl err, e)
      | (Inr (out, pos), e) \<Rightarrow> bytes_rest gen len len out pos e) = emit (take pos out) (read_stream gen (len - pos) e)"
proof (induction fuel arbitrary: out pos e)
  case 0
  then show ?case using bytes_rest_stream [of e out len pos len] by simp
next
  case (Suc fuel)
  show ?case
  proof (cases "pos + 8 \<le> len")
    case True
    then have pos: "0 < len - pos" by simp
    obtain res e2 where g: "gen e = (res, e2)" by fastforce
    show ?thesis
    proof (cases res)
      case (Inl err)
      then show ?thesis using True g read_stream_err [OF pos, of gen e err e2] by (simp add: emit_def)
    next
      case (Inr x)
      have x: "gen_ok x" "ok e2" using Suc.prems(1) gen_result [of e x] gen_keeps [of e] g Inr by simp_all
      then have sz: "1 \<le> g_size x" "g_size x \<le> 8" by (simp_all add: gen_ok_def)
      define out2 where "out2 = splice out pos (le_bytes (g_value x))"
      have o: "length out2 = len" "take (pos + g_size x) out2 = take pos out @ take (len - pos) (gen_bytes x)"
        using sz True Suc.prems(2) by (simp_all add: out2_def take_splice take_gen_bytes min_def)
      have step: "read_stream gen (len - pos) e = emit (take (len - pos) (gen_bytes x)) (read_stream gen (len - pos - g_size x) e2)"
        unfolding emit_def by (rule read_stream_step [OF pos _ sz(1)]) (simp add: g Inr)
      have b: "bytes_words gen (Suc fuel) len out pos e = bytes_words gen fuel len out2 (pos + g_size x) e2"
        using True g Inr by (simp add: out2_def)
      have "(case bytes_words gen fuel len out2 (pos + g_size x) e2 of (Inl err, e) \<Rightarrow> (Inl err, e)
            | (Inr (out, pos), e) \<Rightarrow> bytes_rest gen len len out pos e)
          = emit (take (pos + g_size x) out2) (read_stream gen (len - (pos + g_size x)) e2)"
        using True sz by (intro Suc.IH [OF x(2) o(1)]) simp
      then show ?thesis unfolding step emit_append o(2) b diff_diff_left .
    qed
  next
    case False
    then show ?thesis using Suc.prems bytes_rest_stream [of e out len pos len] by simp
  qed
qed

lemma get_bytes_slow_stream: "ok e \<Longrightarrow> get_bytes_slow gen len e = read_stream gen len e"
  using bytes_words_stream [of e "replicate len 0" len 0 len]
  by (simp add: get_bytes_slow_def emit_append)

end

text \<open>The native engines fill a buffer word by word; that gives the same bytes and the same next state.\<close>

lemma fill_words_stream:
  assumes "0 < w" "\<And>e. \<exists>g. gen (emb e) = (Inr g, emb (snd (nxt e))) \<and> gen_bytes g = fst (nxt e) \<and> g_size g = w \<and> gen_ok g"
  shows "read_stream gen len (emb e) = (Inr (fst (fill_words w nxt len e)), emb (snd (fill_words w nxt len e)))"
  using assms
proof (induction w nxt len e rule: fill_words.induct)
  case (1 w nxt len e)
  obtain g where g: "gen (emb e) = (Inr g, emb (snd (nxt e)))" "gen_bytes g = fst (nxt e)" "g_size g = w" "gen_ok g"
    using "1.prems"(2) by blast
  have l: "length (fst (nxt e)) = w" using length_gen_bytes [OF g(4)] g(2,3) by simp
  show ?case
  proof (cases "len = 0")
    case True
    then show ?thesis using "1.prems"(1) by (simp add: fill_words.simps [of w nxt 0])
  next
    case False
    then have step: "read_stream gen len (emb e) = emit (take len (gen_bytes g)) (read_stream gen (len - g_size g) (emb (snd (nxt e))))"
      unfolding emit_def using "1.prems"(1) g by (intro read_stream_step) simp_all
    show ?thesis
    proof (cases "w \<le> len")
      case le: True
      obtain b e2 where n: "nxt e = (b, e2)" by fastforce
      have "read_stream gen (len - w) (emb e2)
          = (Inr (fst (fill_words w nxt (len - w) e2)), emb (snd (fill_words w nxt (len - w) e2)))"
        using "1.IH" [OF _ n [symmetric] refl] "1.prems" le by simp
      then show ?thesis
        using step le l g(2,3) n "1.prems"(1) False
        by (simp add: fill_words.simps [of w nxt len e] emit_def case_prod_beta)
    next
      case gt: False
      then show ?thesis
        using step False g(2,3) by (simp add: fill_words.simps [of w nxt len e] emit_def case_prod_beta)
    qed
  qed
qed

lemma gen_bytes_native: "gen_bytes (gen_u64 w) = le_bytes w" "gen_bytes (gen_u32 v) = le_bytes32 v"
  "g_size (gen_u64 w) = 8" "g_size (gen_u32 v) = 4"
proof -
  show "gen_bytes (gen_u64 w) = le_bytes w" by (simp add: gen_bytes_def gen_u64_def)
  have "[0..<4] = take 4 [0..<(8::nat)]" by simp
  moreover have "(ucast (drop_bit (8 * i) (ucast v :: u64)) :: u8) = ucast (drop_bit (8 * i) v)" if "i < 4" for i
    using that by (intro bit_word_eqI) (auto simp: bit_ucast_iff bit_drop_bit_eq dest: bit_imp_le_length)
  ultimately show "gen_bytes (gen_u32 v) = le_bytes32 v"
    unfolding gen_bytes_def gen_u32_def le_bytes_def le_bytes32_def by (simp add: take_map)
qed (simp_all add: gen_u64_def gen_u32_def)

lemma native_fill_stream:
  assumes "native_fill_bytes len e = Some r"
  shows "r = read_stream (native_generate os) len e"
proof (cases e)
  case (NMt g)
  have "read_stream (native_generate os) len (NMt g)
      = (Inr (fst (mt_fill_bytes len g)), NMt (snd (mt_fill_bytes len g)))"
    unfolding mt_fill_bytes_def
    by (rule fill_words_stream) (auto simp: mt_generate_def gen_bytes_native split: prod.split)
  then show ?thesis using assms NMt by (simp add: case_prod_beta)
next
  case (NPcg g)
  have "read_stream (native_generate os) len (NPcg g)
      = (Inr (fst (pcg_fill_bytes len g)), NPcg (snd (pcg_fill_bytes len g)))"
    unfolding pcg_fill_bytes_def
    by (rule fill_words_stream) (auto simp: pcg_generate_def gen_bytes_native split: prod.split)
  then show ?thesis using assms NPcg by (simp add: case_prod_beta)
next
  case (NXoshiro g)
  have "read_stream (native_generate os) len (NXoshiro g)
      = (Inr (fst (xs_fill_bytes len g)), NXoshiro (snd (xs_fill_bytes len g)))"
    unfolding xs_fill_bytes_def
    by (rule fill_words_stream) (auto simp: xs_generate_def gen_bytes_native split: prod.split)
  then show ?thesis using assms NXoshiro by (simp add: case_prod_beta)
qed (use assms in simp)

text \<open>\<open>getBytes()\<close> on a native engine other than the secure one returns the first bytes of its
  concatenated \<open>generate()\<close> results and leaves it where these calls leave it, by the fast path as by the generic
  loops; a request for less than one byte is an error.\<close>

theorem get_bytes_native:
  assumes "native_ok e" "\<And>s. e \<noteq> NSecure s"
  shows "get_bytes (native_engine os) len e
      = (if len <s 1 then (Inl (ValueError (''Random'' @ [CHR 0x5C] @
          ''Randomizer::getBytes(): Argument #1 ($length) must be greater than 0'')), e)
         else read_stream (native_generate os) (unat len) e)
    \<and> get_bytes_slow (native_generate os) (unat len) e = read_stream (native_generate os) (unat len) e"
proof -
  have "native_fill_unobservable os (unat len) e = None" using assms(2) proof (cases e)
    case (NSecure s) then show ?thesis using assms(2) by blast
  qed simp_all
  moreover obtain r where "native_fill_bytes (unat len) e = Some r"
    using assms(2) by (cases e) (auto simp: case_prod_beta)
  ultimately show ?thesis
    using native.get_bytes_slow_stream [OF assms(1)] native_fill_stream [of "unat len" e r os]
    by (simp add: get_bytes_def native_engine_def)
qed

theorem get_bytes_native_witness:
  "fst (get_bytes (native_engine (\<lambda>n s. (Inr (replicate n 0), s))) 11 (NPcg (pcg_from_int 5) :: unit native))
    = fst (read_stream (native_generate (\<lambda>n s. (Inr (replicate n 0), s))) 11 (NPcg (pcg_from_int 5) :: unit native))"
  using get_bytes_native [of "NPcg (pcg_from_int 5) :: unit native" "\<lambda>n s. (Inr (replicate n 0), s)" 11]
  by (simp add: word_sless_alt)

text \<open>For an engine written in PHP, whose results may have any length, \<open>getBytes()\<close> returns the
  first bytes of the concatenated results, each cut to eight bytes, or the first error.\<close>

theorem get_bytes_user:
  "get_bytes_slow (user_generate call) len e = read_stream (user_generate call) len e"
  by (rule user.get_bytes_slow_stream) simp

section \<open>Shuffling\<close>




lemma length_swap [simp]: "length (swap xs i j) = length xs"
  by (simp add: swap_def)



lemma draw_index: "range_u64 gen (word_of_nat n) e = (Inr j, e2) \<Longrightarrow> unat j \<le> n"
proof -
  assume "range_u64 gen (word_of_nat n) e = (Inr j, e2)"
  then have "unat j \<le> unat (word_of_nat n :: u64)" using range_u64_le by (simp add: word_le_nat_alt)
  also have "\<dots> \<le> n" by (simp add: unat_of_nat)
  finally show ?thesis .
qed









section \<open>Bytes from a string\<close>

lemma string_byte_le: "string_byte gen tries msk max_offset v left e = (Inr (off, v', left'), e') \<Longrightarrow> off \<le> max_offset"
proof (induction tries arbitrary: v left e)
  case 0
  then show ?case by (auto simp: string_byte.simps [of gen 0] Let_def split: prod.splits sum.splits if_splits)
next
  case (Suc tries)
  then show ?case
    by (auto simp: string_byte.simps [of gen "Suc tries"] Let_def split: prod.splits sum.splits if_splits)
qed

lemma string_bytes_spec:
  "string_bytes gen source msk n v left e = (Inr out, e') \<Longrightarrow> source \<noteq> [] \<Longrightarrow> length out = n \<and> set out \<subseteq> set source"
proof (induction n arbitrary: out v left e)
  case (Suc n)
  obtain off v2 left2 e2 rest where b: "string_byte gen retry_limit msk (length source - 1) v left e = (Inr (off, v2, left2), e2)"
    "string_bytes gen source msk n v2 left2 e2 = (Inr rest, e')" "out = source ! off # rest"
    using Suc.prems(1) by (auto split: prod.splits sum.splits)
  have "off < length source" using string_byte_le [OF b(1)] Suc.prems(2) by (cases source) auto
  then show ?case using Suc.IH [OF b(2) Suc.prems(2)] b(3) by simp
qed simp

lemma string_draws_spec:
  "string_draws gen source n e = (Inr out, e') \<Longrightarrow> source \<noteq> [] \<Longrightarrow> length out = n \<and> set out \<subseteq> set source"
proof (induction n arbitrary: out e)
  case (Suc n)
  obtain i e2 rest where b: "range_u64 gen (word_of_nat (length source - 1)) e = (Inr i, e2)"
    "string_draws gen source n e2 = (Inr rest, e')" "out = source ! unat i # rest"
    using Suc.prems(1) by (auto split: prod.splits sum.splits)
  have "unat i < length source" using draw_index [OF b(1)] Suc.prems(2) by (cases source) auto
  then show ?case using Suc.IH [OF b(2) Suc.prems(2)] b(3) by simp
qed simp

lemma offset_mask_value:
  assumes "0 < m" "m < 256"
  shows "\<exists>k. m < 2 ^ k \<and> 2 ^ k \<le> 2 * m \<and> k \<le> 8 \<and> offset_mask m = mask k"
proof -
  define k where "k = bit_len m"
  have k: "2 ^ (k - 1) \<le> m" "m < 2 ^ k" "0 < k" using bit_len_bounds [OF assms(1)] by (simp_all add: k_def)
  then have k2: "2 ^ k \<le> 2 * m" by (cases k) simp_all
  have "(2::nat) ^ (k - 1) < 2 ^ 8" using k(1) assms(2) by simp
  then have "k - 1 < 8" by (rule power_less_imp_less_exp [rotated]) simp
  then have k8: "k \<le> 8" by simp
  have "drop_bit (64 - k) (- 1 :: u64) = mask k"
    using k8 by (intro bit_word_eqI) (auto simp: bit_drop_bit_eq bit_mask_iff)
  then show ?thesis using k k2 k8 assms(1) by (auto simp: offset_mask_def k_def)
qed

text \<open>A masked byte takes every offset equally often, and at most half of the bytes are rejected.\<close>

lemma card_masked_bytes:
  assumes "k \<le> 8" "off < 2 ^ k"
  shows "card {b :: u8. unat b mod 2 ^ k = off} = 2 ^ (8 - k)"
proof (rule card_word_class)
  show "2 ^ k * 2 ^ (8 - k) \<le> (2::nat) ^ LENGTH(8)" using assms(1) by (simp flip: power_add)
  show "unat r mod 2 ^ k = off \<longleftrightarrow> unat r < 2 ^ k * 2 ^ (8 - k) \<and> unat r mod 2 ^ k = off" for r :: u8
    using assms(1) unsigned_less [of r, where 'a = nat] by (simp flip: power_add)
qed (rule assms)

definition byte_weight :: "nat \<Rightarrow> nat \<Rightarrow> nat" where
  "byte_weight n off = card {b :: u8. unat (ucast b AND offset_mask (n - 1) AND 0xff) = off}"

lemma byte_weight_mask:
  assumes "k \<le> 8" "offset_mask (n - 1) = mask k" "off < 2 ^ k"
  shows "byte_weight n off = 2 ^ (8 - k)"
proof -
  have "unat (ucast b AND mask k AND 0xff :: u64) = unat b mod 2 ^ k" for b :: u8
  proof -
    have ff: "(0xff :: u64) = mask 8" by (simp add: mask_eq_exp_minus_1)
    have "(ucast b AND mask k AND mask 8 :: u64) = take_bit k (ucast b)"
      using assms(1) by (intro bit_word_eqI) (auto simp: bit_simps)
    moreover have "unat (ucast b :: u64) = unat b"
      using take_bit_nat_eq_self [of "unat b" 64] unsigned_less [of b, where 'a = nat] by (simp add: unsigned_ucast_eq)
    then have "unat (take_bit k (ucast b :: u64)) = unat b mod 2 ^ k"
      by (simp only: unsigned_take_bit_eq) (simp only: take_bit_eq_mod)
    ultimately show ?thesis unfolding ff by simp
  qed
  then show ?thesis unfolding byte_weight_def assms(2) using card_masked_bytes [OF assms(1,3)] by simp
qed

lemma byte_weights:
  assumes "0 < n" "n \<le> 256"
  shows "\<exists>w. 256 \<le> 2 * (n * w) \<and> (\<forall>off. off < n \<longrightarrow> byte_weight n off = w)"
proof (cases "n = 1")
  case True
  have "offset_mask (n - 1) = mask 0" by (simp add: True offset_mask_def)
  then have "byte_weight n 0 = 2 ^ (8 - 0)" using byte_weight_mask [of 0 n 0] by simp
  then show ?thesis using True by auto
next
  case False
  then have "0 < n - 1" "n - 1 < 256" using assms by simp_all
  from offset_mask_value [OF this] obtain k
    where k: "n - 1 < 2 ^ k" "2 ^ k \<le> 2 * (n - 1)" "k \<le> 8" "offset_mask (n - 1) = mask k" by blast
  have "(256 :: nat) = 2 ^ k * 2 ^ (8 - k)" using k(3) by (simp flip: power_add)
  also have "\<dots> \<le> 2 * n * 2 ^ (8 - k)" using k(2) by (intro mult_right_mono) simp_all
  finally have "256 \<le> 2 * (n * 2 ^ (8 - k))" by (simp add: mult.assoc)
  moreover have "byte_weight n off = 2 ^ (8 - k)" if "off < n" for off
    using that k(1) by (intro byte_weight_mask [OF k(3,4)]) simp
  ultimately show ?thesis by blast
qed

text \<open>A \<open>getBytesFromString()\<close> that returns had a string with a byte in it and a positive
  length; it returns that many bytes, each from the string; for up to 256 source bytes every offset is given by equally
  many of the 256 values of a generated byte, and at most half of these are rejected.\<close>

theorem get_bytes_from_string_spec:
  assumes "get_bytes_from_string gen source len e = (Inr out, e')"
  shows "source \<noteq> [] \<and> 1 \<le> sint len \<and> int (length out) = sint len \<and> set out \<subseteq> set source
    \<and> (length source \<le> 256 \<longrightarrow> (\<exists>w. 256 \<le> 2 * (length source * w)
         \<and> (\<forall>off. off < length source \<longrightarrow> byte_weight (length source) off = w)))"
proof -
  have ne: "source \<noteq> []" "1 \<le> sint len"
    using assms by (auto simp: get_bytes_from_string_def word_sless_alt split: if_splits)
  have "length out = unat len \<and> set out \<subseteq> set source"
  proof (cases "256 < length source")
    case True
    then have "string_draws gen source (unat len) e = (Inr out, e')"
      using assms ne by (simp add: get_bytes_from_string_def word_sless_alt)
    then show ?thesis using ne(1) by (rule string_draws_spec)
  next
    case False
    then have "string_bytes gen source (offset_mask (length source - 1)) (unat len) 0 0 e = (Inr out, e')"
      using assms ne by (simp add: get_bytes_from_string_def word_sless_alt)
    then show ?thesis using ne(1) by (rule string_bytes_spec)
  qed
  moreover have "int (unat len) = sint len" using ne(2) by (intro unat_nonneg) simp
  moreover have "\<exists>w. 256 \<le> 2 * (length source * w) \<and> (\<forall>off. off < length source \<longrightarrow> byte_weight (length source) off = w)"
    if "length source \<le> 256" using byte_weights [OF _ that] ne(1) by blast
  ultimately show ?thesis using ne by (intro conjI impI) simp_all
qed

theorem get_bytes_from_string_spec_witness:
  "get_bytes_from_string counter_engine [65, 66, 67] 2 0x0103 = (Inr [66, 65], 0x9E3779B97F4A7D18)
    \<and> set [66, 65 :: u8] \<subseteq> set [65, 66, 67]"
proof -
  have r: "get_bytes_from_string counter_engine [65, 66, 67] 2 0x0103 = (Inr [66, 65], 0x9E3779B97F4A7D18)"
    by code_simp
  from r get_bytes_from_string_spec [OF r] show ?thesis by blast
qed

section \<open>Picking keys\<close>

text \<open>The positions whose bit is set.\<close>

definition bits_set :: "u64 list \<Rightarrow> nat set" where
  "bits_set bits = {i. i < 64 * length bits \<and> bit (bits ! (i div 64)) (i mod 64)}"

lemma single_bit: "(w AND push_bit k 1 = 0) = (\<not> bit w k)" "(drop_bit k w AND 1 \<noteq> 0) = bit w k"
  for w :: u64
proof -
  show "(w AND push_bit k 1 = 0) = (\<not> bit w k)" unfolding bit_iff_and_push_bit_not_eq_0 by simp
  show "(drop_bit k w AND 1 \<noteq> 0) = bit w k" by (simp add: and_one_eq mod_2_eq_odd bit_iff_odd_drop_bit)
qed

definition set_pos :: "u64 list \<Rightarrow> nat \<Rightarrow> u64 list" where
  "set_pos bits i = bits[i div 64 := bits ! (i div 64) OR push_bit (i mod 64) 1]"

lemma pick_bit_step:
  "range_u64 gen (word_of_nat cnt - 1) e = (Inr i, e1) \<Longrightarrow>
   pick_bit gen tries cnt bits e =
     (if bit (bits ! (unat i div 64)) (unat i mod 64)
      then (case tries of 0 \<Rightarrow> (Inl retry_error, e1) | Suc tries' \<Rightarrow> pick_bit gen tries' cnt bits e1)
      else (Inr (set_pos bits (unat i)), e1))"
  unfolding pick_bit.simps [of gen tries] set_pos_def Let_def single_bit by simp

lemma pick_bit_draw:
  "pick_bit gen tries cnt bits e = (Inr bits2, e2) \<Longrightarrow> \<exists>i e1. range_u64 gen (word_of_nat cnt - 1) e = (Inr i, e1)"
  by (cases "range_u64 gen (word_of_nat cnt - 1) e"; cases "fst (range_u64 gen (word_of_nat cnt - 1) e)")
    (auto simp: pick_bit.simps [of gen tries])

lemma draw_below: "0 < n \<Longrightarrow> range_u64 gen (word_of_nat n - 1) e = (Inr j, e2) \<Longrightarrow> unat j < n"
proof -
  assume n: "0 < n" and r: "range_u64 gen (word_of_nat n - 1) e = (Inr j, e2)"
  have "(word_of_nat n - 1 :: u64) = word_of_nat (n - 1)" using n by (simp add: of_nat_diff)
  then show "unat j < n" using draw_index [of gen "n - 1" e j e2] n r by simp
qed

lemma set_bit_insert:
  assumes "i < 64 * length bits"
  shows "bits_set (set_pos bits i) = insert i (bits_set bits)" "length (set_pos bits i) = length bits"
proof -
  have w: "i div 64 < length bits" using assms by (simp add: less_mult_imp_div_less mult.commute)
  have "bit (set_pos bits i ! (k div 64)) (k mod 64) = (k = i \<or> bit (bits ! (k div 64)) (k mod 64))"
    if "k < 64 * length bits" for k
  proof (cases "k div 64 = i div 64")
    case True
    have "bit (push_bit (i mod 64) 1 :: u64) (k mod 64) = (k mod 64 = i mod 64)"
      by (subst bit_push_bit_iff) (auto simp: bit_1_iff)
    moreover have "(k mod 64 = i mod 64) = (k = i)" using True by (metis div_mult_mod_eq)
    ultimately show ?thesis using True w by (auto simp: set_pos_def bit_or_iff simp del: push_bit_of_1)
  next
    case False
    then show ?thesis by (auto simp: set_pos_def)
  qed
  moreover show "length (set_pos bits i) = length bits" by (simp add: set_pos_def)
  ultimately show "bits_set (set_pos bits i) = insert i (bits_set bits)" using assms by (auto simp: bits_set_def)
qed

lemma pick_bit_spec:
  "pick_bit gen tries cnt bits e = (Inr bits2, e2) \<Longrightarrow> 0 < cnt \<Longrightarrow> cnt \<le> 64 * length bits \<Longrightarrow>
   \<exists>i < cnt. i \<notin> bits_set bits \<and> bits2 = set_pos bits i"
proof (induction tries arbitrary: e)
  case (0 e)
  obtain i e1 where r: "range_u64 gen (word_of_nat cnt - 1) e = (Inr i, e1)" using pick_bit_draw [OF 0(1)] by blast
  have "unat i < cnt" using draw_below [OF 0(2) r] .
  then show ?case using 0(1,3) by (auto simp: pick_bit_step [OF r] bits_set_def split: if_splits)
next
  case (Suc tries e)
  obtain i e1 where r: "range_u64 gen (word_of_nat cnt - 1) e = (Inr i, e1)" using pick_bit_draw [OF Suc.prems(1)] by blast
  have "unat i < cnt" using draw_below [OF Suc.prems(2) r] .
  then show ?case using Suc by (auto simp: pick_bit_step [OF r] bits_set_def split: if_splits)
qed

lemma pick_bits_spec:
  "pick_bits gen draws cnt bits e = (Inr bits2, e2) \<Longrightarrow> 0 < cnt \<Longrightarrow> cnt \<le> 64 * length bits \<Longrightarrow> bits_set bits \<subseteq> {..<cnt} \<Longrightarrow>
   length bits2 = length bits \<and> bits_set bits2 \<subseteq> {..<cnt} \<and> card (bits_set bits2) = card (bits_set bits) + draws"
proof (induction draws arbitrary: bits e)
  case (Suc draws)
  obtain b1 e1 where b: "pick_bit gen retry_limit cnt bits e = (Inr b1, e1)" "pick_bits gen draws cnt b1 e1 = (Inr bits2, e2)"
    using Suc.prems(1) by (auto split: prod.splits sum.splits)
  obtain i where i: "i < cnt" "i \<notin> bits_set bits" "b1 = set_pos bits i"
    using pick_bit_spec [OF b(1) Suc.prems(2,3)] by blast
  then have s: "bits_set b1 = insert i (bits_set bits)" "length b1 = length bits"
    using set_bit_insert [of i bits] Suc.prems(3) by simp_all
  have "finite (bits_set bits)" using Suc.prems(4) finite_subset by blast
  then show ?case using Suc.IH [OF b(2) Suc.prems(2)] Suc.prems(3,4) i(1,2) s by simp
qed simp

text \<open>A well-formed source: a live slot leads to an element.\<close>

definition source_ok :: "pick_source \<Rightarrow> bool" where
  "source_ok src \<longleftrightarrow> ps_count src \<le> ps_slots src
     \<and> (\<forall>i < ps_slots src. ps_live src i \<longrightarrow> ps_index src i < ps_count src)"

lemma pick_slot_spec:
  "pick_slot gen tries src e = (Inr i, e2) \<Longrightarrow> source_ok src \<Longrightarrow> 0 < ps_slots src \<Longrightarrow> i < ps_count src"
proof (induction tries arbitrary: e)
  case (0 e)
  obtain j e1 where r: "range_u64 gen (word_of_nat (ps_slots src) - 1) e = (Inr j, e1)"
    using 0 by (cases "range_u64 gen (word_of_nat (ps_slots src) - 1) e"; cases "fst (range_u64 gen (word_of_nat (ps_slots src) - 1) e)")
      (auto simp: pick_slot.simps [of gen 0])
  then show ?case
    using 0 draw_below [OF 0(3) r] by (auto simp: pick_slot.simps [of gen 0] source_ok_def split: if_splits)
next
  case (Suc tries e)
  obtain j e1 where r: "range_u64 gen (word_of_nat (ps_slots src) - 1) e = (Inr j, e1)"
    using Suc.prems by (cases "range_u64 gen (word_of_nat (ps_slots src) - 1) e"; cases "fst (range_u64 gen (word_of_nat (ps_slots src) - 1) e)")
      (auto simp: pick_slot.simps [of gen "Suc tries"])
  then show ?case
    using Suc draw_below [OF Suc.prems(3) r]
    by (auto simp: pick_slot.simps [of gen "Suc tries"] source_ok_def split: if_splits)
qed

lemma pick_several:
  assumes "pick_bits gen draws cnt (replicate ((cnt + 63) div 64) 0) e = (Inr bits, e2)" "0 < cnt"
    "draws = (if neg then cnt - n else n)" "n \<le> cnt"
  shows "length (filter (\<lambda>i. (drop_bit (i mod 64) (bits ! (i div 64)) AND 1 \<noteq> 0) \<noteq> neg) [0..<cnt]) = n"
proof -
  let ?z = "replicate ((cnt + 63) div 64) (0 :: u64)"
  have len: "cnt \<le> 64 * length ?z" by simp
  have z: "bits_set ?z = {}" by (auto simp: bits_set_def)
  have b: "length bits = length ?z" "bits_set bits \<subseteq> {..<cnt}" "card (bits_set bits) = draws"
    using pick_bits_spec [OF assms(1,2) len] by (simp_all add: z)
  have mem: "(drop_bit (i mod 64) (bits ! (i div 64)) AND 1 \<noteq> 0) = (i \<in> bits_set bits)" if "i < cnt" for i
    using that len b(1) by (simp add: single_bit bits_set_def)
  have "length (filter (\<lambda>i. (drop_bit (i mod 64) (bits ! (i div 64)) AND 1 \<noteq> 0) \<noteq> neg) [0..<cnt])
      = card {i. i < cnt \<and> (i \<in> bits_set bits) \<noteq> neg}"
    unfolding length_filter_conv_card
    by (intro arg_cong [of _ _ card] Collect_cong conj_cong) (simp_all add: mem del: neq0_conv)
  also have "{i. i < cnt \<and> (i \<in> bits_set bits) \<noteq> neg} = (if neg then {..<cnt} - bits_set bits else bits_set bits)"
    using b(2) by auto
  also have "card \<dots> = n"
    using b(2,3) assms(3,4) by (simp add: card_Diff_subset finite_subset [OF b(2)])
  finally show ?thesis .
qed

text \<open>C12: \<open>pickArrayKeys()\<close> and \<open>array_rand()\<close>, when they return, were asked for at least one and at
  most all of the elements, and return that many different positions of elements in increasing order; else the
  arguments are refused or the engine failed.\<close>

theorem pick_keys_spec:
  assumes "pick_keys gen caller src num e = (Inr ks, e')" "source_ok src"
  shows "1 \<le> sint num \<and> sint num \<le> int (ps_count src) \<and> int (length ks) = sint num
    \<and> sorted_wrt (<) ks \<and> set ks \<subseteq> {..<ps_count src}"
proof -
  define cnt n where "cnt = ps_count src" and "n = unat num"
  have chk: "check_pick_args caller cnt num = None"
    using assms(1) by (auto simp: pick_keys_def Let_def cnt_def split: option.splits)
  then have c: "0 < cnt" "1 \<le> sint num" "n \<le> cnt"
    by (auto simp: check_pick_args_def n_def word_sless_alt split: if_splits)
  then have n: "int n = sint num" unfolding n_def by (intro unat_nonneg) simp
  have "length ks = n \<and> sorted_wrt (<) ks \<and> set ks \<subseteq> {..<cnt}"
  proof (cases "n = 1")
    case True
    show ?thesis
    proof (cases "cnt < ps_slots src - cnt")
      case big: True
      then obtain i where "ks = [unat i]" "range_u64 gen (word_of_nat cnt - 1) e = (Inr i, e')"
        using assms(1) chk True
        by (auto simp: pick_keys_def Let_def cnt_def [symmetric] n_def [symmetric] split: prod.splits sum.splits)
      then show ?thesis using draw_below [OF c(1)] True by simp
    next
      case small: False
      then obtain i where i: "ks = [i]" "pick_slot gen retry_limit src e = (Inr i, e')"
        using assms(1) chk True
        by (auto simp: pick_keys_def Let_def cnt_def [symmetric] n_def [symmetric] split: prod.splits sum.splits)
      have "0 < ps_slots src" using assms(2) c(1) by (simp add: source_ok_def cnt_def)
      then show ?thesis using pick_slot_spec [OF i(2) assms(2)] i(1) True by (simp add: cnt_def)
    qed
  next
    case False
    define neg where "neg = (cnt div 2 < n)"
    obtain bits where b: "pick_bits gen (if neg then cnt - n else n) cnt (replicate ((cnt + 63) div 64) 0) e = (Inr bits, e')"
      "ks = filter (\<lambda>i. (drop_bit (i mod 64) (bits ! (i div 64)) AND 1 \<noteq> 0) \<noteq> neg) [0..<cnt]"
      using assms(1) chk False
      by (auto simp: pick_keys_def Let_def cnt_def [symmetric] n_def [symmetric] neg_def [symmetric] split: prod.splits sum.splits)
    have "length ks = n" unfolding b(2) by (rule pick_several [OF b(1) c(1) refl c(3)])
    moreover have "sorted_wrt (<) ks" unfolding b(2) by (intro sorted_wrt_filter) (simp add: sorted_wrt_upt)
    moreover have "set ks \<subseteq> {..<cnt}" unfolding b(2) by auto
    ultimately show ?thesis by blast
  qed
  then show ?thesis using c n unfolding cnt_def by simp
qed

theorem pick_keys_spec_witness:
  "pick_keys counter_engine ArrayRand (list_source 7) 3 5 = (Inr [0, 5, 6], 0xDAA66D2C7DDF7444) \<and> source_ok (list_source 7)
    \<and> sorted_wrt (<) [0, 5, 6 :: nat]"
proof -
  have r: "pick_keys counter_engine ArrayRand (list_source 7) 3 5 = (Inr [0, 5, 6], 0xDAA66D2C7DDF7444)" by code_simp
  have ok: "source_ok (list_source 7)" by (simp add: source_ok_def list_source_def)
  from r ok pick_keys_spec [OF r ok] show ?thesis by blast
qed

section \<open>Serialized states\<close>

text \<open>C15: \<open>__unserialize()\<close> of the serialized state of each native engine gives that engine back.\<close>

theorem engine_state_round_trip:
  assumes "mt_ok g"
  shows "mt_from_state (map item_value (mt_state_items g)) = Inr g
    \<and> pcg_from_state (map item_value (pcg_state_items p)) = Inr p
    \<and> xs_from_state (map item_value (xs_state_items x)) = Inr x"
  using mt_state_round_trip [OF assms] pcg_state_round_trip xs_state_round_trip by blast

theorem engine_state_round_trip_witness:
  "mt_from_state (map item_value (mt_state_items (mt_new 42 MtPhp))) = Inr (mt_new 42 MtPhp)"
  using engine_state_round_trip [OF mt_new_ok] by blast

end
