(* ===== verification/GetFloat.thy ===== *)
theory GetFloat
  imports Randomizer
begin

text \<open>
  \<open>Randomizer::getFloat()\<close> (\<open>float.rs\<close>): the interval is cut into steps of one float
  spacing, an integer number of steps is drawn, and the result is computed from one end.
\<close>

section \<open>Rust's float functions it uses\<close>

definition f_next_up :: "f64 \<Rightarrow> f64" where
  "f_next_up a =
     (case view a of
        Nan \<Rightarrow> a
      | Infinite s \<Rightarrow> (if s then F64 (to_bits a - 1) else a)
      | Fin s m e \<Rightarrow> (if m = 0 then F64 1 else if s then F64 (to_bits a - 1) else F64 (to_bits a + 1)))"

definition f_next_down :: "f64 \<Rightarrow> f64" where
  "f_next_down a =
     (case view a of
        Nan \<Rightarrow> a
      | Infinite s \<Rightarrow> (if s then a else F64 (to_bits a - 1))
      | Fin s m e \<Rightarrow>
          (if m = 0 then F64 0x8000000000000001 else if s then F64 (to_bits a + 1) else F64 (to_bits a - 1)))"

fun ceil_magnitude :: "bool \<Rightarrow> nat \<Rightarrow> int \<Rightarrow> nat" where
  "ceil_magnitude s m e =
     (if 0 \<le> e then m * 2 ^ nat e
      else if s then m div 2 ^ nat (- e) else (m + 2 ^ nat (- e) - 1) div 2 ^ nat (- e))"

definition f_ceil :: "f64 \<Rightarrow> f64" where
  "f_ceil a = (case view a of Fin s m e \<Rightarrow> of_view (round_ratio s (ceil_magnitude s m e) 1) | _ \<Rightarrow> a)"

definition f_fract :: "f64 \<Rightarrow> f64" where
  "f_fract a = f_sub a (f_trunc a)"

definition f_zero :: f64 where
  "f_zero = f_of_int 0"

section \<open>The algorithm\<close>

datatype interval_boundary = ClosedOpen | ClosedClosed | OpenClosed | OpenOpen

definition boundary_cases :: "interval_boundary list" where
  "boundary_cases = [ClosedOpen, ClosedClosed, OpenClosed, OpenOpen]"

fun boundary_name :: "interval_boundary \<Rightarrow> string" where
  "boundary_name ClosedOpen = ''ClosedOpen''"
| "boundary_name ClosedClosed = ''ClosedClosed''"
| "boundary_name OpenClosed = ''OpenClosed''"
| "boundary_name OpenOpen = ''OpenOpen''"

definition boundary_from_name :: "string \<Rightarrow> interval_boundary option" where
  "boundary_from_name name = find (\<lambda>c. boundary_name c = name) boundary_cases"

definition gf_gamma :: "f64 \<Rightarrow> f64 \<Rightarrow> f64" where
  "gf_gamma a b =
     (let lo = f_sub (f_next_up a) a; hi = f_sub b (f_next_down b) in if f_lt hi lo then lo else hi)"

definition div_g :: "f64 \<Rightarrow> f64 \<Rightarrow> f64 \<Rightarrow> f64" where
  "div_g x g iv = (if is_finite iv then f_mul x iv else f_div x g)"

definition ceilint :: "f64 \<Rightarrow> f64 \<Rightarrow> f64 \<Rightarrow> f64 \<Rightarrow> u64" where
  "ceilint a b g iv =
     (let ag = div_g a g iv; bg = div_g b g iv; s = f_sub bg ag;
          eps = (if f_le (f_abs a) (f_abs b) then f_sub (f_neg ag) (f_sub s bg) else f_sub bg (f_add s ag));
          si = f_ceil s
      in if \<not> f_eq s si then f_as_u64 si
         else f_as_u64 si + (if f_lt f_zero eps then 1 else 0))"

definition gf_step :: "f64 \<Rightarrow> u64 \<Rightarrow> f64 \<Rightarrow> f64 \<Rightarrow> bool \<Rightarrow> f64" where
  "gf_step x k g iv down =
     (let x = f_mul (f_mul x (f_div (f_of_int 1) (f_of_int 4))) (f_of_int 4);
          units = div_g x g iv
      in if \<not> f_eq (f_fract units) f_zero \<or> f_lt (f_of_int (2 ^ 62)) (f_abs units) then
           (let p = f_mul (f_of_int (uint k)) g in if down then f_sub x p else f_add x p)
         else
           (let m = f_as_i64 units; m = (if down then m - k else m + k) in f_mul (f_of_i64 m) g))"

definition gf_msg :: "string \<Rightarrow> random_error" where
  "gf_msg m = ValueError (''Random'' @ [CHR 0x5C] @ ''Randomizer::getFloat(): '' @ m)"

definition gf_check :: "f64 \<Rightarrow> f64 \<Rightarrow> bool \<Rightarrow> random_error option" where
  "gf_check lo hi cl =
     (if \<not> is_finite lo then Some (gf_msg ''Argument #1 ($min) must be finite'')
      else if \<not> is_finite hi then Some (gf_msg ''Argument #2 ($max) must be finite'')
      else if cl then
        (if f_lt hi lo then Some (gf_msg ''Argument #2 ($max) must be greater than or equal to argument #1 ($min)'') else None)
      else if f_le hi lo then Some (gf_msg ''Argument #2 ($max) must be greater than argument #1 ($min)'')
      else None)"

text \<open>The largest number of steps that may be drawn, or the error of an empty open interval.\<close>

definition gf_hi :: "interval_boundary \<Rightarrow> u64 \<Rightarrow> random_error + u64" where
  "gf_hi bd n =
     (case bd of
        ClosedClosed \<Rightarrow> Inr n
      | ClosedOpen \<Rightarrow> Inr (n - 1)
      | OpenClosed \<Rightarrow> Inr (n - 1)
      | OpenOpen \<Rightarrow>
          (if n < 2 then Inl (ValueError (''The given interval is empty, there are no floats between argument #1 ''
             @ ''($min) and argument #2 ($max)''))
           else Inr (n - 2)))"

definition gf_result :: "interval_boundary \<Rightarrow> f64 \<Rightarrow> f64 \<Rightarrow> f64 \<Rightarrow> f64 \<Rightarrow> bool \<Rightarrow> u64 \<Rightarrow> u64 \<Rightarrow> f64" where
  "gf_result bd a b g iv from_b hi k =
     (case bd of
        ClosedClosed \<Rightarrow>
          (if from_b then (if k = hi then a else gf_step b k g iv True)
           else if k = hi then b else gf_step a k g iv False)
      | ClosedOpen \<Rightarrow>
          (if from_b then (if k = hi then a else gf_step b (k + 1) g iv True) else gf_step a k g iv False)
      | OpenClosed \<Rightarrow>
          (if from_b then gf_step b k g iv True
           else if k = hi then b else gf_step a (k + 1) g iv False)
      | OpenOpen \<Rightarrow> (if from_b then gf_step b (k + 1) g iv True else gf_step a (k + 1) g iv False))"

definition get_float :: "'e gen \<Rightarrow> f64 \<Rightarrow> f64 \<Rightarrow> interval_boundary \<Rightarrow> 'e \<Rightarrow> (random_error + f64) \<times> 'e" where
  "get_float gen a b bd e =
     (case gf_check a b (bd = ClosedClosed) of
        Some err \<Rightarrow> (Inl err, e)
      | None \<Rightarrow>
          (let g = gf_gamma a b; iv = f_div (f_of_int 1) g; n = ceilint a b g iv; from_b = f_le (f_abs a) (f_abs b) in
           case gf_hi bd n of
             Inl err \<Rightarrow> (Inl err, e)
           | Inr hi \<Rightarrow>
               (case range64 gen hi e of
                  (Inl err, e) \<Rightarrow> (Inl err, e)
                | (Inr k, e) \<Rightarrow> (Inr (gf_result bd a b g iv from_b hi k), e))))"

lemma boundary_from_name: "boundary_from_name (boundary_name c) = Some c"
  by (cases c) (simp_all add: boundary_from_name_def boundary_cases_def)

end
