(* ===== verification/Legacy.thy ===== *)
theory Legacy
  imports Randomizer
begin

text \<open>
  The global functions (\<open>legacy.rs\<close>): the request's Mersenne Twister and \<open>lcg_value()\<close>
  generator, made on first use, and the functions on the operating system's generator.  The latter and the
  clock are parameters, with a state of their own.
\<close>

section \<open>State\<close>

record lcg =
  lcg_s1 :: int
  lcg_s2 :: int












definition getrandmax :: i64 where
  "getrandmax = mt_rand_max"



section \<open>The combined linear congruential generator\<close>


text \<open>One component: \<open>a\<close>, \<open>q\<close>, \<open>r\<close>, \<open>m\<close> are the constants of the source.\<close>

definition schrage :: "int \<Rightarrow> int \<Rightarrow> int \<Rightarrow> int \<Rightarrow> int \<Rightarrow> int" where
  "schrage a q r m s =
     (let k = trunc_div s q; s = a * (s - k * q) - k * r in if s < 0 then s + m else s)"

definition lcg_next_z :: "lcg \<Rightarrow> int \<times> lcg" where
  "lcg_next_z l =
     (let s1 = schrage 40014 53668 12211 2147483563 (lcg_s1 l);
          s2 = schrage 40692 52774 3791 2147483399 (lcg_s2 l);
          z = s1 - s2; z = (if z < 1 then z + 2147483562 else z)
      in (z, \<lparr>lcg_s1 = s1, lcg_s2 = s2\<rparr>))"

definition lcg_scale :: f64 where
  "lcg_scale = of_view (round_ratio False 4656613 (10 ^ 16))"

definition lcg_next :: "lcg \<Rightarrow> f64 \<times> lcg" where
  "lcg_next l = (let (z, l) = lcg_next_z l in (f_mul (f_of_int z) lcg_scale, l))"


section \<open>The operating system's generator\<close>

definition random_int :: "'o os_source \<Rightarrow> i64 \<Rightarrow> i64 \<Rightarrow> 'o \<Rightarrow> (random_error + i64) \<times> 'o" where
  "random_int os lo hi o1 =
     (if hi <s lo then (Inl (ValueError
        ''random_int(): Argument #1 ($min) must be less than or equal to argument #2 ($max)''), o1)
      else range_int (secure_generate os) lo hi o1)"

definition random_bytes :: "'o os_source \<Rightarrow> i64 \<Rightarrow> 'o \<Rightarrow> (random_error + bytes) \<times> 'o" where
  "random_bytes os len o1 =
     (if len <s 1 then (Inl (ValueError ''random_bytes(): Argument #1 ($length) must be greater than 0''), o1)
      else os (unat len) o1)"

definition secure_serialize_error :: random_error where
  "secure_serialize_error = serialization_not_allowed class_secure"

section \<open>The generator's state\<close>

definition lcg_ok :: "lcg \<Rightarrow> bool" where
  "lcg_ok l \<longleftrightarrow> 0 < lcg_s1 l \<and> lcg_s1 l < 2147483563 \<and> 0 < lcg_s2 l \<and> lcg_s2 l < 2147483399"



section \<open>Schrage's method\<close>

text \<open>Every intermediate value of \<open>schrage\<close> fits the source's 64 bit integers.\<close>

definition schrage_fits :: "int \<Rightarrow> int \<Rightarrow> int \<Rightarrow> int \<Rightarrow> int \<Rightarrow> bool" where
  "schrage_fits a q r m s \<longleftrightarrow>
     (let k = trunc_div s q; t = a * (s - k * q) - k * r
      in in_i64 (k * q) \<and> in_i64 (s - k * q) \<and> in_i64 (a * (s - k * q)) \<and> in_i64 (k * r) \<and> in_i64 t \<and> in_i64 (t + m))"

lemma bezout_coprime: "a * x + m * y = 1 \<Longrightarrow> coprime a (m :: int)"
  by (rule coprimeI) (metis dvd_add dvd_mult2)

lemma schrage_spec:
  fixes a q r m s :: int
  assumes "0 < s" "s < m" "m = a * q + r" "0 < a" "0 < r" "r \<le> q" "m < 2 ^ 31" "coprime a m"
  shows "schrage a q r m s = a * s mod m" "0 < schrage a q r m s" "schrage a q r m s < m" "schrage_fits a q r m s"
proof -
  define k where "k = s div q"
  define d where "d = s mod q"
  have q: "0 < q" using assms(5,6) by simp
  have tk: "trunc_div s q = k" using assms(1) q by (simp add: trunc_div_def k_def)
  have s: "s = k * q + d" by (simp add: k_def d_def)
  have d: "0 \<le> d" "d < q" using q by (simp_all add: d_def)
  have k0: "0 \<le> k" using assms(1) q by (simp add: k_def pos_imp_zdiv_nonneg_iff)
  have kq: "k * q \<le> s" using s d by simp
  have "a * d < a * q" using d(2) assms(4) by (rule mult_strict_left_mono)
  then have ad: "0 \<le> a * d" "a * d < m" using assms(3-5) d(1) by (simp, linarith)
  have kr: "0 \<le> k * r" "k * r < m"
    using k0 assms(2,5,6) kq mult_left_mono [of r q k] by simp_all
  have kq0: "0 \<le> k * q" using k0 q by simp
  define t where "t = a * d - k * r"
  have t: "a * (s - k * q) - k * r = t" using s by (simp add: t_def)
  have tb: "- m < t" "t < m" using ad kr by (simp_all add: t_def)
  have "a * s = t + k * m" unfolding t_def s assms(3) by (simp add: algebra_simps)
  then have tm: "a * s mod m = t mod m" by simp
  have r: "schrage a q r m s = (if t < 0 then t + m else t)" unfolding schrage_def tk Let_def t ..
  also have "\<dots> = t mod m"
  proof (cases "t < 0")
    case True
    then have "t mod m = (t + m) mod m" "0 \<le> t + m" "t + m < m" using tb by simp_all
    then show ?thesis using True by (simp del: mod_add_self2)
  qed (use tb in simp)
  finally show e: "schrage a q r m s = a * s mod m" by (simp add: tm)
  have "a * s mod m \<noteq> 0"
  proof
    assume "a * s mod m = 0"
    then have "m dvd a * s" by (rule mod_0_imp_dvd)
    then have "m dvd s" using assms(8) by (simp add: coprime_dvd_mult_right_iff coprime_commute)
    then show False using assms(1,2) zdvd_imp_le by fastforce
  qed
  moreover have "0 \<le> a * s mod m" "a * s mod m < m" using assms(1,2) by simp_all
  ultimately show "0 < schrage a q r m s" "schrage a q r m s < m" unfolding e by simp_all
  have "s - k * q = d" using s by simp
  then show "schrage_fits a q r m s"
    using d ad kr tb kq kq0 assms(2,7) s
    unfolding schrage_fits_def tk Let_def t in_i64_def by simp
qed

lemma lcg_step:
  assumes "lcg_ok l"
  shows "lcg_ok (snd (lcg_next l))"
    "\<exists>z. lcg_next l = (f_mul (f_of_int z) lcg_scale, snd (lcg_next l))
    \<and> lcg_s1 (snd (lcg_next l)) = 40014 * lcg_s1 l mod 2147483563 \<and> lcg_s2 (snd (lcg_next l)) = 40692 * lcg_s2 l mod 2147483399
    \<and> schrage_fits 40014 53668 12211 2147483563 (lcg_s1 l) \<and> schrage_fits 40692 52774 3791 2147483399 (lcg_s2 l)
    \<and> 1 \<le> z \<and> z \<le> 2147483562 \<and> z mod 2147483562 = (lcg_s1 (snd (lcg_next l)) - lcg_s2 (snd (lcg_next l))) mod 2147483562"
proof -
  define s1 where "s1 = schrage 40014 53668 12211 2147483563 (lcg_s1 l)"
  define s2 where "s2 = schrage 40692 52774 3791 2147483399 (lcg_s2 l)"
  have l: "0 < lcg_s1 l" "lcg_s1 l < 2147483563" "0 < lcg_s2 l" "lcg_s2 l < 2147483399"
    using assms by (simp_all add: lcg_ok_def)
  have c: "coprime (40014 :: int) 2147483563" "coprime (40692 :: int) 2147483399"
    by (rule bezout_coprime [of _ "-65421664" _ "1219"], simp, rule bezout_coprime [of _ "-666167378" _ "12623"], simp)
  have 1: "s1 = 40014 * lcg_s1 l mod 2147483563" "0 < s1" "s1 < 2147483563"
    "schrage_fits 40014 53668 12211 2147483563 (lcg_s1 l)"
    unfolding s1_def by (rule schrage_spec [OF l(1,2) _ _ _ _ _ c(1)]; simp)+
  have 2: "s2 = 40692 * lcg_s2 l mod 2147483399" "0 < s2" "s2 < 2147483399"
    "schrage_fits 40692 52774 3791 2147483399 (lcg_s2 l)"
    unfolding s2_def by (rule schrage_spec [OF l(3,4) _ _ _ _ _ c(2)]; simp)+
  define z where "z = (if s1 - s2 < 1 then s1 - s2 + 2147483562 else s1 - s2)"
  have z: "1 \<le> z" "z \<le> 2147483562" unfolding z_def using 1(2,3) 2(2,3) by simp_all
  have zm: "z mod 2147483562 = (s1 - s2) mod 2147483562" by (simp add: z_def)
  have "lcg_next_z l = (z, \<lparr>lcg_s1 = s1, lcg_s2 = s2\<rparr>)"
    by (simp add: lcg_next_z_def Let_def s1_def s2_def z_def)
  then have n: "lcg_next l = (f_mul (f_of_int z) lcg_scale, \<lparr>lcg_s1 = s1, lcg_s2 = s2\<rparr>)" by (simp add: lcg_next_def)
  show "lcg_ok (snd (lcg_next l))" using 1(2,3) 2(2,3) by (simp add: n lcg_ok_def)
  show "\<exists>z. lcg_next l = (f_mul (f_of_int z) lcg_scale, snd (lcg_next l))
    \<and> lcg_s1 (snd (lcg_next l)) = 40014 * lcg_s1 l mod 2147483563 \<and> lcg_s2 (snd (lcg_next l)) = 40692 * lcg_s2 l mod 2147483399
    \<and> schrage_fits 40014 53668 12211 2147483563 (lcg_s1 l) \<and> schrage_fits 40692 52774 3791 2147483399 (lcg_s2 l)
    \<and> 1 \<le> z \<and> z \<le> 2147483562 \<and> z mod 2147483562 = (lcg_s1 (snd (lcg_next l)) - lcg_s2 (snd (lcg_next l))) mod 2147483562"
    using n 1 2 z zm by (intro exI [of _ z]) simp
qed

text \<open>\<open>lcg_value()\<close> steps its two components as multiplications modulo the two primes, without
  leaving 64 bits on the way, keeps them in their ranges, and combines them to an integer from 1 to 2147483562 that is
  scaled to the result.\<close>

theorem lcg_next_spec:
  assumes "lcg_ok l"
  shows "\<exists>z l'. lcg_next l = (f_mul (f_of_int z) lcg_scale, l') \<and> lcg_ok l'
    \<and> lcg_s1 l' = 40014 * lcg_s1 l mod 2147483563 \<and> lcg_s2 l' = 40692 * lcg_s2 l mod 2147483399
    \<and> schrage_fits 40014 53668 12211 2147483563 (lcg_s1 l) \<and> schrage_fits 40692 52774 3791 2147483399 (lcg_s2 l)
    \<and> 1 \<le> z \<and> z \<le> 2147483562 \<and> z mod 2147483562 = (lcg_s1 l' - lcg_s2 l') mod 2147483562"
  using lcg_step [OF assms] by metis

theorem lcg_next_spec_witness:
  "lcg_ok \<lparr>lcg_s1 = 2147483562, lcg_s2 = 5\<rparr> \<and> (\<exists>z l'. lcg_next \<lparr>lcg_s1 = 2147483562, lcg_s2 = 5\<rparr> = (f_mul (f_of_int z) lcg_scale, l')
    \<and> lcg_s1 l' = 2147443549 \<and> lcg_s2 l' = 203460 \<and> z = 2147240089)"
proof -
  have ok: "lcg_ok \<lparr>lcg_s1 = 2147483562, lcg_s2 = 5\<rparr>" by (simp add: lcg_ok_def)
  obtain z l' where z: "lcg_next \<lparr>lcg_s1 = 2147483562, lcg_s2 = 5\<rparr> = (f_mul (f_of_int z) lcg_scale, l')"
    "lcg_s1 l' = 2147443549" "lcg_s2 l' = 203460" "1 \<le> z" "z \<le> 2147483562" "z mod 2147483562 = 2147240089"
    using lcg_next_spec [OF ok] by auto
  then have "z = 2147240089" by (cases "z = 2147483562") simp_all
  then show ?thesis using ok z by blast
qed

section \<open>The global functions and \<open>Randomizer\<close>\<close>







end
