(* ===== verification/Civil.thy ===== *)
theory Civil
  imports Prelude
begin

text \<open>
  Proleptic Gregorian calendar arithmetic (\<open>crates/goro-ext-date/src/civil.rs\<close>).  Arguments and results
  are the machine integers of the source; what the source computes in 128 bits is computed on integers.
\<close>

definition clamp_i64 :: "int \<Rightarrow> i64" where
  "clamp_i64 x = word_of_int (max i64_min (min i64_max x))"

section \<open>The calendar\<close>

definition secs_per_day :: int where
  "secs_per_day = 86400"

definition is_leap :: "i64 \<Rightarrow> bool" where
  "is_leap y \<longleftrightarrow> trunc_mod (sint y) 4 = 0 \<and> (trunc_mod (sint y) 100 \<noteq> 0 \<or> trunc_mod (sint y) 400 = 0)"

definition days_in_month :: "i64 \<Rightarrow> u32 \<Rightarrow> u32" where
  "days_in_month y m =
     (if m \<in> {1, 3, 5, 7, 8, 10, 12} then 31
      else if m \<in> {4, 6, 9, 11} then 30
      else if is_leap y then 29 else 28)"

definition days_in_year :: "i64 \<Rightarrow> u32" where
  "days_in_year y = (if is_leap y then 366 else 365)"

text \<open>The computation of \<open>days_from_civil\<close> after the month is normalised.\<close>

definition civil_days :: "int \<Rightarrow> int \<Rightarrow> int \<Rightarrow> int" where
  "civil_days y m d1 =
     (let y = (if m \<le> 2 then y - 1 else y);
          era = y div 400;
          yoe = y mod 400;
          mp = (m + 9) mod 12;
          doy = (153 * mp + 2) div 5;
          doe = yoe * 365 + yoe div 4 - yoe div 100 + doy
      in era * 146097 + doe - 719468 + d1)"

definition days_from_civil :: "i64 \<Rightarrow> i64 \<Rightarrow> i64 \<Rightarrow> i64" where
  "days_from_civil y m d =
     (let m0 = sint (m - 1) in clamp_i64 (civil_days (sint y + m0 div 12) (m0 mod 12 + 1) (sint (d - 1))))"

definition days_civil :: "int \<Rightarrow> int \<times> int \<times> int" where
  "days_civil z =
     (let z = z + 719468;
          era = z div 146097;
          doe = z mod 146097;
          yoe = (doe - doe div 1460 + doe div 36524 - doe div 146096) div 365;
          doy = doe - (365 * yoe + yoe div 4 - yoe div 100);
          mp = (5 * doy + 2) div 153;
          d = doy - (153 * mp + 2) div 5 + 1;
          m = (if mp < 10 then mp + 3 else mp - 9)
      in (yoe + era * 400 + (if m \<le> 2 then 1 else 0), m, d))"

definition civil_from_days :: "i64 \<Rightarrow> i64 \<times> u32 \<times> u32" where
  "civil_from_days z = (let (y, m, d) = days_civil (sint z) in (word_of_int y, word_of_int m, word_of_int d))"

definition weekday :: "i64 \<Rightarrow> u32" where
  "weekday days = word_of_int (sint (days + 4) mod 7)"

definition weekday_of :: "i64 \<Rightarrow> u32 \<Rightarrow> u32 \<Rightarrow> u32" where
  "weekday_of y m d = weekday (days_from_civil y (ucast m) (ucast d))"

text \<open>The table lookup fails (a panic) outside the months.\<close>

definition day_of_year :: "i64 \<Rightarrow> u32 \<Rightarrow> u32 \<Rightarrow> u32 option" where
  "day_of_year y m d =
     (let cum = [0, 31, 59, 90, 120, 151, 181, 212, 243, 273, 304, 334] :: u32 list in
      if unat (m - 1) < length cum then
        (let n = cum ! unat (m - 1) + d - 1 in Some (if 2 < m \<and> is_leap y then n + 1 else n))
      else None)"

definition iso_weekday :: "i64 \<Rightarrow> i64" where
  "iso_weekday days = (if weekday days = 0 then 7 else ucast (weekday days))"

definition iso_week_date :: "i64 \<Rightarrow> u32 \<Rightarrow> u32 \<Rightarrow> i64 \<times> u32 \<times> u32" where
  "iso_week_date y m d =
     (let days = days_from_civil y (ucast m) (ucast d);
          wd = iso_weekday days;
          thursday = days - wd + 4;
          (iy, _, _) = civil_from_days thursday;
          jan1 = days_from_civil iy 1 1;
          week = word_of_int (trunc_div (sint (thursday - jan1)) 7) + 1 :: i64
      in (iy, ucast week, ucast wd))"

definition days_from_iso_week :: "i64 \<Rightarrow> i64 \<Rightarrow> i64 \<Rightarrow> i64" where
  "days_from_iso_week iy week wd =
     (let jan4 = days_from_civil iy 1 4;
          week1_monday = jan4 - (iso_weekday jan4 - 1)
      in week1_monday + (week - 1) * 7 + (wd - 1))"

section \<open>Timestamps\<close>

definition split_ts :: "i64 \<Rightarrow> i64 \<times> u32" where
  "split_ts ts = (word_of_int (sint ts div secs_per_day), word_of_int (sint ts mod secs_per_day))"

record civil =
  cv_y :: i64
  cv_m :: u32
  cv_d :: u32
  cv_h :: u32
  cv_i :: u32
  cv_s :: u32

definition civil_from_ts :: "i64 \<Rightarrow> civil" where
  "civil_from_ts ts =
     (let (days, sod) = split_ts ts; (y, m, d) = civil_from_days days
      in \<lparr>cv_y = y, cv_m = m, cv_d = d, cv_h = sod div 3600, cv_i = sod div 60 mod 60, cv_s = sod mod 60\<rparr>)"

definition civil_to_ts :: "i64 \<Rightarrow> i64 \<Rightarrow> i64 \<Rightarrow> i64 \<Rightarrow> i64 \<Rightarrow> i64 \<Rightarrow> i64" where
  "civil_to_ts y m d h i s =
     clamp_i64 (sint (days_from_civil y m d) * 86400 + sint h * 3600 + sint i * 60 + sint s)"

definition civil_ts :: "civil \<Rightarrow> i64" where
  "civil_ts c = civil_to_ts (cv_y c) (ucast (cv_m c)) (ucast (cv_d c)) (ucast (cv_h c)) (ucast (cv_i c)) (ucast (cv_s c))"

section \<open>Years of an era\<close>

text \<open>The day of the era on which a year, counted from March, starts.\<close>

definition year_start :: "int \<Rightarrow> int" where
  "year_start yoe = 365 * yoe + yoe div 4 - yoe div 100"

definition leap :: "int \<Rightarrow> bool" where
  "leap y \<longleftrightarrow> y mod 4 = 0 \<and> (y mod 100 \<noteq> 0 \<or> y mod 400 = 0)"

definition year_len :: "int \<Rightarrow> int" where
  "year_len yoe = (if leap (yoe + 1) then 366 else 365)"

definition year_of :: "int \<Rightarrow> int" where
  "year_of doe = (doe - doe div 1460 + doe div 36524 - doe div 146096) div 365"

text \<open>The estimate is right on the first and the last day of each year of the era.\<close>

definition year_ok :: "int \<Rightarrow> bool" where
  "year_ok y \<longleftrightarrow> year_of (year_start y) = y \<and> year_of (year_start y + year_len y - 1) = y
     \<and> year_start y + year_len y = (if y = 399 then 146097 else year_start (y + 1))"

lemma years_ok: "list_all year_ok [0..99]" "list_all year_ok [100..199]" "list_all year_ok [200..299]" "list_all year_ok [300..399]"
  by code_simp+

lemma year_ends:
  assumes "0 \<le> y" "y < 400"
  shows "year_of (year_start y) = y" "year_of (year_start y + year_len y - 1) = y"
    "year_start y + year_len y = (if y = 399 then 146097 else year_start (y + 1))"
proof -
  have "y \<in> set [0..99] \<or> y \<in> set [100..199] \<or> y \<in> set [200..299] \<or> y \<in> set [300..399]"
    using assms by (simp only: set_upto atLeastAtMost_iff) presburger
  then have "year_ok y" using years_ok unfolding list_all_iff by blast
  then show "year_of (year_start y) = y" "year_of (year_start y + year_len y - 1) = y"
    "year_start y + year_len y = (if y = 399 then 146097 else year_start (y + 1))"
    unfolding year_ok_def by blast+
qed

lemma div_lipschitz: "a \<le> b \<Longrightarrow> 0 < n \<Longrightarrow> b div n - a div n \<le> b - (a :: int)"
proof -
  assume ab: "a \<le> b" and n: "0 < n"
  have "b div n \<le> (a + (b - a) * n) div n"
    using ab n mult_right_mono [of 1 n "b - a"] by (intro zdiv_mono1) (simp_all add: mult.commute)
  then show ?thesis using n by simp
qed

lemma year_of_mono: "0 \<le> a \<Longrightarrow> a \<le> b \<Longrightarrow> b < 146097 \<Longrightarrow> year_of a \<le> year_of b"
proof -
  assume a: "0 \<le> a" "a \<le> b" "b < 146097"
  have lip: "b div 1460 - a div 1460 \<le> b - a" using a(2) by (rule div_lipschitz) simp
  have mono: "a div 36524 \<le> b div 36524" using a(2) by (rule zdiv_mono1) simp
  have zero: "x div 146096 = 0" if "0 \<le> x" "x < 146096" for x :: int using that by (rule div_pos_pos_trivial)
  have "a - a div 1460 + a div 36524 - a div 146096 \<le> b - b div 1460 + b div 36524 - b div 146096"
  proof (cases "b < 146096")
    case True
    have "a div 146096 = 0" "b div 146096 = 0" using zero a(1,2) True by simp_all
    then show ?thesis using lip mono by linarith
  next
    case False
    then have b: "b = 146096" using a(3) by linarith
    then have v: "b div 1460 = 100" "b div 36524 = 4" "b div 146096 = 1" by simp_all
    show ?thesis
    proof (cases "a = b")
      case False
      then have a2: "a \<le> 146095" using a b by linarith
      have "a div 36524 \<le> 146095 div 36524" using a2 by (rule zdiv_mono1) simp
      then have "a div 36524 \<le> 3" by simp
      moreover have "146095 div 1460 - a div 1460 \<le> 146095 - a" using a2 by (rule div_lipschitz) simp
      then have "100 - a div 1460 \<le> 146095 - a" by simp
      moreover have "a div 146096 = 0" using zero a(1) a2 by simp
      ultimately show ?thesis unfolding v b by linarith
    qed simp
  qed
  then show ?thesis unfolding year_of_def by (rule zdiv_mono1) simp
qed

lemma year_start_0: "year_start 0 = 0" "year_of 0 = 0" "year_of 146096 = 399"
  by (simp_all add: year_start_def year_of_def)

lemma year_len_pos: "365 \<le> year_len y" "year_len y \<le> 366"
  by (simp_all add: year_len_def)

lemma year_start_nonneg: "0 \<le> y \<Longrightarrow> 0 \<le> year_start y"
proof -
  assume y: "0 \<le> y"
  have "y div 100 \<le> y" using div_lipschitz [of 0 y 100] y by simp
  moreover have "0 \<le> y div 4" using y by simp
  ultimately show ?thesis using y by (simp add: year_start_def)
qed

lemma year_start_less: "0 \<le> y \<Longrightarrow> y < 400 \<Longrightarrow> year_start y < 146097"
proof -
  assume y: "0 \<le> y" "y < 400"
  have "y div 4 \<le> y" using div_lipschitz [of 0 y 4] y by simp
  moreover have "0 \<le> y div 100" using y by simp
  ultimately show ?thesis using y by (simp add: year_start_def)
qed

lemma year_of_bounds:
  assumes "0 \<le> doe" "doe < 146097"
  shows "0 \<le> year_of doe" "year_of doe < 400" "year_start (year_of doe) \<le> doe"
    "doe < year_start (year_of doe) + year_len (year_of doe)"
proof -
  define y where "y = year_of doe"
  have r: "0 \<le> y" "y < 400"
    using year_of_mono [of 0 doe] year_of_mono [of doe 146096] assms year_start_0 by (simp_all add: y_def)
  note e = year_ends [OF r]
  have "year_start y \<le> doe"
  proof (rule ccontr)
    assume lt: "\<not> year_start y \<le> doe"
    then have "0 < y" using year_start_0 assms r by (cases "y = 0") auto
    then have r1: "0 \<le> y - 1" "y - 1 < 400" using r by simp_all
    have "year_start (y - 1) + year_len (y - 1) = year_start y" using year_ends(3) [OF r1] r by (simp split: if_splits)
    then have "doe \<le> year_start (y - 1) + year_len (y - 1) - 1" using lt by simp
    moreover have "year_start (y - 1) + year_len (y - 1) - 1 < 146097"
      using \<open>_ = year_start y\<close> year_start_less [OF r] by simp
    ultimately have "year_of doe \<le> year_of (year_start (y - 1) + year_len (y - 1) - 1)"
      by (rule year_of_mono [OF assms(1)])
    then have "year_of doe \<le> y - 1" using year_ends(2) [OF r1] by simp
    then show False by (simp add: y_def)
  qed
  moreover have "doe < year_start y + year_len y"
  proof (rule ccontr)
    assume ge: "\<not> doe < year_start y + year_len y"
    then have ne: "y \<noteq> 399" using e(3) assms by auto
    then have r1: "0 \<le> y + 1" "y + 1 < 400" using r by simp_all
    have "year_start (y + 1) \<le> doe" using ge e(3) ne by simp
    then have "year_of (year_start (y + 1)) \<le> year_of doe"
      using year_of_mono year_start_nonneg [OF r1(1)] assms(2) by blast
    then show False using year_ends(1) [OF r1] by (simp add: y_def)
  qed
  ultimately show "0 \<le> year_of doe" "year_of doe < 400" "year_start (year_of doe) \<le> doe"
    "doe < year_start (year_of doe) + year_len (year_of doe)" using r by (simp_all add: y_def)
qed

section \<open>Months of a year\<close>

definition month_start :: "int \<Rightarrow> int" where
  "month_start mp = (153 * mp + 2) div 5"

definition month_of :: "int \<Rightarrow> int" where
  "month_of doy = (5 * doy + 2) div 153"

lemma days_ok: "list_all (\<lambda>d. 0 \<le> month_of d \<and> month_of d \<le> 11 \<and> month_start (month_of d) \<le> d \<and> d < month_start (month_of d + 1)) [0..365]"
  by code_simp

lemma month_of_bounds:
  assumes "0 \<le> d" "d < 366"
  shows "0 \<le> month_of d" "month_of d \<le> 11" "month_start (month_of d) \<le> d" "d < month_start (month_of d + 1)"
proof -
  have "d \<in> set [0..365]" using assms by simp
  then have "0 \<le> month_of d \<and> month_of d \<le> 11 \<and> month_start (month_of d) \<le> d \<and> d < month_start (month_of d + 1)"
    using days_ok unfolding list_all_iff by blast
  then show "0 \<le> month_of d" "month_of d \<le> 11" "month_start (month_of d) \<le> d" "d < month_start (month_of d + 1)" by blast+
qed

lemma month_start_mono: "a \<le> b \<Longrightarrow> month_start a \<le> month_start b"
  unfolding month_start_def by (rule zdiv_mono1) simp_all

lemma month_unique:
  assumes "0 \<le> d" "d < 366" "month_start mp \<le> d" "d < month_start (mp + 1)"
  shows "month_of d = mp"
proof (rule ccontr)
  note b = month_of_bounds [OF assms(1,2)]
  assume "month_of d \<noteq> mp"
  then consider "month_of d + 1 \<le> mp" | "mp + 1 \<le> month_of d" by linarith
  then show False using month_start_mono b(3,4) assms(3,4) by cases fastforce+
qed

text \<open>The months and days of the calendar.\<close>

definition month_len :: "int \<Rightarrow> int \<Rightarrow> int" where
  "month_len y m = (if m \<in> {1, 3, 5, 7, 8, 10, 12} then 31 else if m \<in> {4, 6, 9, 11} then 30 else if leap y then 29 else 28)"

definition valid_date :: "int \<Rightarrow> int \<Rightarrow> int \<Rightarrow> bool" where
  "valid_date y m d \<longleftrightarrow> 1 \<le> m \<and> m \<le> 12 \<and> 1 \<le> d \<and> d \<le> month_len y m"

text \<open>Months are counted from March; the year of the count starts there.\<close>

definition to_march :: "int \<Rightarrow> int" where
  "to_march m = (m + 9) mod 12"

definition from_march :: "int \<Rightarrow> int" where
  "from_march mp = (if mp < 10 then mp + 3 else mp - 9)"

definition march_len :: "int \<Rightarrow> int" where
  "march_len mp = month_start (mp + 1) - month_start mp"

lemma march_cases:
  assumes "0 \<le> mp" "mp \<le> 11"
  shows "to_march (from_march mp) = mp" "1 \<le> from_march mp" "from_march mp \<le> 12"
    "(from_march mp \<le> 2) = (10 \<le> mp)" "mp < 11 \<Longrightarrow> month_len y (from_march mp) = march_len mp"
    "mp = 11 \<Longrightarrow> month_len y (from_march mp) = (if leap y then 29 else 28)"
proof -
  have "mp \<in> {0, 1, 2, 3, 4, 5, 6, 7, 8, 9, 10, 11}" using assms by (simp only: insert_iff empty_iff) presburger
  then show "to_march (from_march mp) = mp" "1 \<le> from_march mp" "from_march mp \<le> 12"
    "(from_march mp \<le> 2) = (10 \<le> mp)" "mp < 11 \<Longrightarrow> month_len y (from_march mp) = march_len mp"
    "mp = 11 \<Longrightarrow> month_len y (from_march mp) = (if leap y then 29 else 28)"
    by (elim insertE emptyE; simp add: to_march_def from_march_def month_len_def march_len_def month_start_def)+
qed

lemma march_of:
  assumes "1 \<le> m" "m \<le> 12"
  shows "0 \<le> to_march m" "to_march m \<le> 11" "from_march (to_march m) = m"
proof -
  have "m \<in> {1, 2, 3, 4, 5, 6, 7, 8, 9, 10, 11, 12}" using assms by (simp only: insert_iff empty_iff) presburger
  then show "0 \<le> to_march m" "to_march m \<le> 11" "from_march (to_march m) = m"
    by (elim insertE emptyE; simp add: to_march_def from_march_def)+
qed

lemma leap_period: "leap (y + 400 * k) = leap y"
proof -
  have "(y + 400 * k) mod 4 = y mod 4" "(y + 400 * k) mod 100 = y mod 100" "(y + 400 * k) mod 400 = y mod 400"
  proof -
    have "y + 400 * k = y + 4 * (100 * k)" "y + 400 * k = y + 100 * (4 * k)" by simp_all
    then show "(y + 400 * k) mod 4 = y mod 4" "(y + 400 * k) mod 100 = y mod 100" "(y + 400 * k) mod 400 = y mod 400"
      by (metis mod_mult_self2)+
  qed
  then show ?thesis unfolding leap_def by simp
qed

section \<open>Dates and days\<close>

lemma civil_days_eq:
  "civil_days y m d1 = (let y' = (if m \<le> 2 then y - 1 else y)
     in (y' div 400) * 146097 + (year_start (y' mod 400) + month_start (to_march m)) - 719468 + d1)"
  unfolding civil_days_def year_start_def month_start_def to_march_def Let_def
  by (simp only: mult.commute [of _ 365])

lemma days_civil_eq:
  "days_civil z =
     (let z = z + 719468; doe = z mod 146097; yoe = year_of doe; doy = doe - year_start yoe; mp = month_of doy;
          m = from_march mp
      in (yoe + z div 146097 * 400 + (if m \<le> 2 then 1 else 0), m, doy - month_start mp + 1))"
  unfolding days_civil_def year_of_def year_start_def month_of_def month_start_def from_march_def Let_def ..

text \<open>The days of a year counted from March: a valid date is a month and a day of it.\<close>

lemma feb_len: "0 \<le> yoe \<Longrightarrow> yoe < 400 \<Longrightarrow> (if leap (yoe + 400 * era + 1) then 29 else 28) = year_len yoe - 337"
proof -
  have "yoe + 400 * era + 1 = yoe + 1 + 400 * era" by simp
  then have "leap (yoe + 400 * era + 1) = leap (yoe + 1)" using leap_period by metis
  then show ?thesis by (simp add: year_len_def)
qed

lemma days_civil_valid:
  assumes "days_civil z = (y, m, d)"
  shows "valid_date y m d" "civil_days y m (d - 1) = z"
proof -
  define w where "w = z + 719468"
  define doe where "doe = w mod 146097"
  define yoe where "yoe = year_of doe"
  define doy where "doy = doe - year_start yoe"
  define mp where "mp = month_of doy"
  have e: "y = yoe + w div 146097 * 400 + (if from_march mp \<le> 2 then 1 else 0)" "m = from_march mp" "d = doy - month_start mp + 1"
    using assms unfolding days_civil_eq Let_def w_def [symmetric] doe_def [symmetric] yoe_def [symmetric]
      doy_def [symmetric] mp_def [symmetric] by auto
  have "0 \<le> doe" "doe < 146097" by (simp_all add: doe_def)
  from year_of_bounds [OF this] have yb: "0 \<le> yoe" "yoe < 400" "0 \<le> doy" "doy < year_len yoe"
    by (simp_all add: yoe_def doy_def)
  then have "doy < 366" using year_len_pos [of yoe] by linarith
  from month_of_bounds [OF yb(3) this] have mb: "0 \<le> mp" "mp \<le> 11" "month_start mp \<le> doy" "doy < month_start (mp + 1)"
    by (simp_all add: mp_def)
  note mc = march_cases [OF mb(1,2)]
  have "d \<le> month_len y m"
  proof (cases "mp = 11")
    case True
    have ms: "month_start 11 = 337" by (simp add: month_start_def)
    have "y = yoe + 400 * (w div 146097) + 1" using mc(4) True e(1,2) by simp
    then have "month_len y m = year_len yoe - 337" using mc(6) [OF True, of y] feb_len [OF yb(1,2)] e(2) by simp
    then show ?thesis using yb(4) e(3) True ms by simp
  next
    case False
    then show ?thesis using mc(5) [of y] mb e(2,3) by (simp add: march_len_def)
  qed
  then show "valid_date y m d" using mc(2,3) mb(3) e by (simp add: valid_date_def)
  have "(if m \<le> 2 then y - 1 else y) = yoe + w div 146097 * 400" using e by simp
  moreover have "(yoe + w div 146097 * 400) div 400 = w div 146097" "(yoe + w div 146097 * 400) mod 400 = yoe"
    using yb by simp_all
  ultimately have "civil_days y m (d - 1) = w div 146097 * 146097 + (year_start yoe + month_start mp) - 719468 + (d - 1)"
    using mc(1) e(2) by (simp add: civil_days_eq)
  also have "\<dots> = w div 146097 * 146097 + doe - 719468" by (simp add: e(3) doy_def)
  also have "\<dots> = z" by (simp add: doe_def w_def)
  finally show "civil_days y m (d - 1) = z" .
qed

lemma civil_days_inverse:
  assumes "valid_date y m d"
  shows "days_civil (civil_days y m (d - 1)) = (y, m, d)"
proof -
  have v: "1 \<le> m" "m \<le> 12" "1 \<le> d" "d \<le> month_len y m" using assms by (simp_all add: valid_date_def)
  define y' where "y' = (if m \<le> 2 then y - 1 else y)"
  define era where "era = y' div 400"
  define yoe where "yoe = y' mod 400"
  define mp where "mp = to_march m"
  define doy where "doy = month_start mp + (d - 1)"
  have yb: "0 \<le> yoe" "yoe < 400" "y' = yoe + 400 * era" by (simp_all add: yoe_def era_def)
  have mb: "0 \<le> mp" "mp \<le> 11" "m = from_march mp" using march_of [OF v(1,2)] by (simp_all add: mp_def)
  note mc = march_cases [OF mb(1,2)]
  have ms: "month_start 0 = 0" "month_start 11 = 337" "month_start 12 = 367" by (simp_all add: month_start_def)
  have doy: "doy < month_start (mp + 1)" "doy < year_len yoe"
  proof -
    show "doy < month_start (mp + 1)"
    proof (cases "mp = 11")
      case True
      then show ?thesis using v(4) mc(6) [OF True, of y] mb(3) ms by (simp add: doy_def split: if_splits)
    next
      case False
      then show ?thesis using v(4) mc(5) [of y] mb by (simp add: doy_def march_len_def)
    qed
    show "doy < year_len yoe"
    proof (cases "mp = 11")
      case True
      have "y = yoe + 400 * era + 1" using yb(3) mc(4) True mb(3) by (simp add: y'_def)
      then have "month_len y m = year_len yoe - 337" using mc(6) [OF True, of y] feb_len [OF yb(1,2)] mb(3) by simp
      then show ?thesis using v(4) ms True by (simp add: doy_def)
    next
      case False
      then have "month_start (mp + 1) \<le> month_start 11" using mb by (intro month_start_mono) simp
      then show ?thesis using \<open>doy < month_start (mp + 1)\<close> ms year_len_pos [of yoe] by linarith
    qed
  qed
  have doy0: "0 \<le> doy" using v(3) month_start_mono [OF mb(1)] ms by (simp add: doy_def)
  define doe where "doe = year_start yoe + doy"
  have "doe \<le> 146096"
  proof (cases "yoe = 399")
    case True
    then show ?thesis using year_ends(3) [OF yb(1,2)] doy(2) by (simp add: doe_def)
  next
    case False
    then have "year_start (yoe + 1) < 146097" using yb by (intro year_start_less) simp_all
    then show ?thesis using year_ends(3) [OF yb(1,2)] doy(2) False by (simp add: doe_def)
  qed
  then have doe: "0 \<le> doe" "doe < 146097" using doy0 year_start_nonneg [OF yb(1)] by (simp_all add: doe_def)
  have z: "civil_days y m (d - 1) + 719468 = doe + 146097 * era"
    by (simp add: civil_days_eq Let_def y'_def [symmetric] era_def [symmetric] yoe_def [symmetric] mp_def [symmetric]
        doe_def doy_def)
  then have zd: "(civil_days y m (d - 1) + 719468) div 146097 = era" "(civil_days y m (d - 1) + 719468) mod 146097 = doe"
    using doe by simp_all
  have "year_of doe = yoe"
  proof -
    have "year_of (year_start yoe) \<le> year_of doe"
      using year_start_nonneg [OF yb(1)] doy0 doe by (intro year_of_mono) (simp_all add: doe_def)
    moreover have "year_of doe \<le> year_of (year_start yoe + year_len yoe - 1)"
    proof (rule year_of_mono)
      show "year_start yoe + year_len yoe - 1 < 146097"
        using year_ends(3) [OF yb(1,2)] year_start_less [of "yoe + 1"] yb by (cases "yoe = 399") simp_all
    qed (use doe doy in \<open>simp_all add: doe_def\<close>)
    ultimately show ?thesis using year_ends(1,2) [OF yb(1,2)] by simp
  qed
  moreover have "doy < 366" using doy(2) year_len_pos [of yoe] by linarith
  then have "month_of doy = mp" using doy0 doy(1) v(3) by (intro month_unique) (simp_all add: doy_def)
  ultimately have "days_civil (civil_days y m (d - 1)) = (yoe + era * 400 + (if m \<le> 2 then 1 else 0), m, d)"
    unfolding days_civil_eq Let_def zd using mb(3) by (simp add: doe_def doy_def)
  then show ?thesis using yb(3) by (simp add: y'_def split: if_splits)
qed

section \<open>The calendar's order\<close>

text \<open>The date of the next day, as the calendar says.\<close>

fun next_date :: "int \<times> int \<times> int \<Rightarrow> int \<times> int \<times> int" where
  "next_date (y, m, d) =
     (if d < month_len y m then (y, m, d + 1) else if m < 12 then (y, m + 1, 1) else (y + 1, 1, 1))"

lemma civil_days_add: "civil_days y m (d + k) = civil_days y m d + k"
  by (simp add: civil_days_eq Let_def)

lemma next_month:
  assumes "1 \<le> m" "m < 12"
  shows "civil_days y (m + 1) 0 = civil_days y m 0 + month_len y m"
proof (cases "m = 2")
  case True
  define p yoe era where "p = y - 1" and "yoe = p mod 400" and "era = p div 400"
  have b: "0 \<le> yoe" "yoe < 400" "p = yoe + 400 * era" by (simp_all add: yoe_def era_def)
  have "month_len y 2 = year_len yoe - 337"
  proof -
    have "y = yoe + 400 * era + 1" using b(3) by (simp add: p_def)
    then show ?thesis using feb_len [OF b(1,2), of era] by (simp add: month_len_def)
  qed
  moreover have "civil_days y 2 0 = era * 146097 + (year_start yoe + 337) - 719468"
    by (simp add: civil_days_eq Let_def p_def [symmetric] yoe_def [symmetric] era_def [symmetric] to_march_def month_start_def)
  moreover have "civil_days y 3 0 = era * 146097 + (year_start yoe + year_len yoe) - 719468"
  proof (cases "yoe = 399")
    case True
    then have "y = 400 * (era + 1)" using b(3) by (simp add: p_def)
    then show ?thesis using True year_ends(3) [OF b(1,2)] year_start_0
      by (simp add: civil_days_eq Let_def to_march_def month_start_def)
  next
    case False
    then have "y = yoe + 1 + 400 * era" "0 \<le> yoe + 1" "yoe + 1 < 400" using b by (simp_all add: p_def)
    then have "y div 400 = era" "y mod 400 = yoe + 1" by simp_all
    then show ?thesis using False year_ends(3) [OF b(1,2)] by (simp add: civil_days_eq Let_def to_march_def month_start_def)
  qed
  ultimately show ?thesis using True by simp
next
  case False
  then have m: "m \<in> {1, 3, 4, 5, 6, 7, 8, 9, 10, 11}" using assms by (simp only: insert_iff empty_iff) presburger
  then have l: "month_len y m = month_start (to_march (m + 1)) - month_start (to_march m)"
    by (elim insertE emptyE; simp add: month_len_def to_march_def month_start_def)
  have "(m \<le> 2) = (m + 1 \<le> 2)" using False assms by presburger
  then show ?thesis by (simp add: civil_days_eq Let_def l)
qed

lemma next_year: "civil_days (y + 1) 1 0 = civil_days y 12 0 + 31"
  by (simp add: civil_days_eq Let_def to_march_def month_start_def)

lemma month_len_pos: "28 \<le> month_len y m" "month_len y m \<le> 31"
  by (simp_all add: month_len_def)

lemma days_civil_next: "days_civil (z + 1) = next_date (days_civil z)"
proof -
  obtain y m d where c: "days_civil z = (y, m, d)" by (cases "days_civil z")
  have v: "1 \<le> m" "m \<le> 12" "1 \<le> d" "d \<le> month_len y m" and z: "civil_days y m (d - 1) = z"
    using days_civil_valid [OF c] by (simp_all add: valid_date_def)
  have z0: "civil_days y m 0 = z - (d - 1)" using civil_days_add [of y m 0 "d - 1"] z by simp
  show ?thesis
  proof (cases "d < month_len y m")
    case True
    then have "valid_date y m (d + 1)" using v by (simp add: valid_date_def)
    then have "days_civil (civil_days y m d) = (y, m, d + 1)" using civil_days_inverse by fastforce
    moreover have "civil_days y m d = z + 1" using civil_days_add [of y m "d - 1" 1] z by simp
    ultimately show ?thesis using c True by simp
  next
    case False
    then have d: "d = month_len y m" using v by simp
    show ?thesis
    proof (cases "m < 12")
      case True
      then have "valid_date y (m + 1) 1" using v month_len_pos [of y "m + 1"] by (simp add: valid_date_def)
      then have "days_civil (civil_days y (m + 1) 0) = (y, m + 1, 1)" using civil_days_inverse by fastforce
      then show ?thesis using c True d next_month [OF v(1) True, of y] z0 by simp
    next
      case False
      then have m: "m = 12" using v by simp
      have "valid_date (y + 1) 1 1" by (simp add: valid_date_def month_len_def)
      then have "days_civil (civil_days (y + 1) 1 0) = (y + 1, 1, 1)" using civil_days_inverse by fastforce
      moreover have "month_len y 12 = 31" by (simp add: month_len_def)
      moreover have "civil_days (y + 1) 1 0 = z + 1" using next_year [of y] z0 m d \<open>month_len y 12 = 31\<close> by simp
      ultimately show ?thesis using c m d by simp
    qed
  qed
qed

section \<open>Machine integers\<close>

lemma year_range:
  assumes "days_civil z = (y, m, d)" "in_i64 z"
  shows "- (2 ^ 56) \<le> y" "y \<le> 2 ^ 56"
proof -
  define w where "w = z + 719468"
  have "0 \<le> w mod 146097" "w mod 146097 < 146097" by simp_all
  note yb = year_of_bounds(1,2) [OF this]
  obtain c where c: "y = year_of (w mod 146097) + w div 146097 * 400 + c" "0 \<le> c" "c \<le> 1"
  proof
    show "y = year_of (w mod 146097) + w div 146097 * 400 + (if m \<le> 2 then 1 else 0)"
      using assms(1) unfolding days_civil_eq Let_def w_def by auto
  qed simp_all
  have w: "- (2 ^ 64) \<le> w" "w \<le> 2 ^ 64" using assms(2) by (simp_all add: in_i64_def w_def)
  have "- (2 ^ 64) div 146097 \<le> w div 146097" "w div 146097 \<le> 2 ^ 64 div 146097"
    using w by (intro zdiv_mono1; simp)+
  then have "- 126264193634466 \<le> w div 146097" "w div 146097 \<le> 126264193634466" by simp_all
  then show "- (2 ^ 56) \<le> y" "y \<le> 2 ^ 56" using c yb by simp_all
qed

lemma sint_add_fits: "in_i64 (sint a + sint b) \<Longrightarrow> sint (a + b :: i64) = sint a + sint b"
  using sint_of_int [of "sint a + sint b"] by simp

lemma sint_sub_fits: "in_i64 (sint a - sint b) \<Longrightarrow> sint (a - b :: i64) = sint a - sint b"
  using sint_of_int [of "sint a - sint b"] by simp

lemma uint_u32: "0 \<le> x \<Longrightarrow> x < 2 ^ 32 \<Longrightarrow> uint (word_of_int x :: u32) = x"
  by (simp add: uint_word_of_int take_bit_int_eq_self)

lemma in_i64_small: "0 \<le> x \<Longrightarrow> x < 2 ^ 62 \<Longrightarrow> in_i64 x"
  by (simp add: in_i64_def)

lemma sint_ucast_u32: "sint (ucast (w :: u32) :: i64) = uint w"
proof -
  have "uint w < 2 ^ 32" using uint_lt2p [of w] by simp
  then have "in_i64 (uint w)" by (intro in_i64_small) simp_all
  then have "sint (word_of_int (uint w) :: i64) = uint w" by (rule sint_of_int)
  then show ?thesis by (simp only: ucast_eq)
qed

lemma clamp_fits: "in_i64 x \<Longrightarrow> sint (clamp_i64 x) = x"
  by (simp add: clamp_i64_def in_i64_def sint_of_int)

text \<open>A date in machine integers.\<close>

definition date_ok :: "i64 \<Rightarrow> u32 \<Rightarrow> u32 \<Rightarrow> bool" where
  "date_ok y m d \<longleftrightarrow> valid_date (sint y) (uint m) (uint d)"

definition date_days :: "i64 \<Rightarrow> u32 \<Rightarrow> u32 \<Rightarrow> int" where
  "date_days y m d = civil_days (sint y) (uint m) (uint d - 1)"

lemma civil_from_days_view:
  assumes "civil_from_days z = (y, m, d)"
  shows "days_civil (sint z) = (sint y, uint m, uint d)"
proof -
  obtain y' m' d' where c: "days_civil (sint z) = (y', m', d')" by (cases "days_civil (sint z)")
  have v: "1 \<le> m'" "m' \<le> 12" "1 \<le> d'" "d' \<le> 31"
    using days_civil_valid(1) [OF c] month_len_pos(2) [of y' m'] by (simp_all add: valid_date_def)
  have "- (2 ^ 56) \<le> y' \<and> y' \<le> 2 ^ 56" using year_range [OF c] by simp
  then have "in_i64 y'" by (simp add: in_i64_def)
  then have "sint (word_of_int y' :: i64) = y'" by (rule sint_of_int)
  moreover have "uint (word_of_int m' :: u32) = m'" "uint (word_of_int d' :: u32) = d'" using v by (intro uint_u32; simp)+
  ultimately show ?thesis using assms c by (simp add: civil_from_days_def)
qed

lemma days_from_civil_date:
  assumes "date_ok y m d"
  shows "days_from_civil y (ucast m) (ucast d) = clamp_i64 (date_days y m d)"
proof -
  have v: "1 \<le> uint m" "uint m \<le> 12" "1 \<le> uint d" "uint d \<le> 31"
    using assms month_len_pos(2) [of "sint y" "uint m"] by (simp_all add: date_ok_def valid_date_def)
  have s: "sint (ucast w - 1 :: i64) = uint w - 1" if "1 \<le> uint w" "uint w \<le> 31" for w :: u32
    using that sint_sub_fits [of "ucast w" 1] by (simp add: sint_ucast_u32 in_i64_def)
  have "sint (ucast m - 1 :: i64) div 12 = 0" "sint (ucast m - 1 :: i64) mod 12 + 1 = uint m"
    "sint (ucast d - 1 :: i64) = uint d - 1"
    using s [of m] s [of d] v by simp_all
  then show ?thesis by (simp add: days_from_civil_def date_days_def)
qed

lemma days_from_civil_sint:
  assumes "date_ok y m d" "in_i64 (date_days y m d)"
  shows "sint (days_from_civil y (ucast m) (ucast d)) = date_days y m d"
  using clamp_fits [OF assms(2)] days_from_civil_date [OF assms(1)] by simp

text \<open>C18: a day number gives a date of the calendar that gives the day number back, over the whole range of
  64 bit integers; and a date whose day number fits gives the day number that gives the date back.\<close>

theorem civil_round_trip:
  assumes "civil_from_days z = (y, m, d)" "date_ok y2 m2 d2" "in_i64 (date_days y2 m2 d2)"
  shows "date_ok y m d \<and> days_from_civil y (ucast m) (ucast d) = z
    \<and> civil_from_days (days_from_civil y2 (ucast m2) (ucast d2)) = (y2, m2, d2)"
proof -
  note c = civil_from_days_view [OF assms(1)]
  have ok: "date_ok y m d" using days_civil_valid(1) [OF c] by (simp add: date_ok_def)
  have dd: "date_days y m d = sint z" using days_civil_valid(2) [OF c] by (simp add: date_days_def)
  then have "sint (days_from_civil y (ucast m) (ucast d)) = sint z" using days_from_civil_sint [OF ok] by simp
  moreover obtain y3 m3 d3 where r: "civil_from_days (days_from_civil y2 (ucast m2) (ucast d2)) = (y3, m3, d3)"
    by (cases "civil_from_days (days_from_civil y2 (ucast m2) (ucast d2))")
  then have "days_civil (date_days y2 m2 d2) = (sint y3, uint m3, uint d3)"
    using civil_from_days_view [OF r] days_from_civil_sint [OF assms(2,3)] by simp
  then have "sint y3 = sint y2 \<and> uint m3 = uint m2 \<and> uint d3 = uint d2"
    using civil_days_inverse [of "sint y2" "uint m2" "uint d2"] assms(2) by (simp add: date_ok_def date_days_def)
  then have "y3 = y2 \<and> m3 = m2 \<and> d3 = d2" by (metis signed_word_eqI word_uint_eq_iff)
  ultimately show ?thesis using ok r by (simp add: sint_eq_iff)
qed

theorem civil_round_trip_witness:
  "civil_from_days (- 719468) = (0, 3, 1) \<and> date_ok 2000 2 29 \<and> in_i64 (date_days 2000 2 29)
    \<and> civil_from_days (days_from_civil 2000 2 29) = (2000, 2, 29)"
proof -
  have 1: "civil_from_days (- 719468) = (0, 3, 1)" by code_simp
  have 2: "date_ok 2000 2 29" by (simp add: date_ok_def valid_date_def month_len_def leap_def)
  have 3: "in_i64 (date_days 2000 2 29)" by code_simp
  from 1 2 3 civil_round_trip [OF 1 2 3] show ?thesis by simp
qed

end
