(* ===== verification/CivilSpec.thy ===== *)
theory CivilSpec
  imports Civil
begin

text \<open>
  The calendar functions together: consecutive days, days of the week and of the year, ISO 8601 weeks, and
  timestamps.
\<close>

lemma date_of_days: "date_ok (fst (civil_from_days z)) (fst (snd (civil_from_days z))) (snd (snd (civil_from_days z)))"
  "date_days (fst (civil_from_days z)) (fst (snd (civil_from_days z))) (snd (snd (civil_from_days z))) = sint z"
proof -
  obtain y m d where c: "civil_from_days z = (y, m, d)" by (cases "civil_from_days z")
  note v = days_civil_valid [OF civil_from_days_view [OF c]]
  show "date_ok (fst (civil_from_days z)) (fst (snd (civil_from_days z))) (snd (snd (civil_from_days z)))"
    "date_days (fst (civil_from_days z)) (fst (snd (civil_from_days z))) (snd (snd (civil_from_days z))) = sint z"
    using v by (simp_all add: c date_ok_def date_days_def)
qed

section \<open>Consecutive days\<close>

definition date_view :: "i64 \<times> u32 \<times> u32 \<Rightarrow> int \<times> int \<times> int" where
  "date_view = (\<lambda>(y, m, d). (sint y, uint m, uint d))"

lemma date_view_days: "date_view (civil_from_days z) = days_civil (sint z)"
  using civil_from_days_view [of z] by (cases "civil_from_days z") (simp add: date_view_def)

lemma sint_succ: "sint z < i64_max \<Longrightarrow> sint (z + 1 :: i64) = sint z + 1"
  using sint_add_fits [of z 1] sint_bounds(1) [of z] by (simp add: in_i64_def)

lemma weekday_eq: "in_i64 (sint z + 4) \<Longrightarrow> uint (weekday z) = (sint z + 4) mod 7"
proof -
  assume "in_i64 (sint z + 4)"
  then have "sint (z + 4) = sint z + 4" using sint_add_fits [of z 4] by simp
  moreover have "uint (word_of_int ((sint z + 4) mod 7) :: u32) = (sint z + 4) mod 7"
  proof (rule uint_u32)
    have "(sint z + 4) mod 7 < 7" by simp
    then show "(sint z + 4) mod 7 < 2 ^ 32" by simp
  qed simp
  ultimately show ?thesis by (simp add: weekday_def)
qed

text \<open>C19: day 0 is Thursday, the 1st of January 1970, and the day after a day has the next date of the
  Gregorian calendar, with its months and leap years, and the next day of the week.\<close>

theorem civil_next_day:
  assumes "sint z < i64_max - 4"
  shows "date_view (civil_from_days (z + 1)) = next_date (date_view (civil_from_days z))
    \<and> uint (weekday (z + 1)) = (uint (weekday z) + 1) mod 7
    \<and> civil_from_days 0 = (1970, 1, 1) \<and> weekday 0 = 4"
proof -
  have s: "sint (z + 1) = sint z + 1" using assms by (intro sint_succ) simp
  have r: "in_i64 (sint z + 4)" "in_i64 (sint (z + 1) + 4)"
    using assms sint_bounds(1) [of z] unfolding s in_i64_def by simp_all
  have "uint (weekday (z + 1)) = (uint (weekday z) + 1) mod 7"
    unfolding weekday_eq [OF r(1)] weekday_eq [OF r(2)] s by (simp add: mod_simps add.commute)
  moreover have "civil_from_days 0 = (1970, 1, 1)" "weekday 0 = 4" by code_simp+
  ultimately show ?thesis using days_civil_next [of "sint z"] s by (simp add: date_view_days)
qed

theorem civil_next_day_witness:
  "sint (11015 :: i64) < i64_max - 4 \<and> date_view (civil_from_days 11016) = next_date (date_view (civil_from_days 11015))
    \<and> civil_from_days 11016 = (2000, 2, 29)"
proof -
  have 1: "sint (11015 :: i64) < i64_max - 4" by simp
  have 2: "civil_from_days 11016 = (2000, 2, 29)" by code_simp
  from 1 2 civil_next_day [OF 1] show ?thesis by simp
qed

section \<open>Timestamps\<close>

lemma u32_div_mod:
  fixes w :: u32
  shows "uint (w div 3600) = uint w div 3600" "uint (w div 60) = uint w div 60" "uint (w mod 60) = uint w mod 60"
  by (simp_all add: uint_div_distrib uint_mod_distrib)

text \<open>Every 64 bit timestamp is broken down into a date of the calendar and a time of day, which give
  the timestamp back without saturating.\<close>

theorem civil_ts_round_trip:
  "civil_ts (civil_from_ts ts) = ts
    \<and> date_ok (cv_y (civil_from_ts ts)) (cv_m (civil_from_ts ts)) (cv_d (civil_from_ts ts))
    \<and> uint (cv_h (civil_from_ts ts)) < 24 \<and> uint (cv_i (civil_from_ts ts)) < 60 \<and> uint (cv_s (civil_from_ts ts)) < 60"
proof -
  define days :: i64 where "days = word_of_int (sint ts div 86400)"
  define sod :: u32 where "sod = word_of_int (sint ts mod 86400)"
  obtain y m d where c: "civil_from_days days = (y, m, d)" by (cases "civil_from_days days")
  have r: "civil_from_ts ts = \<lparr>cv_y = y, cv_m = m, cv_d = d, cv_h = sod div 3600, cv_i = sod div 60 mod 60, cv_s = sod mod 60\<rparr>"
    by (simp add: civil_from_ts_def split_ts_def secs_per_day_def days_def [symmetric] sod_def [symmetric] c)
  have b: "- (2 ^ 63) \<le> sint ts" "sint ts \<le> 2 ^ 63 - 1" by (rule sint_bounds)+
  have "- (2 ^ 63) div 86400 \<le> sint ts div 86400" "sint ts div 86400 \<le> (2 ^ 63 - 1) div 86400"
    using b by (intro zdiv_mono1; simp)+
  then have "in_i64 (sint ts div 86400)" by (simp add: in_i64_def)
  then have days: "sint days = sint ts div 86400" unfolding days_def by (rule sint_of_int)
  have "0 \<le> sint ts mod 86400" "sint ts mod 86400 < 86400" by simp_all
  then have sod: "uint sod = sint ts mod 86400" "uint sod < 86400" "0 \<le> uint sod"
    unfolding sod_def by (simp_all add: uint_u32)
  have ok: "date_ok y m d" and dd: "date_days y m d = sint days" using date_of_days [of days] c by simp_all
  then have dfc: "sint (days_from_civil y (ucast m) (ucast d)) = sint days" using days_from_civil_sint [OF ok] by simp
  have hms: "uint sod = uint sod div 3600 * 3600 + uint sod div 60 mod 60 * 60 + uint sod mod 60"
  proof -
    have "uint sod div 3600 = uint sod div 60 div 60" by (simp add: zdiv_zmult2_eq [symmetric])
    then show ?thesis using mult_div_mod_eq [of 60 "uint sod"] mult_div_mod_eq [of 60 "uint sod div 60"] by linarith
  qed
  have "sint ts = sint ts div 86400 * 86400 + sint ts mod 86400" by simp
  then have total: "sint days * 86400 + uint sod div 3600 * 3600 + uint sod div 60 mod 60 * 60 + uint sod mod 60 = sint ts"
    using hms days sod(1) by linarith
  have "civil_ts (civil_from_ts ts) = clamp_i64 (sint ts)"
    unfolding civil_ts_def civil_to_ts_def r civil.simps dfc sint_ucast_u32 u32_div_mod total ..
  then have "civil_ts (civil_from_ts ts) = ts" using clamp_fits [of "sint ts"] by (simp flip: sint_eq_iff)
  moreover have "uint sod div 3600 < 24" using sod(2) by simp
  ultimately show ?thesis using ok by (simp add: r u32_div_mod)
qed

section \<open>Days of the year\<close>

lemma trunc_mod_0: "(trunc_mod a b = 0) = (a mod b = 0)"
  by (simp add: trunc_mod_def mod_eq_0_iff_dvd)

lemma is_leap_eq: "is_leap y = leap (sint y)"
  unfolding is_leap_def leap_def trunc_mod_0 by blast

definition month_offset :: "int \<Rightarrow> int" where
  "month_offset m = [0, 31, 59, 90, 120, 151, 181, 212, 243, 273, 304, 334] ! nat (m - 1)"

lemma twelve: "1 \<le> m \<Longrightarrow> m \<le> 12 \<Longrightarrow> m \<in> {1, 2, 3, 4, 5, 6, 7, 8, 9, 10, 11, 12 :: int}"
  by (simp only: insert_iff empty_iff) presburger

lemma month_days: "1 \<le> m \<Longrightarrow> m \<le> 12 \<Longrightarrow>
    civil_days y m 0 = civil_days y 1 0 + month_offset m + (if 2 < m \<and> leap y then 1 else 0)"
proof -
  assume m: "1 \<le> m" "m \<le> 12"
  have s: "civil_days y 2 0 = civil_days y 1 0 + 31" "civil_days y 3 0 = civil_days y 2 0 + (if leap y then 29 else 28)"
    "civil_days y 4 0 = civil_days y 3 0 + 31" "civil_days y 5 0 = civil_days y 4 0 + 30"
    "civil_days y 6 0 = civil_days y 5 0 + 31" "civil_days y 7 0 = civil_days y 6 0 + 30"
    "civil_days y 8 0 = civil_days y 7 0 + 31" "civil_days y 9 0 = civil_days y 8 0 + 31"
    "civil_days y 10 0 = civil_days y 9 0 + 30" "civil_days y 11 0 = civil_days y 10 0 + 31"
    "civil_days y 12 0 = civil_days y 11 0 + 30"
    using next_month [of 1 y] next_month [of 2 y] next_month [of 3 y] next_month [of 4 y] next_month [of 5 y]
      next_month [of 6 y] next_month [of 7 y] next_month [of 8 y] next_month [of 9 y] next_month [of 10 y]
      next_month [of 11 y]
    by (simp_all add: month_len_def)
  from twelve [OF m] show ?thesis
    by (elim insertE emptyE; hypsubst; simp add: month_offset_def s)
qed

lemma month_offset_len: "1 \<le> m \<Longrightarrow> m \<le> 12 \<Longrightarrow>
    month_offset m + month_len y m + (if 2 < m \<and> leap y then 1 else 0) \<le> (if leap y then 366 else 365)"
proof -
  assume "1 \<le> m" "m \<le> 12"
  from twelve [OF this] show ?thesis
    by (elim insertE emptyE; hypsubst; simp add: month_offset_def month_len_def)
qed

lemma u32_add_small:
  fixes c d :: u32
  assumes "uint c \<le> 400" "1 \<le> uint d" "uint d \<le> 31"
  shows "uint (c + d - 1) = uint c + uint d - 1" "uint (c + d - 1 + 1) = uint c + uint d"
proof -
  have cd: "uint (c + d) = uint c + uint d" using assms by (simp add: uint_word_ariths)
  have "uint (c + d - 1) = (uint c + uint d - 1) mod 4294967296" by (simp add: uint_word_ariths mod_simps)
  also have "\<dots> = uint c + uint d - 1"
  proof (rule mod_pos_pos_trivial)
    show "0 \<le> uint c + uint d - 1" using assms(2) uint_ge_0 [of c] by linarith
    show "uint c + uint d - 1 < 4294967296" using assms by linarith
  qed
  finally show "uint (c + d - 1) = uint c + uint d - 1" .
  show "uint (c + d - 1 + 1) = uint c + uint d" using cd by simp
qed

lemma day_of_year_aux:
  assumes "date_ok y m d"
  shows "\<exists>n. day_of_year y m d = Some n \<and> uint n = date_days y m d - date_days y 1 1
    \<and> uint n < uint (days_in_year y)"
proof -
  have v: "1 \<le> uint m" "uint m \<le> 12" "1 \<le> uint d" "uint d \<le> month_len (sint y) (uint m)" "uint d \<le> 31"
    using assms month_len_pos(2) [of "sint y" "uint m"] by (simp_all add: date_ok_def valid_date_def)
  have m1: "uint (m - 1) = uint m - 1" using v(1,2) by (simp add: uint_word_ariths)
  define cum :: "u32 list" where "cum = [0, 31, 59, 90, 120, 151, 181, 212, 243, 273, 304, 334]"
  define c where "c = cum ! unat (m - 1)"
  have i: "unat (m - 1) = nat (uint m - 1)" by (simp add: m1 flip: nat_uint_eq)
  then have l: "unat (m - 1) < length cum" using v(1,2) by (simp add: cum_def)
  have "uint c = month_offset (uint m)"
  proof -
    have "map uint cum = [0, 31, 59, 90, 120, 151, 181, 212, 243, 273, 304, 334]" by (simp add: cum_def)
    then show ?thesis using nth_map [OF l, of uint] unfolding c_def month_offset_def i by simp
  qed
  moreover have "month_offset (uint m) \<le> 400"
    using month_offset_len [OF v(1,2), of "sint y"] month_len_pos(1) [of "sint y" "uint m"] by (simp split: if_splits)
  ultimately have c: "uint c = month_offset (uint m)" "uint c \<le> 400" by simp_all
  define n where "n = (if 2 < m \<and> is_leap y then c + d - 1 + 1 else c + d - 1)"
  have n: "day_of_year y m d = Some n" using l by (simp add: day_of_year_def cum_def [symmetric] c_def [symmetric] n_def Let_def)
  have lt: "(2 < m) = (2 < uint m)" by (simp add: word_less_def)
  have un: "uint n = month_offset (uint m) + uint d - 1 + (if 2 < uint m \<and> leap (sint y) then 1 else 0)"
    using u32_add_small [OF c(2) v(3,5)] by (simp add: n_def lt is_leap_eq c(1))
  have dd: "date_days y m d = civil_days (sint y) (uint m) 0 + (uint d - 1)" "date_days y 1 1 = civil_days (sint y) 1 0"
    using civil_days_add [of "sint y" "uint m" 0 "uint d - 1"] by (simp_all add: date_days_def)
  have "uint n = date_days y m d - date_days y 1 1"
    using un dd month_days [OF v(1,2), of "sint y"] by linarith
  moreover have "uint n < (if leap (sint y) then 366 else 365)"
    using month_offset_len [OF v(1,2), of "sint y"] un v(4) by linarith
  then have "uint n < uint (days_in_year y)" by (simp add: days_in_year_def is_leap_eq split: if_splits)
  ultimately show ?thesis using n by blast
qed

text \<open>\<open>day_of_year\<close> counts the days since the 1st of January, up to 364 or, in leap years, 365.\<close>

theorem day_of_year_spec:
  assumes "date_ok y m d"
  shows "\<exists>n. day_of_year y m d = Some n \<and> uint n = date_days y m d - date_days y 1 1
    \<and> uint n < uint (days_in_year y)"
  by (rule day_of_year_aux [OF assms])

theorem day_of_year_spec_witness:
  "date_ok 2024 12 31 \<and> day_of_year 2024 12 31 = Some 365 \<and> date_days 2024 12 31 - date_days 2024 1 1 = 365"
proof -
  have ok: "date_ok 2024 12 31" by (simp add: date_ok_def valid_date_def month_len_def)
  have d: "day_of_year 2024 12 31 = Some 365" by (simp add: day_of_year_def is_leap_eq leap_def)
  obtain n where n: "day_of_year 2024 12 31 = Some n" "uint n = date_days 2024 12 31 - date_days 2024 1 1"
    using day_of_year_spec [OF ok] by blast
  then have "n = 365" using d by simp
  then show ?thesis using ok d n(2) by simp
qed

section \<open>ISO 8601 weeks\<close>

text \<open>The week date of a day, computed without machine integers.\<close>

definition iso_wd :: "int \<Rightarrow> int" where
  "iso_wd z = (z + 3) mod 7 + 1"

lemma iso_wd_mod: "iso_wd z = (if (z + 4) mod 7 = 0 then 7 else (z + 4) mod 7)"
proof -
  define r where "r = (z + 3) mod 7"
  have r: "0 \<le> r" "r < 7" by (simp_all add: r_def)
  have "(z + 4) mod 7 = (r + 1) mod 7" unfolding r_def by presburger
  also have "\<dots> = (if r = 6 then 0 else r + 1)" using r by simp
  finally show ?thesis using r by (simp add: iso_wd_def r_def [symmetric])
qed

lemma iso_weekday_sint: "in_i64 (sint z + 4) \<Longrightarrow> sint (iso_weekday z) = iso_wd (sint z)"
proof -
  assume r: "in_i64 (sint z + 4)"
  define w where "w = (sint z + 4) mod 7"
  have u: "uint (weekday z) = w" using weekday_eq [OF r] by (simp add: w_def)
  have "iso_wd (sint z) = (if w = 0 then 7 else w)"
    using iso_wd_mod [of "sint z"] by (simp only: w_def)
  moreover have "(weekday z = 0) = (w = 0)" using u by (simp add: word_uint_eq_iff)
  ultimately show ?thesis by (simp add: iso_weekday_def sint_ucast_u32 u)
qed

lemma iso_wd_bounds: "1 \<le> iso_wd z" "iso_wd z \<le> 7"
  by (simp_all add: iso_wd_def)

lemma small_cast:
  assumes "0 \<le> x" "x < 2 ^ 31"
  shows "uint (ucast (word_of_int x :: i64) :: u32) = x" "ucast (ucast (word_of_int x :: i64) :: u32) = (word_of_int x :: i64)"
proof -
  have x: "uint (word_of_int x :: i64) = x" using assms by (simp add: uint_word_of_int take_bit_int_eq_self)
  then show u: "uint (ucast (word_of_int x :: i64) :: u32) = x"
    using assms by (simp add: unsigned_ucast_eq take_bit_int_eq_self)
  show "ucast (ucast (word_of_int x :: i64) :: u32) = (word_of_int x :: i64)"
    using u by (simp only: ucast_eq)
qed

definition iso_thursday :: "int \<Rightarrow> int" where
  "iso_thursday z = z - iso_wd z + 4"

lemma jan1_ok: "date_ok y 1 1" "date_ok y 1 4"
  by (simp_all add: date_ok_def valid_date_def month_len_def)

lemma date_days_jan: "date_days y 1 4 = date_days y 1 1 + 3"
  using civil_days_add [of "sint y" 1 0 3] by (simp add: date_days_def)

lemma year_length: "date_ok y m d \<Longrightarrow> 0 \<le> date_days y m d - date_days y 1 1 \<and> date_days y m d - date_days y 1 1 \<le> 365"
proof -
  assume "date_ok y m d"
  then obtain n :: u32 where "uint n = date_days y m d - date_days y 1 1" "uint n < uint (days_in_year y)"
    using day_of_year_aux [of y m d] by blast
  moreover have "uint (days_in_year y) \<le> 366" by (simp add: days_in_year_def)
  moreover have "0 \<le> uint n" by simp
  ultimately show ?thesis by linarith
qed

text \<open>The Monday of week 1 is three days before a Thursday that is one of the first seven days of January.\<close>

lemma week_one:
  fixes j t :: int
  assumes "0 \<le> t - j" "t - j \<le> 365" "iso_wd t = 4"
  shows "iso_thursday (j + 3) + (t - j) div 7 * 7 = t" "(t - j) div 7 \<le> 52"
proof -
  have "t mod 7 = 0" using assms(3) unfolding iso_wd_def by presburger
  moreover have "iso_thursday (j + 3) - j \<in> {0..6}" "iso_thursday (j + 3) mod 7 = 0"
    unfolding iso_thursday_def iso_wd_def atLeastAtMost_iff by presburger+
  ultimately show "iso_thursday (j + 3) + (t - j) div 7 * 7 = t"
    unfolding atLeastAtMost_iff by presburger
  show "(t - j) div 7 \<le> 52" using assms(2) by presburger
qed

text \<open>C20: the ISO week date of a day has a week from 1 to 53 and a weekday from 1 to 7, its year has the Thursday of the
  week, and \<open>days_from_iso_week\<close> gives the day back.\<close>

theorem iso_week_round_trip:
  assumes "date_ok y m d" "\<bar>date_days y m d\<bar> < 2 ^ 62" "iso_week_date y m d = (iy, week, wd)"
  shows "days_from_iso_week iy (ucast week) (ucast wd) = days_from_civil y (ucast m) (ucast d)
    \<and> 1 \<le> uint week \<and> uint week \<le> 53 \<and> uint wd = iso_wd (date_days y m d)
    \<and> iy = fst (civil_from_days (word_of_int (iso_thursday (date_days y m d))))"
proof -
  define z where "z = date_days y m d"
  have zb: "\<bar>z\<bar> < 4611686018427387904" using assms(2) by (simp add: z_def)
  have fits: "in_i64 x" if "\<bar>x\<bar> < 9000000000000000000" for x
    using that by (simp add: in_i64_def) linarith
  have z: "sint (days_from_civil y (ucast m) (ucast d)) = z"
    using days_from_civil_sint [OF assms(1) fits] zb by (simp add: z_def)
  define t where "t = iso_thursday z"
  have tb: "\<bar>t - z\<bar> \<le> 3" using iso_wd_bounds [of z] by (simp add: t_def iso_thursday_def)
  define days where "days = days_from_civil y (ucast m) (ucast d)"
  have wd: "sint (iso_weekday days) = iso_wd z"
    using iso_weekday_sint [of days] fits [of "z + 4"] zb z by (simp add: days_def)
  define th where "th = days - iso_weekday days + 4"
  have "sint (days - iso_weekday days) = z - iso_wd z"
    using sint_sub_fits [of days "iso_weekday days"] fits [of "z - iso_wd z"] zb z wd iso_wd_bounds [of z]
    by (simp add: days_def)
  then have th: "sint th = t"
    using sint_add_fits [of "days - iso_weekday days" 4] fits [of "z - iso_wd z + 4"] zb iso_wd_bounds [of z]
    by (simp add: th_def t_def iso_thursday_def)
  obtain iy' im id' where c: "civil_from_days th = (iy', im, id')" by (cases "civil_from_days th")
  have ok: "date_ok iy' im id'" and dd: "date_days iy' im id' = t" using date_of_days [of th] c th by simp_all
  define j where "j = date_days iy' 1 1"
  have j: "0 \<le> t - j" "t - j \<le> 365" using year_length [OF ok] dd by (simp_all add: j_def)
  have jan1: "sint (days_from_civil iy' 1 1) = j"
    using days_from_civil_sint [OF jan1_ok(1)] fits [of j] j tb zb by (simp add: j_def)
  have jan4: "sint (days_from_civil iy' 1 4) = j + 3"
    using days_from_civil_sint [OF jan1_ok(2)] fits [of "j + 3"] j tb zb by (simp add: j_def date_days_jan)
  have wt: "iso_wd t = 4" unfolding t_def iso_thursday_def iso_wd_def by presburger
  note w1 = week_one [OF j wt]
  have "sint (th - days_from_civil iy' 1 1) = t - j"
    using sint_sub_fits [of th "days_from_civil iy' 1 1"] fits [of "t - j"] j th jan1 by simp
  then have td: "trunc_div (sint (th - days_from_civil iy' 1 1)) 7 = (t - j) div 7"
    using j(1) by (simp add: trunc_div_def)
  define k where "k = (t - j) div 7"
  have k: "0 \<le> k" "k \<le> 52" using j(1) w1(2) by (simp_all add: k_def)
  have word: "w = word_of_int x" if "sint w = x" for w :: i64 and x using that by auto
  define W :: i64 where "W = word_of_int (k + 1)"
  have W: "word_of_int (trunc_div (sint (th - days_from_civil iy' 1 1)) 7) + 1 = W"
    using td by (simp add: W_def k_def)
  have r: "iy = iy'" "week = ucast W" "wd = ucast (iso_weekday days)"
    using assms(3) unfolding iso_week_date_def Let_def days_def [symmetric] th_def [symmetric] c prod.case W by auto
  have wd0: "iso_weekday days = word_of_int (iso_wd z)" using wd by (rule word)
  have week: "uint week = k + 1" "ucast week = W" unfolding r(2) W_def using k by (intro small_cast; simp)+
  have wdu: "uint wd = iso_wd z" "ucast wd = (word_of_int (iso_wd z) :: i64)"
    unfolding r(3) wd0 using iso_wd_bounds [of z] by (intro small_cast; simp)+
  have j4: "days_from_civil iy' 1 4 = word_of_int (j + 3)" using jan4 by (rule word)
  have "sint (iso_weekday (days_from_civil iy' 1 4)) = iso_wd (j + 3)"
    using iso_weekday_sint [of "days_from_civil iy' 1 4"] fits [of "j + 3 + 4"] j tb zb jan4 by simp
  then have wj: "iso_weekday (days_from_civil iy' 1 4) = word_of_int (iso_wd (j + 3))" by (rule word)
  have "iso_thursday (j + 3) + k * 7 = t" using w1(1) by (simp only: k_def)
  have "days_from_iso_week iy (ucast week) (ucast wd) = word_of_int (j + 3 - (iso_wd (j + 3) - 1) + k * 7 + (iso_wd z - 1))"
    unfolding days_from_iso_week_def Let_def r(1) wj week(2) wdu(2) unfolding j4 W_def by simp
  also have "j + 3 - (iso_wd (j + 3) - 1) + k * 7 + (iso_wd z - 1) = z"
    using \<open>iso_thursday (j + 3) + k * 7 = t\<close> iso_thursday_def [of "j + 3"] iso_thursday_def [of z] t_def by linarith
  also have "word_of_int z = days" using word [OF z] by (simp add: days_def)
  finally have "days_from_iso_week iy (ucast week) (ucast wd) = days_from_civil y (ucast m) (ucast d)"
    by (simp add: days_def)
  moreover have "iy = fst (civil_from_days (word_of_int t))" using c word [OF th] r(1) by simp
  ultimately show ?thesis using week(1) wdu(1) k by (simp add: t_def z_def)
qed

theorem iso_week_round_trip_witness:
  "date_ok 2021 1 3 \<and> iso_week_date 2021 1 3 = (2020, 53, 7) \<and> days_from_iso_week 2020 53 7 = days_from_civil 2021 1 3"
proof -
  have 1: "date_ok 2021 1 3" by (simp add: date_ok_def valid_date_def month_len_def)
  have 2: "\<bar>date_days 2021 1 3\<bar> < 2 ^ 62" by code_simp
  have 3: "iso_week_date 2021 1 3 = (2020, 53, 7)" by code_simp
  from 1 3 iso_week_round_trip [OF 1 2 3] show ?thesis by simp
qed

end
