(* ===== verification/Numeric.thy ===== *)
theory Numeric
  imports F64 IntText
begin

text \<open>
  Numeric strings (\<open>numeric.rs\<close>): the numeric prefix of a string, whether the whole string is
  numeric, and its value, compared with the grammar of the PHP manual.  The parser works on
  indices, as the source does; the lemmas relate each scan to the rest of the string.
\<close>

section \<open>Definitions\<close>

datatype number = NInt i64 | NFloat f64

definition number_to_f64 :: "number \<Rightarrow> f64" where
  "number_to_f64 n = (case n of NInt i \<Rightarrow> f_of_i64 i | NFloat f \<Rightarrow> f)"

datatype numericness = Numeric | Leading | NonNumeric

record num_parse =
  np_num :: number
  np_kind :: numericness
  np_float_syntax :: bool

definition is_php_whitespace :: "u8 \<Rightarrow> bool" where
  "is_php_whitespace c \<longleftrightarrow> c = 0x20 \<or> c = 0x09 \<or> c = 0x0A \<or> c = 0x0D \<or> c = 0x0B \<or> c = 0x0C"

text \<open>\<open>while i < n && p(s[i]) { i += 1 }\<close>\<close>

function scan :: "(u8 \<Rightarrow> bool) \<Rightarrow> bytes \<Rightarrow> nat \<Rightarrow> nat" where
  "scan p s i = (if i < length s \<and> p (s ! i) then scan p s (i + 1) else i)"
  by pat_completeness auto
termination
  by (relation "measure (\<lambda>(p, s, i). length s - i)") auto

declare scan.simps [simp del]

definition at_byte :: "bytes \<Rightarrow> nat \<Rightarrow> u8 list \<Rightarrow> bool" where
  "at_byte s i cs \<longleftrightarrow> i < length s \<and> s ! i \<in> set cs"

text \<open>
  Rust's \<open>str::parse::<f64>\<close>: an optional sign, then digits with an optional point and exponent
  (or \<open>inf\<close>, \<open>infinity\<close>, \<open>nan\<close> in any case), rounded correctly; \<open>None\<close> on anything else.
\<close>

definition decimal_f64 :: "bool \<Rightarrow> nat \<Rightarrow> int \<Rightarrow> f64" where
  "decimal_f64 neg m x =
     of_view (if 0 \<le> x then round_ratio neg (m * 10 ^ nat x) 1 else round_ratio neg m (10 ^ nat (- x)))"

definition to_lower :: "u8 \<Rightarrow> u8" where
  "to_lower c = (if 0x41 \<le> c \<and> c \<le> 0x5A then c + 0x20 else c)"

text \<open>The sign of \<open>b\<close> and what follows it.\<close>

definition split_sign :: "bytes \<Rightarrow> bool \<times> bytes" where
  "split_sign b = (case b of [] \<Rightarrow> (False, [])
     | c # r \<Rightarrow> if c = 0x2D then (True, r) else if c = 0x2B then (False, r) else (False, b))"

definition split_digits :: "bytes \<Rightarrow> bytes \<times> bytes" where
  "split_digits b = (takeWhile is_ascii_digit b, dropWhile is_ascii_digit b)"

definition std_parse_f64 :: "bytes \<Rightarrow> f64 option" where
  "std_parse_f64 b =
     (let (neg, r) = split_sign b; name = map to_lower r in
      if name = ascii ''inf'' \<or> name = ascii ''infinity'' then Some (of_view (Infinite neg))
      else if name = ascii ''nan'' then Some (F64 (word_of_nat (sign_bit neg + 2047 * 2 ^ 52 + 2 ^ 51)))
      else
        let (d, r) = split_digits r;
            (fd, r) = (case r of c # r' \<Rightarrow> if c = 0x2E then split_digits r' else ([], r) | [] \<Rightarrow> ([], []));
            m = dec_val 0 (d @ fd) in
        if d = [] \<and> fd = [] then None
        else case r of [] \<Rightarrow> Some (decimal_f64 neg m (- int (length fd)))
          | c # r' \<Rightarrow>
            if c \<noteq> 0x65 \<and> c \<noteq> 0x45 then None
            else
              let (eneg, r') = split_sign r'; (ed, rest) = split_digits r';
                  x = (if eneg then - int (dec_val 0 ed) else int (dec_val 0 ed)) in
              if ed = [] \<or> rest \<noteq> [] then None
              else Some (decimal_f64 neg m (x - int (length fd))))"

text \<open>
  \<open>parse_float_ascii\<close>; a string that is not valid UTF-8 has a byte that \<open>std_parse_f64\<close> refuses.
\<close>

definition parse_float_ascii :: "bytes \<Rightarrow> f64" where
  "parse_float_ascii b = (case std_parse_f64 b of Some f \<Rightarrow> f | None \<Rightarrow> F64 0)"

subsection \<open>\<open>parse_numeric\<close>\<close>

text \<open>The fast path's loop on an \<open>i64\<close>.\<close>

fun fast_digits :: "i64 \<Rightarrow> bytes \<Rightarrow> i64" where
  "fast_digits v [] = v"
| "fast_digits v (c # s) = fast_digits (v * 10 + ucast (c - 0x30)) s"

text \<open>The point and its digits at \<open>i\<close>: their number, the float syntax flag, the next index.\<close>

definition num_fraction :: "bytes \<Rightarrow> nat \<Rightarrow> nat \<Rightarrow> nat \<times> bool \<times> nat" where
  "num_fraction s n_int i =
     (if at_byte s i [0x2E] then
        let j = scan is_ascii_digit s (i + 1); n_frac = j - i - 1 in
        if 0 < n_int \<or> 0 < n_frac then (n_frac, True, j) else (n_frac, False, i)
      else (0, False, i))"

definition num_exponent :: "bytes \<Rightarrow> bool \<Rightarrow> nat \<Rightarrow> bool \<times> nat" where
  "num_exponent s float_syntax i =
     (if at_byte s i [0x65, 0x45] then
        let exp_start = (if at_byte s (i + 1) [0x2B, 0x2D] then i + 2 else i + 1);
            j = scan is_ascii_digit s exp_start in
        if exp_start < j then (True, j) else (float_syntax, i)
      else (float_syntax, i))"

text \<open>The loop over the digits of an integer; \<open>None\<close> on overflow of \<open>u64\<close>.\<close>

fun num_digits :: "nat \<Rightarrow> bytes \<Rightarrow> nat option" where
  "num_digits v [] = Some v"
| "num_digits v (c # s) =
     (case Option.bind (u64_checked_mul v 10) (\<lambda>v. u64_checked_add v (digit_val c)) of
        Some x \<Rightarrow> num_digits x s
      | None \<Rightarrow> None)"

definition slice :: "bytes \<Rightarrow> nat \<Rightarrow> nat \<Rightarrow> bytes" where
  "slice s a b = take (b - a) (drop a s)"

definition num_integer :: "bytes \<Rightarrow> bool \<Rightarrow> nat \<Rightarrow> nat \<Rightarrow> nat \<Rightarrow> number" where
  "num_integer s neg start int_start e =
     (case num_digits 0 (slice s int_start e) of
        Some v \<Rightarrow>
          if neg \<and> v \<le> 2 ^ 63 then NInt (- word_of_nat v)
          else if \<not> neg \<and> v \<le> 2 ^ 63 - 1 then NInt (word_of_nat v)
          else NFloat (parse_float_ascii (slice s start e))
      | None \<Rightarrow> NFloat (parse_float_ascii (slice s start e)))"

definition parse_slow :: "bytes \<Rightarrow> num_parse" where
  "parse_slow s =
     (let start = scan is_php_whitespace s 0;
          neg = at_byte s start [0x2D];
          int_start = (if at_byte s start [0x2B, 0x2D] then start + 1 else start);
          i = scan is_ascii_digit s int_start;
          n_int = i - int_start;
          (n_frac, float_syntax, i) = num_fraction s n_int i in
      if n_int = 0 \<and> n_frac = 0 then
        \<lparr>np_num = NInt 0, np_kind = NonNumeric, np_float_syntax = False\<rparr>
      else
        let (float_syntax, e) = num_exponent s float_syntax i;
            i = scan is_php_whitespace s e;
            num = (if float_syntax then NFloat (parse_float_ascii (slice s start e))
                   else num_integer s neg start int_start e) in
        \<lparr>np_num = num, np_kind = (if i = length s then Numeric else Leading),
         np_float_syntax = float_syntax\<rparr>)"

definition parse_numeric :: "bytes \<Rightarrow> num_parse" where
  "parse_numeric s =
     (if s \<noteq> [] \<and> length s \<le> 18 \<and> list_all is_ascii_digit s
      then \<lparr>np_num = NInt (fast_digits 0 s), np_kind = Numeric, np_float_syntax = False\<rparr>
      else parse_slow s)"

definition is_numeric_str :: "bytes \<Rightarrow> bool" where
  "is_numeric_str s \<longleftrightarrow> np_kind (parse_numeric s) = Numeric"

definition numeric_value :: "bytes \<Rightarrow> number option" where
  "numeric_value s =
     (let p = parse_numeric s in if np_kind p = Numeric then Some (np_num p) else None)"

section \<open>The parts of a numeric prefix\<close>

text \<open>The parser on the rest of the string instead of an index.\<close>

fun starts :: "(u8 \<Rightarrow> bool) \<Rightarrow> bytes \<Rightarrow> bool" where
  "starts p [] = False"
| "starts p (c # s) = p c"

abbreviation is_sign :: "u8 \<Rightarrow> bool" where
  "is_sign c \<equiv> c = 0x2B \<or> c = 0x2D"

abbreviation is_exp :: "u8 \<Rightarrow> bool" where
  "is_exp c \<equiv> c = 0x65 \<or> c = 0x45"

definition sign_part :: "bytes \<Rightarrow> bytes" where
  "sign_part a = (if starts is_sign a then [hd a] else [])"

definition frac_part :: "bytes \<Rightarrow> bytes \<Rightarrow> bytes" where
  "frac_part d c =
     (if starts (\<lambda>x. x = 0x2E) c \<and> (d \<noteq> [] \<or> starts is_ascii_digit (tl c))
      then 0x2E # takeWhile is_ascii_digit (tl c) else [])"

definition exp_part :: "bytes \<Rightarrow> bytes" where
  "exp_part c =
     (if starts is_exp c then
        let sg = sign_part (tl c); y = takeWhile is_ascii_digit (drop (length sg) (tl c)) in
        if y = [] then [] else hd c # sg @ y
      else [])"

lemma starts_takeWhile: "starts p s \<longleftrightarrow> takeWhile p s \<noteq> []"
  by (cases s) simp_all

lemma starts_append: "starts p (a @ b) = (if a = [] then starts p b else starts p a)"
  by (cases a) simp_all

lemma scan_drop: "scan p s i = i + length (takeWhile p (drop i s))"
proof (induction p s i rule: scan.induct)
  case (1 p s i)
  show ?case
  proof (cases "i < length s \<and> p (s ! i)")
    case True
    then have "takeWhile p (drop i s) = s ! i # takeWhile p (drop (i + 1) s)"
      by (simp add: Cons_nth_drop_Suc [symmetric])
    then show ?thesis
      using True 1 by (subst scan.simps) simp
  next
    case False
    then have "takeWhile p (drop i s) = []"
      by (cases "i < length s") (auto simp: Cons_nth_drop_Suc [symmetric])
    then show ?thesis
      using False by (subst scan.simps) auto
  qed
qed

lemma at_byte_drop: "at_byte s i cs = starts (\<lambda>c. c \<in> set cs) (drop i s)"
  by (cases "i < length s") (simp_all add: at_byte_def Cons_nth_drop_Suc [symmetric])

lemma drop_takeWhile: "drop (length (takeWhile p s)) s = dropWhile p s"
  by (simp add: dropWhile_eq_drop)

lemma num_fraction_eq:
  assumes "(n_int = 0) = (d = [])"
  shows "num_fraction s n_int i =
    (let fr = frac_part d (drop i s) in (length fr - 1, fr \<noteq> [], i + length fr))"
proof (cases "at_byte s i [0x2E]")
  case True
  then have i: "i < length s" "s ! i = 0x2E" by (auto simp: at_byte_def)
  then have c: "drop i s = 0x2E # drop (i + 1) s"
    by (simp add: Cons_nth_drop_Suc [symmetric])
  show ?thesis
    using True assms
    by (auto simp: num_fraction_def frac_part_def c scan_drop starts_takeWhile Let_def)
next
  case False
  then have "\<not> starts (\<lambda>x. x = 0x2E) (drop i s)" by (simp add: at_byte_drop)
  with False show ?thesis by (simp add: num_fraction_def frac_part_def)
qed

lemma num_exponent_eq:
  "num_exponent s b i = (let ex = exp_part (drop i s) in (b \<or> ex \<noteq> [], i + length ex))"
proof (cases "at_byte s i [0x65, 0x45]")
  case True
  then have i: "i < length s" "s ! i = 0x65 \<or> s ! i = 0x45" by (auto simp: at_byte_def)
  then have c: "drop i s = s ! i # drop (i + 1) s"
    by (simp add: Cons_nth_drop_Suc [symmetric])
  have st: "(if at_byte s (i + 1) [0x2B, 0x2D] then i + 2 else i + 1) = i + 1 + length (sign_part (drop (i + 1) s))"
    by (simp add: at_byte_drop sign_part_def)
  have "num_exponent s b i =
      (let k = i + 1 + length (sign_part (drop (i + 1) s)); j = scan is_ascii_digit s k in
       if k < j then (True, j) else (b, i))"
    by (simp only: num_exponent_def True if_True st Let_def)
  then show ?thesis
    using i(2) by (auto simp: exp_part_def c scan_drop Let_def ac_simps)
next
  case False
  then have "\<not> starts is_exp (drop i s)" by (simp add: at_byte_drop)
  with False show ?thesis by (simp add: num_exponent_def exp_part_def)
qed

definition num_value :: "bytes \<Rightarrow> bytes \<Rightarrow> bytes \<Rightarrow> bytes \<Rightarrow> number" where
  "num_value sg d fr ex =
     (if fr \<noteq> [] \<or> ex \<noteq> [] then NFloat (parse_float_ascii (sg @ d @ fr @ ex))
      else num_integer (sg @ d) (sg = [0x2D]) 0 (length sg) (length sg + length d))"

lemma take_takeWhile: "take (length (takeWhile p s)) s = takeWhile p s"
  by (metis takeWhile_eq_take)

lemma sign_part_take: "take (length (sign_part a)) a = sign_part a"
  by (cases a) (simp_all add: sign_part_def)

lemma frac_part_take: "take (length (frac_part d c)) c = frac_part d c"
  by (cases c) (simp_all add: frac_part_def take_takeWhile)

lemma exp_part_take: "take (length (exp_part c)) c = exp_part c"
proof (cases c)
  case (Cons x r)
  have "take (length (sign_part r) + length (takeWhile p (drop (length (sign_part r)) r))) r
      = sign_part r @ takeWhile p (drop (length (sign_part r)) r)" for p
    by (simp add: take_add sign_part_take take_takeWhile)
  then show ?thesis
    by (simp add: exp_part_def Cons Let_def)
qed (simp add: exp_part_def)

lemma take_drop_append: "take n (drop a s) @ take m (drop (a + n) s) = take (n + m) (drop a s)"
  by (metis add.commute drop_drop take_add)

text \<open>The parts, in the order the parser finds them.\<close>

lemma parse_slow_parts:
  assumes "a = dropWhile is_php_whitespace s" "sg = sign_part a" "b = drop (length sg) a"
    "d = takeWhile is_ascii_digit b" "c = dropWhile is_ascii_digit b" "fr = frac_part d c"
    "g = drop (length fr) c" "ex = exp_part g" "h = drop (length ex) g"
  shows "parse_slow s =
    (if d = [] \<and> fr = [] then \<lparr>np_num = NInt 0, np_kind = NonNumeric, np_float_syntax = False\<rparr>
     else \<lparr>np_num = num_value sg d fr ex,
       np_kind = (if dropWhile is_php_whitespace h = [] then Numeric else Leading),
       np_float_syntax = (fr \<noteq> [] \<or> ex \<noteq> [])\<rparr>)"
proof -
  define start where "start = scan is_php_whitespace s 0"
  define j where "j = start + length sg"
  define i where "i = j + length d"
  define k where "k = i + length fr"
  define e where "e = k + length ex"
  have drops: "drop start s = a" "drop j s = b" "drop i s = c" "drop k s = g" "drop e s = h"
  proof -
    show a: "drop start s = a"
      by (simp add: start_def scan_drop assms(1) drop_takeWhile)
    show b: "drop j s = b" using arg_cong [OF a, of "drop (length sg)"] assms(3) by (simp add: j_def add.commute)
    show c: "drop i s = c" using arg_cong [OF b, of "drop (length d)"] assms(4,5)
      by (simp add: i_def add.commute drop_takeWhile)
    show g: "drop k s = g" using arg_cong [OF c, of "drop (length fr)"] assms(7) by (simp add: k_def add.commute)
    show "drop e s = h" using arg_cong [OF g, of "drop (length ex)"] assms(9) by (simp add: e_def add.commute)
  qed
  have sgn: "at_byte s start [0x2D] = (sg = [0x2D])"
    "(if at_byte s start [0x2B, 0x2D] then start + 1 else start) = j"
    by (cases a; auto simp: at_byte_drop drops j_def assms(2) sign_part_def)+
  have i: "scan is_ascii_digit s j = i" by (simp add: scan_drop drops i_def assms(4))
  have fr: "num_fraction s (i - j) i = (length fr - 1, fr \<noteq> [], k)"
    using num_fraction_eq [of "i - j" d s i] by (simp add: i_def drops [unfolded i_def] assms(6) k_def Let_def)
  have ex: "num_exponent s f k = (f \<or> ex \<noteq> [], e)" for f
    using num_exponent_eq [of s f k] by (simp add: drops assms(8) e_def Let_def)
  have "\<not> (fr \<noteq> [] \<and> length fr - 1 = 0 \<and> d = [])"
    by (auto simp: assms(6) frac_part_def starts_takeWhile)
  then have none: "(i - j = 0 \<and> length fr - 1 = 0) = (d = [] \<and> fr = [])"
    by (auto simp: i_def)
  have parts: "slice s start e = sg @ d @ fr @ ex"
  proof -
    have "take (length sg) (drop start s) = sg" "take (length d) (drop j s) = d"
      "take (length fr) (drop i s) = fr" "take (length ex) (drop k s) = ex"
      by (simp_all only: drops) (simp_all add: assms(2,4,6,8) sign_part_take take_takeWhile frac_part_take exp_part_take)
    then have "sg @ d @ fr @ ex = take (length sg + (length d + (length fr + length ex))) (drop start s)"
      using take_drop_append [of "length sg" start s] take_drop_append [of "length d" j s]
        take_drop_append [of "length fr" i s "length ex"]
      by (simp add: j_def i_def k_def)
    then show ?thesis by (simp add: slice_def e_def k_def i_def j_def add.assoc)
  qed
  have int: "num_integer s neg start j e = num_integer (sg @ d) neg 0 (length sg) (length sg + length d)"
    if "fr = []" "ex = []" for neg
  proof -
    have "slice s start e = sg @ d" using parts that by simp
    moreover have "slice s j e = d"
      using that by (simp add: slice_def drops e_def k_def i_def assms(4) take_takeWhile)
    moreover have "slice (sg @ d) 0 (length sg + length d) = sg @ d"
      "slice (sg @ d) (length sg) (length sg + length d) = d"
      by (simp_all add: slice_def)
    ultimately show ?thesis by (simp only: num_integer_def)
  qed
  have "length sg \<le> length a" "length d \<le> length b" "length fr \<le> length c" "length ex \<le> length g"
    "start \<le> length s"
    using arg_cong [OF sign_part_take, of length a] arg_cong [OF frac_part_take, of length d c]
      arg_cong [OF exp_part_take, of length g] length_takeWhile_le [of _ b] length_takeWhile_le [of _ s]
    by (simp_all only: assms(2,4,6,8) length_take start_def scan_drop drop_0 add_0)
  then have "e \<le> length s"
    using arg_cong [OF drops(1), of length] arg_cong [OF drops(2), of length]
      arg_cong [OF drops(3), of length] arg_cong [OF drops(4), of length]
    by (simp add: e_def k_def i_def j_def)
  then have len_h: "length s = e + length h"
    using arg_cong [OF drops(5), of length] by simp
  have last: "(scan is_php_whitespace s e = length s) = (dropWhile is_php_whitespace h = [])"
    unfolding scan_drop drops len_h dropWhile_eq_drop drop_eq_Nil
    using length_takeWhile_le [of is_php_whitespace h] by linarith
  show ?thesis
    unfolding parse_slow_def start_def [symmetric] sgn i Let_def fr prod.case none ex last parts num_value_def
    by (simp add: int)
qed

section \<open>Fast and slow path\<close>

lemma fast_digits_eq: "fast_digits (word_of_nat v) s = word_of_nat (dec_val v s)"
proof (induction s arbitrary: v)
  case (Cons c s)
  have "word_of_nat v * 10 + ucast (c - 0x30) = (word_of_nat (10 * v + digit_val c) :: i64)"
    by (simp add: digit_val_def of_nat_unat mult.commute)
  then have "fast_digits (word_of_nat v) (c # s) = fast_digits (word_of_nat (10 * v + digit_val c)) s"
    by (simp only: fast_digits.simps)
  with Cons show ?case by (simp only: dec_val_simps)
qed simp

lemma num_digits_eq:
  "num_digits v s = (if s = [] \<or> dec_val v s < 2 ^ 64 then Some (dec_val v s) else None)"
proof (induction s arbitrary: v)
  case (Cons c s)
  have "10 * v \<le> dec_val v (c # s)" "10 * v + digit_val c \<le> dec_val v (c # s)"
    using dec_val_mono [of "10 * v + digit_val c" s] by simp_all
  with Cons show ?case
    by (auto simp: u64_checked_mul_def u64_checked_add_def mult.commute)
qed simp


text \<open>Without a sign, a point or an exponent.\<close>

definition signed_decimal :: "bool \<Rightarrow> bytes \<Rightarrow> int" where
  "signed_decimal neg d = signed_nat neg (dec_val 0 d)"

definition int_or_float :: "bool \<Rightarrow> bytes \<Rightarrow> number" where
  "int_or_float neg d =
     (if in_i64 (signed_decimal neg d) then NInt (word_of_int (signed_decimal neg d))
      else NFloat (decimal_f64 neg (dec_val 0 d) 0))"

lemma digit_facts: "is_ascii_digit c \<Longrightarrow> \<not> is_sign c \<and> \<not> is_exp c \<and> c \<noteq> 0x2E \<and> \<not> is_php_whitespace c
    \<and> to_lower c = c \<and> c \<noteq> 0x69 \<and> c \<noteq> 0x6E"
  by (auto simp: is_ascii_digit_def is_php_whitespace_def to_lower_def word_le_nat_alt)

lemma takeWhile_digits: "list_all p d \<Longrightarrow> \<not> starts p r \<Longrightarrow> takeWhile p (d @ r) = d"
  by (induction d) (simp_all add: starts_takeWhile)

lemma dropWhile_digits: "list_all p d \<Longrightarrow> \<not> starts p r \<Longrightarrow> dropWhile p (d @ r) = r"
  by (induction d) (cases r, simp_all)

lemma starts_digits: "list_all is_ascii_digit d \<Longrightarrow> d \<noteq> [] \<Longrightarrow> starts is_ascii_digit (d @ r)"
  by (cases d) simp_all

definition sign_opt :: "bytes \<Rightarrow> bool" where
  "sign_opt sg \<longleftrightarrow> sg = [] \<or> sg = [0x2B] \<or> sg = [0x2D]"

lemma split_sign_append:
  "sign_opt sg \<Longrightarrow> \<not> starts is_sign r \<Longrightarrow> split_sign (sg @ r) = (sg = [0x2D], r)"
  by (cases r) (auto simp: sign_opt_def split_sign_def)

lemma sign_part_append: "sign_opt sg \<Longrightarrow> \<not> starts is_sign r \<Longrightarrow> sign_part (sg @ r) = sg"
  by (cases r) (auto simp: sign_opt_def sign_part_def)

text \<open>Rust's parser on the strings of the grammar.\<close>

lemma name_free:
  assumes "starts (\<lambda>c. is_ascii_digit c \<or> c = 0x2E) r"
  shows "map to_lower r \<noteq> ascii ''inf''" "map to_lower r \<noteq> ascii ''infinity''" "map to_lower r \<noteq> ascii ''nan''"
proof -
  obtain c r' where r: "r = c # r'" "is_ascii_digit c \<or> c = 0x2E" using assms by (cases r) auto
  then have "to_lower c \<noteq> 0x69 \<and> to_lower c \<noteq> 0x6E"
    using digit_facts [of c] by (auto simp: to_lower_def)
  then show "map to_lower r \<noteq> ascii ''inf''" "map to_lower r \<noteq> ascii ''infinity''" "map to_lower r \<noteq> ascii ''nan''"
    by (auto simp: r ascii_def of_char_def)
qed

definition exp_value :: "bytes \<Rightarrow> int" where
  "exp_value ex = (case ex of [] \<Rightarrow> 0 | c # r \<Rightarrow>
     (let (neg, y) = split_sign r in signed_nat neg (dec_val 0 y)))"

definition frac_ok :: "bytes \<Rightarrow> bytes \<Rightarrow> bool" where
  "frac_ok d fr \<longleftrightarrow> fr = [] \<and> d \<noteq> [] \<or>
     (\<exists>y. fr = 0x2E # y \<and> list_all is_ascii_digit y \<and> (d \<noteq> [] \<or> y \<noteq> []))"

definition exp_ok :: "bytes \<Rightarrow> bool" where
  "exp_ok ex \<longleftrightarrow> ex = [] \<or> (\<exists>c sg y. ex = c # sg @ y \<and> is_exp c \<and> sign_opt sg \<and> y \<noteq> [] \<and> list_all is_ascii_digit y)"

lemma exp_okI: "is_exp c \<Longrightarrow> sign_opt sg \<Longrightarrow> y \<noteq> [] \<Longrightarrow> list_all is_ascii_digit y \<Longrightarrow> exp_ok (c # sg @ y)"
  unfolding exp_ok_def by blast

lemma not_starts_sign: "list_all is_ascii_digit y \<Longrightarrow> \<not> starts is_sign y"
  by (cases y) (auto dest: digit_facts)

lemma exp_ok_starts: "exp_ok ex \<Longrightarrow> \<not> starts is_ascii_digit ex \<and> \<not> starts (\<lambda>c. c = 0x2E) ex"
  by (auto simp: exp_ok_def is_ascii_digit_def word_le_nat_alt)

lemma std_parse_decimal:
  assumes "sign_opt sg" "list_all is_ascii_digit d" "frac_ok d fr" "exp_ok ex"
  shows "std_parse_f64 (sg @ d @ fr @ ex) =
    Some (decimal_f64 (sg = [0x2D]) (dec_val 0 (d @ tl fr)) (exp_value ex - int (length (tl fr))))"
proof -
  have st: "starts (\<lambda>c. is_ascii_digit c \<or> c = 0x2E) (d @ fr @ ex)"
    using assms(2,3) by (cases d) (auto simp: frac_ok_def)
  have ns: "\<not> starts is_sign (d @ fr @ ex)"
    using st by (cases "d @ fr @ ex") (auto dest: digit_facts)
  have nd: "\<not> starts is_ascii_digit (fr @ ex)" "\<not> starts is_ascii_digit ex" "\<not> starts (\<lambda>c. c = 0x2E) ex"
    using assms(3,4) exp_ok_starts [OF assms(4)]
    by (auto simp: frac_ok_def starts_append is_ascii_digit_def word_le_nat_alt)
  have d: "split_digits (d @ fr @ ex) = (d, fr @ ex)"
    by (simp add: split_digits_def takeWhile_digits dropWhile_digits assms(2) nd)
  have f: "(case fr @ ex of c # r' \<Rightarrow> if c = 0x2E then split_digits r' else ([], fr @ ex) | [] \<Rightarrow> ([], []))
      = (tl fr, ex)"
  proof (cases "fr = []")
    case True
    then show ?thesis using nd(3) by (cases ex) simp_all
  next
    case False
    then obtain y where "fr = 0x2E # y" "list_all is_ascii_digit y" using assms(3) by (auto simp: frac_ok_def)
    then show ?thesis
      by (simp add: split_digits_def takeWhile_digits dropWhile_digits nd)
  qed
  have ne: "\<not> (d = [] \<and> tl fr = [])" using assms(3) by (auto simp: frac_ok_def)
  show ?thesis
  proof (cases "ex = []")
    case True
    then show ?thesis
      unfolding std_parse_f64_def split_sign_append [OF assms(1) ns] Let_def prod.case d f
      using name_free [OF st] ne by (simp add: exp_value_def)
  next
    case False
    then obtain c es y where ex: "ex = c # es @ y" "is_exp c" "sign_opt es" "y \<noteq> []" "list_all is_ascii_digit y"
      using assms(4) by (auto simp: exp_ok_def)
    have s: "split_sign (es @ y) = (es = [0x2D], y)"
      by (rule split_sign_append [OF ex(3) not_starts_sign [OF ex(5)]])
    have y: "split_digits y = (y, [])"
      using takeWhile_digits [OF ex(5), of "[]"] dropWhile_digits [OF ex(5), of "[]"] by (simp add: split_digits_def)
    show ?thesis
      unfolding std_parse_f64_def split_sign_append [OF assms(1) ns] Let_def prod.case d f
      using name_free [OF st] ne ex(2,4) by (auto simp: ex(1) s y exp_value_def signed_nat_def)
  qed
qed

lemma num_integer_eq:
  assumes "sign_opt sg" "list_all is_ascii_digit d" "d \<noteq> []" "neg = (sg = [0x2D])"
  shows "num_integer (sg @ d) neg 0 (length sg) (length sg + length d) = int_or_float neg d"
proof -
  have sl: "slice (sg @ d) 0 (length sg + length d) = sg @ d"
    "slice (sg @ d) (length sg) (length sg + length d) = d"
    by (simp_all add: slice_def)
  have f: "parse_float_ascii (sg @ d) = decimal_f64 neg (dec_val 0 d) 0"
    using std_parse_decimal [of sg d "[]" "[]"] assms
    by (simp add: parse_float_ascii_def frac_ok_def exp_ok_def exp_value_def)
  show ?thesis
    unfolding num_integer_def sl f num_digits_eq int_or_float_def signed_decimal_def
    using assms(3) by (auto simp: signed_nat_def in_i64_def)
qed

section \<open>The grammar of the manual\<close>

definition all_ws :: "bytes \<Rightarrow> bool" where
  "all_ws w = list_all is_php_whitespace w"

definition lnum :: "bytes \<Rightarrow> bool" where
  "lnum d \<longleftrightarrow> d \<noteq> [] \<and> list_all is_ascii_digit d"

definition dnum :: "bytes \<Rightarrow> bool" where
  "dnum m \<longleftrightarrow> (\<exists>x y. m = x @ 0x2E # y \<and> list_all is_ascii_digit x \<and> list_all is_ascii_digit y \<and> (x \<noteq> [] \<or> y \<noteq> []))"

definition exponent_dnum :: "bytes \<Rightarrow> bool" where
  "exponent_dnum m \<longleftrightarrow> (\<exists>n c sg y. m = n @ c # sg @ y \<and> (lnum n \<or> dnum n) \<and> is_exp c \<and> sign_opt sg \<and> lnum y)"

definition int_num_string :: "bytes \<Rightarrow> bool" where
  "int_num_string s \<longleftrightarrow> (\<exists>w sg m w'. s = w @ sg @ m @ w' \<and> all_ws w \<and> sign_opt sg \<and> lnum m \<and> all_ws w')"

definition float_num_string :: "bytes \<Rightarrow> bool" where
  "float_num_string s \<longleftrightarrow>
     (\<exists>w sg m w'. s = w @ sg @ m @ w' \<and> all_ws w \<and> sign_opt sg \<and> (dnum m \<or> exponent_dnum m) \<and> all_ws w')"

definition num_string :: "bytes \<Rightarrow> bool" where
  "num_string s \<longleftrightarrow> int_num_string s \<or> float_num_string s"

text \<open>A number of the grammar by its parts.\<close>

definition num_parts :: "bytes \<Rightarrow> bytes \<Rightarrow> bytes \<Rightarrow> bytes \<Rightarrow> bool" where
  "num_parts sg d fr ex \<longleftrightarrow> sign_opt sg \<and> list_all is_ascii_digit d \<and> frac_ok d fr \<and> exp_ok ex"

lemma mantissa_parts: "lnum n \<or> dnum n \<longleftrightarrow> (\<exists>d fr. n = d @ fr \<and> list_all is_ascii_digit d \<and> frac_ok d fr)"
proof
  assume "lnum n \<or> dnum n"
  then show "\<exists>d fr. n = d @ fr \<and> list_all is_ascii_digit d \<and> frac_ok d fr"
  proof
    assume "lnum n"
    then have "n = n @ [] \<and> list_all is_ascii_digit n \<and> frac_ok n []" by (simp add: lnum_def frac_ok_def)
    then show ?thesis by blast
  next
    assume "dnum n"
    then obtain x y where "n = x @ 0x2E # y" "list_all is_ascii_digit x" "list_all is_ascii_digit y" "x \<noteq> [] \<or> y \<noteq> []"
      by (auto simp: dnum_def)
    then show ?thesis by (intro exI [of _ x] exI [of _ "0x2E # y"]) (simp add: frac_ok_def)
  qed
next
  assume "\<exists>d fr. n = d @ fr \<and> list_all is_ascii_digit d \<and> frac_ok d fr"
  then show "lnum n \<or> dnum n" by (auto simp: frac_ok_def lnum_def dnum_def)
qed

lemma exponent_parts: "exponent_dnum m \<longleftrightarrow>
    (\<exists>d fr ex. m = d @ fr @ ex \<and> list_all is_ascii_digit d \<and> frac_ok d fr \<and> exp_ok ex \<and> ex \<noteq> [])"
proof
  assume "exponent_dnum m"
  then obtain n c sg y where m: "m = n @ c # sg @ y" "lnum n \<or> dnum n" "is_exp c" "sign_opt sg" "lnum y"
    unfolding exponent_dnum_def by blast
  obtain d fr where n: "n = d @ fr" "list_all is_ascii_digit d" "frac_ok d fr"
    using m(2) unfolding mantissa_parts by blast
  have "exp_ok (c # sg @ y)" using m(3-5) unfolding exp_ok_def lnum_def by blast
  then show "\<exists>d fr ex. m = d @ fr @ ex \<and> list_all is_ascii_digit d \<and> frac_ok d fr \<and> exp_ok ex \<and> ex \<noteq> []"
    using m(1) n by (intro exI [of _ d] exI [of _ fr] exI [of _ "c # sg @ y"]) simp
next
  assume "\<exists>d fr ex. m = d @ fr @ ex \<and> list_all is_ascii_digit d \<and> frac_ok d fr \<and> exp_ok ex \<and> ex \<noteq> []"
  then obtain d fr ex where m: "m = (d @ fr) @ ex" "list_all is_ascii_digit d" "frac_ok d fr" "exp_ok ex" "ex \<noteq> []"
    by auto
  moreover have "lnum (d @ fr) \<or> dnum (d @ fr)" using m(2,3) mantissa_parts by blast
  moreover obtain c sg y where "ex = c # sg @ y" "is_exp c" "sign_opt sg" "lnum y"
    using m(4,5) unfolding exp_ok_def lnum_def by blast
  ultimately show "exponent_dnum m" unfolding exponent_dnum_def by blast
qed

lemma float_num_string_parts: "float_num_string s \<longleftrightarrow>
    (\<exists>w sg d fr ex w'. s = w @ sg @ d @ fr @ ex @ w' \<and> all_ws w \<and> num_parts sg d fr ex \<and> all_ws w' \<and> (fr \<noteq> [] \<or> ex \<noteq> []))"
proof -
  have "(dnum m \<or> exponent_dnum m) \<longleftrightarrow>
      (\<exists>d fr ex. m = d @ fr @ ex \<and> list_all is_ascii_digit d \<and> frac_ok d fr \<and> exp_ok ex \<and> (fr \<noteq> [] \<or> ex \<noteq> []))" for m
  proof -
    have "dnum m \<longleftrightarrow> (\<exists>d fr. m = d @ fr @ [] \<and> list_all is_ascii_digit d \<and> frac_ok d fr \<and> exp_ok [] \<and> fr \<noteq> [])"
      by (auto simp: dnum_def frac_ok_def exp_ok_def)
    then show ?thesis unfolding exponent_parts by blast
  qed
  note m = this
  show ?thesis
  proof
    assume "float_num_string s"
    then obtain w sg k w' where s: "s = w @ sg @ k @ w'" "all_ws w" "sign_opt sg" "dnum k \<or> exponent_dnum k" "all_ws w'"
      unfolding float_num_string_def by blast
    obtain d fr ex where k: "k = d @ fr @ ex" "list_all is_ascii_digit d" "frac_ok d fr" "exp_ok ex" "fr \<noteq> [] \<or> ex \<noteq> []"
      using s(4) unfolding m by blast
    have "num_parts sg d fr ex" using s(3) k by (simp add: num_parts_def)
    moreover have "s = w @ sg @ d @ fr @ ex @ w'" using s(1) k(1) by simp
    ultimately show "\<exists>w sg d fr ex w'. s = w @ sg @ d @ fr @ ex @ w' \<and> all_ws w \<and> num_parts sg d fr ex \<and> all_ws w'
        \<and> (fr \<noteq> [] \<or> ex \<noteq> [])"
      using s(2,5) k(5) by blast
  next
    assume "\<exists>w sg d fr ex w'. s = w @ sg @ d @ fr @ ex @ w' \<and> all_ws w \<and> num_parts sg d fr ex \<and> all_ws w'
        \<and> (fr \<noteq> [] \<or> ex \<noteq> [])"
    then obtain w sg d fr ex w' where s: "s = w @ sg @ (d @ fr @ ex) @ w'" "all_ws w" "num_parts sg d fr ex" "all_ws w'"
        "fr \<noteq> [] \<or> ex \<noteq> []" by auto
    then have "dnum (d @ fr @ ex) \<or> exponent_dnum (d @ fr @ ex)" "sign_opt sg"
      unfolding m num_parts_def by blast+
    with s show "float_num_string s" unfolding float_num_string_def by blast
  qed
qed

lemma int_num_string_parts: "int_num_string s \<longleftrightarrow>
    (\<exists>w sg d w'. s = w @ sg @ d @ w' \<and> all_ws w \<and> num_parts sg d [] [] \<and> all_ws w')"
  unfolding int_num_string_def num_parts_def lnum_def frac_ok_def exp_ok_def by auto

lemma num_string_parts: "num_string s \<longleftrightarrow>
    (\<exists>w sg d fr ex w'. s = w @ sg @ d @ fr @ ex @ w' \<and> all_ws w \<and> num_parts sg d fr ex \<and> all_ws w')"
proof
  assume "num_string s"
  then show "\<exists>w sg d fr ex w'. s = w @ sg @ d @ fr @ ex @ w' \<and> all_ws w \<and> num_parts sg d fr ex \<and> all_ws w'"
    unfolding num_string_def float_num_string_parts int_num_string_parts
    by (metis append_Nil)
next
  assume "\<exists>w sg d fr ex w'. s = w @ sg @ d @ fr @ ex @ w' \<and> all_ws w \<and> num_parts sg d fr ex \<and> all_ws w'"
  then obtain w sg d fr ex w' where
    s: "s = w @ sg @ d @ fr @ ex @ w'" "all_ws w" "num_parts sg d fr ex" "all_ws w'" by blast
  show "num_string s"
  proof (cases "fr = [] \<and> ex = []")
    case True
    with s have "int_num_string s" unfolding int_num_string_parts by auto
    then show ?thesis by (simp add: num_string_def)
  next
    case False
    with s have "float_num_string s" unfolding float_num_string_parts by blast
    then show ?thesis by (simp add: num_string_def)
  qed
qed

section \<open>Classification\<close>

lemma ws_nil: "all_ws []"
  by (simp add: all_ws_def)

lemma ws_not_number:
  assumes "all_ws w"
  shows "\<not> starts is_ascii_digit w" "\<not> starts (\<lambda>x. x = 0x2E) w" "\<not> starts is_exp w"
  using assms by (cases w; auto simp: all_ws_def is_php_whitespace_def is_ascii_digit_def word_le_nat_alt)+

lemma num_parts_starts:
  assumes "num_parts sg d fr ex"
  shows "\<not> starts is_php_whitespace (sg @ d @ fr @ ex @ r)" "\<not> starts is_sign (d @ fr @ ex @ r)"
proof -
  have "starts (\<lambda>c. is_ascii_digit c \<or> c = 0x2E) (d @ fr @ ex @ r)"
    using assms by (cases d) (auto simp: num_parts_def frac_ok_def)
  then obtain c r' where c: "d @ fr @ ex @ r = c # r'" "is_ascii_digit c \<or> c = 0x2E"
    by (cases "d @ fr @ ex @ r") auto
  have nws: "\<not> is_php_whitespace c" "\<not> is_sign c" using c(2) digit_facts [of c] by (auto simp: is_php_whitespace_def)
  then show "\<not> starts is_sign (d @ fr @ ex @ r)" unfolding c(1) by simp
  show "\<not> starts is_php_whitespace (sg @ d @ fr @ ex @ r)"
    unfolding c(1) using assms nws by (auto simp: num_parts_def sign_opt_def starts_append is_php_whitespace_def)
qed

text \<open>The parser finds the parts of a grammatical string.\<close>

lemma parse_slow_grammar:
  assumes "all_ws w" "num_parts sg d fr ex" "all_ws w'"
  shows "parse_slow (w @ sg @ d @ fr @ ex @ w') =
    \<lparr>np_num = num_value sg d fr ex, np_kind = Numeric, np_float_syntax = (fr \<noteq> [] \<or> ex \<noteq> [])\<rparr>"
proof -
  note parts = assms(2) [unfolded num_parts_def]
  note st = num_parts_starts [OF assms(2)]
  note ws = ws_not_number [OF assms(3)]
  have exd: "\<not> starts is_ascii_digit (ex @ w')" "\<not> starts (\<lambda>x. x = 0x2E) (ex @ w')"
    using exp_ok_starts [of ex] parts ws by (auto simp: starts_append)
  have a: "dropWhile is_php_whitespace (w @ sg @ d @ fr @ ex @ w') = sg @ d @ fr @ ex @ w'"
    using assms(1) st(1) by (intro dropWhile_digits) (simp_all add: all_ws_def)
  have b: "sign_part (sg @ d @ fr @ ex @ w') = sg"
    using parts st(2) by (intro sign_part_append) simp_all
  have frd: "\<not> starts is_ascii_digit (fr @ ex @ w')"
    using exd(1) parts by (auto simp: frac_ok_def starts_append is_ascii_digit_def word_le_nat_alt)
  have c: "takeWhile is_ascii_digit (d @ fr @ ex @ w') = d" "dropWhile is_ascii_digit (d @ fr @ ex @ w') = fr @ ex @ w'"
    using parts frd by (simp_all add: takeWhile_digits dropWhile_digits)
  have f: "frac_part d (fr @ ex @ w') = fr"
  proof (cases "fr = []")
    case True
    then show ?thesis using exd by (simp add: frac_part_def)
  next
    case False
    then obtain y where "fr = 0x2E # y" "list_all is_ascii_digit y" "d \<noteq> [] \<or> y \<noteq> []"
      using parts by (auto simp: frac_ok_def)
    then show ?thesis
      using exd starts_digits [of y "ex @ w'"] by (auto simp: frac_part_def takeWhile_digits)
  qed
  have e: "exp_part (ex @ w') = ex"
  proof (cases "ex = []")
    case True
    then show ?thesis using ws by (simp add: exp_part_def)
  next
    case False
    then obtain c es y where ex: "ex = c # es @ y" "is_exp c" "sign_opt es" "y \<noteq> []" "list_all is_ascii_digit y"
      using parts by (auto simp: exp_ok_def)
    then have "sign_part (es @ y @ w') = es"
      by (intro sign_part_append) (auto simp: starts_append dest: not_starts_sign)
    with ex ws show ?thesis by (simp add: exp_part_def takeWhile_digits Let_def)
  qed
  have h: "dropWhile is_php_whitespace w' = []" using assms(3) by (simp add: all_ws_def list_all_iff)
  have "\<not> (d = [] \<and> fr = [])" using parts by (auto simp: frac_ok_def)
  then show ?thesis
    by (subst parse_slow_parts [OF refl refl refl refl refl refl refl refl refl])
      (simp add: a b c f e h)
qed

text \<open>A string with a numeric prefix is split into grammatical parts.\<close>

lemma parse_slow_split:
  assumes "np_kind (parse_slow s) \<noteq> NonNumeric"
  obtains w sg d fr ex r where "s = w @ sg @ d @ fr @ ex @ r" "all_ws w" "num_parts sg d fr ex"
    "np_kind (parse_slow s) = Numeric \<longleftrightarrow> all_ws r"
proof -
  define w a where "w = takeWhile is_php_whitespace s" and "a = dropWhile is_php_whitespace s"
  define sg b where "sg = sign_part a" and "b = drop (length sg) a"
  define d c where "d = takeWhile is_ascii_digit b" and "c = dropWhile is_ascii_digit b"
  define fr g where "fr = frac_part d c" and "g = drop (length fr) c"
  define ex h where "ex = exp_part g" and "h = drop (length ex) g"
  note ps = parse_slow_parts [OF a_def sg_def b_def d_def c_def fr_def g_def ex_def h_def]
  have split: "take (length x) y = x \<Longrightarrow> x @ drop (length x) y = y" for x y :: bytes
    by (metis append_take_drop_id)
  have s: "s = w @ sg @ d @ fr @ ex @ h"
    using split [OF sign_part_take, of a] split [OF frac_part_take, of d c] split [OF exp_part_take, of g]
    by (simp add: w_def sg_def d_def fr_def ex_def h_def g_def c_def b_def) (simp add: a_def)
  have ne: "\<not> (d = [] \<and> fr = [])" using assms by (auto simp: ps)
  have "sign_opt sg" by (cases a) (auto simp: sg_def sign_part_def sign_opt_def)
  moreover have "list_all is_ascii_digit d" by (simp add: d_def list_all_iff) (metis set_takeWhileD)
  moreover have "frac_ok d fr"
    using ne by (auto simp: fr_def frac_part_def frac_ok_def list_all_iff starts_takeWhile split: if_splits dest: set_takeWhileD)
  moreover have "exp_ok ex"
  proof (cases g)
    case (Cons x y)
    have "sign_opt (sign_part y)" by (cases y) (auto simp: sign_part_def sign_opt_def)
    moreover have "list_all is_ascii_digit (takeWhile is_ascii_digit z)" for z
      by (simp add: list_all_iff) (metis set_takeWhileD)
    ultimately show ?thesis
      unfolding ex_def exp_part_def exp_ok_def Cons Let_def by auto
  qed (simp add: ex_def exp_part_def exp_ok_def)
  ultimately have "num_parts sg d fr ex" by (simp add: num_parts_def)
  moreover have "all_ws w" by (simp add: all_ws_def w_def list_all_iff) (metis set_takeWhileD)
  moreover have "np_kind (parse_slow s) = Numeric \<longleftrightarrow> all_ws h"
    using ne by (simp add: ps all_ws_def list_all_iff)
  ultimately show ?thesis using s that by blast
qed

lemma dec_val_less: "list_all is_ascii_digit d \<Longrightarrow> dec_val v d < (v + 1) * 10 ^ length d"
proof (induction d arbitrary: v)
  case (Cons c d)
  have "dec_val (10 * v + digit_val c) d < (10 * v + digit_val c + 1) * 10 ^ length d"
    using Cons by simp
  also have "\<dots> \<le> (10 * (v + 1)) * 10 ^ length d"
    using Cons.prems digit_val_less [of c] by (intro mult_right_mono) auto
  finally show ?case by (simp only: dec_val_simps length_Cons power_Suc ac_simps)
qed simp

text \<open>The fast path computes what the general path does.\<close>

lemma parse_numeric_slow: "parse_numeric s = parse_slow s"
proof (cases "s \<noteq> [] \<and> length s \<le> 18 \<and> list_all is_ascii_digit s")
  case True
  then have np: "num_parts [] s [] []" by (simp add: num_parts_def sign_opt_def frac_ok_def exp_ok_def)
  have "dec_val 0 s < 10 ^ length s" using dec_val_less [of s 0] True by simp
  also have "\<dots> \<le> 10 ^ 18" using True by (intro power_increasing) simp_all
  finally have "int (dec_val 0 s) < 2 ^ 63 - 1" by simp
  then have fit: "in_i64 (signed_decimal False s)"
    by (simp add: signed_decimal_def signed_nat_def in_i64_def)
  have "num_value [] s [] [] = int_or_float False s"
    using num_integer_eq [of "[]" s False] True by (simp add: num_value_def sign_opt_def)
  also have "\<dots> = NInt (fast_digits 0 s)"
    using fit fast_digits_eq [of 0 s] by (simp add: int_or_float_def signed_decimal_def signed_nat_def)
  finally show ?thesis
    using parse_slow_grammar [of "[]" "[]" s "[]" "[]" "[]"] np True
    by (simp add: parse_numeric_def all_ws_def)
qed (auto simp: parse_numeric_def)

lemma num_string_parse:
  assumes "w @ sg @ d @ fr @ ex @ w' = s" "all_ws w" "num_parts sg d fr ex" "all_ws w'"
  shows "np_kind (parse_numeric s) = Numeric" "np_float_syntax (parse_numeric s) = (fr \<noteq> [] \<or> ex \<noteq> [])"
    "np_num (parse_numeric s) = num_value sg d fr ex"
  using parse_slow_grammar [OF assms(2-4)] by (simp_all add: parse_numeric_slow assms(1) [symmetric])

text \<open>C21: \<open>parse_numeric\<close> classifies strings as the manual's grammar does: a string is numeric when it
  is derivable, leading-numeric when only a proper prefix is, and non-numeric otherwise; float
  syntax is reported for numeric strings exactly when they derive from \<open>FLOAT_NUM_STRING\<close>; and
  the fast path for short integers agrees with the general one.\<close>

theorem numeric_string_grammar:
  "np_kind (parse_numeric s) =
      (if num_string s then Numeric else if \<exists>p t. s = p @ t \<and> num_string p then Leading else NonNumeric)
    \<and> (is_numeric_str s \<and> np_float_syntax (parse_numeric s)) = float_num_string s
    \<and> parse_numeric s = parse_slow s"
proof (intro conjI)
  have fwd: "np_kind (parse_numeric u) = Numeric" if "num_string u" for u
    using that num_string_parse unfolding num_string_parts by metis
  show float: "(is_numeric_str s \<and> np_float_syntax (parse_numeric s)) = float_num_string s"
  proof
    assume a: "is_numeric_str s \<and> np_float_syntax (parse_numeric s)"
    then have "np_kind (parse_slow s) \<noteq> NonNumeric" "np_kind (parse_slow s) = Numeric"
      by (simp_all add: is_numeric_str_def parse_numeric_slow)
    then obtain w sg d fr ex r where s: "s = w @ sg @ d @ fr @ ex @ r" "all_ws w" "num_parts sg d fr ex" "all_ws r"
      using parse_slow_split by metis
    then have "fr \<noteq> [] \<or> ex \<noteq> []" using num_string_parse(2) [OF s(1) [symmetric] s(2-4)] a by simp
    with s show "float_num_string s" unfolding float_num_string_parts by blast
  next
    assume "float_num_string s"
    then obtain w sg d fr ex w' where s: "w @ sg @ d @ fr @ ex @ w' = s" "all_ws w" "num_parts sg d fr ex" "all_ws w'"
      "fr \<noteq> [] \<or> ex \<noteq> []" unfolding float_num_string_parts by blast
    from num_string_parse [OF s(1-4)] s(5)
    show "is_numeric_str s \<and> np_float_syntax (parse_numeric s)" by (simp add: is_numeric_str_def)
  qed
  show "parse_numeric s = parse_slow s" by (rule parse_numeric_slow)
  show "np_kind (parse_numeric s) =
      (if num_string s then Numeric else if \<exists>p t. s = p @ t \<and> num_string p then Leading else NonNumeric)"
  proof (cases "np_kind (parse_slow s) = NonNumeric")
    case True
    have "\<not> num_string p" if "s = p @ t" for p t
    proof
      assume "num_string p"
      then obtain w sg d fr ex w' where p: "p = w @ sg @ d @ fr @ ex @ w'" "all_ws w" "num_parts sg d fr ex" "all_ws w'"
        unfolding num_string_parts by blast
      note st = num_parts_starts [OF p(3)]
      define a where "a = sg @ d @ fr @ ex @ w' @ t"
      have a: "dropWhile is_php_whitespace s = a"
        unfolding that p a_def append_assoc using p(2) st(1) by (intro dropWhile_digits) (simp_all add: all_ws_def)
      have sg: "sign_part a = sg"
        unfolding a_def using p(3) st(2) by (intro sign_part_append) (simp_all add: num_parts_def)
      have b: "drop (length sg) a = d @ fr @ ex @ w' @ t" by (simp add: a_def)
      have none: "takeWhile is_ascii_digit (d @ fr @ ex @ w' @ t) = []"
        "frac_part [] (dropWhile is_ascii_digit (d @ fr @ ex @ w' @ t)) = []"
        using True unfolding parse_slow_parts [OF a [symmetric] sg [symmetric] b [symmetric] refl refl refl refl refl refl]
        by (auto split: if_splits)
      have "d = []" using none(1) p(3) by (cases d) (auto simp: num_parts_def)
      then obtain y where "fr = 0x2E # y" "list_all is_ascii_digit y" "y \<noteq> []"
        using p(3) by (auto simp: num_parts_def frac_ok_def)
      with none \<open>d = []\<close> show False
        using starts_digits [of y] by (simp add: frac_part_def is_ascii_digit_def)
    qed
    then have "\<not> (\<exists>p t. s = p @ t \<and> num_string p)" "\<not> num_string s"
      by (blast, metis append_Nil2)
    with True show ?thesis by (simp add: parse_numeric_slow)
  next
    case False
    obtain w sg d fr ex r where s: "s = w @ sg @ d @ fr @ ex @ r" "all_ws w" "num_parts sg d fr ex"
      "np_kind (parse_slow s) = Numeric \<longleftrightarrow> all_ws r"
      using False by (rule parse_slow_split)
    have "num_string (w @ sg @ d @ fr @ ex @ [])"
      unfolding num_string_parts using s(2,3) ws_nil by blast
    then have lead: "\<exists>p t. s = p @ t \<and> num_string p"
      using s(1) by (metis append.assoc append_Nil2)
    have "num_string s \<longleftrightarrow> np_kind (parse_slow s) = Numeric"
    proof
      show "np_kind (parse_slow s) = Numeric" if "num_string s"
        using fwd [OF that] by (simp add: parse_numeric_slow)
      show "num_string s" if "np_kind (parse_slow s) = Numeric"
        using that s unfolding num_string_parts by blast
    qed
    with lead False show ?thesis
      by (cases "np_kind (parse_slow s)") (auto simp: parse_numeric_slow)
  qed
qed

text \<open>The value from the parts of the string.\<close>

lemma numeric_value_parts:
  assumes "all_ws w" "sign_opt sg" "list_all is_ascii_digit d" "frac_ok d fr" "exp_ok ex" "all_ws w'"
  shows "numeric_value (w @ sg @ d @ fr @ ex @ w') = Some
    (if fr = [] \<and> ex = [] then int_or_float (sg = [0x2D]) d
     else NFloat (decimal_f64 (sg = [0x2D]) (dec_val 0 (d @ tl fr)) (exp_value ex - int (length (tl fr)))))"
proof -
  have np: "num_parts sg d fr ex" using assms by (simp add: num_parts_def)
  have "num_value sg d fr ex =
      (if fr = [] \<and> ex = [] then int_or_float (sg = [0x2D]) d
       else NFloat (decimal_f64 (sg = [0x2D]) (dec_val 0 (d @ tl fr)) (exp_value ex - int (length (tl fr)))))"
  proof (cases "fr = [] \<and> ex = []")
    case True
    then have "d \<noteq> []" using assms(4) by (simp add: frac_ok_def)
    with True num_integer_eq [of sg d] assms show ?thesis by (simp add: num_value_def)
  next
    case False
    then show ?thesis
      using std_parse_decimal [OF assms(2-5)] by (auto simp: num_value_def parse_float_ascii_def)
  qed
  then show ?thesis
    using num_string_parse [OF refl assms(1) np assms(6)] by (simp only: numeric_value_def Let_def simp_thms if_True)
qed

text \<open>C22: the value of a numeric string: an integer when it has integer syntax and fits 64 bits, and the
  correctly rounded decimal otherwise; surrounding whitespace does not matter.\<close>

theorem numeric_value_spec:
  assumes "all_ws w" "sign_opt sg" "list_all is_ascii_digit d" "frac_ok d fr" "exp_ok ex" "all_ws w'"
  shows "numeric_value (w @ sg @ d @ fr @ ex @ w') = Some
    (if fr = [] \<and> ex = [] then int_or_float (sg = [0x2D]) d
     else NFloat (decimal_f64 (sg = [0x2D]) (dec_val 0 (d @ tl fr)) (exp_value ex - int (length (tl fr)))))"
  using assms by (rule numeric_value_parts)

text \<open>The decimal text of an integer is numeric, with that value.\<close>

lemma numeric_value_int_digits: "numeric_value (int_digits i) = Some (NInt i)"
proof -
  define sg d where "sg = (if sint i < 0 then [0x2D] else [] :: bytes)" and "d = dec_digits (unsigned_abs i)"
  have i: "int_digits i = [] @ sg @ d @ [] @ [] @ []" by (simp add: int_digits_eq sg_def d_def unsigned_abs_def)
  have d: "list_all is_ascii_digit d" "d \<noteq> []" "dec_val 0 d = nat \<bar>sint i\<bar>"
    by (simp_all add: d_def list_all_iff unsigned_abs_def)
  have "int_or_float (sg = [0x2D]) d = NInt i"
    using in_i64_sint [of i]
    by (auto simp: int_or_float_def signed_decimal_def signed_nat_def d(3) sg_def)
  then show ?thesis
    unfolding i using d by (subst numeric_value_parts)
      (simp_all add: all_ws_def sg_def sign_opt_def frac_ok_def exp_ok_def)
qed

theorem numeric_value_spec_witness:
  "numeric_value (ascii '' -12.5e1'') = Some (NFloat (decimal_f64 True 125 0))"
proof -
  have "exp_ok (0x65 # [] @ [0x31])"
    by (rule exp_okI) (simp_all add: sign_opt_def is_ascii_digit_def)
  then show ?thesis
  using numeric_value_spec [of "[0x20]" "[0x2D]" "ascii ''12''" "ascii ''.5''" "0x65 # [] @ [0x31]" "[]"]
  by (simp add: all_ws_def is_php_whitespace_def sign_opt_def is_ascii_digit_def frac_ok_def
      ascii_def of_char_def exp_value_def split_sign_def signed_nat_def digit_val_def)
qed

end
