(* ===== verification/BigNum.thy ===== *)
theory BigNum
  imports F64 IntText
begin

text \<open>
  The bignum of \<open>float_fmt.rs\<close>: unsigned integers of up to 1280 bits in little-endian 32 bit limbs.
  A \<open>Big\<close> is the list of its used limbs \<open>d[..len]\<close>; the limbs above \<open>len\<close> are zero in the source
  and are never read.  Each loop over the limbs is a recursion over this list that carries what
  the loop carries.  The array has \<open>LIMBS\<close> limbs: \<open>length_le\<close> bounds the used limbs by the value,
  so that the values of the callers (below \<open>2 ^ 1248\<close>) never index past the array.  The lemmas
  show that each operation computes the arithmetic on the value \<open>lv\<close> it stands for.
\<close>

section \<open>Definitions\<close>

type_synonym big = "u32 list"

definition limbs :: nat where
  "limbs = 40"

definition trim :: "big \<Rightarrow> big" where
  "trim d = rev (dropWhile (\<lambda>x. x = 0) (rev d))"

definition big_of_u64 :: "u64 \<Rightarrow> big" where
  "big_of_u64 v = trim [ucast v, ucast (drop_bit 32 v)]"

definition big_is_zero :: "big \<Rightarrow> bool" where
  "big_is_zero b \<longleftrightarrow> length b = 0"

text \<open>The loop of \<open>mul_small\<close>: the limbs written and the last carry.\<close>

fun mul_limbs :: "u32 \<Rightarrow> u64 \<Rightarrow> big \<Rightarrow> big \<times> u64" where
  "mul_limbs m carry [] = ([], carry)"
| "mul_limbs m carry (x # xs) =
     (let t = ucast x * ucast m + carry;
          (ys, c) = mul_limbs m (drop_bit 32 t) xs in
      (ucast t # ys, c))"

definition mul_small :: "big \<Rightarrow> u32 \<Rightarrow> big" where
  "mul_small b m =
     (let (d, carry) = mul_limbs m 0 b in if carry \<noteq> 0 then d @ [ucast carry] else d)"

fun mul_pow10 :: "big \<Rightarrow> nat \<Rightarrow> big" where
  "mul_pow10 b n =
     (if 9 \<le> n then mul_pow10 (mul_small b 1000000000) (n - 9)
      else if 0 < n then mul_small b (10 ^ n) else b)"

declare mul_pow10.simps [simp del]

text \<open>The limbs shifted by \<open>0 < b < 32\<close> bits: \<open>(d[i] << b) | (d[i - 1] >> (32 - b))\<close>, and the top one.\<close>

fun shl_limbs :: "nat \<Rightarrow> u32 \<Rightarrow> big \<Rightarrow> big" where
  "shl_limbs b prev [] = [drop_bit (32 - b) prev]"
| "shl_limbs b prev (x # xs) = (push_bit b x OR drop_bit (32 - b) prev) # shl_limbs b x xs"

definition big_shl :: "big \<Rightarrow> nat \<Rightarrow> big" where
  "big_shl d bits =
     (if d = [] \<or> bits = 0 then d
      else trim (replicate (bits div 32) 0 @
        (if bits mod 32 = 0 then d else shl_limbs (bits mod 32) 0 d)))"

text \<open>Comparison of limbs from the top.\<close>

fun cmp_limbs :: "big \<Rightarrow> big \<Rightarrow> ordering" where
  "cmp_limbs (x # xs) (y # ys) = (if x \<noteq> y then int_cmp (uint x) (uint y) else cmp_limbs xs ys)"
| "cmp_limbs _ _ = Equal"

definition big_cmp :: "big \<Rightarrow> big \<Rightarrow> ordering" where
  "big_cmp a b =
     (if length a \<noteq> length b then int_cmp (int (length a)) (int (length b))
      else cmp_limbs (rev a) (rev b))"

text \<open>The limb \<open>i < o.len ? o.d[i] : 0\<close> of an operand, walking along it.\<close>

definition head :: "big \<Rightarrow> u32" where
  "head y = (case y of [] \<Rightarrow> 0 | a # _ \<Rightarrow> a)"

definition sub_digit :: "int \<Rightarrow> u32 \<times> int" where
  "sub_digit t = (if t < 0 then (word_of_int (t + 2 ^ 32), 1) else (word_of_int t, 0))"

fun sub_limbs :: "int \<Rightarrow> big \<Rightarrow> big \<Rightarrow> big" where
  "sub_limbs borrow [] y = []"
| "sub_limbs borrow (x # xs) y =
     (let (z, borrow') = sub_digit (uint x - borrow - uint (head y)) in z # sub_limbs borrow' xs (tl y))"

definition sub_assign :: "big \<Rightarrow> big \<Rightarrow> big" where
  "sub_assign a b = trim (sub_limbs 0 a b)"

fun sub_mul_limbs :: "u32 \<Rightarrow> u64 \<Rightarrow> int \<Rightarrow> big \<Rightarrow> big \<Rightarrow> big" where
  "sub_mul_limbs q carry borrow [] y = []"
| "sub_mul_limbs q carry borrow (x # xs) y =
     (let p = (case y of a # _ \<Rightarrow> ucast a * ucast q + carry | [] \<Rightarrow> carry);
          (z, borrow') = sub_digit (uint x - borrow - uint (ucast p :: u32)) in
      z # sub_mul_limbs q (drop_bit 32 p) borrow' xs (tl y))"

definition sub_mul_small :: "big \<Rightarrow> big \<Rightarrow> u32 \<Rightarrow> big" where
  "sub_mul_small a b q = trim (sub_mul_limbs q 0 0 a b)"

text \<open>The loop of \<open>div_small\<close> runs from the top limb.\<close>

fun div_limbs :: "u32 \<Rightarrow> u64 \<Rightarrow> big \<Rightarrow> big \<times> u64" where
  "div_limbs v rem [] = ([], rem)"
| "div_limbs v rem (x # xs) =
     (let t = push_bit 32 rem OR ucast x; (ys, r) = div_limbs v (t mod ucast v) xs in
      (ucast (t div ucast v) # ys, r))"

definition div_small :: "big \<Rightarrow> u32 \<Rightarrow> big \<times> u32" where
  "div_small b v = (let (ds, r) = div_limbs v 0 (rev b) in (trim (rev ds), ucast r))"

definition limb :: "big \<Rightarrow> nat \<Rightarrow> u32" where
  "limb b i = (if i < length b then b ! i else 0)"

definition shr_word :: "big \<Rightarrow> nat \<Rightarrow> u32" where
  "shr_word b pos =
     (let i = pos div 32; k = pos mod 32 in
      if k = 0 then limb b i else drop_bit k (limb b i) OR push_bit (32 - k) (limb b (i + 1)))"

definition shr_to_u128 :: "big \<Rightarrow> nat \<Rightarrow> u128" where
  "shr_to_u128 b bits =
     foldl (\<lambda>r j. r OR push_bit (32 * j) (ucast (shr_word b (bits + 32 * j)))) 0 [0..<4]"

text \<open>
  The correction loop of \<open>div_digit\<close>, with fuel: \<open>div_digit_spec\<close> shows that it runs at most once,
  so two rounds are enough.
\<close>

fun div_fix :: "nat \<Rightarrow> big \<Rightarrow> big \<Rightarrow> u32 \<Rightarrow> (big \<times> u32) option" where
  "div_fix 0 b s q = None"
| "div_fix (Suc n) b s q =
     (if big_cmp b s \<noteq> Less then div_fix n (sub_assign b s) s (q + 1) else Some (b, q))"

definition div_digit :: "big \<Rightarrow> big \<Rightarrow> (big \<times> u8) option" where
  "div_digit b s =
     (let n = length s in
      if length b < n then Some (b, 0)
      else
        let top = (if n < length b then push_bit 32 (ucast (b ! n)) OR ucast (b ! (n - 1))
                   else ucast (b ! (n - 1)) :: u64);
            q = ucast (top div (ucast (s ! (n - 1)) + 1));
            b' = (if 0 < q then sub_mul_small b s q else b) in
        map_option (\<lambda>(b, q). (b, ucast q)) (div_fix 2 b' s q))"

section \<open>Words\<close>

lemma mul_add_less:
  assumes "(x::nat) < 2 ^ 32" "m < 2 ^ 32" "c < 2 ^ 32"
  shows "x * m + c < 2 ^ 64"
proof -
  have "x * m \<le> (2 ^ 32 - 1) * (2 ^ 32 - 1)" using assms by (intro mult_mono) auto
  then show ?thesis using assms by simp
qed

lemma unat_mul_add:
  assumes "unat (c :: u64) < 2 ^ 32"
  shows "unat (ucast (x :: u32) * ucast (m :: u32) + c) = unat x * unat m + unat c"
proof -
  have lt: "unat x * unat m + unat c < 2 ^ 64"
    by (rule mul_add_less [OF u32_less u32_less assms])
  then have "unat (ucast x * ucast m :: u64) = unat x * unat m"
    by (subst unat_mul_fits) (simp_all add: unat_up)
  with lt show ?thesis by (subst unat_add_fits) simp_all
qed

section \<open>Values\<close>

fun lv :: "big \<Rightarrow> nat" where
  "lv [] = 0"
| "lv (x # xs) = unat x + 2 ^ 32 * lv xs"

definition trimmed :: "big \<Rightarrow> bool" where
  "trimmed b \<longleftrightarrow> b = [] \<or> last b \<noteq> 0"

lemma lv_append: "lv (xs @ ys) = lv xs + 2 ^ (32 * length xs) * lv ys"
  by (induction xs) (simp_all add: power_add algebra_simps)

lemma lv_replicate [simp]: "lv (replicate n 0) = 0"
  by (induction n) simp_all

lemma lv_less: "lv xs < 2 ^ (32 * length xs)"
proof (induction xs)
  case (Cons x xs)
  then have "lv xs + 1 \<le> 2 ^ (32 * length xs)" by simp
  then have "2 ^ 32 * (lv xs + 1) \<le> 2 ^ 32 * 2 ^ (32 * length xs)" by (rule mult_left_mono) simp
  with u32_less [of x] show ?case by (simp add: power_add)
qed simp

lemma lv_0_iff: "lv xs = 0 \<longleftrightarrow> (\<forall>x \<in> set xs. x = 0)"
  by (induction xs) (auto simp: unsigned_eq_0_iff)

lemma trimmed_Cons: "trimmed (x # xs) \<Longrightarrow> trimmed xs"
  by (auto simp: trimmed_def split: if_splits)

lemma trimmed_0: "trimmed xs \<Longrightarrow> lv xs = 0 \<longleftrightarrow> xs = []"
  unfolding lv_0_iff by (cases xs rule: rev_cases) (auto simp: trimmed_def)

lemma lv_ge:
  assumes "trimmed xs" "xs \<noteq> []"
  shows "2 ^ (32 * (length xs - 1)) * unat (last xs) \<le> lv xs" "0 < unat (last xs)"
proof -
  obtain ys y where xs: "xs = ys @ [y]" using assms(2) by (cases xs rule: rev_cases) auto
  then show "2 ^ (32 * (length xs - 1)) * unat (last xs) \<le> lv xs" by (simp add: lv_append)
  show "0 < unat (last xs)" using assms by (simp add: trimmed_def unat_gt_0)
qed

text \<open>The used limbs of a value that fits.\<close>

lemma length_le:
  assumes "trimmed xs" "lv xs < 2 ^ (32 * n)"
  shows "length xs \<le> n"
proof (rule ccontr)
  assume *: "\<not> length xs \<le> n"
  then have "xs \<noteq> []" by auto
  have "(2::nat) ^ (32 * n) \<le> 2 ^ (32 * (length xs - 1))"
    using * by (intro power_increasing) auto
  also have "\<dots> \<le> 2 ^ (32 * (length xs - 1)) * unat (last xs)"
    using lv_ge(2) [OF assms(1) \<open>xs \<noteq> []\<close>] by simp
  also have "\<dots> \<le> lv xs" by (rule lv_ge(1) [OF assms(1) \<open>xs \<noteq> []\<close>])
  finally show False using assms(2) by simp
qed

lemma lv_trim [simp]: "lv (trim d) = lv d"
proof -
  have "d = trim d @ rev (takeWhile (\<lambda>x. x = 0) (rev d))"
    unfolding trim_def by (metis rev_append rev_rev_ident takeWhile_dropWhile_id)
  moreover have "lv (rev (takeWhile (\<lambda>x. x = 0) (rev d))) = 0"
    unfolding lv_0_iff by (auto dest: set_takeWhileD)
  ultimately show ?thesis by (metis add_cancel_left_right lv_append mult_0_right)
qed

lemma trimmed_trim [simp]: "trimmed (trim d)"
proof (cases "dropWhile (\<lambda>x. x = 0) (rev d)")
  case (Cons x xs)
  then have "x \<noteq> 0" using hd_dropWhile [of "\<lambda>x. x = 0" "rev d"] by simp
  with Cons show ?thesis by (simp add: trim_def trimmed_def)
qed (simp add: trim_def trimmed_def)

lemma lv_big_of_u64: "lv (big_of_u64 v) = unat v" "trimmed (big_of_u64 v)"
proof -
  have "unat (drop_bit 32 v) < 2 ^ 32"
    using unat_u64_less [of v] unfolding unat_hi by (simp add: less_mult_imp_div_less)
  then have "unat (ucast (drop_bit 32 v) :: u32) = unat v div 2 ^ 32"
    unfolding unat_lo unat_hi by simp
  then show "lv (big_of_u64 v) = unat v"
    unfolding big_of_u64_def lv_trim lv.simps unat_lo by simp
  show "trimmed (big_of_u64 v)" by (simp add: big_of_u64_def)
qed

section \<open>Multiplication and shifts\<close>

lemma mul_limbs_spec:
  assumes "unat carry < 2 ^ 32" "mul_limbs m carry xs = (ys, c)"
  shows "lv ys + 2 ^ (32 * length xs) * unat c = lv xs * unat m + unat carry"
    "length ys = length xs" "unat c < 2 ^ 32"
proof -
  have "lv ys + 2 ^ (32 * length xs) * unat c = lv xs * unat m + unat carry \<and> length ys = length xs \<and> unat c < 2 ^ 32"
    using assms
  proof (induction xs arbitrary: carry ys)
    case (Cons x xs)
    define t where "t = ucast x * ucast m + carry"
    have t: "unat t = unat x * unat m + unat carry"
      unfolding t_def by (rule unat_mul_add [OF Cons.prems(1)])
    obtain zs where zs: "mul_limbs m (drop_bit 32 t) xs = (zs, c)" "ys = ucast t # zs"
      using Cons.prems(2) by (auto simp: t_def [symmetric] Let_def split: prod.splits)
    have "unat t < 2 ^ 64" by (rule unat_u64_less)
    then have "unat (drop_bit 32 t) < 2 ^ 32" by (simp add: unat_hi less_mult_imp_div_less)
    from Cons.IH [OF this zs(1)]
    have IH: "lv zs + 2 ^ (32 * length xs) * unat c = lv xs * unat m + unat t div 2 ^ 32"
      "length zs = length xs" "unat c < 2 ^ 32" by (simp_all add: unat_hi)
    have "lv ys + 2 ^ (32 * length (x # xs)) * unat c
        = unat t mod 2 ^ 32 + 2 ^ 32 * (lv zs + 2 ^ (32 * length xs) * unat c)"
      by (simp add: zs(2) unat_lo power_add algebra_simps)
    also have "\<dots> = unat t mod 2 ^ 32 + 2 ^ 32 * (unat t div 2 ^ 32) + 2 ^ 32 * (lv xs * unat m)"
      unfolding IH by (simp only: distrib_left ac_simps)
    also have "\<dots> = lv (x # xs) * unat m + unat carry"
      by (simp add: t algebra_simps)
    finally show ?case using IH by (simp add: zs)
  qed simp
  then show "lv ys + 2 ^ (32 * length xs) * unat c = lv xs * unat m + unat carry"
    "length ys = length xs" "unat c < 2 ^ 32" by blast+
qed

lemma lv_mul_small: "lv (mul_small b m) = lv b * unat m"
proof -
  obtain d c where dc: "mul_limbs m 0 b = (d, c)" by (cases "mul_limbs m 0 b") auto
  note s = mul_limbs_spec [OF _ dc, simplified]
  have "unat (ucast c :: u32) = unat c" using s(3) by (simp add: unat_lo)
  with s show ?thesis
    by (auto simp: mul_small_def dc lv_append)
qed

lemma trimmed_mul_small:
  assumes "trimmed b" "m \<noteq> 0"
  shows "trimmed (mul_small b m)"
proof (rule ccontr)
  assume nt: "\<not> trimmed (mul_small b m)"
  obtain d c where dc: "mul_limbs m 0 b = (d, c)" by (cases "mul_limbs m 0 b") auto
  note s = mul_limbs_spec [OF _ dc, simplified]
  have uc: "unat (ucast c :: u32) = unat c" using s(3) by (simp add: unat_lo)
  have "c = 0"
  proof (rule ccontr)
    assume "c \<noteq> 0"
    then have "(ucast c :: u32) \<noteq> 0" using uc by (metis unsigned_0 unsigned_eq_0_iff)
    with nt \<open>c \<noteq> 0\<close> show False by (simp add: mul_small_def dc trimmed_def)
  qed
  then have d: "mul_small b m = d" by (simp add: mul_small_def dc)
  with nt have ne: "b \<noteq> []" "d \<noteq> []" "last d = 0" using s(2) by (auto simp: trimmed_def)
  have "lv d < 2 ^ (32 * (length b - 1))"
  proof -
    obtain ds where "d = ds @ [0]" using ne by (metis append_butlast_last_id)
    then show ?thesis using lv_less [of ds] s(2) [symmetric] by (simp add: lv_append)
  qed
  also have "\<dots> \<le> 2 ^ (32 * (length b - 1)) * unat (last b)"
    using lv_ge(2) [OF assms(1) ne(1)] by simp
  also have "\<dots> \<le> lv b" by (rule lv_ge(1) [OF assms(1) ne(1)])
  also have "\<dots> \<le> lv b * unat m" using assms(2) by (simp add: Suc_le_eq unat_gt_0)
  finally show False using s(1) \<open>c = 0\<close> by simp
qed

lemma mul_pow10_spec: "lv (mul_pow10 b n) = lv b * 10 ^ n \<and> (trimmed b \<longrightarrow> trimmed (mul_pow10 b n))"
proof (induction b n rule: mul_pow10.induct)
  case (1 b n)
  show ?case
  proof (cases "9 \<le> n")
    case True
    have "(10::nat) ^ n = 10 ^ 9 * 10 ^ (n - 9)" using True by (metis le_add_diff_inverse power_add)
    with True 1 show ?thesis
      by (subst (1 2) mul_pow10.simps) (simp add: lv_mul_small trimmed_mul_small)
  next
    case False
    then have "n \<in> {0,1,2,3,4,5,6,7,8}" by auto
    then show ?thesis
      by (subst (1 2) mul_pow10.simps) (auto simp: lv_mul_small trimmed_mul_small)
  qed
qed

lemma unat_shr: "unat (drop_bit n (w :: 'a::len word)) = unat w div 2 ^ n"
  by (simp only: unat_drop_bit_eq) (simp only: drop_bit_eq_div)

lemma unat_shl_limb:
  assumes "0 < b" "b < 32"
  shows "unat (push_bit b x OR drop_bit (32 - b) prev :: u32)
    = unat x * 2 ^ b mod 2 ^ 32 + unat prev div 2 ^ (32 - b)"
proof -
  have hi: "unat prev div 2 ^ (32 - b) < 2 ^ b"
  proof -
    have "unat prev < 2 ^ b * 2 ^ (32 - b)"
      using u32_less [of prev] assms by (simp flip: power_add)
    then show ?thesis by (simp add: less_mult_imp_div_less)
  qed
  have lo: "unat x * 2 ^ b mod 2 ^ 32 \<le> 2 ^ 32 - 2 ^ b"
  proof -
    have "(2::nat) ^ 32 = 2 ^ (32 - b) * 2 ^ b" using assms by (simp flip: power_add)
    then have e: "unat x * 2 ^ b mod 2 ^ 32 = unat x mod 2 ^ (32 - b) * 2 ^ b"
      by (simp only: mod_mult_mult2)
    have "unat x mod 2 ^ (32 - b) < 2 ^ (32 - b)" by simp
    then have "unat x mod 2 ^ (32 - b) \<le> 2 ^ (32 - b) - 1" by linarith
    then have "unat x mod 2 ^ (32 - b) * 2 ^ b \<le> (2 ^ (32 - b) - 1) * 2 ^ b" by (rule mult_right_mono) simp
    also have "\<dots> = 2 ^ 32 - 2 ^ b" using assms by (simp add: diff_mult_distrib flip: power_add)
    finally show ?thesis by (simp only: e)
  qed
  have "push_bit b x OR drop_bit (32 - b) prev = push_bit b x + drop_bit (32 - b) prev"
  proof (rule disjunctive_add [symmetric])
    fix n
    show "\<not> bit (push_bit b x) n \<or> \<not> bit (drop_bit (32 - b) prev) n"
      using assms by (auto simp: bit_push_bit_iff bit_drop_bit_eq dest: bit_imp_le_length)
  qed
  moreover have "unat (push_bit b x) = unat x * 2 ^ b mod 2 ^ 32"
    by (simp only: unsigned_push_bit_eq) (simp add: take_bit_eq_mod push_bit_eq_mult)
  moreover have "unat (drop_bit (32 - b) prev) = unat prev div 2 ^ (32 - b)"
    by (rule unat_shr)
  moreover have "(2::nat) ^ b \<le> 2 ^ 32" using assms by (intro power_increasing) simp_all
  ultimately show ?thesis
    using hi lo by (simp add: unat_word_ariths)
qed

lemma lv_shl_limbs:
  assumes "0 < b" "b < 32"
  shows "lv (shl_limbs b prev xs) = lv xs * 2 ^ b + unat prev div 2 ^ (32 - b)"
proof (induction xs arbitrary: prev)
  case Nil
  show ?case by (simp only: shl_limbs.simps lv.simps unat_shr mult_0 mult_0_right add_0_right add_0)
next
  case (Cons x xs)
  have "(2::nat) ^ 32 = 2 ^ (32 - b) * 2 ^ b" using assms by (simp flip: power_add)
  then have "unat x * 2 ^ b div 2 ^ 32 = unat x * 2 ^ b div (2 ^ (32 - b) * 2 ^ b)" by (simp only:)
  then have "unat x * 2 ^ b div 2 ^ 32 = unat x div 2 ^ (32 - b)" by simp
  then have split: "unat x * 2 ^ b = unat x * 2 ^ b mod 2 ^ 32 + 2 ^ 32 * (unat x div 2 ^ (32 - b))"
    by (metis mod_mult_div_eq)
  have "lv (shl_limbs b prev (x # xs)) = unat x * 2 ^ b mod 2 ^ 32 + unat prev div 2 ^ (32 - b)
      + 2 ^ 32 * (lv xs * 2 ^ b + unat x div 2 ^ (32 - b))"
    by (simp only: shl_limbs.simps lv.simps unat_shl_limb [OF assms] Cons.IH)
  also have "\<dots> = (unat x * 2 ^ b mod 2 ^ 32 + 2 ^ 32 * (unat x div 2 ^ (32 - b)))
      + 2 ^ 32 * lv xs * 2 ^ b + unat prev div 2 ^ (32 - b)"
    by (simp only: distrib_left ac_simps)
  also have "\<dots> = lv (x # xs) * 2 ^ b + unat prev div 2 ^ (32 - b)"
    unfolding split [symmetric] by (simp only: lv.simps distrib_right distrib_left ac_simps)
  finally show ?case .
qed

lemma lv_big_shl: "lv (big_shl d n) = lv d * 2 ^ n"
proof -
  have n: "(2::nat) ^ n = 2 ^ (32 * (n div 32)) * 2 ^ (n mod 32)"
    by (metis mult_div_mod_eq power_add)
  consider "d = []" | "n = 0" | "d \<noteq> []" "n \<noteq> 0" by blast
  then show ?thesis
  proof cases
    case 3
    have "lv (if n mod 32 = 0 then d else shl_limbs (n mod 32) 0 d) = lv d * 2 ^ (n mod 32)"
      by (simp add: lv_shl_limbs)
    with 3 show ?thesis
      by (simp only: big_shl_def simp_thms if_False lv_trim lv_append lv_replicate length_replicate n ac_simps)
  qed (simp_all add: big_shl_def)
qed

lemma trimmed_big_shl: "trimmed d \<Longrightarrow> trimmed (big_shl d n)"
  by (simp add: big_shl_def)

section \<open>Comparison and subtraction\<close>

lemma int_cmp_nat: "a < b \<Longrightarrow> int_cmp (int a) (int b) = Less" "b < a \<Longrightarrow> int_cmp (int a) (int b) = Greater"
  by (simp_all add: int_cmp_def)

lemma cmp_limbs_spec:
  assumes "length xs = length ys"
  shows "cmp_limbs xs ys = int_cmp (int (lv (rev xs))) (int (lv (rev ys)))"
  using assms
proof (induction xs ys rule: list_induct2)
  case (Cons x xs y ys)
  define B :: nat where "B = 2 ^ (32 * length xs)"
  have lt: "lv (rev xs) < B" "lv (rev ys) < B"
    using lv_less [of "rev xs"] lv_less [of "rev ys"] Cons.hyps by (simp_all add: B_def)
  have l: "lv (rev (x # xs)) = lv (rev xs) + B * unat x" "lv (rev (y # ys)) = lv (rev ys) + B * unat y"
    using Cons.hyps by (simp_all add: lv_append B_def)
  have less: "a + B * u < c + B * v" if "u < v" "a < B" for a c u v
  proof -
    have "a + B * u < B * (u + 1)" using that by simp
    also have "\<dots> \<le> B * v" using that by (intro mult_left_mono) simp_all
    finally show ?thesis by simp
  qed
  show ?case
  proof (cases "x = y")
    case True
    then show ?thesis
      unfolding l cmp_limbs.simps using Cons.IH by (simp add: int_cmp_def)
  next
    case False
    then consider "unat x < unat y" | "unat y < unat x"
      by (metis linorder_neqE_nat word_unat_eq_iff)
    then have "int_cmp (uint x) (uint y) = int_cmp (int (lv (rev (x # xs)))) (int (lv (rev (y # ys))))"
    proof cases
      case 1
      show ?thesis
        unfolding uint_nat l using int_cmp_nat(1) [OF 1] int_cmp_nat(1) [OF less [OF 1 lt(1)]] by simp
    next
      case 2
      show ?thesis
        unfolding uint_nat l using int_cmp_nat(2) [OF 2] int_cmp_nat(2) [OF less [OF 2 lt(2)]] by simp
    qed
    with False show ?thesis by (simp only: cmp_limbs.simps if_True simp_thms if_not_P not_False_eq_True)
  qed
qed (simp add: int_cmp_def)

lemma lv_less_length:
  assumes "length a < length b" "trimmed b"
  shows "lv a < lv b"
proof -
  have ne: "b \<noteq> []" using assms(1) by auto
  have "lv a < 2 ^ (32 * length a)" by (rule lv_less)
  also have "\<dots> \<le> 2 ^ (32 * (length b - 1))" using assms(1) by (intro power_increasing) auto
  also have "\<dots> \<le> 2 ^ (32 * (length b - 1)) * unat (last b)" using lv_ge(2) [OF assms(2) ne] by simp
  also have "\<dots> \<le> lv b" by (rule lv_ge(1) [OF assms(2) ne])
  finally show ?thesis .
qed

lemma big_cmp_spec:
  assumes "trimmed a" "trimmed b"
  shows "big_cmp a b = int_cmp (int (lv a)) (int (lv b))"
proof -
  consider "length a < length b" | "length b < length a" | "length a = length b" by linarith
  then show ?thesis
  proof cases
    case 1
    then show ?thesis using lv_less_length [OF 1 assms(2)] by (simp add: big_cmp_def int_cmp_def)
  next
    case 2
    then show ?thesis using lv_less_length [OF 2 assms(1)] by (simp add: big_cmp_def int_cmp_def)
  next
    case 3
    then show ?thesis using cmp_limbs_spec [of "rev a" "rev b"] by (simp add: big_cmp_def)
  qed
qed

lemma sub_digit_spec:
  assumes "- (2 ^ 32) \<le> t" "t < 2 ^ 32" "sub_digit t = (z, b)"
  shows "int (unat z) - 2 ^ 32 * b = t" "b = (if t < 0 then 1 else 0)"
proof -
  have *: "int (unat (word_of_int k :: u32)) = k" if "0 \<le> k" "k < 2 ^ 32" for k
    using that by (simp add: unsigned_of_int take_bit_int_eq_self_iff)
  show "int (unat z) - 2 ^ 32 * b = t" "b = (if t < 0 then 1 else 0)"
    using assms * [of t] * [of "t + 2 ^ 32"] by (auto simp: sub_digit_def split: if_splits)
qed

lemma sub_limbs_spec:
  assumes "int (lv y) + borrow \<le> int (lv xs)" "borrow \<in> {0, 1}"
  shows "int (lv (sub_limbs borrow xs y)) = int (lv xs) - borrow - int (lv y)"
  using assms
proof (induction xs arbitrary: borrow y)
  case Nil
  then show ?case by simp
next
  case (Cons x xs)
  define t where "t = uint x - borrow - uint (head y)"
  obtain z b where zb: "sub_digit t = (z, b)" by (cases "sub_digit t") auto
  have ux: "uint x = int (unat x)" "uint (head y) = int (unat (head y))" by simp_all
  have tb: "- (2 ^ 32) \<le> t" "t < 2 ^ 32"
    using u32_less [of x] u32_less [of "head y"] Cons.prems(2) by (auto simp: t_def ux simp del: of_nat_unat)
  note s = sub_digit_spec [OF tb zb]
  have y: "lv y = unat (head y) + 2 ^ 32 * lv (tl y)" by (cases y) (simp_all add: head_def)
  have "int (lv (tl y)) + b \<le> int (lv xs)"
  proof -
    have "int (unat (head y)) + 2 ^ 32 * int (lv (tl y)) + borrow \<le> int (unat x) + 2 ^ 32 * int (lv xs)"
      using Cons.prems(1) by (simp add: y)
    then have "2 ^ 32 * int (lv (tl y)) \<le> t + 2 ^ 32 * int (lv xs)"
      by (simp add: t_def ux del: of_nat_unat)
    then show ?thesis using s tb by (auto split: if_splits)
  qed
  then have "int (lv (sub_limbs b xs (tl y))) = int (lv xs) - b - int (lv (tl y))"
    using s(2) by (intro Cons.IH) auto
  then show ?case
    using s(1) by (simp add: zb t_def [symmetric] y) (simp add: t_def ux del: of_nat_unat)
qed

lemma sub_assign_spec: "lv b \<le> lv a \<Longrightarrow> lv (sub_assign a b) = lv a - lv b \<and> trimmed (sub_assign a b)"
  using sub_limbs_spec [of b 0 a] by (simp add: sub_assign_def)

lemma sub_mul_limbs_spec:
  assumes "int (lv y * unat q + unat carry) + borrow \<le> int (lv xs)" "borrow \<in> {0, 1}" "unat carry < 2 ^ 32"
  shows "int (lv (sub_mul_limbs q carry borrow xs y)) = int (lv xs) - borrow - int (lv y * unat q + unat carry)"
  using assms
proof (induction xs arbitrary: carry borrow y)
  case Nil
  obtain k where k: "lv y * unat q + unat carry = k" by simp
  from Nil show ?case unfolding k by auto
next
  case (Cons x xs)
  define p where "p = (case y of a # _ \<Rightarrow> ucast a * ucast q + carry | [] \<Rightarrow> carry)"
  have up: "unat p = unat (head y) * unat q + unat carry"
    using Cons.prems(3) by (cases y) (simp_all add: p_def head_def unat_mul_add)
  define lo hi where "lo = unat p mod 2 ^ 32" and "hi = unat p div 2 ^ 32"
  have lohi: "unat p = lo + 2 ^ 32 * hi" "lo < 2 ^ 32" by (simp_all add: lo_def hi_def)
  have "unat p < 2 ^ 64" by (rule unat_u64_less)
  then have hi: "hi < 2 ^ 32" by (simp add: hi_def less_mult_imp_div_less)
  define t where "t = uint x - borrow - uint (ucast p :: u32)"
  obtain z b where zb: "sub_digit t = (z, b)" by (cases "sub_digit t") auto
  have t: "t = int (unat x) - borrow - int lo"
    unfolding t_def uint_nat unat_lo lo_def ..
  have tb: "- (2 ^ 32) \<le> t" "t < 2 ^ 32"
  proof -
    obtain u where u: "unat x = u" by simp
    show "- (2 ^ 32) \<le> t" "t < 2 ^ 32"
      unfolding t u using u32_less [of x, unfolded u] lohi(2) Cons.prems(2) by auto
  qed
  note s = sub_digit_spec [OF tb zb]
  have y: "lv y = unat (head y) + 2 ^ 32 * lv (tl y)" by (cases y) (simp_all add: head_def)
  have total: "lv y * unat q + unat carry = lo + 2 ^ 32 * (lv (tl y) * unat q + hi)"
    using up lohi(1) by (simp add: y algebra_simps)
  have "int (lv (tl y) * unat q + hi) + b \<le> int (lv xs)"
  proof -
    have "int lo + 2 ^ 32 * int (lv (tl y) * unat q + hi) + borrow \<le> int (unat x) + 2 ^ 32 * int (lv xs)"
      using Cons.prems(1) unfolding total by simp
    then have "2 ^ 32 * int (lv (tl y) * unat q + hi) \<le> t + 2 ^ 32 * int (lv xs)"
      unfolding t by linarith
    then show ?thesis using s tb by (auto split: if_splits)
  qed
  then have "int (lv (sub_mul_limbs q (drop_bit 32 p) b xs (tl y)))
      = int (lv xs) - b - int (lv (tl y) * unat q + hi)"
    using s(2) hi Cons.IH [of "tl y" "drop_bit 32 p" b] unfolding unat_hi hi_def by auto
  moreover have "sub_mul_limbs q carry borrow (x # xs) y = z # sub_mul_limbs q (drop_bit 32 p) b xs (tl y)"
    by (simp only: sub_mul_limbs.simps p_def [symmetric] Let_def t_def [symmetric] zb prod.case)
  ultimately show ?case
    using s(1) unfolding total t by simp
qed

lemma sub_mul_small_spec:
  "lv b * unat q \<le> lv a \<Longrightarrow> lv (sub_mul_small a b q) = lv a - lv b * unat q \<and> trimmed (sub_mul_small a b q)"
proof -
  assume le: "lv b * unat q \<le> lv a"
  obtain k where k: "lv b * unat q = k" by simp
  have "int (lv b * unat q + unat (0 :: u64)) + 0 \<le> int (lv a)" using le unfolding k by simp
  from sub_mul_limbs_spec [OF this] have "int (lv (sub_mul_limbs q 0 0 a b)) = int (lv a) - int k"
    unfolding k by simp
  then have "lv (sub_mul_limbs q 0 0 a b) = lv a - k" using le unfolding k by linarith
  then show ?thesis by (simp add: sub_mul_small_def k)
qed

section \<open>Division by a limb\<close>

lemma unat_join:
  assumes "unat (r :: u64) < 2 ^ 32"
  shows "unat (push_bit 32 r OR ucast (x :: u32)) = unat r * 2 ^ 32 + unat x"
proof -
  have "push_bit 32 r OR ucast x = push_bit 32 r + ucast x"
    by (rule disjunctive_add [symmetric]) (auto simp: bit_push_bit_iff bit_ucast_iff dest: bit_imp_le_length)
  moreover have "unat r * 2 ^ 32 < 2 ^ 64" using assms by simp
  then have "unat (push_bit 32 r) = unat r * 2 ^ 32"
    by (simp only: unsigned_push_bit_eq) (simp add: take_bit_eq_mod push_bit_eq_mult)
  moreover have "unat r * 2 ^ 32 + unat x < 2 ^ 64" using assms u32_less [of x] by simp
  ultimately show ?thesis by (simp add: unat_add_fits unat_up)
qed

lemma div_limbs_spec:
  assumes "unat rem < unat v" "div_limbs v rem xs = (ys, r)"
  shows "unat rem * 2 ^ (32 * length xs) + lv (rev xs) = unat v * lv (rev ys) + unat r \<and> unat r < unat v
    \<and> length ys = length xs"
  using assms
proof (induction xs arbitrary: rem ys)
  case (Cons x xs)
  define t where "t = push_bit 32 rem OR ucast x"
  have rem: "unat rem < 2 ^ 32" using Cons.prems(1) u32_less [of v] by linarith
  have t: "unat t = unat rem * 2 ^ 32 + unat x" unfolding t_def by (rule unat_join [OF rem])
  have v: "unat (ucast v :: u64) = unat v" by (rule unat_up)
  obtain zs where zs: "div_limbs v (t mod ucast v) xs = (zs, r)" "ys = ucast (t div ucast v) # zs"
    using Cons.prems(2) by (auto simp: t_def [symmetric] Let_def split: prod.splits)
  have m: "unat (t mod ucast v) = unat t mod unat v" by (simp only: unat_mod v)
  have d: "unat (t div ucast v) = unat t div unat v" by (simp only: unat_div v)
  have "unat t div unat v < 2 ^ 32"
  proof -
    have "unat t < (unat rem + 1) * 2 ^ 32" using t u32_less [of x] by simp
    also have "\<dots> \<le> unat v * 2 ^ 32" using Cons.prems(1) by (intro mult_right_mono) simp_all
    finally show ?thesis by (simp add: less_mult_imp_div_less mult.commute)
  qed
  then have q: "unat (ucast (t div ucast v) :: u32) = unat t div unat v" by (simp only: unat_lo d) simp
  have "unat (t mod ucast v) < unat v" using Cons.prems(1) by (simp only: m) simp
  from Cons.IH [OF this zs(1)]
  have IH: "unat t mod unat v * 2 ^ (32 * length xs) + lv (rev xs) = unat v * lv (rev zs) + unat r"
    "unat r < unat v" "length zs = length xs" by (simp_all only: m)
  define P :: nat where "P = 2 ^ (32 * length xs)"
  have ysv: "lv (rev ys) = lv (rev zs) + P * (unat t div unat v)"
    by (simp add: zs(2) lv_append q P_def IH(3))
  have "unat rem * 2 ^ (32 * length (x # xs)) + lv (rev (x # xs)) = unat t * P + lv (rev xs)"
    by (simp add: t lv_append P_def power_add algebra_simps)
  also have "\<dots> = (unat v * (unat t div unat v) + unat t mod unat v) * P + lv (rev xs)" by simp
  also have "\<dots> = unat v * ((unat t div unat v) * P) + (unat t mod unat v * P + lv (rev xs))"
    by (simp only: distrib_right distrib_left ac_simps)
  also have "\<dots> = unat v * ((unat t div unat v) * P) + (unat v * lv (rev zs) + unat r)"
    by (simp only: IH(1) [folded P_def])
  also have "\<dots> = unat v * lv (rev ys) + unat r"
    by (simp only: ysv distrib_left ac_simps)
  finally show ?case using IH by (simp add: zs)
qed simp

lemma div_small_spec:
  assumes "0 < unat v" "div_small b v = (d, r)"
  shows "lv d = lv b div unat v" "unat r = lv b mod unat v" "trimmed d"
proof -
  obtain ys s where ys: "div_limbs v 0 (rev b) = (ys, s)" by (cases "div_limbs v 0 (rev b)") auto
  have spec: "lv b = unat v * lv (rev ys) + unat s" "unat s < unat v"
    using div_limbs_spec [OF _ ys] assms(1) by simp_all
  have us: "unat (ucast s :: u32) = unat s"
    using spec(2) u32_less [of v] by (simp only: unat_lo) simp
  have "d = trim (rev ys)" "r = ucast s" using assms(2) by (simp_all add: div_small_def ys)
  with spec us show "lv d = lv b div unat v" "unat r = lv b mod unat v" "trimmed d"
    by simp_all
qed

section \<open>A digit of a quotient\<close>

lemma lv_top:
  assumes "length b = Suc n"
  shows "lv b = lv (take n b) + 2 ^ (32 * n) * unat (b ! n)"
proof -
  have "b = take n b @ [b ! n]" using assms by (metis append_eq_conv_conj lessI list.size(3) take_Suc_conv_app_nth take_all_iff order_refl)
  then have "lv b = lv (take n b @ [b ! n])" by simp
  then show ?thesis using assms by (simp add: lv_append)
qed

lemma lv_top2:
  assumes "length b = Suc (Suc n)"
  shows "lv b = lv (take n b) + 2 ^ (32 * n) * (unat (b ! Suc n) * 2 ^ 32 + unat (b ! n))"
proof -
  have "lv (take (Suc n) b) = lv (take n (take (Suc n) b)) + 2 ^ (32 * n) * unat (take (Suc n) b ! n)"
    using assms by (intro lv_top) simp
  then show ?thesis
    using lv_top [OF assms] by (simp add: power_add algebra_simps min_def)
qed

lemma quotient_estimate:
  fixes b s T S P q :: nat
  assumes "S * P \<le> s" "s < (S + 1) * P" "T * P \<le> b" "b < (T + 1) * P" "b < 10 * s" "2 ^ 31 \<le> S" "q = T div (S + 1)"
  shows "q < 10" "s * q \<le> b" "b - s * q < 2 * s"
proof -
  have qT: "q * (S + 1) \<le> T" "T + 1 \<le> (q + 1) * (S + 1)"
    using div_times_less_eq_dividend [of T "S + 1"] dividend_less_div_times [of "S + 1" T]
    unfolding assms(7) by simp_all
  have "s * q \<le> (S + 1) * P * q" using assms(2) by (intro mult_right_mono) simp_all
  also have "\<dots> = q * (S + 1) * P" by (simp only: ac_simps)
  also have "\<dots> \<le> T * P" using qT(1) by (intro mult_right_mono) simp_all
  finally show le: "s * q \<le> b" using assms(3) by linarith
  have s: "0 < s" using assms(5) by simp
  show q: "q < 10"
  proof (rule ccontr)
    assume "\<not> q < 10"
    then have "s * 10 \<le> s * q" by (intro mult_left_mono) simp_all
    with le assms(5) show False by simp
  qed
  have "10 * P \<le> S * P" using assms(6) by (intro mult_right_mono) simp_all
  then have P: "10 * P \<le> s" using assms(1) by linarith
  have "(T + 1) * P \<le> (q + 1) * (S + 1) * P" using qT(2) by (rule mult_right_mono) simp
  also have "\<dots> = (q + 1) * (S * P) + (q + 1) * P" by (simp only: distrib_left distrib_right ac_simps mult_1)
  also have "\<dots> \<le> (q + 1) * s + 10 * P"
    using assms(1) q by (intro add_mono mult_left_mono mult_right_mono) simp_all
  also have "\<dots> \<le> (q + 1) * s + s" using P by simp
  finally have "b < s * q + 2 * s" using assms(4) by (simp add: algebra_simps)
  then show "b - s * q < 2 * s" using le by linarith
qed

text \<open>One step of the digit generation: the quotient, below ten, and the remainder.\<close>

lemma div_digit_spec:
  assumes "trimmed b" "trimmed s" "s \<noteq> []" "2 ^ 31 \<le> unat (last s)" "lv b < 10 * lv s"
  shows "\<exists>r d. div_digit b s = Some (r, d) \<and> lv r = lv b mod lv s \<and> trimmed r \<and> unat d = lv b div lv s"
proof (cases "length b < length s")
  case True
  then have "lv b < lv s" using assms(2) by (rule lv_less_length)
  with True assms(1) show ?thesis by (simp add: div_digit_def)
next
  case False
  define n where "n = length s - 1"
  define P :: nat where "P = 2 ^ (32 * n)"
  define S where "S = unat (s ! n)"
  have len: "length s = Suc n" using assms(3) by (simp add: n_def)
  have last: "last s = s ! n" using assms(3) by (simp add: last_conv_nth n_def)
  have s: "lv s = lv (take n s) + P * S" unfolding P_def S_def by (rule lv_top [OF len])
  have lt: "lv (take n x) < P" if "n \<le> length x" for x
  proof -
    have "length (take n x) = n" using that by simp
    then show ?thesis using lv_less [of "take n x"] by (simp only: P_def)
  qed
  have sP: "S * P \<le> lv s" "lv s < (S + 1) * P" using s lt [of s] len by (simp_all add: algebra_simps)
  define top where "top = (if Suc n < length b then push_bit 32 (ucast (b ! Suc n)) OR ucast (b ! n)
     else ucast (b ! n) :: u64)"
  have lb: "length b \<le> Suc (Suc n)"
  proof (rule length_le [OF assms(1)])
    have "lv s < 2 ^ (32 * Suc n)" using lv_less [of s] len by simp
    then have "10 * lv s < 2 ^ 32 * 2 ^ (32 * Suc n)" by simp
    then show "lv b < 2 ^ (32 * Suc (Suc n))" using assms(5) by (simp add: power_add)
  qed
  have T: "lv b = lv (take n b) + P * unat top"
  proof (cases "length b = Suc (Suc n)")
    case True
    then have "unat top = unat (b ! Suc n) * 2 ^ 32 + unat (b ! n)"
      using unat_join [of "ucast (b ! Suc n)" "b ! n"] u32_less [of "b ! Suc n"] by (simp add: top_def unat_up)
    then show ?thesis using lv_top2 [OF True] by (simp add: P_def)
  next
    case F: False
    with False lb len have "length b = Suc n" by simp
    then show ?thesis using lv_top [of b n] by (simp add: P_def top_def unat_up)
  qed
  have bP: "unat top * P \<le> lv b" "lv b < (unat top + 1) * P"
    using T lt [of b] False len by (simp_all add: algebra_simps)
  define q where "q = unat top div (S + 1)"
  have S31: "2 ^ 31 \<le> S" using assms(4) by (simp add: S_def last)
  note est = quotient_estimate [OF sP bP assms(5) S31 q_def]
  define qw where "qw = (ucast (top div (ucast (s ! n) + 1)) :: u32)"
  have den: "unat (ucast (s ! n) + 1 :: u64) = S + 1"
    using u32_less [of "s ! n"] by (subst unat_add_fits) (simp_all add: unat_up S_def)
  have uq: "unat qw = q"
    using est(1) by (simp only: qw_def unat_lo unat_div den q_def) simp
  define b' where "b' = (if 0 < qw then sub_mul_small b s qw else b)"
  have b': "lv b' = lv b - lv s * q" "trimmed b'"
  proof -
    have "qw = 0 \<longleftrightarrow> q = 0" using uq unat_eq_zero [of qw] by simp
    then show "lv b' = lv b - lv s * q" "trimmed b'"
      using sub_mul_small_spec [of s qw b] est(2) assms(1) by (auto simp: b'_def uq word_gt_0)
  qed
  have code: "div_digit b s = map_option (\<lambda>(b, q). (b, ucast q)) (div_fix 2 b' s qw)"
    using False [unfolded len]
    by (simp only: div_digit_def Let_def len if_False diff_Suc_1 Suc_eq_plus1 [symmetric]
        top_def [symmetric] qw_def [symmetric] b'_def [symmetric])
  have sp: "0 < lv s" using assms(5) by simp
  show ?thesis
  proof (cases "lv b' < lv s")
    case True
    then have "big_cmp b' s = Less" using b'(2) assms(2) by (simp add: big_cmp_spec int_cmp_def)
    then have "div_digit b s = Some (b', ucast qw)" by (simp add: code numeral_2_eq_2)
    moreover have "lv b = lv s * q + lv b'" using b'(1) est(2) by simp
    then have "lv b div lv s = q" "lv b mod lv s = lv b'" using True by simp_all
    moreover have "unat (ucast qw :: u8) = q" using est(1) by (simp add: unsigned_ucast_eq uq take_bit_nat_eq_self_iff)
    ultimately show ?thesis using b'(2) by simp
  next
    case F: False
    have c1: "big_cmp b' s \<noteq> Less" using F b'(2) assms(2) by (simp add: big_cmp_spec int_cmp_def)
    define b2 where "b2 = sub_assign b' s"
    have b2: "lv b2 = lv b' - lv s" "trimmed b2" using sub_assign_spec [of s b'] F by (simp_all add: b2_def)
    have lt2: "lv b2 < lv s" using b2(1) b'(1) est(3) by simp
    then have "big_cmp b2 s = Less" using b2(2) assms(2) by (simp add: big_cmp_spec int_cmp_def)
    with c1 have "div_digit b s = Some (b2, ucast (qw + 1))"
      by (simp add: code numeral_2_eq_2 b2_def)
    moreover have eq: "lv b = lv s * (q + 1) + lv b2" using b'(1) b2(1) est(2) F by (simp add: algebra_simps)
    then have "lv b div lv s = q + 1" "lv b mod lv s = lv b2"
      using lt2 div_mult_self4 [of "lv s" "q + 1" "lv b2"] by (simp_all only: mod_mult_self4 mod_less) simp_all
    moreover have "unat (qw + 1) = q + 1" using est(1) uq by (simp add: unat_word_ariths)
    then have "unat (ucast (qw + 1) :: u8) = q + 1"
      using est(1) by (simp add: unsigned_ucast_eq take_bit_nat_eq_self_iff)
    ultimately show ?thesis using b2(2) by simp
  qed
qed

section \<open>Bits of a bignum\<close>

lemma unat_limb: "unat (limb b i) = lv b div 2 ^ (32 * i) mod 2 ^ 32"
proof (induction b arbitrary: i)
  case Nil
  then show ?case by (simp add: limb_def)
next
  case (Cons x b)
  show ?case
  proof (cases i)
    case 0
    then show ?thesis using u32_less [of x] by (simp add: limb_def)
  next
    case (Suc j)
    have d: "(unat x + 2 ^ 32 * lv b) div 2 ^ 32 = lv b"
      using u32_less [of x] by simp
    have "lv (x # b) div 2 ^ (32 * i) = (unat x + 2 ^ 32 * lv b) div 2 ^ 32 div 2 ^ (32 * j)"
      by (simp only: Suc mult_Suc_right power_add div_mult2_eq lv.simps)
    then have "lv (x # b) div 2 ^ (32 * i) = lv b div 2 ^ (32 * j)" by (simp only: d)
    moreover have "limb (x # b) i = limb b j" by (simp add: limb_def Suc)
    ultimately show ?thesis using Cons.IH [of j] by simp
  qed
qed

lemma div_mod_join:
  fixes V :: nat
  assumes "0 < k" "k < 32"
  shows "(V mod 2 ^ 32 div 2 ^ k + V div 2 ^ 32 mod 2 ^ 32 * 2 ^ (32 - k)) mod 2 ^ 32 = V div 2 ^ k mod 2 ^ 32"
proof -
  define M N B :: nat where "M = 2 ^ (32 - k)" and "N = 2 ^ k" and "B = 2 ^ 32"
  have B: "B = M * N" "0 < N" using assms by (simp_all add: M_def N_def B_def flip: power_add)
  define L W where "L = V mod B" and "W = V div B"
  have V: "V = L + N * (M * W)" using mod_mult_div_eq [of V B] B by (simp add: L_def W_def ac_simps)
  have "V div N = M * W + L div N" unfolding V using B(2) by simp
  moreover have "(L div N + W mod B * M) mod B = (M * W + L div N) mod B"
  proof -
    have "W mod B * M mod B = M * W mod B" by (simp only: mod_mult_left_eq mult.commute [of M])
    then have "(L div N + W mod B * M) mod B = (L div N + M * W) mod B" by (rule mod_add_cong [OF refl])
    then show ?thesis by (simp only: add.commute)
  qed
  ultimately show ?thesis by (simp add: L_def W_def M_def N_def B_def)
qed

lemma unat_shr_word: "unat (shr_word b pos) = lv b div 2 ^ pos mod 2 ^ 32"
proof -
  define i k where "i = pos div 32" and "k = pos mod 32"
  have pos: "lv b div 2 ^ pos = lv b div 2 ^ (32 * i) div 2 ^ k"
    by (simp add: i_def k_def flip: div_mult2_eq power_add)
  have suc: "unat (limb b (i + 1)) = lv b div 2 ^ (32 * i) div 2 ^ 32 mod 2 ^ 32"
    by (simp only: unat_limb distrib_left power_add div_mult2_eq mult_1_right)
  show ?thesis
  proof (cases "k = 0")
    case True
    then show ?thesis unfolding pos by (simp add: shr_word_def i_def [symmetric] k_def [symmetric] unat_limb)
  next
    case False
    then have k: "0 < k" "k < 32" by (simp_all add: k_def)
    define w where "w = push_bit (32 - k) (limb b (i + 1)) OR drop_bit k (limb b i)"
    have w: "shr_word b pos = w"
      using False by (simp add: shr_word_def i_def [symmetric] k_def [symmetric] w_def Let_def or.commute)
    have "unat w = unat (limb b (i + 1)) * 2 ^ (32 - k) mod 2 ^ 32 + unat (limb b i) div 2 ^ k"
      unfolding w_def using unat_shl_limb [of "32 - k" "limb b (i + 1)" "limb b i"] k by simp
    moreover have "unat w < 2 ^ 32" by (rule u32_less)
    ultimately have "unat w = (unat (limb b i) div 2 ^ k + unat (limb b (i + 1)) * 2 ^ (32 - k)) mod 2 ^ 32"
      by (metis add.commute mod_add_right_eq mod_less)
    then show ?thesis
      by (simp only: w pos suc unat_limb [of b i] div_mod_join [OF k])
  qed
qed

lemma bit_shr_word: "bit (shr_word b pos) n \<longleftrightarrow> n < 32 \<and> bit (lv b) (pos + n)"
proof -
  have "bit (shr_word b pos) n \<longleftrightarrow> bit (unat (shr_word b pos)) n"
    by (simp add: bit_unsigned_iff)
  also have "unat (shr_word b pos) = take_bit 32 (drop_bit pos (lv b))"
    unfolding unat_shr_word take_bit_eq_mod drop_bit_eq_div ..
  finally show ?thesis by (simp add: bit_take_bit_iff bit_drop_bit_eq)
qed

lemma unat_shr_to_u128: "unat (shr_to_u128 b bits) = lv b div 2 ^ bits mod 2 ^ 128"
proof -
  have "bit (shr_to_u128 b bits) n \<longleftrightarrow> n < 128 \<and> bit (lv b) (bits + n)" for n
  proof -
    have u: "[0..<4] = [0, 1, 2, 3 :: nat]" by (simp add: upt_rec)
    have "bit (push_bit (32 * j) (ucast (shr_word b (bits + 32 * j)) :: u128)) n
        \<longleftrightarrow> 32 * j \<le> n \<and> n < 32 * j + 32 \<and> n < 128 \<and> bit (lv b) (bits + n)" if "j < 4" for j
      using that by (auto simp: bit_push_bit_iff bit_ucast_iff bit_shr_word)
    note w = this [of 0, simplified] this [of 1, simplified] this [of 2, simplified] this [of 3, simplified]
    have "n < 32 \<or> 32 \<le> n \<and> n < 64 \<or> 64 \<le> n \<and> n < 96 \<or> 96 \<le> n" by linarith
    then show ?thesis
      by (elim disjE) (simp_all add: shr_to_u128_def u bit_or_iff w)
  qed
  then have "unat (shr_to_u128 b bits) = take_bit 128 (drop_bit bits (lv b))"
    by (intro bit_eqI) (simp add: bit_unsigned_iff bit_take_bit_iff bit_drop_bit_eq)
  then show ?thesis by (simp only: take_bit_eq_mod drop_bit_eq_div)
qed

end
