(* ===== verification/FloatFmt.thy ===== *)
theory FloatFmt
  imports BigNum
begin

text \<open>
  Float to text (\<open>float_fmt.rs\<close>): the exact digit generation, the Schubfach computation of the
  shortest digits with its table of powers of ten, and PHP's layout.  Digits are ASCII bytes; a
  pair \<open>(ds, x)\<close> stands for \<open>d1.d2d3\<dots> \<times> 10\<^sup>x\<close>.  Functions that write to a buffer return what they
  write.  \<open>None\<close> is a loop that does not end: \<open>emit_u64\<close> of zero, or a quotient correction that
  \<open>div_digit_spec\<close> excludes.
\<close>

section \<open>Writing integers\<close>

definition max_digits :: nat where
  "max_digits = 800"

fun u64_digits :: "nat \<Rightarrow> bytes \<Rightarrow> bytes" where
  "u64_digits v out =
     (let out' = digit_byte (v mod 10) # out; v' = v div 10 in if v' = 0 then out' else u64_digits v' out')"

declare u64_digits.simps [simp del]

definition write_u64 :: "u64 \<Rightarrow> bytes" where
  "write_u64 v = u64_digits (unat v) []"

fun strip10 :: "nat \<Rightarrow> nat \<Rightarrow> nat \<times> nat" where
  "strip10 v zeros = (if v mod 10 = 0 \<and> 0 < v then strip10 (v div 10) (zeros + 1) else (v, zeros))"

declare strip10.simps [simp del]

definition emit_u64 :: "u64 \<Rightarrow> (bytes \<times> int) option" where
  "emit_u64 v =
     (if v = 0 then None
      else let (w, zeros) = strip10 (unat v) 0; ds = u64_digits w [] in
        Some (ds, int zeros + int (length ds) - 1))"

section \<open>Logarithms\<close>

definition flog10pow2 :: "int \<Rightarrow> int" where
  "flog10pow2 q = q * 1292913986 div 2 ^ 32"

definition flog10_3q_pow2 :: "int \<Rightarrow> int" where
  "flog10_3q_pow2 q = (q * 1292913986 - 536607788) div 2 ^ 32"

definition flog2pow10 :: "int \<Rightarrow> int" where
  "flog2pow10 e = e * 14267572527 div 2 ^ 32"

section \<open>Exact digits\<close>

definition decompose :: "f64 \<Rightarrow> u64 \<times> int" where
  "decompose f =
     (let bits = to_bits f;
          be = uint (drop_bit 52 bits AND 0x7FF);
          fr = bits AND (push_bit 52 1 - 1) in
      if be = 0 then (fr, - 1074) else (fr OR push_bit 52 1, be - 1075))"

text \<open>The loop of \<open>round_up\<close> from the last digit; \<open>None\<close> when all digits are nines.\<close>

fun round_up_rev :: "bytes \<Rightarrow> bytes option" where
  "round_up_rev [] = None"
| "round_up_rev (c # r) = (if c = 0x39 then round_up_rev r else Some ((c + 1) # r))"

definition round_up :: "bytes \<Rightarrow> int \<Rightarrow> bytes \<times> int" where
  "round_up ds x =
     (case round_up_rev (rev ds) of None \<Rightarrow> ([0x31], x + 1) | Some r \<Rightarrow> (rev r, x))"

fun strip_rev :: "bytes \<Rightarrow> bytes" where
  "strip_rev (c # d # r) = (if c = 0x30 then strip_rev (d # r) else c # d # r)"
| "strip_rev r = r"

definition strip_zeros :: "bytes \<Rightarrow> bytes" where
  "strip_zeros ds = rev (strip_rev (rev ds))"

text \<open>The digit loop of \<open>fixed_exact\<close>, for at most \<open>n\<close> digits, with the remainder left.\<close>

fun gen_digits :: "nat \<Rightarrow> big \<Rightarrow> big \<Rightarrow> (bytes \<times> big) option" where
  "gen_digits 0 r s = None"
| "gen_digits (Suc n) r s =
     (case div_digit r s of None \<Rightarrow> None
      | Some (r', d) \<Rightarrow>
        if big_is_zero r' \<or> n = 0 then Some ([0x30 + d], r')
        else map_option (\<lambda>(ds, r''). ((0x30 + d) # ds, r'')) (gen_digits n (mul_small r' 10) s))"

text \<open>The operands of \<open>fixed_exact\<close>: \<open>f = r / s \<times> 10\<^sup>k\<close> with \<open>1 \<le> r / s < 10\<close>.\<close>

definition scaled :: "u64 \<Rightarrow> int \<Rightarrow> big \<times> big \<times> int" where
  "scaled m e =
     (let bl = int (bit_len (unat m)); k = flog10pow2 (e + bl - 1);
          r = big_of_u64 m; s = big_of_u64 1;
          (r, s) = (if 0 \<le> e then (big_shl r (nat e), s) else (r, big_shl s (nat (- e))));
          (r, s) = (if 0 \<le> k then (r, mul_pow10 s (nat k)) else (mul_pow10 r (nat (- k)), s));
          s10 = mul_small s 10 in
      if big_cmp r s10 \<noteq> Less then (r, s10, k + 1) else (r, s, k))"

definition round_last :: "bytes \<Rightarrow> big \<Rightarrow> big \<Rightarrow> int \<Rightarrow> bytes \<times> int" where
  "round_last ds r s k =
     (if big_is_zero r then (ds, k)
      else
        let up = (case big_cmp (big_shl r 1) s of Greater \<Rightarrow> True
                  | Equal \<Rightarrow> (last ds - 0x30) AND 1 = 1 | Less \<Rightarrow> False) in
        if up then round_up ds k else (ds, k))"

definition fixed_exact :: "f64 \<Rightarrow> nat \<Rightarrow> nat \<Rightarrow> (bytes \<times> int) option" where
  "fixed_exact f n buf_len =
     (let (m, e) = decompose f; n = max 1 (min n buf_len);
          (r, s, k) = scaled m e;
          sh = 32 - bit_len (unat (last s)) in
      case gen_digits n (big_shl r sh) (big_shl s sh) of None \<Rightarrow> None
      | Some (ds, r) \<Rightarrow>
        let (ds, k) = round_last ds r (big_shl s sh) k in Some (strip_zeros ds, k))"

section \<open>Schubfach\<close>

definition g_min :: int where "g_min = - 292"
definition g_max :: int where "g_max = 324"
definition g_len :: nat where "g_len = nat (g_max - g_min + 1)"

text \<open>The two loops that fill the table: \<open>n\<close> more entries from \<open>e\<close> (or \<open>j\<close>) on.\<close>

fun g_pos :: "nat \<Rightarrow> big \<Rightarrow> nat \<Rightarrow> u128 list" where
  "g_pos 0 p5 e = []"
| "g_pos (Suc n) p5 e =
     (let p5 = (if 0 < e then mul_small p5 5 else p5);
          sh = int e + 125 - flog2pow10 (int e);
          v = (if 0 \<le> sh then shr_to_u128 (big_shl p5 (nat sh)) 0 else shr_to_u128 p5 (nat (- sh))) in
      (v + 1) # g_pos n p5 (e + 1))"

fun g_neg :: "nat \<Rightarrow> big \<Rightarrow> nat \<Rightarrow> u128 list" where
  "g_neg 0 x j = []"
| "g_neg (Suc n) x j =
     (let (x, _) = div_small x 5; a = 125 - flog2pow10 (- int j) - int j in
      (shr_to_u128 x (nat (1000 - a)) + 1) # g_neg n x (j + 1))"

definition g_table :: "u128 list" where
  "g_table = rev (g_neg (nat (- g_min)) (big_shl (big_of_u64 1) 1000) 1)
     @ g_pos (nat (g_max + 1)) (big_of_u64 1) 0"

definition mask63 :: u64 where
  "mask63 = push_bit 63 1 - 1"

definition rop :: "u128 \<Rightarrow> u64 \<Rightarrow> u64" where
  "rop g cp =
     (let g1 = ucast (drop_bit 63 g) :: u64;
          g0 = ucast g AND mask63;
          x1 = ucast (drop_bit 64 (ucast g0 * ucast cp :: u128)) :: u64;
          y = ucast g1 * ucast cp :: u128;
          z = drop_bit 1 (ucast y :: u64) + x1;
          vbp = ucast (drop_bit 64 y) + drop_bit 63 z in
      vbp OR (if z AND mask63 \<noteq> 0 then 1 else 0))"

fun trailing_zeros :: "nat \<Rightarrow> nat" where
  "trailing_zeros n = (if n = 0 \<or> odd n then 0 else Suc (trailing_zeros (n div 2)))"

declare trailing_zeros.simps [simp del]

text \<open>The choice among the candidates, from the approximate bounds.\<close>

definition pick_shortest :: "u64 \<Rightarrow> u64 \<Rightarrow> u64 \<Rightarrow> u64 \<Rightarrow> u64" where
  "pick_shortest out vb vbl vbr =
     (let s = drop_bit 2 vb;
          sp10 = s div 10 * 10; tp10 = sp10 + 10;
          upin = (vbl + out \<le> push_bit 2 sp10);
          wpin = (push_bit 2 tp10 + out \<le> vbr) in
      if upin \<noteq> wpin then (if upin then sp10 else tp10)
      else
        let t = s + 1;
            uin = (vbl + out \<le> push_bit 2 s);
            win = (push_bit 2 t + out \<le> vbr) in
        if uin \<noteq> win then (if uin then s else t)
        else
          let mid = push_bit 1 (s + t) in
          if vb < mid \<or> (vb = mid \<and> s AND 1 = 0) then s else t)"

definition shortest_raw :: "f64 \<Rightarrow> (bytes \<times> int) option" where
  "shortest_raw f =
     (let bits = to_bits f;
          be = uint (drop_bit 52 bits AND 0x7FF);
          fr = bits AND (push_bit 52 1 - 1);
          (c, q) = (if be = 0 then (fr, - 1074) else (fr OR push_bit 52 1, be - 1075)) in
      if - 52 \<le> q \<and> q \<le> 0 \<and> - q \<le> (if c = 0 then 64 else int (trailing_zeros (unat c)))
      then emit_u64 (drop_bit (nat (- q)) c)
      else
        let cb = push_bit 2 c; cbr = cb + 2;
            (cbl, k) = (if fr \<noteq> 0 \<or> be \<le> 1 then (cb - 2, flog10pow2 q) else (cb - 1, flog10_3q_pow2 q));
            g = g_table ! nat (- k - g_min);
            h = nat (q + flog2pow10 (- k) + 2);
            vb = rop g (push_bit h cb); vbl = rop g (push_bit h cbl); vbr = rop g (push_bit h cbr) in
        case emit_u64 (pick_shortest (c AND 1) vb vbl vbr) of None \<Rightarrow> None
        | Some (ds, x) \<Rightarrow> Some (ds, x + k))"

definition shortest :: "f64 \<Rightarrow> (bytes \<times> int) option" where
  "shortest f = (if f_eq f (F64 0) then Some ([0x30], 0) else shortest_raw (f_abs f))"

definition fixed_small :: "f64 \<Rightarrow> nat \<Rightarrow> (bytes \<times> int) option" where
  "fixed_small f n =
     (case shortest_raw f of None \<Rightarrow> None
      | Some (ds, x) \<Rightarrow>
        if length ds \<le> n then Some (ds, x)
        else if length ds = n + 1 \<and> ds ! n = 0x35 then fixed_exact f n 20
        else let (ds, x) = (if 0x35 \<le> ds ! n then round_up (take n ds) x else (take n ds, x)) in
          Some (strip_zeros ds, x))"

definition f_min_positive :: f64 where
  "f_min_positive = of_view (Fin False (2 ^ 52) (- 1074))"

definition fixed_digits :: "f64 \<Rightarrow> nat \<Rightarrow> (bytes \<times> int) option" where
  "fixed_digits f ndigits =
     (if f_eq f (F64 0) then Some ([0x30], 0)
      else let a = f_abs f; n = max 1 (min ndigits max_digits) in
        if n \<le> 15 \<and> f_le f_min_positive a then fixed_small a n else fixed_exact a n max_digits)"

section \<open>PHP's layout\<close>

definition layout :: "bytes \<Rightarrow> int \<Rightarrow> nat \<Rightarrow> u8 \<Rightarrow> bytes" where
  "layout d x p exp_marker =
     (if x < - 4 \<or> int p \<le> x then
        d ! 0 # 0x2E # (if 1 < length d then drop 1 d else [0x30])
        @ exp_marker # (if x < 0 then 0x2D else 0x2B) # write_u64 (word_of_nat (nat \<bar>x\<bar>))
      else if x < 0 then ascii ''0.'' @ replicate (nat (- x - 1)) 0x30 @ d
      else
        let ip = nat x + 1 in
        if length d \<le> ip then d @ replicate (ip - length d) 0x30
        else take ip d @ 0x2E # drop ip d)"

definition pow10_f64 :: "f64 list" where
  "pow10_f64 = map (\<lambda>i. f_of_int (10 ^ i)) [0..<17]"

definition format_long :: "f64 \<Rightarrow> nat \<Rightarrow> u8 \<Rightarrow> bytes option" where
  "format_long a p exp_marker =
     map_option (\<lambda>(ds, x). layout ds x p exp_marker) (fixed_exact a (min p max_digits) max_digits)"

definition format_php_repr :: "f64 \<Rightarrow> int \<Rightarrow> u8 \<Rightarrow> bytes option" where
  "format_php_repr f precision exp_marker =
     (if is_nan f then Some (ascii ''NAN'')
      else
        let sign = (if f64_sign f then [0x2D] else []); a = f_abs f in
        map_option (\<lambda>b. sign @ b)
         (if is_infinite a then Some (ascii ''INF'')
          else if f_eq a (F64 0) then Some [0x30]
          else
            let p = (if precision = - 1 then 17 else if precision < 1 then 1 else nat precision) in
            if f_lt a (f_of_int 9007199254740992) \<and> f_eq (f_trunc a) a \<and> (16 < p \<or> f_lt a (pow10_f64 ! p))
            then Some (write_u64 (f_as_u64 a))
            else if precision = - 1
            then map_option (\<lambda>(ds, x). layout ds x p exp_marker) (shortest_raw a)
            else if p \<le> 15 \<and> f_le f_min_positive a
            then map_option (\<lambda>(ds, x). layout ds x p exp_marker) (fixed_small a p)
            else format_long a p exp_marker))"

definition format_php :: "f64 \<Rightarrow> int \<Rightarrow> bytes option" where
  "format_php f precision =
     (if \<not> is_finite f then
        let s = ascii (if is_nan f then ''NAN'' else if f_lt f (F64 0) then ''-INF'' else ''INF'');
            n = (if precision = - 1 then length s else min (nat (max precision 1)) (length s)) in
        Some (take n s)
      else format_php_repr f precision 0x45)"

definition to_php_string :: "f64 \<Rightarrow> int \<Rightarrow> bytes option" where
  "to_php_string f precision = format_php f precision"

end
