(* ===== verification/FloatLogs.thy ===== *)
theory FloatLogs
  imports FloatFmt
begin

text \<open>
  The logarithm approximations of \<open>float_fmt.rs\<close> are exact in the ranges their comments name, and the
  table of powers of ten holds what its comment defines.  The approximations are compared with
  two rational bounds of \<open>log\<^sub>1\<^sub>0 2\<close>, which reduces each exponent to a comparison of small integers.
\<close>

section \<open>Logarithms\<close>

lemma log10_2_bounds: "643 / 2136 < log 10 2" "log 10 2 < 146 / (485 :: real)"
proof -
  have pow: "log 10 (2 ^ 2136 :: real) = real 2136 * log 10 2" "log 10 (2 ^ 485 :: real) = real 485 * log 10 2"
    by (rule log_nat_power; simp)+
  have ten: "log 10 (10 ^ 643 :: real) = real 643" "log 10 (10 ^ 146 :: real) = real 146"
    by (rule log_pow_cancel; simp)+
  have "log 10 (10 ^ 643) < log 10 (2 ^ 2136 :: real)" by (subst log_less_cancel_iff) simp_all
  then show "643 / 2136 < log 10 (2 :: real)" unfolding pow ten by simp
  have "log 10 (2 ^ 485) < log 10 (10 ^ 146 :: real)" by (subst log_less_cancel_iff) simp_all
  then show "log 10 2 < 146 / (485 :: real)" unfolding pow ten by simp
qed

lemma log10_2_scaled:
  "0 \<le> q \<Longrightarrow> real_of_int q * (643 / 2136) \<le> real_of_int q * log 10 2 \<and> real_of_int q * log 10 2 \<le> real_of_int q * (146 / 485)"
  "q < 0 \<Longrightarrow> real_of_int q * (146 / 485) < real_of_int q * log 10 2 \<and> real_of_int q * log 10 2 < real_of_int q * (643 / 2136)"
  using log10_2_bounds by (simp_all add: mult_left_mono mult_strict_left_mono_neg del: times_divide_eq_right)

lemma div_bounds: "k = n div 2 ^ 32 \<Longrightarrow> k * 4294967296 \<le> (n :: int) \<and> n < (k + 1) * 4294967296"
proof -
  assume "k = n div 2 ^ 32"
  then have "k = n div 4294967296" by simp
  then show ?thesis
    using div_mult_mod_eq [of n 4294967296] pos_mod_bound [of 4294967296 n] pos_mod_sign [of 4294967296 n]
    by - (rule conjI; simp)
qed

lemma powi_log: "2 powi q = (10 :: real) powr (real_of_int q * log 10 2)"
proof -
  have "(10 :: real) powr (real_of_int q * log 10 2) = (10 powr log 10 2) powr real_of_int q"
    by (simp only: powr_powr mult.commute)
  also have "\<dots> = 2 powi q" by (simp add: powr_real_of_int')
  finally show ?thesis by simp
qed

lemma powi10: "10 powi k = (10 :: real) powr real_of_int k"
  by (simp add: powr_real_of_int')

text \<open>The floor of the decimal logarithm of a power of two.\<close>

lemma ratio_le:
  fixes q k x :: real
  assumes "485 * k \<le> 146 * q" "643 * q \<le> 2136 * (k + 1)" "q * (146 / 485) < x" "x < q * (643 / 2136)"
  shows "k \<le> x \<and> x < k + 1"
  using assms by simp

lemma flog10pow2_log:
  assumes "\<bar>q\<bar> \<le> 1100"
  shows "real_of_int (flog10pow2 q) \<le> real_of_int q * log 10 2"
    "real_of_int q * log 10 2 < real_of_int (flog10pow2 q) + 1"
proof -
  define k where "k = flog10pow2 q"
  have k: "k * 4294967296 \<le> q * 1292913986" "q * 1292913986 < (k + 1) * 4294967296"
    using div_bounds [of k] by (simp_all add: k_def flog10pow2_def)
  have "real_of_int k \<le> real_of_int q * log 10 2 \<and> real_of_int q * log 10 2 < real_of_int k + 1"
  proof (cases "0 \<le> q")
    case True
    have "2136 * k \<le> 643 * q" using k assms True by linarith
    moreover have "146 * q \<le> 485 * (k + 1)" using k assms True by linarith
    ultimately have "2136 * real_of_int k \<le> 643 * real_of_int q" "146 * real_of_int q \<le> 485 * (real_of_int k + 1)"
      by (simp_all flip: of_int_mult of_int_le_iff of_int_add)
    moreover have "real_of_int q * log 10 2 < real_of_int q * (146 / 485) \<or> q = 0"
      using log10_2_bounds True by auto
    ultimately show ?thesis using log10_2_scaled(1) [OF True] k by auto
  next
    case False
    have "485 * k \<le> 146 * q" using k assms False by linarith
    moreover have "643 * q \<le> 2136 * (k + 1)" using k assms False by linarith
    ultimately have "485 * real_of_int k \<le> 146 * real_of_int q" "643 * real_of_int q \<le> 2136 * (real_of_int k + 1)"
      by (simp_all flip: of_int_mult of_int_le_iff of_int_add)
    moreover have "real_of_int q * (146 / 485) < real_of_int q * log 10 2"
      "real_of_int q * log 10 2 < real_of_int q * (643 / 2136)"
      using log10_2_scaled(2) [of q] False by simp_all
    ultimately show ?thesis using ratio_le by blast
  qed
  then show "real_of_int (flog10pow2 q) \<le> real_of_int q * log 10 2"
    "real_of_int q * log 10 2 < real_of_int (flog10pow2 q) + 1" by (simp_all add: k_def)
qed

lemma flog10pow2_bounds:
  assumes "\<bar>q\<bar> \<le> 1100"
  shows "(10 :: real) powi flog10pow2 q \<le> 2 powi q" "(2 :: real) powi q < 10 powi (flog10pow2 q + 1)"
  using flog10pow2_log [OF assms] unfolding powi_log powi10 by simp_all

text \<open>The floor of the binary logarithm of a power of ten.\<close>

lemma log2_10_bounds: "485 / 146 < log 2 (10 :: real)" "log 2 10 < 2136 / (643 :: real)"
proof -
  have inv: "log 2 (10 :: real) = 1 / log 10 2" by (simp add: log_def)
  have "0 < log 10 (2 :: real)" by simp
  then show "485 / 146 < log 2 (10 :: real)" "log 2 10 < 2136 / (643 :: real)"
    unfolding inv using log10_2_bounds by (simp_all add: divide_less_eq less_divide_eq)
qed

lemma ratio_le2:
  fixes b e x :: real
  shows "146 * b \<le> 485 * e \<Longrightarrow> 2136 * e \<le> 643 * (b + 1) \<Longrightarrow> e * (485 / 146) \<le> x \<Longrightarrow> x < e * (2136 / 643) \<or> e = 0 \<and> x = 0 \<and> b = 0
      \<Longrightarrow> b \<le> x \<and> x < b + 1"
    "643 * b \<le> 2136 * e \<Longrightarrow> 485 * e \<le> 146 * (b + 1) \<Longrightarrow> e * (2136 / 643) < x \<Longrightarrow> x < e * (485 / 146)
      \<Longrightarrow> b \<le> x \<and> x < b + 1"
  by auto

lemma flog2pow10_log:
  assumes "\<bar>e\<bar> \<le> 350"
  shows "real_of_int (flog2pow10 e) \<le> real_of_int e * log 2 10"
    "real_of_int e * log 2 10 < real_of_int (flog2pow10 e) + 1"
proof -
  define b where "b = flog2pow10 e"
  have b: "b * 4294967296 \<le> e * 14267572527" "e * 14267572527 < (b + 1) * 4294967296"
    using div_bounds [of b] by (simp_all add: b_def flog2pow10_def)
  have "real_of_int b \<le> real_of_int e * log 2 10 \<and> real_of_int e * log 2 10 < real_of_int b + 1"
  proof (cases "0 \<le> e")
    case True
    have "146 * b \<le> 485 * e" using b assms True by linarith
    moreover have "2136 * e \<le> 643 * (b + 1)" using b assms True by linarith
    ultimately have "146 * real_of_int b \<le> 485 * real_of_int e" "2136 * real_of_int e \<le> 643 * (real_of_int b + 1)"
      by (simp_all flip: of_int_mult of_int_le_iff of_int_add)
    moreover have "real_of_int e * (485 / 146) \<le> real_of_int e * log 2 10"
      using log2_10_bounds True by (intro mult_left_mono) simp_all
    moreover have "real_of_int e * log 2 10 < real_of_int e * (2136 / 643)
        \<or> real_of_int e = 0 \<and> real_of_int e * log 2 10 = 0 \<and> real_of_int b = 0"
    proof (cases "e = 0")
      case True
      then show ?thesis by (simp add: b_def flog2pow10_def)
    next
      case False
      then have "0 < real_of_int e" using True by simp
      then show ?thesis using log2_10_bounds by (intro disjI1 mult_strict_left_mono) simp_all
    qed
    ultimately show ?thesis by (rule ratio_le2(1))
  next
    case False
    have "643 * b \<le> 2136 * e" using b assms False by linarith
    moreover have "485 * e \<le> 146 * (b + 1)" using b assms False by linarith
    ultimately have "643 * real_of_int b \<le> 2136 * real_of_int e" "485 * real_of_int e \<le> 146 * (real_of_int b + 1)"
      by (simp_all flip: of_int_mult of_int_le_iff of_int_add)
    moreover have "real_of_int e * (2136 / 643) < real_of_int e * log 2 10"
      "real_of_int e * log 2 10 < real_of_int e * (485 / 146)"
      using log2_10_bounds False by (intro mult_strict_left_mono_neg; simp)+
    ultimately show ?thesis by (rule ratio_le2(2))
  qed
  then show "real_of_int (flog2pow10 e) \<le> real_of_int e * log 2 10"
    "real_of_int e * log 2 10 < real_of_int (flog2pow10 e) + 1" by (simp_all add: b_def)
qed

lemma powi_log2: "10 powi e = (2 :: real) powr (real_of_int e * log 2 10)"
proof -
  have "(2 :: real) powr (real_of_int e * log 2 10) = (2 powr log 2 10) powr real_of_int e"
    by (simp only: powr_powr mult.commute)
  also have "\<dots> = 10 powi e" by (simp add: powr_real_of_int')
  finally show ?thesis by simp
qed

lemma powi2: "2 powi k = (2 :: real) powr real_of_int k"
  by (simp add: powr_real_of_int')

lemma flog2pow10_bounds:
  assumes "\<bar>e\<bar> \<le> 350"
  shows "(2 :: real) powi flog2pow10 e \<le> 10 powi e" "(10 :: real) powi e < 2 powi (flog2pow10 e + 1)"
  using flog2pow10_log [OF assms] unfolding powi_log2 powi2 by simp_all

section \<open>The table of powers of ten\<close>

text \<open>\<open>g(e) - 1\<close> before the floor: between \<open>2 ^ 125\<close> and \<open>2 ^ 126\<close>.\<close>

definition g_real :: "int \<Rightarrow> real" where
  "g_real e = 10 powi e * 2 powi (125 - flog2pow10 e)"

lemma g_real_bounds:
  assumes "\<bar>e\<bar> \<le> 350"
  shows "2 ^ 125 \<le> g_real e" "g_real e < 2 ^ 126"
proof -
  note b = flog2pow10_bounds [OF assms]
  have "2 powi flog2pow10 e * 2 powi (125 - flog2pow10 e) \<le> g_real e"
    unfolding g_real_def using b(1) by (rule mult_right_mono) simp
  then show "2 ^ 125 \<le> g_real e" by (simp flip: power_int_add)
  have "g_real e < 2 powi (flog2pow10 e + 1) * 2 powi (125 - flog2pow10 e)"
    unfolding g_real_def using b(2) by (rule mult_strict_right_mono) simp
  then show "g_real e < 2 ^ 126" by (simp flip: power_int_add)
qed

lemma entry_value:
  assumes "\<bar>e\<bar> \<le> 350" "unat (v :: u128) = n mod 2 ^ 128" "int n = \<lfloor>g_real e\<rfloor>"
  shows "int (unat (v + 1)) = \<lfloor>g_real e\<rfloor> + 1"
proof -
  have "\<lfloor>g_real e\<rfloor> < 2 ^ 126" using g_real_bounds(2) [OF assms(1)] by (simp add: floor_less_iff)
  then have "int n < int (2 ^ 126)" using assms(3) by simp
  then have n: "n < 2 ^ 126" by (simp only: of_nat_less_iff)
  then have "unat v = n" using assms(2) by simp
  then have "unat (v + 1) = n + 1" using n by (simp add: unat_word_ariths)
  then show ?thesis using assms(3) by simp
qed

lemma floor_scaled: "\<lfloor>real n * 2 powi s\<rfloor> = int (n * 2 ^ nat s div 2 ^ nat (- s))"
proof (cases "0 \<le> s")
  case True
  then obtain k where "s = int k" using nonneg_int_cases by blast
  then have "real n * 2 powi s = real (n * 2 ^ nat s div 2 ^ nat (- s))" by (simp add: power_int_def)
  then show ?thesis by (simp only: floor_of_nat)
next
  case False
  then obtain k where "s = - int k" by (metis int_cases2 linear neg_0_le_iff_le of_nat_0_le_iff)
  then have "real n * 2 powi s = real n / real (2 ^ k)" by (simp add: power_int_minus divide_inverse)
  then have "\<lfloor>real n * 2 powi s\<rfloor> = int (n div 2 ^ k)" by (simp only: floor_divide_of_nat_eq)
  then show ?thesis using \<open>s = - int k\<close> by simp
qed

lemma powi_add: "(2 :: real) powi (a + b) = 2 powi a * 2 powi b"
  by (simp add: power_int_add)

lemma g_pos_nth:
  assumes "(if 0 < e then lv p5 * 5 else lv p5) = 5 ^ e" "i < n" "e + i \<le> 350"
  shows "int (unat (g_pos n p5 e ! i)) = \<lfloor>g_real (int (e + i))\<rfloor> + 1"
  using assms
proof (induction n arbitrary: p5 e i)
  case (Suc n)
  define p where "p = (if 0 < e then mul_small p5 5 else p5)"
  have p: "lv p = 5 ^ e" using Suc.prems(1) by (cases "0 < e") (simp_all add: p_def lv_mul_small)
  define s where "s = int e + 125 - flog2pow10 (int e)"
  define v where "v = (if 0 \<le> s then shr_to_u128 (big_shl p (nat s)) 0 else shr_to_u128 p (nat (- s)))"
  have unfold: "g_pos (Suc n) p5 e = (v + 1) # g_pos n p (e + 1)"
    by (simp add: p_def [symmetric] s_def [symmetric] v_def Let_def)
  show ?case
  proof (cases i)
    case 0
    have "unat v = (5 ^ e * 2 ^ nat s div 2 ^ nat (- s)) mod 2 ^ 128"
      by (simp add: v_def unat_shr_to_u128 lv_big_shl p)
    moreover have "g_real (int e) = real (5 ^ e) * 2 powi s"
    proof -
      have "(10 :: real) powi int e = 5 ^ e * 2 powi int e" by (simp flip: power_mult_distrib)
      moreover have "s = int e + (125 - flog2pow10 (int e))" by (simp add: s_def)
      then have "2 powi s = (2 :: real) powi int e * 2 powi (125 - flog2pow10 (int e))"
        by (simp only: powi_add)
      ultimately show ?thesis by (simp add: g_real_def)
    qed
    then have "int (5 ^ e * 2 ^ nat s div 2 ^ nat (- s)) = \<lfloor>g_real (int e)\<rfloor>"
      by (simp only: floor_scaled)
    ultimately show ?thesis
      using entry_value [of "int e" v] Suc.prems(3) 0 unfolding unfold by simp
  next
    case (Suc j)
    have "(if 0 < e + 1 then lv p * 5 else lv p) = 5 ^ (e + 1)" by (simp add: p)
    from Suc.IH [OF this, of j] show ?thesis
      using Suc.prems(2,3) Suc unfolding unfold by simp
  qed
qed simp

lemma powi_neg10: "(10 :: real) powi (- int j) = 2 powi (- int j) / 5 ^ j"
proof -
  have "(10 :: real) ^ j = 2 ^ j * 5 ^ j" by (simp flip: power_mult_distrib)
  then show ?thesis by (simp add: power_int_minus divide_inverse)
qed

lemma g_neg_nth:
  assumes "lv x = 2 ^ 1000 div 5 ^ (j - 1)" "0 < j" "i < n" "j + i \<le> 292"
  shows "int (unat (g_neg n x j ! i)) = \<lfloor>g_real (- int (j + i))\<rfloor> + 1"
  using assms
proof (induction n arbitrary: x j i)
  case (Suc n)
  obtain y r where y: "div_small x 5 = (y, r)" by (cases "div_small x 5") auto
  define b where "b = flog2pow10 (- int j)"
  define a where "a = 125 - b - int j"
  define v where "v = shr_to_u128 y (nat (1000 - a))"
  have unfold: "g_neg (Suc n) x j = (v + 1) # g_neg n y (j + 1)"
    by (simp add: y v_def a_def b_def Let_def)
  have "(5 :: nat) ^ j = 5 ^ (j - 1) * 5" using Suc.prems(2) by (cases j) simp_all
  then have ly: "lv y = 2 ^ 1000 div 5 ^ j"
    using div_small_spec(1) [OF _ y] by (simp only: Suc.prems(1) div_mult2_eq) simp
  show ?case
  proof (cases i)
    case 0
    have bb: "b * 4294967296 \<le> - int j * 14267572527" "- int j * 14267572527 < (b + 1) * 4294967296"
      using div_bounds [of b] by (simp_all add: b_def flog2pow10_def)
    have j: "0 < int j" "int j \<le> 292" using Suc.prems(2,4) by simp_all
    define J where "J = int j"
    have J: "b * 4294967296 \<le> - (J * 14267572527)" "- (J * 14267572527) < b * 4294967296 + 4294967296"
        "0 < J" "J \<le> 292"
      using bb j by (simp_all add: J_def)
    have "0 \<le> 125 - b - J" using J by linarith
    moreover have "125 - b - J \<le> 1000"
    proof (rule ccontr)
      assume "\<not> 125 - b - J \<le> 1000"
      then have "b + 1 \<le> - 875 - J" by simp
      then have "(b + 1) * 4294967296 \<le> (- 875 - J) * 4294967296" by (rule mult_right_mono) simp
      then have "875 * 4294967296 < J * 9972605231" using J(2) by (simp add: distrib_right left_diff_distrib)
      moreover have "J * 9972605231 \<le> 292 * 9972605231" using J(4) by (rule mult_right_mono) simp
      ultimately show False by simp
    qed
    ultimately have a: "0 \<le> a" "a \<le> 1000" by (simp_all add: a_def J_def)
    define c d where "c = nat a" and "d = nat (1000 - a)"
    have cd: "a = int c" "1000 - a = int d" "c + d = 1000" using a by (simp_all add: c_def d_def)
    have "(2 ^ 1000 div 5 ^ j) div 2 ^ d = (2 ^ c * 2 ^ d) div (5 ^ j * 2 ^ d :: nat)"
      by (simp only: cd(3) power_add [symmetric] div_mult2_eq)
    also have "\<dots> = 2 ^ c div 5 ^ j" by (rule div_mult_mult2) simp
    finally have nat: "(2 ^ 1000 div 5 ^ j) div 2 ^ d = (2 :: nat) ^ c div 5 ^ j" .
    have "g_real (- int j) = 2 powi (- int j) * 2 powi (125 - b) / 5 ^ j"
      unfolding g_real_def powi_neg10 b_def by simp
    also have "\<dots> = 2 powi a / 5 ^ j" 
    proof -
      have "a = - int j + (125 - b)" by (simp add: a_def)
      then have "2 powi a = (2 :: real) powi (- int j) * 2 powi (125 - b)"
        by (simp only: powi_add)
      then show ?thesis by simp
    qed
    also have "\<dots> = real (2 ^ c) / real (5 ^ j)" by (simp add: cd(1))
    finally have g: "\<lfloor>g_real (- int j)\<rfloor> = int (2 ^ c div 5 ^ j)" by (simp only: floor_divide_of_nat_eq)
    have "unat v = (2 ^ c div 5 ^ j) mod 2 ^ 128"
      by (simp only: v_def unat_shr_to_u128 ly cd(2) nat_int nat)
    from entry_value [OF _ this g [symmetric]] show ?thesis
      using 0 j unfolding unfold by simp
  next
    case (Suc k)
    have "lv y = 2 ^ 1000 div 5 ^ (j + 1 - 1)" by (simp add: ly)
    from Suc.IH [OF this, of k] show ?thesis
      using Suc.prems(3,4) Suc unfolding unfold by simp
  qed
qed simp

lemma length_g_pos [simp]: "length (g_pos n p5 e) = n"
  by (induction n arbitrary: p5 e) (simp_all add: Let_def)

lemma length_g_neg [simp]: "length (g_neg n x j) = n"
  by (induction n arbitrary: x j) (simp_all add: Let_def split: prod.splits)

lemma g_table_entry:
  assumes "g_min \<le> e" "e \<le> g_max"
  shows "length g_table = g_len
    \<and> int (unat (g_table ! nat (e - g_min))) = \<lfloor>(10 :: real) powi e * 2 powi (125 - flog2pow10 e)\<rfloor> + 1
    \<and> flog2pow10 e = \<lfloor>of_int e * log 2 10\<rfloor>
    \<and> 2 ^ 125 < unat (g_table ! nat (e - g_min)) \<and> unat (g_table ! nat (e - g_min)) \<le> 2 ^ 126"
proof -
  have e: "\<bar>e\<bar> \<le> 350" using assms by (simp add: g_min_def g_max_def)
  have len: "length g_table = g_len"
    by (simp add: g_table_def g_len_def g_min_def g_max_def)
  have entry: "int (unat (g_table ! nat (e - g_min))) = \<lfloor>g_real e\<rfloor> + 1"
  proof (cases "0 \<le> e")
    case True
    then obtain i where i: "e = int i" using nonneg_int_cases by blast
    have "nat (e - g_min) = 292 + i" by (simp add: i g_min_def)
    then have "g_table ! nat (e - g_min) = g_pos 325 (big_of_u64 1) 0 ! i"
      by (simp add: g_table_def nth_append g_min_def g_max_def)
    moreover have "int (unat (g_pos 325 (big_of_u64 1) 0 ! i)) = \<lfloor>g_real (int (0 + i))\<rfloor> + 1"
      using assms(2) i by (intro g_pos_nth) (simp_all add: lv_big_of_u64 g_max_def)
    ultimately show ?thesis by (simp add: i)
  next
    case False
    then obtain i where i: "e = - int (1 + i)" "i < 292"
      using assms(1) by (intro that [of "nat (- e - 1)"]) (simp_all add: g_min_def)
    define x where "x = big_shl (big_of_u64 1) 1000"
    have rev_at: "(rev xs @ ys) ! (291 - i) = xs ! i" if "length xs = 292" for xs ys :: "u128 list"
    proof -
      have "291 - i < (292 :: nat)" "292 - Suc (291 - i) = i" using i(2) by linarith+
      then show ?thesis using that by (simp add: nth_append rev_nth)
    qed
    have "nat (e - g_min) = 291 - i" using i by (simp add: g_min_def)
    then have "g_table ! nat (e - g_min) = g_neg 292 x 1 ! i"
      using rev_at [of "g_neg 292 x 1"] by (simp add: g_table_def g_min_def x_def)
    moreover have "lv x = 2 ^ 1000 div 5 ^ (1 - 1)"
      by (simp only: x_def lv_big_shl lv_big_of_u64) simp
    then have "int (unat (g_neg 292 x 1 ! i)) = \<lfloor>g_real (- int (1 + i))\<rfloor> + 1"
      by (rule g_neg_nth) (use i in simp_all)
    ultimately show ?thesis by (simp only: i(1))
  qed
  have "2 ^ 125 \<le> \<lfloor>g_real e\<rfloor>" "\<lfloor>g_real e\<rfloor> < 2 ^ 126"
    using g_real_bounds [OF e] by (simp_all add: le_floor_iff floor_less_iff)
  then have "int (2 ^ 125) < int (unat (g_table ! nat (e - g_min)))"
    "int (unat (g_table ! nat (e - g_min))) \<le> int (2 ^ 126)"
    unfolding entry by simp_all
  then have "2 ^ 125 < unat (g_table ! nat (e - g_min))" "unat (g_table ! nat (e - g_min)) \<le> 2 ^ 126"
    by (simp_all only: of_nat_less_iff of_nat_le_iff)
  moreover have "flog2pow10 e = \<lfloor>of_int e * log 2 10\<rfloor>"
    using flog2pow10_log [OF e] by (intro floor_unique [symmetric]) simp_all
  ultimately show ?thesis
    using len entry by (simp only: g_real_def simp_thms)
qed

text \<open>The table of Schubfach holds \<open>\<lfloor>10\<^sup>e \<times> 2 ^ (125 - \<lfloor>e log\<^sub>2 10\<rfloor>)\<rfloor> + 1\<close> for every exponent from
  \<open>G_MIN\<close> to \<open>G_MAX\<close>, a 126 bit over-approximation of the power of ten, with the logarithm taken
  exactly.\<close>

theorem g_table_spec:
  assumes "g_min \<le> e" "e \<le> g_max"
  shows "length g_table = g_len
    \<and> int (unat (g_table ! nat (e - g_min))) = \<lfloor>(10 :: real) powi e * 2 powi (125 - flog2pow10 e)\<rfloor> + 1
    \<and> flog2pow10 e = \<lfloor>of_int e * log 2 10\<rfloor>
    \<and> 2 ^ 125 < unat (g_table ! nat (e - g_min)) \<and> unat (g_table ! nat (e - g_min)) \<le> 2 ^ 126"
  using assms by (rule g_table_entry)

theorem g_table_spec_witness:
  "unat (g_table ! 292) = 2 ^ 125 + 1"
proof -
  have "int (unat (g_table ! nat (0 - g_min))) = \<lfloor>10 powi 0 * (2 :: real) powi (125 - flog2pow10 0)\<rfloor> + 1"
    using g_table_spec [of 0] by (simp add: g_min_def g_max_def)
  also have "\<dots> = int (2 ^ 125 + 1)" by (simp add: flog2pow10_def)
  finally have "unat (g_table ! nat (0 - g_min)) = 2 ^ 125 + 1" by (simp only: of_nat_eq_iff)
  then show ?thesis by (simp add: g_min_def)
qed

end
