(* ===== verification/FloatExact.thy ===== *)
theory FloatExact
  imports FloatLogs
begin

text \<open>
  Correctness of the exact digit generation \<open>fixed_exact\<close> of \<open>float_fmt.rs\<close>: the digits are those of
  the float's exact value, rounded to the asked number of significant digits with ties to even.
  The proof follows the code: \<open>scaled\<close> puts the quotient between one and ten, each step of
  \<open>gen_digits\<close> splits off a digit exactly, and the remainder decides the rounding.
\<close>

section \<open>The float's value\<close>

definition f64_mag :: "f64 \<Rightarrow> real" where
  "f64_mag f = (case view f of Fin s m e \<Rightarrow> real m * 2 powi e | _ \<Rightarrow> 0)"

lemma u64_masks: "(0x7FF :: u64) = mask 11" "(push_bit 52 1 - 1 :: u64) = mask 52"
  by (simp_all add: mask_eq_exp_minus_1)

lemma decompose_view:
  assumes "view f = Fin s m e"
  shows "\<exists>w. decompose f = (w, e) \<and> unat w = m"
proof -
  define be fr where "be = drop_bit 52 (to_bits f) AND 0x7FF" and "fr = to_bits f AND (push_bit 52 1 - 1)"
  have be: "unat be = f64_biased f"
    by (simp only: be_def u64_masks unat_and_mask unat_shr f64_biased_def) simp
  have fr: "unat fr = f64_fraction f"
    by (simp only: fr_def u64_masks unat_and_mask f64_fraction_def)
  have "fr OR push_bit 52 1 = fr + push_bit 52 1"
    unfolding fr_def u64_masks
    by (rule disjunctive_add [symmetric]) (simp only: bit_and_iff bit_mask_iff bit_push_bit_iff, auto)
  moreover have "unat fr < 2 ^ 52" by (simp add: fr f64_fraction_def)
  ultimately have hid: "unat (fr OR push_bit 52 1) = f64_fraction f + 2 ^ 52"
    using fr by (simp add: unat_word_ariths)
  have "uint be = int (f64_biased f)" by (simp flip: be)
  then have "decompose f = (if f64_biased f = 0 then (fr, - 1074) else (fr OR push_bit 52 1, int (f64_biased f) - 1075))"
    unfolding decompose_def Let_def be_def [symmetric] fr_def [symmetric] by simp
  then show ?thesis
    using assms fr hid by (auto simp: view_def Let_def split: if_splits)
qed

section \<open>Scaling\<close>

lemma powi10_add: "(10 :: real) powi (a + b) = 10 powi a * 10 powi b"
  by (simp add: power_int_add)

lemma scaled_start:
  fixes m :: nat
  assumes m: "0 < m" "m < 2 ^ 53" and e: "- 1074 \<le> e" "e \<le> 971"
  defines "k \<equiv> flog10pow2 (e + int (bit_len (m)) - 1)"
  shows "(10 :: real) powi k \<le> real (m) * 2 powi e" "real (m) * 2 powi e < 10 powi (k + 2)"
    "0 \<le> k \<Longrightarrow> 0 \<le> e + int (bit_len (m)) - 1"
proof -
  define bl where "bl = bit_len (m)"
  have bl: "2 ^ (bl - 1) \<le> m" "m < 2 ^ bl" "0 < bl"
    using bit_len_bounds [OF m(1)] by (simp_all add: bl_def)
  have "bl \<le> 53"
  proof (rule ccontr)
    assume "\<not> bl \<le> 53"
    then have "(2 :: nat) ^ 53 \<le> 2 ^ (bl - 1)" by (intro power_increasing) simp_all
    with bl m show False by simp
  qed
  then have "\<bar>e + int bl - 1\<bar> \<le> 1100" using e bl(3) by simp
  note b = flog10pow2_bounds [OF this, folded k_def [unfolded bl_def [symmetric]]]
  have real: "2 ^ (bl - 1) \<le> real (m)" "real (m) < 2 ^ bl"
    using bl by (simp_all flip: of_nat_power)
  have lo: "(2 :: real) powi (e + int bl - 1) = 2 ^ (bl - 1) * 2 powi e"
  proof -
    have "e + int bl - 1 = int (bl - 1) + e" using bl(3) by simp
    then show ?thesis by (simp only: powi_add power_int_of_nat)
  qed
  have "(10 :: real) powi k \<le> 2 ^ (bl - 1) * 2 powi e" using b(1) by (simp only: lo)
  also have "\<dots> \<le> real (m) * 2 powi e" using real(1) by (rule mult_right_mono) simp
  finally show "(10 :: real) powi k \<le> real (m) * 2 powi e" .
  have "real (m) * 2 powi e < 2 ^ bl * 2 powi e" using real(2) by (rule mult_strict_right_mono) simp
  also have "\<dots> = 2 * 2 powi (e + int bl - 1)" using bl(3) unfolding lo by (cases bl) simp_all
  also have "\<dots> < 2 * 10 powi (k + 1)" using b(2) by simp
  also have "\<dots> < 10 powi (k + 2)"
  proof -
    have "k + 2 = 1 + (k + 1)" by simp
    then have "(10 :: real) powi (k + 2) = 10 * 10 powi (k + 1)" by (simp only: powi10_add) simp
    then show ?thesis by simp
  qed
  finally show "real (m) * 2 powi e < 10 powi (k + 2)" .
  assume k: "0 \<le> k"
  show "0 \<le> e + int (bit_len (m)) - 1"
  proof (rule ccontr)
    assume "\<not> 0 \<le> e + int (bit_len (m)) - 1"
    then have "(2 :: real) powi (e + int bl - 1) < 1"
      using power_int_strict_increasing [of "e + int bl - 1" 0 "2 :: real"] by (simp add: bl_def)
    moreover have "1 \<le> (10 :: real) powi k" using k by (simp add: one_le_power_int)
    ultimately show False using b(1) by linarith
  qed
qed

text \<open>A power with a sign: one of the two factors is one.\<close>

lemma powi_split: "(b :: real) powi e = b ^ nat e / b ^ nat (- e)" if "b \<noteq> 0"
proof (cases "0 \<le> e")
  case True
  then obtain n where "e = int n" using nonneg_int_cases by blast
  then show ?thesis by simp
next
  case False
  then obtain n where "e = - int n" by (metis int_cases2 linear neg_0_le_iff_le of_nat_0_le_iff)
  then show ?thesis by (simp add: power_int_minus divide_inverse)
qed

lemma scaled_spec:
  assumes "0 < unat m" "unat m < 2 ^ 53" and e: "- 1074 \<le> e" "e \<le> 971"
  obtains r s k where "scaled m e = (r, s, k)" "trimmed r" "trimmed s" "lv s \<le> lv r" "lv r < 10 * lv s"
    "real (lv r) * 10 powi k = real (lv s) * (real (unat m) * 2 powi e)" "lv s < 2 ^ 1078"
proof -
  obtain M where M: "unat m = M" by simp
  define q where "q = e + int (bit_len M) - 1"
  define k where "k = flog10pow2 q"
  define v where "v = real M * 2 powi e"
  note st = scaled_start [OF assms(1,2)[unfolded M] e, folded q_def, folded k_def v_def]
  define r s where "r = mul_pow10 (big_shl (big_of_u64 m) (nat e)) (nat (- k))"
    and "s = mul_pow10 (big_shl (big_of_u64 1) (nat (- e))) (nat k)"
  have zero: "big_shl b 0 = b" "mul_pow10 b 0 = b" for b
    by (simp_all add: big_shl_def mul_pow10.simps)
  define s10 where "s10 = mul_small s 10"
  have code: "scaled m e = (if big_cmp r s10 \<noteq> Less then (r, s10, k + 1) else (r, s, k))"
    unfolding scaled_def Let_def M q_def [symmetric] k_def [symmetric] s10_def r_def s_def
    by (cases "0 \<le> e"; cases "0 \<le> k") (simp_all add: zero)
  have tr: "trimmed r" "trimmed s" "trimmed s10"
    using mul_pow10_spec trimmed_big_shl lv_big_of_u64(2)
    by (simp_all add: r_def s_def s10_def trimmed_mul_small)
  have lr: "lv r = M * 2 ^ nat e * 10 ^ nat (- k)"
    using mul_pow10_spec [of "big_shl (big_of_u64 m) (nat e)" "nat (- k)"]
    by (simp only: r_def lv_big_shl lv_big_of_u64 M)
  have ls: "lv s = 2 ^ nat (- e) * 10 ^ nat k"
    using mul_pow10_spec [of "big_shl (big_of_u64 1) (nat (- e))" "nat k"]
    by (simp only: s_def lv_big_shl lv_big_of_u64) simp
  have ls10: "lv s10 = 10 * lv s" by (simp add: s10_def lv_mul_small)
  have val: "real (lv r) * 10 powi k = real (lv s) * v"
    by (simp add: lr ls v_def powi_split [of 10 k] powi_split [of 2 e] field_simps)
  have sp: "0 < real (lv s)" by (simp add: ls)
  have p10: "0 < (10 :: real) powi k" by simp
  have "real (lv s) * 10 powi k \<le> real (lv r) * 10 powi k"
    unfolding val using st(1) sp by (intro mult_left_mono) simp_all
  then have lo: "lv s \<le> lv r" using p10 by (simp add: mult_le_cancel_right)
  have "real (lv r) * 10 powi k < real (lv s) * 10 powi (k + 2)"
    unfolding val using st(2) sp by (rule mult_strict_left_mono)
  also have "\<dots> = real (100 * lv s) * 10 powi k" by (simp only: powi10_add) simp
  finally have hi: "lv r < 100 * lv s" using p10 by (simp only: mult_less_cancel_right of_nat_less_iff)
  have size: "lv s \<le> 2 ^ 1074"
  proof (cases "0 \<le> k")
    case False
    then have "lv s = 2 ^ nat (- e)" by (simp add: ls)
    also have "\<dots> \<le> 2 ^ 1074" using e by (intro power_increasing) simp_all
    finally show ?thesis .
  next
    case True
    then have q: "0 \<le> q" using st(3) by simp
    have bl: "2 ^ (bit_len M - 1) \<le> M" "0 < bit_len M" using bit_len_bounds assms(1) M by auto
    have "bit_len M \<le> 53"
    proof (rule ccontr)
      assume "\<not> bit_len M \<le> 53"
      then have "(2 :: nat) ^ 53 \<le> 2 ^ (bit_len M - 1)" by (intro power_increasing) simp_all
      with bl assms(2) M show False by simp
    qed
    then have exp: "nat (- e) + nat q \<le> 1074" using q e bl(2) by (simp add: q_def)
    have "\<bar>q\<bar> \<le> 1100" using exp q by simp
    from flog10pow2_bounds(1) [OF this] have "(10 :: real) ^ nat k \<le> 2 ^ nat q"
      unfolding k_def [symmetric] using True q by (simp add: powi_split)
    then have "real (10 ^ nat k) \<le> real (2 ^ nat q)" by simp
    then have "(10 :: nat) ^ nat k \<le> 2 ^ nat q" by (simp only: of_nat_le_iff)
    then have "lv s \<le> 2 ^ nat (- e) * 2 ^ nat q" unfolding ls by (rule mult_left_mono) simp
    also have "\<dots> \<le> 2 ^ 1074" using exp by (simp only: power_add [symmetric]) (intro power_increasing; simp)
    finally show ?thesis .
  qed
  show ?thesis
  proof (cases "big_cmp r s10 = Less")
    case True
    then have "lv r < lv s10" using tr by (simp add: big_cmp_spec int_cmp_def split: if_splits)
    then have "lv r < 10 * lv s" by (simp only: ls10)
    moreover have "lv s < 2 ^ 1078" using size by (rule le_less_trans) (rule power_strict_increasing; simp)
    ultimately show ?thesis using that [of r s k] True code tr lo val by (simp add: v_def M)
  next
    case False
    then have "lv s10 \<le> lv r" using tr by (simp add: big_cmp_spec int_cmp_def split: if_splits)
    moreover have "lv r < 10 * lv s10" using hi by (simp add: ls10)
    moreover have "real (lv r) * 10 powi (k + 1) = real (lv s10) * v"
      using val by (simp only: powi10_add ls10) simp
    moreover have "lv s10 < 2 ^ 1078"
    proof -
      have "lv s10 \<le> 10 * 2 ^ 1074" using size by (simp only: ls10 mult_le_mono2)
      also have "\<dots> < 2 ^ 4 * 2 ^ 1074" by (rule mult_strict_right_mono) simp_all
      also have "\<dots> = 2 ^ 1078" by (simp only: power_add [symmetric]) simp
      finally show ?thesis .
    qed
    ultimately show ?thesis using that [of r s10 "k + 1"] False code tr by (simp add: v_def M)
  qed
qed

section \<open>Normalisation\<close>

lemma top_limb_normal:
  assumes "trimmed s" "s \<noteq> []" and sh: "sh = 32 - bit_len (unat (last s))"
  shows "big_shl s sh \<noteq> []" "2 ^ 31 \<le> unat (last (big_shl s sh))" "trimmed (big_shl s sh)"
    "length (big_shl s sh) = length s"
proof -
  define n where "n = length s - 1"
  define t where "t = big_shl s sh"
  define u where "u = unat (last s)"
  have len: "length s = Suc n" using assms(2) by (simp add: n_def)
  have u: "0 < u" "u < 2 ^ 32" using lv_ge(2) [OF assms(1,2)] u32_less [of "last s"] by (simp_all add: u_def)
  have bl: "2 ^ (bit_len u - 1) \<le> u" "u < 2 ^ bit_len u" "0 < bit_len u" using bit_len_bounds [OF u(1)] by simp_all
  have "bit_len u \<le> 32"
  proof (rule ccontr)
    assume "\<not> bit_len u \<le> 32"
    then have "(2 :: nat) ^ 32 \<le> 2 ^ (bit_len u - 1)" by (intro power_increasing) simp_all
    with bl(1) u(2) show False by linarith
  qed
  then have shl: "bit_len u - 1 + sh = 31" "bit_len u + sh = 32" using bl(3) by (simp_all add: sh u_def [symmetric])
  define P :: nat where "P = 2 ^ (32 * n)"
  have s: "lv s = lv (take n s) + P * u"
    using lv_top [OF len] assms(2) by (simp add: P_def u_def last_conv_nth n_def)
  have low: "lv (take n s) < P"
  proof -
    have "length (take n s) = n" using len by simp
    then show ?thesis using lv_less [of "take n s"] by (simp only: P_def)
  qed
  have lt: "lv t = lv s * 2 ^ sh" by (simp add: t_def lv_big_shl)
  show tr: "trimmed (big_shl s sh)" by (rule trimmed_big_shl [OF assms(1)])
  have lo: "P * 2 ^ 31 \<le> lv t"
  proof -
    have "P * 2 ^ 31 = P * (2 ^ (bit_len u - 1) * 2 ^ sh)" by (simp only: power_add [symmetric] shl)
    also have "\<dots> \<le> P * (u * 2 ^ sh)" using bl(1) by (intro mult_left_mono mult_right_mono) simp_all
    also have "\<dots> \<le> lv t" by (simp add: lt s distrib_right)
    finally show ?thesis .
  qed
  have hi: "lv t < P * 2 ^ 32"
  proof -
    have "lv s < P * (u + 1)" using s low by simp
    also have "\<dots> \<le> P * 2 ^ bit_len u" using bl(2) by (intro mult_left_mono) simp_all
    finally have "lv t < P * 2 ^ bit_len u * 2 ^ sh" by (simp add: lt)
    also have "\<dots> = P * 2 ^ 32" by (simp only: mult.assoc power_add [symmetric] shl)
    finally show ?thesis .
  qed
  have le: "length t \<le> Suc n"
  proof (rule length_le)
    show "trimmed t" using tr by (simp only: t_def)
    show "lv t < 2 ^ (32 * Suc n)" using hi by (simp add: P_def power_add)
  qed
  have ge: "\<not> length t \<le> n"
  proof
    assume "length t \<le> n"
    then have "lv t < 2 ^ (32 * n)"
      using lv_less [of t] by (rule_tac less_le_trans) (auto intro: power_increasing)
    moreover have "P \<le> P * 2 ^ 31" by simp
    ultimately show False using lo by (simp add: P_def)
  qed
  have lent: "length t = Suc n" using le ge by simp
  then show "big_shl s sh \<noteq> []" "length (big_shl s sh) = length s" using len by (auto simp: t_def)
  have "lv t = lv (take n t) + P * unat (t ! n)" unfolding P_def by (rule lv_top [OF lent])
  moreover have "lv (take n t) < P"
  proof -
    have "length (take n t) = n" using lent by simp
    then show ?thesis using lv_less [of "take n t"] by (simp only: P_def)
  qed
  ultimately have "P * 2 ^ 31 < P * (unat (t ! n) + 1)"
    unfolding distrib_left mult_1_right using lo by linarith
  then have "2 ^ 31 < unat (t ! n) + 1" by (simp only: mult_less_cancel1)
  moreover have "last t = t ! n" using lent by (subst last_conv_nth) auto
  ultimately show "2 ^ 31 \<le> unat (last (big_shl s sh))" by (simp add: t_def)
qed

section \<open>Digit generation\<close>

lemma dec_val_shift: "dec_val v ds = v * 10 ^ length ds + dec_val 0 ds"
proof (induction ds arbitrary: v)
  case (Cons c ds)
  show ?case
    using Cons [of "10 * v + digit_val c"] Cons [of "digit_val c"] by (simp add: algebra_simps)
qed simp

lemma digit_of_quotient:
  assumes "unat (d :: u8) < 10"
  shows "is_ascii_digit (0x30 + d)" "digit_val (0x30 + d) = unat d" "0x30 + d = 0x30 \<longleftrightarrow> d = 0"
proof -
  have "0x30 + d = digit_byte (unat d)" by (simp add: digit_byte_def)
  then show "is_ascii_digit (0x30 + d)" "digit_val (0x30 + d) = unat d" "0x30 + d = 0x30 \<longleftrightarrow> d = 0"
    using digit_byte_facts [OF assms] unat_eq_zero [of d] by simp_all
qed

lemma single:
  assumes "unat d = lv r div lv s" "lv r1 = lv r mod lv s" "digit_val c = unat d"
  shows "lv r * 10 ^ (length [c] - 1) = dec_val 0 [c] * lv s + lv r1"
  using assms by simp

lemma gen_digits_spec:
  assumes "trimmed r" "trimmed s" "s \<noteq> []" "2 ^ 31 \<le> unat (last s)" "lv r < 10 * lv s"
  shows "\<exists>ds r'. gen_digits (Suc n) r s = Some (ds, r') \<and> trimmed r' \<and> lv r' < lv s
    \<and> ds \<noteq> [] \<and> length ds \<le> Suc n \<and> list_all is_ascii_digit ds
    \<and> lv r * 10 ^ (length ds - 1) = dec_val 0 ds * lv s + lv r'
    \<and> (lv r' = 0 \<or> length ds = Suc n) \<and> (lv s \<le> lv r \<longrightarrow> hd ds \<noteq> 0x30)"
  using assms(1,5)
proof (induction n arbitrary: r)
  case (0 r)
  obtain r1 d where d: "div_digit r s = Some (r1, d)" "lv r1 = lv r mod lv s" "trimmed r1" "unat d = lv r div lv s"
    using div_digit_spec [OF 0(1) assms(2-4) 0(2)] by blast
  have "unat d < 10" unfolding d(4) using 0(2) by (simp add: less_mult_imp_div_less)
  note dg = digit_of_quotient [OF this]
  have sp: "0 < lv s" using 0(2) by simp
  have "lv s \<le> lv r \<Longrightarrow> d \<noteq> 0" using d(4) sp by (auto simp: div_eq_0_iff)
  then show ?case
    using dg(1-3) d(3) sp single [OF d(4,2) dg(2)]
    by (intro exI [of _ "[0x30 + d]"] exI [of _ r1] conjI) (simp_all add: d(1,2))
next
  case (Suc n r)
  obtain r1 d where d: "div_digit r s = Some (r1, d)" "lv r1 = lv r mod lv s" "trimmed r1" "unat d = lv r div lv s"
    using div_digit_spec [OF Suc.prems(1) assms(2-4) Suc.prems(2)] by blast
  have "unat d < 10" unfolding d(4) using Suc.prems(2) by (simp add: less_mult_imp_div_less)
  note dg = digit_of_quotient [OF this]
  have sp: "0 < lv s" using Suc.prems(2) by simp
  have hd: "lv s \<le> lv r \<Longrightarrow> d \<noteq> 0" using d(4) sp by (auto simp: div_eq_0_iff)
  have r: "lv r = unat d * lv s + lv r1" by (simp add: d)
  have r1: "lv r1 < lv s" using sp by (simp add: d)
  show ?case
  proof (cases "big_is_zero r1")
    case True
    then have "lv r1 = 0" by (simp add: big_is_zero_def)
    moreover have "gen_digits (Suc (Suc n)) r s = Some ([0x30 + d], r1)" using True by (simp add: d(1))
    ultimately show ?thesis
      using dg(1-3) hd d(3) r1 single [OF d(4,2) dg(2)]
      by (intro exI [of _ "[0x30 + d]"] exI [of _ r1] conjI) simp_all
  next
    case False
    define r2 where "r2 = mul_small r1 10"
    have r2: "lv r2 = 10 * lv r1" "trimmed r2" using d(3) by (simp_all add: r2_def lv_mul_small trimmed_mul_small)
    have "lv r2 < 10 * lv s" using r1 r2 by simp
    from Suc.IH [OF r2(2) this] obtain ds r' where g: "gen_digits (Suc n) r2 s = Some (ds, r')" "trimmed r'"
      "lv r' < lv s" "ds \<noteq> []" "length ds \<le> Suc n" "list_all is_ascii_digit ds"
      "lv r2 * 10 ^ (length ds - 1) = dec_val 0 ds * lv s + lv r'" "lv r' = 0 \<or> length ds = Suc n"
      by blast
    obtain l where l: "length ds = Suc l" using g(4) by (cases ds) auto
    have eq: "gen_digits (Suc (Suc n)) r s = Some ((0x30 + d) # ds, r')"
      using False g(1) by (simp add: d(1) r2_def [symmetric] del: gen_digits.simps(2) add: gen_digits.simps(2) [of "Suc n" r s])
    have "lv r * 10 ^ Suc l = unat d * 10 ^ Suc l * lv s + lv r2 * 10 ^ l"
      unfolding r r2(1) by (simp add: algebra_simps)
    also have "\<dots> = (unat d * 10 ^ Suc l + dec_val 0 ds) * lv s + lv r'"
      using g(7) l by (simp add: algebra_simps)
    also have "unat d * 10 ^ Suc l + dec_val 0 ds = dec_val 0 ((0x30 + d) # ds)"
      using dec_val_shift [of "unat d" ds] dg l by simp
    finally have val: "lv r * 10 ^ (length ((0x30 + d) # ds) - 1) = dec_val 0 ((0x30 + d) # ds) * lv s + lv r'"
      by (simp add: l)
    show ?thesis
      using eq val g(2,3,5,6,8) dg hd
      by (intro exI [of _ "(0x30 + d) # ds"] exI [of _ r'] conjI) auto
  qed
qed

section \<open>Rounding\<close>

text \<open>The value of digits with an exponent, and rounding to the nearest integer, ties to even.\<close>

definition digit_value :: "bytes \<Rightarrow> int \<Rightarrow> real" where
  "digit_value ds x = real (dec_val 0 ds) * 10 powi (x + 1 - int (length ds))"

definition round_even :: "real \<Rightarrow> int" where
  "round_even z =
     (let q = \<lfloor>z\<rfloor>; r = z - of_int q in if 1 / 2 < r \<or> r = 1 / 2 \<and> odd q then q + 1 else q)"

definition good_digits :: "bytes \<Rightarrow> bool" where
  "good_digits ds \<longleftrightarrow> ds \<noteq> [] \<and> list_all is_ascii_digit ds \<and> hd ds \<noteq> 0x30 \<and> last ds \<noteq> 0x30"

lemma ascii_digit_cases: "is_ascii_digit c \<Longrightarrow> c \<noteq> 0x39 \<Longrightarrow>
    is_ascii_digit (c + 1) \<and> digit_val (c + 1) = digit_val c + 1 \<and> c + 1 \<noteq> 0x30"
  by (simp add: is_ascii_digit_def digit_val_def word_le_nat_alt unat_word_ariths unat_sub_if_size word_size
      word_unat_eq_iff) arith

lemma round_up_rev_spec:
  assumes "list_all is_ascii_digit (rev r)"
  shows "case round_up_rev r of
      None \<Rightarrow> dec_val 0 (rev r) + 1 = 10 ^ length r
    | Some r' \<Rightarrow> (dec_val 0 (rev r') * 10 ^ (length r - length r') = dec_val 0 (rev r) + 1) \<and> length r' \<le> length r
        \<and> list_all is_ascii_digit (rev r') \<and> r' \<noteq> [] \<and> hd r' \<noteq> 0x30 \<and> (last r \<noteq> 0x30 \<longrightarrow> last r' \<noteq> 0x30)"
  using assms
proof (induction r)
  case (Cons c r)
  show ?case
  proof (cases "c = 0x39")
    case True
    have d9: "digit_val c = 9" by (simp add: True digit_val_def)
    have IH: "case round_up_rev r of
      None \<Rightarrow> dec_val 0 (rev r) + 1 = 10 ^ length r
    | Some r' \<Rightarrow> (dec_val 0 (rev r') * 10 ^ (length r - length r') = dec_val 0 (rev r) + 1) \<and> length r' \<le> length r
        \<and> list_all is_ascii_digit (rev r') \<and> r' \<noteq> [] \<and> hd r' \<noteq> 0x30 \<and> (last r \<noteq> 0x30 \<longrightarrow> last r' \<noteq> 0x30)"
      using Cons by simp
    show ?thesis
    proof (cases "round_up_rev r")
      case None
      with IH True d9 show ?thesis by simp
    next
      case (Some r')
      with IH have s: "dec_val 0 (rev r') * 10 ^ (length r - length r') = dec_val 0 (rev r) + 1" "length r' \<le> length r"
        "list_all is_ascii_digit (rev r')" "r' \<noteq> []" "hd r' \<noteq> 0x30" "last r \<noteq> 0x30 \<longrightarrow> last r' \<noteq> 0x30"
        by auto
      have "dec_val 0 (rev r') * 10 ^ (length (c # r) - length r')
          = 10 * (dec_val 0 (rev r') * 10 ^ (length r - length r'))"
        using s(2) by (simp add: Suc_diff_le)
      also have "\<dots> = dec_val 0 (rev (c # r)) + 1" unfolding s(1) using d9 by simp
      finally show ?thesis
        using Some True s by (cases r) auto
    qed
  next
    case False
    then show ?thesis
      using Cons.prems ascii_digit_cases [of c] by (cases r) auto
  qed
qed simp

lemma round_up_spec:
  assumes "list_all is_ascii_digit ds" "ds \<noteq> []" "hd ds \<noteq> 0x30" "round_up ds x = (ds', x')"
  shows "digit_value ds' x' = real (dec_val 0 ds + 1) * 10 powi (x + 1 - int (length ds))"
    "good_digits ds'" "length ds' \<le> length ds"
proof -
  have l: "last (rev ds) \<noteq> 0x30" using assms(2,3) by (simp add: last_rev)
  have spec: "case round_up_rev (rev ds) of
      None \<Rightarrow> dec_val 0 ds + 1 = 10 ^ length ds
    | Some r' \<Rightarrow> (dec_val 0 (rev r') * 10 ^ (length ds - length r') = dec_val 0 ds + 1) \<and> length r' \<le> length ds
        \<and> list_all is_ascii_digit (rev r') \<and> r' \<noteq> [] \<and> hd r' \<noteq> 0x30 \<and> (last (rev ds) \<noteq> 0x30 \<longrightarrow> last r' \<noteq> 0x30)"
    using round_up_rev_spec [of "rev ds"] assms(1) unfolding rev_rev_ident length_rev by blast
  have "digit_value ds' x' = real (dec_val 0 ds + 1) * 10 powi (x + 1 - int (length ds)) \<and> good_digits ds'
      \<and> length ds' \<le> length ds"
  proof (cases "round_up_rev (rev ds)")
    case None
    then have e: "ds' = [0x31]" "x' = x + 1" using assms(4) by (simp_all add: round_up_def)
    have "dec_val 0 ds + 1 = 10 ^ length ds" using spec None by simp
    then have "real (dec_val 0 ds + 1) * 10 powi (x + 1 - int (length ds))
        = 10 powi int (length ds) * 10 powi (x + 1 - int (length ds))" by simp
    also have "\<dots> = 10 powi (x + 1)" by (simp only: powi10_add [symmetric]) (simp add: add.commute)
    also have "\<dots> = digit_value ds' x'" by (simp add: e digit_value_def digit_val_def add.commute)
    finally show ?thesis
      using assms(2) by (simp add: e good_digits_def is_ascii_digit_def Suc_leI)
  next
    case (Some r')
    then have e: "ds' = rev r'" "x' = x" using assms(4) by (simp_all add: round_up_def)
    have s: "dec_val 0 ds' * 10 ^ (length ds - length ds') = dec_val 0 ds + 1" "length ds' \<le> length ds"
      "list_all is_ascii_digit ds'" "r' \<noteq> []" "hd r' \<noteq> 0x30" "last r' \<noteq> 0x30"
      using spec Some l by (auto simp: e)
    have "real (dec_val 0 ds + 1) * 10 powi (x + 1 - int (length ds))
        = real (dec_val 0 ds') * (10 powi int (length ds - length ds') * 10 powi (x + 1 - int (length ds)))"
      unfolding s(1) [symmetric] by simp
    also have "\<dots> = digit_value ds' x'"
      using s(2) by (simp only: powi10_add [symmetric] digit_value_def e(2)) (simp add: of_nat_diff)
    finally show ?thesis
      using s by (simp add: e good_digits_def last_rev hd_rev)
  qed
  then show "digit_value ds' x' = real (dec_val 0 ds + 1) * 10 powi (x + 1 - int (length ds))"
    "good_digits ds'" "length ds' \<le> length ds" by blast+
qed

lemma strip_rev_spec:
  assumes "last r \<noteq> 0x30" "r \<noteq> []"
  shows "\<exists>n. r = replicate n 0x30 @ strip_rev r \<and> strip_rev r \<noteq> [] \<and> hd (strip_rev r) \<noteq> 0x30 \<and> last (strip_rev r) = last r"
  using assms
proof (induction r rule: strip_rev.induct)
  case (1 c d r)
  show ?case
  proof (cases "c = 0x30")
    case True
    with 1 obtain n where "d # r = replicate n 0x30 @ strip_rev (d # r)" "strip_rev (d # r) \<noteq> []"
      "hd (strip_rev (d # r)) \<noteq> 0x30" "last (strip_rev (d # r)) = last (d # r)" by auto
    with True show ?thesis by (intro exI [of _ "Suc n"]) simp
  next
    case False
    then show ?thesis by (intro exI [of _ 0]) simp
  qed
qed (auto intro: exI [of _ 0])

lemma dec_val_zeros: "dec_val v (replicate n 0x30) = v * 10 ^ n"
  by (induction n arbitrary: v) (simp_all add: digit_val_def)

lemma strip_zeros_spec:
  assumes "list_all is_ascii_digit ds" "ds \<noteq> []" "hd ds \<noteq> 0x30"
  shows "digit_value (strip_zeros ds) x = digit_value ds x" "good_digits (strip_zeros ds)"
    "length (strip_zeros ds) \<le> length ds"
proof -
  have "last (rev ds) \<noteq> 0x30" "rev ds \<noteq> []" using assms(2,3) by (simp_all add: last_rev)
  from strip_rev_spec [OF this] obtain n where n: "rev ds = replicate n 0x30 @ strip_rev (rev ds)"
    "strip_rev (rev ds) \<noteq> []" "hd (strip_rev (rev ds)) \<noteq> 0x30" "last (strip_rev (rev ds)) = last (rev ds)" by blast
  have ds: "ds = strip_zeros ds @ replicate n 0x30"
    using arg_cong [OF n(1), of rev] by (simp add: strip_zeros_def)
  have "digit_value (strip_zeros ds @ replicate n 0x30) x = digit_value (strip_zeros ds) x"
  proof -
    define y where "y = x + 1 - int (length (strip_zeros ds))"
    have "digit_value (strip_zeros ds @ replicate n 0x30) x
        = real (dec_val 0 (strip_zeros ds)) * (10 powi int n * 10 powi (y - int n))"
      by (simp add: digit_value_def dec_val_zeros y_def algebra_simps)
    also have "10 powi int n * 10 powi (y - int n) = (10 :: real) powi y"
      by (simp only: powi10_add [symmetric]) simp
    finally show ?thesis by (simp only: digit_value_def y_def)
  qed
  then show "digit_value (strip_zeros ds) x = digit_value ds x" using ds by simp
  show "length (strip_zeros ds) \<le> length ds" using arg_cong [OF ds, of length] by simp
  have "list_all is_ascii_digit (strip_zeros ds)" using assms(1) arg_cong [OF ds, of "list_all is_ascii_digit"] by simp
  then show "good_digits (strip_zeros ds)"
    using n assms(2,3) by (simp add: good_digits_def strip_zeros_def hd_rev last_rev)
qed

lemma odd_last:
  assumes "ds \<noteq> []"
  shows "(last ds - 0x30) AND 1 = 1 \<longleftrightarrow> odd (dec_val 0 ds)"
proof -
  have "ds = butlast ds @ [last ds]" using assms by simp
  then have "dec_val 0 ds = dec_val 0 (butlast ds @ [last ds])" by simp
  also have "\<dots> = 10 * dec_val 0 (butlast ds) + digit_val (last ds)"
    by (simp only: dec_val_append dec_val_simps)
  finally have "odd (dec_val 0 ds) \<longleftrightarrow> odd (unat (last ds - 0x30))" by (simp add: digit_val_def)
  also have "\<dots> \<longleftrightarrow> odd (last ds - 0x30)"
    by (metis bit_0 bit_unsigned_iff possible_bit_0)
  also have "\<dots> \<longleftrightarrow> (last ds - 0x30) AND 1 = 1"
    by (simp only: and_one_eq odd_iff_mod_2_eq_one)
  finally show ?thesis by simp
qed

lemma round_even_int: "round_even (of_int i) = i"
  by (simp add: round_even_def)

lemma round_even_nat: "round_even (real n) = int n"
  using round_even_int [of "int n"] by simp

lemma round_even_frac:
  assumes "0 < r" "r < s"
  shows "round_even (real d + real r / real s)
    = (if s < 2 * r \<or> 2 * r = s \<and> odd d then int d + 1 else int d)"
proof -
  have fr: "0 \<le> real r / real s" "real r / real s < 1" using assms by simp_all
  have q: "\<lfloor>real d + real r / real s\<rfloor> = int d"
    using fr by (intro floor_unique) simp_all
  have "1 / 2 < real r / real s \<longleftrightarrow> s < 2 * r" "real r / real s = 1 / 2 \<longleftrightarrow> 2 * r = s"
    using assms by (simp_all add: less_divide_eq divide_eq_eq) linarith+
  then show ?thesis
    unfolding round_even_def q Let_def by simp
qed

lemma round_last_spec:
  assumes "trimmed r" "trimmed s" "lv r < lv s" "ds \<noteq> []" "list_all is_ascii_digit ds" "hd ds \<noteq> 0x30"
    "round_last ds r s k = (ds', x)"
  shows "digit_value ds' x = of_int (round_even (real (dec_val 0 ds) + real (lv r) / real (lv s))) * 10 powi (k + 1 - int (length ds))"
    "list_all is_ascii_digit ds'" "ds' \<noteq> []" "hd ds' \<noteq> 0x30" "length ds' \<le> length ds"
proof -
  define D where "D = dec_val 0 ds"
  define up where "up = (lv s < 2 * lv r \<or> 2 * lv r = lv s \<and> odd D)"
  have "digit_value ds' x = of_int (round_even (real D + real (lv r) / real (lv s))) * 10 powi (k + 1 - int (length ds))
      \<and> list_all is_ascii_digit ds' \<and> ds' \<noteq> [] \<and> hd ds' \<noteq> 0x30 \<and> length ds' \<le> length ds"
  proof (cases "big_is_zero r")
    case True
    then have "lv r = 0" by (simp add: big_is_zero_def)
    then show ?thesis
      using True assms(4-7) by (simp add: round_last_def round_even_nat digit_value_def D_def)
  next
    case False
    then have r: "0 < lv r" using trimmed_0 [OF assms(1)] by (simp add: big_is_zero_def)
    have "big_cmp (big_shl r 1) s = int_cmp (int (2 * lv r)) (int (lv s))"
      by (subst big_cmp_spec) (simp_all add: trimmed_big_shl assms lv_big_shl mult.commute)
    then have code: "round_last ds r s k = (if up then round_up ds k else (ds, k))"
      using False odd_last [OF assms(4)] by (simp add: round_last_def up_def D_def int_cmp_def Let_def)
    note rnd = round_even_frac [OF r assms(3), of D, folded up_def]
    show ?thesis
    proof (cases up)
      case True
      then have "round_up ds k = (ds', x)" using code assms(7) by simp
      note ru = round_up_spec [OF assms(5,4,6) this]
      have "digit_value ds' x = of_int (round_even (real D + real (lv r) / real (lv s))) * 10 powi (k + 1 - int (length ds))"
        unfolding rnd ru(1) using True by (simp add: D_def)
      then show ?thesis using ru by (simp add: good_digits_def)
    next
      case F: False
      then have "ds' = ds" "x = k" using code assms(7) by simp_all
      then show ?thesis unfolding rnd using F assms(4-6) by (simp add: digit_value_def D_def)
    qed
  qed
  then show "digit_value ds' x = of_int (round_even (real (dec_val 0 ds) + real (lv r) / real (lv s))) * 10 powi (k + 1 - int (length ds))"
    "list_all is_ascii_digit ds'" "ds' \<noteq> []" "hd ds' \<noteq> 0x30" "length ds' \<le> length ds"
    by (simp_all add: D_def)
qed

text \<open>The operands stay within the array of \<open>LIMBS\<close> limbs.\<close>

lemma fixed_limbs:
  assumes "trimmed s" "s \<noteq> []" "lv s < 2 ^ 1078" "sh = 32 - bit_len (unat (last s))" "trimmed r" "lv r < 10 * lv (big_shl s sh)"
  shows "length (big_shl s sh) \<le> 34" "length r \<le> 35" "35 < limbs"
proof -
  have "lv s < 2 ^ (32 * 34)" using assms(3) by (rule less_trans) (rule power_strict_increasing; simp)
  then have "length s \<le> 34" by (rule length_le [OF assms(1)])
  then show l: "length (big_shl s sh) \<le> 34" using top_limb_normal(4) [OF assms(1,2,4)] by simp
  have "lv (big_shl s sh) < 2 ^ (32 * length (big_shl s sh))" by (rule lv_less)
  also have "\<dots> \<le> 2 ^ (32 * 34)" using l by (intro power_increasing) simp_all
  finally have "lv r < 10 * 2 ^ (32 * 34)" using assms(6) by linarith
  also have "\<dots> \<le> 2 ^ 32 * 2 ^ (32 * 34)" by (rule mult_right_mono) simp_all
  finally have "lv r < 2 ^ 32 * 2 ^ (32 * 34)" .
  then have "lv r < 2 ^ (32 * 35)" by (simp only: power_add [symmetric]) simp
  then show "length r \<le> 35" by (rule length_le [OF assms(5)])
  show "35 < limbs" by (simp add: limbs_def)
qed

section \<open>The digits of \<open>fixed_exact\<close>\<close>

lemma fixed_exact_digits:
  assumes "is_finite f" "0 < f64_mag f" "1 \<le> n" "n \<le> buf_len"
  shows "\<exists>ds x k. fixed_exact f n buf_len = Some (ds, x) \<and> good_digits ds \<and> length ds \<le> n
    \<and> 10 powi k \<le> f64_mag f \<and> f64_mag f < 10 powi (k + 1)
    \<and> digit_value ds x = of_int (round_even (f64_mag f / 10 powi (k + 1 - int n))) * 10 powi (k + 1 - int n)"
proof -
  obtain sg m e where v: "view f = Fin sg m e" using assms(1) by (auto simp: is_finite_def split: f64_view.splits)
  have mag: "f64_mag f = real m * 2 powi e" by (simp add: f64_mag_def v)
  obtain w where w: "decompose f = (w, e)" "unat w = m" using decompose_view [OF v] by blast
  have c: "m < 2 ^ 53" "- 1074 \<le> e" "e \<le> 971" using view_canonical [of f] by (simp_all add: v canonical_def)
  have m: "0 < m" using assms(2) by (cases m) (simp_all add: mag)
  obtain r s k where sc: "scaled w e = (r, s, k)" "trimmed r" "trimmed s" "lv s \<le> lv r" "lv r < 10 * lv s"
    "real (lv r) * 10 powi k = real (lv s) * (real (unat w) * 2 powi e)"
    using scaled_spec [of w e] m c w(2) by metis
  have sp: "0 < lv s" using sc(5) by simp
  then have sne: "s \<noteq> []" by auto
  define sh where "sh = 32 - bit_len (unat (last s))"
  define R S where "R = big_shl r sh" and "S = big_shl s sh"
  note nrm = top_limb_normal [OF sc(3) sne sh_def, folded S_def]
  have RS: "lv R = lv r * 2 ^ sh" "lv S = lv s * 2 ^ sh" "trimmed R"
    by (simp_all add: R_def S_def lv_big_shl trimmed_big_shl sc(2))
  have ratio: "real (lv R) / real (lv S) = real (lv r) / real (lv s)" by (simp add: RS)
  obtain n' where n': "n = Suc n'" using assms(3) by (cases n) auto
  have lt: "lv R < 10 * lv S" "lv S \<le> lv R" using sc(4,5) by (simp_all add: RS)
  obtain ds q where g: "gen_digits (Suc n') R S = Some (ds, q)" "trimmed q" "lv q < lv S" "ds \<noteq> []" "length ds \<le> Suc n'"
    "list_all is_ascii_digit ds" "lv R * 10 ^ (length ds - 1) = dec_val 0 ds * lv S + lv q"
    "lv q = 0 \<or> length ds = Suc n'" "hd ds \<noteq> 0x30"
    using gen_digits_spec [OF RS(3) nrm(3,1,2) lt(1)] lt(2) by blast
  obtain ds' x where rl: "round_last ds q S k = (ds', x)" by (cases "round_last ds q S k") auto
  note rls = round_last_spec [OF g(2) nrm(3) g(3,4,6,9) rl]
  have code: "fixed_exact f n buf_len = Some (strip_zeros ds', x)"
    using assms(3,4) g(1) rl
    by (simp add: fixed_exact_def w(1) sc(1) sh_def [symmetric] R_def [symmetric] S_def [symmetric] n'
        del: gen_digits.simps)
  have Sp: "0 < real (lv S)" using sp by (simp add: RS)
  have fk: "f64_mag f = real (lv R) / real (lv S) * 10 powi k"
    using sc(6) sp unfolding ratio mag w(2) by (simp add: field_simps)
  have one: "1 \<le> real (lv R) / real (lv S)" "real (lv R) / real (lv S) < 10"
    using lt Sp by (simp_all add: le_divide_eq divide_less_eq)
  have k1: "10 powi k \<le> f64_mag f" 
  proof -
    have "1 * 10 powi k \<le> real (lv R) / real (lv S) * 10 powi k" using one(1) by (rule mult_right_mono) simp
    then show ?thesis unfolding fk by (simp only: mult_1)
  qed
  have k2: "f64_mag f < 10 powi (k + 1)" 
  proof -
    have "real (lv R) / real (lv S) * 10 powi k < 10 * 10 powi k" using one(2) by (rule mult_strict_right_mono) simp
    also have "(10 :: real) * 10 powi k = 10 powi (k + 1)" by (simp only: powi10_add) simp
    finally show ?thesis unfolding fk .
  qed
  obtain l where l: "length ds = Suc l" using g(4) by (cases ds) auto
  have fr: "real (lv R) / real (lv S) * 10 ^ l = real (dec_val 0 ds) + real (lv q) / real (lv S)"
  proof -
    have "real (lv R) * 10 ^ l = real (dec_val 0 ds) * real (lv S) + real (lv q)"
      using arg_cong [OF g(7), of real] by (simp add: l)
    then show ?thesis using Sp by (simp add: field_simps)
  qed
  have unit: "f64_mag f = (real (dec_val 0 ds) + real (lv q) / real (lv S)) * 10 powi (k + 1 - int (length ds))"
  proof -
    have "(10 :: real) powi k = 10 powi int l * 10 powi (k + 1 - int (length ds))"
      by (simp only: powi10_add [symmetric]) (simp add: l)
    then show ?thesis unfolding fk fr [symmetric] by simp
  qed
  have val: "digit_value ds' x = of_int (round_even (f64_mag f / 10 powi (k + 1 - int n))) * 10 powi (k + 1 - int n)"
  proof (cases "length ds = n")
    case True
    then show ?thesis unfolding rls(1) unit by simp
  next
    case False
    then have q0: "lv q = 0" using g(8) n' by simp
    have "k + 1 - int (length ds) = int (n - length ds) + (k + 1 - int n)" using g(5) n' by simp
    then have "(10 :: real) powi (k + 1 - int (length ds)) = 10 powi int (n - length ds) * 10 powi (k + 1 - int n)"
      by (simp only: powi10_add)
    then have "f64_mag f = real (dec_val 0 ds * 10 ^ (n - length ds)) * 10 powi (k + 1 - int n)"
      unfolding unit q0 by simp
    then have "of_int (round_even (f64_mag f / 10 powi (k + 1 - int n))) * 10 powi (k + 1 - int n) = f64_mag f"
      using round_even_nat [of "dec_val 0 ds * 10 ^ (n - length ds)"] by simp
    moreover have "digit_value ds' x = f64_mag f"
      unfolding rls(1) unit using round_even_nat [of "dec_val 0 ds"] by (simp add: q0)
    ultimately show ?thesis by simp
  qed
  note sz = strip_zeros_spec [OF rls(2-4)]
  show ?thesis
    using code sz(1) [of x] sz(2,3) rls(5) g(5) k1 k2 val n'
    by (intro exI [of _ "strip_zeros ds'"] exI [of _ x] exI [of _ k] conjI) simp_all
qed

text \<open>C23: \<open>fixed_exact\<close> returns, for every positive finite float and every number of digits, the digits of
  the float's exact value rounded to that many significant digits, exact ties to the even digit,
  without leading or trailing zeros, and their exponent.\<close>

theorem fixed_exact_spec:
  assumes "is_finite f" "0 < f64_mag f" "1 \<le> n" "n \<le> buf_len"
  shows "\<exists>ds x k. fixed_exact f n buf_len = Some (ds, x) \<and> good_digits ds \<and> length ds \<le> n
    \<and> 10 powi k \<le> f64_mag f \<and> f64_mag f < 10 powi (k + 1)
    \<and> digit_value ds x = of_int (round_even (f64_mag f / 10 powi (k + 1 - int n))) * 10 powi (k + 1 - int n)"
  using assms by (rule fixed_exact_digits)

lemma eighth: "view (F64 0x3FC0000000000000) = Fin False (2 ^ 52) (- 55)"
  by (simp add: view_def f64_sign_def f64_biased_def f64_fraction_def Let_def)

theorem fixed_exact_spec_witness:
  "\<exists>ds x k. fixed_exact (F64 0x3FC0000000000000) 1 20 = Some (ds, x) \<and> good_digits ds \<and> length ds \<le> 1
    \<and> 10 powi k \<le> (1 / 8 :: real) \<and> (1 / 8 :: real) < 10 powi (k + 1)
    \<and> digit_value ds x = of_int (round_even (1 / 8 / 10 powi k)) * 10 powi k"
proof -
  have mag: "f64_mag (F64 0x3FC0000000000000) = 1 / 8"
    by (simp add: f64_mag_def eighth power_int_minus)
  have "is_finite (F64 0x3FC0000000000000)" by (simp add: is_finite_def eighth)
  from fixed_exact_spec [OF this, of 1 20] show ?thesis by (simp add: mag)
qed

end
