(* ===== verification/Shortest.thy ===== *)
theory Shortest
  imports FloatExact
begin

text \<open>
  Schubfach (\<open>shortest_raw\<close> of \<open>float_fmt.rs\<close>): the round-to-odd product, the ranges of the
  exponents, and the correctness of the digits it emits: they are at most 17, and their value lies
  in the rounding interval of the float up to \<open>2 ^ - 62\<close> units in the last place.  Last, the
  totality of PHP's float layout, which has no endless loop left.
\<close>

section \<open>The round-to-odd product\<close>

lemma unat_ucast_small: "unat (w :: 'a::len word) < 2 ^ LENGTH('b) \<Longrightarrow> unat (ucast w :: 'b::len word) = unat w"
  by (simp add: unsigned_ucast_eq take_bit_nat_eq_self)

lemma unat_mult_small: "unat (a :: 'a::len word) * unat b < 2 ^ LENGTH('a) \<Longrightarrow> unat (a * b) = unat a * unat b"
  by (simp add: unat_word_ariths)

lemma unat_add_small: "unat (a :: 'a::len word) + unat b < 2 ^ LENGTH('a) \<Longrightarrow> unat (a + b) = unat a + unat b"
  by (simp add: unat_word_ariths)

lemma mask63_mask: "mask63 = mask 63"
  by (simp add: mask63_def mask_eq_exp_minus_1)

lemma product_less: "(a :: nat) \<le> A \<Longrightarrow> b < B \<Longrightarrow> 0 < A \<Longrightarrow> a * b < A * B"
  by (rule le_less_trans [OF mult_right_mono]) auto

lemma half_split: "(n :: nat) div 2 = n div 2 ^ 64 * 2 ^ 63 + n mod 2 ^ 64 div 2"
proof -
  have "n = n mod 2 ^ 64 + 2 * (n div 2 ^ 64 * 2 ^ 63)"
    using div_mult_mod_eq [of n "2 ^ 64"] by simp
  then have "n div 2 = (n mod 2 ^ 64 + 2 * (n div 2 ^ 64 * 2 ^ 63)) div 2" by (rule arg_cong)
  also have "\<dots> = n div 2 ^ 64 * 2 ^ 63 + n mod 2 ^ 64 div 2" by (rule div_mult_self2) simp
  finally show ?thesis .
qed

lemma rop_nat:
  fixes g :: u128 and cp :: u64
  assumes "unat g \<le> 2 ^ 126"
  defines "N \<equiv> unat g div 2 ^ 63 * unat cp div 2 + unat g mod 2 ^ 63 * unat cp div 2 ^ 64"
  shows "unat (rop g cp) = (N div 2 ^ 63) OR (if N mod 2 ^ 63 \<noteq> 0 then 1 else 0)"
    and "N div 2 ^ 63 \<le> 2 ^ 63"
proof -
  define C G1 G0 where "C = unat cp" and "G1 = unat g div 2 ^ 63" and "G0 = unat g mod 2 ^ 63"
  define g1 where "g1 = (ucast (drop_bit 63 g) :: u64)"
  define g0 where "g0 = (ucast g AND mask63 :: u64)"
  define x1 where "x1 = (ucast (drop_bit 64 (ucast g0 * ucast cp :: u128)) :: u64)"
  define y where "y = (ucast g1 * ucast cp :: u128)"
  define z where "z = drop_bit 1 (ucast y :: u64) + x1"
  define v where "v = ucast (drop_bit 64 y) + drop_bit 63 z"
  have C: "C < 2 ^ 64" unfolding C_def by (rule unat_u64_less)
  have G1le: "G1 \<le> 2 ^ 63"
  proof -
    have "unat g div 2 ^ 63 \<le> 2 ^ 126 div 2 ^ 63" by (rule div_le_mono [OF assms(1)])
    then show ?thesis by (simp add: G1_def)
  qed
  have G0lt: "G0 < 2 ^ 63" by (simp add: G0_def)
  have u1: "unat g1 = G1"
    using G1le unfolding g1_def G1_def by (subst unat_ucast_small) (simp_all add: unat_shr)
  have u0: "unat g0 = G0"
  proof -
    have "unat (ucast g :: u64) = unat g mod 2 ^ 64"
      by (simp only: unsigned_ucast_eq take_bit_eq_mod) simp
    then have "unat g0 = unat g mod 2 ^ 64 mod 2 ^ 63"
      by (simp only: g0_def mask63_mask unat_and_mask)
    also have "\<dots> = unat g mod 2 ^ 63" by (rule mod_mod_cancel) simp
    finally show ?thesis by (simp only: G0_def)
  qed
  have up: "unat (ucast w :: u128) = unat w" for w :: u64
    using unat_u64_less [of w] by (intro unat_ucast_small) simp
  have YC: "G1 * C < 2 ^ 127" using product_less [OF G1le C] by simp
  have XC: "G0 * C < 2 ^ 127" using product_less [OF less_imp_le [OF G0lt] C] by simp
  have uy: "unat y = G1 * C"
    using YC unfolding y_def by (subst unat_mult_small) (simp_all add: up u1 C_def)
  have ux: "unat x1 = G0 * C div 2 ^ 64"
  proof -
    have p: "unat (ucast g0 * ucast cp :: u128) = G0 * C"
      using XC by (subst unat_mult_small) (simp_all add: up u0 C_def)
    have "G0 * C div 2 ^ 64 < 2 ^ 63" using XC by (intro less_mult_imp_div_less) simp
    then show ?thesis unfolding x1_def by (subst unat_ucast_small) (simp_all add: unat_shr p)
  qed
  have x1lt: "unat x1 < 2 ^ 63" unfolding ux using XC by (intro less_mult_imp_div_less) simp
  have low: "unat (drop_bit 1 (ucast y :: u64)) = unat y mod 2 ^ 64 div 2"
  proof -
    have "unat (ucast y :: u64) = unat y mod 2 ^ 64"
      by (simp only: unsigned_ucast_eq take_bit_eq_mod) simp
    then show ?thesis by (simp only: unat_shr) simp
  qed
  have lowlt: "unat y mod 2 ^ 64 div 2 < 2 ^ 63" by (intro less_mult_imp_div_less) simp
  have uz: "unat z = unat y mod 2 ^ 64 div 2 + unat x1"
  proof -
    have "unat (drop_bit 1 (ucast y :: u64)) + unat x1 < 2 ^ LENGTH(64)"
      using x1lt lowlt unfolding low by simp
    from unat_add_small [OF this] show ?thesis by (simp only: z_def low)
  qed
  have split: "N = unat y div 2 ^ 64 * 2 ^ 63 + unat z"
  proof -
    have "unat y div 2 = unat y div 2 ^ 64 * 2 ^ 63 + unat y mod 2 ^ 64 div 2"
      by (rule half_split)
    then show ?thesis
      unfolding N_def uz ux uy C_def [symmetric] G1_def [symmetric] G0_def [symmetric] by linarith
  qed
  have hi: "unat y div 2 ^ 64 < 2 ^ 63" unfolding uy using YC by (intro less_mult_imp_div_less) simp
  have zlt: "unat z < 2 * 2 ^ 63" using x1lt lowlt by (simp add: uz)
  have zq: "unat z div 2 ^ 63 \<le> 1"
  proof -
    have "unat z div 2 ^ 63 < 2" using zlt by (rule less_mult_imp_div_less)
    then show ?thesis by simp
  qed
  have Nd: "N div 2 ^ 63 = unat y div 2 ^ 64 + unat z div 2 ^ 63" unfolding split by simp
  have Nm: "N mod 2 ^ 63 = unat z mod 2 ^ 63" unfolding split by simp
  have uv: "unat v = N div 2 ^ 63"
  proof -
    have "unat (ucast (drop_bit 64 y) :: u64) = unat y div 2 ^ 64"
      using hi by (subst unat_ucast_small) (simp_all add: unat_shr)
    then show ?thesis
      unfolding v_def Nd using hi zq by (subst unat_add_small) (simp_all add: unat_shr)
  qed
  show "N div 2 ^ 63 \<le> 2 ^ 63" unfolding Nd using hi zq by linarith
  have zm: "z AND mask63 \<noteq> 0 \<longleftrightarrow> N mod 2 ^ 63 \<noteq> 0"
    by (simp only: unsigned_eq_0_iff [symmetric, where 'a = nat] mask63_mask unat_and_mask Nm)
  have "rop g cp = v OR (if z AND mask63 \<noteq> 0 then 1 else 0)"
    by (simp only: rop_def Let_def v_def z_def y_def x1_def g0_def g1_def)
  then show "unat (rop g cp) = (N div 2 ^ 63) OR (if N mod 2 ^ 63 \<noteq> 0 then 1 else 0)"
    by (simp add: zm uv unsigned_or_eq del: One_nat_def)
qed


lemma or_one: "(n :: nat) OR 1 = (if even n then n + 1 else n)"
  by (simp add: or_one_eq del: One_nat_def)

lemma rop_product:
  fixes g :: u128 and cp :: u64
  defines "N \<equiv> unat g div 2 ^ 63 * unat cp div 2 + unat g mod 2 ^ 63 * unat cp div 2 ^ 64"
  shows "N * 2 ^ 64 \<le> unat g * unat cp" "unat g * unat cp < N * 2 ^ 64 + 2 ^ 65"
proof -
  define C G1 G0 where "C = unat cp" and "G1 = unat g div 2 ^ 63" and "G0 = unat g mod 2 ^ 63"
  have P: "unat g * C = G1 * C * 2 ^ 63 + G0 * C"
  proof -
    have "unat g = G1 * 2 ^ 63 + G0" unfolding G1_def G0_def by (simp only: div_mult_mod_eq)
    then show ?thesis by (simp only: distrib_left distrib_right ac_simps)
  qed
  obtain A where A: "A = G1 * C" by simp
  obtain B where B: "B = G0 * C" by simp
  have a: "A div 2 * 2 \<le> A" "A \<le> A div 2 * 2 + 1" by linarith+
  have "B mod 2 ^ 64 < 2 ^ 64" by simp
  then have b: "B div 2 ^ 64 * 2 ^ 64 \<le> B" "B < B div 2 ^ 64 * 2 ^ 64 + 2 ^ 64"
    using div_mult_mod_eq [of B "2 ^ 64"] by linarith+
  have N: "N = A div 2 + B div 2 ^ 64" by (simp add: N_def A B G1_def G0_def C_def)
  have P': "unat g * unat cp = A * 2 ^ 63 + B" using P by (simp only: A B C_def)
  show "N * 2 ^ 64 \<le> unat g * unat cp" "unat g * unat cp < N * 2 ^ 64 + 2 ^ 65"
    unfolding P' N using a b by (simp_all add: algebra_simps)
qed

text \<open>Comparisons with even integers are those of the exact product, up to \<open>2 ^ - 62\<close>.\<close>

lemma rop_le_even:
  assumes "unat g \<le> 2 ^ 126" "even n" "unat (rop g cp) \<le> n"
  shows "unat g * unat cp < n * 2 ^ 127 + 2 ^ 65"
proof -
  define N where "N = unat g div 2 ^ 63 * unat cp div 2 + unat g mod 2 ^ 63 * unat cp div 2 ^ 64"
  define V where "V = N div 2 ^ 63"
  note r = rop_nat(1) [OF assms(1), of cp, folded N_def V_def]
  note P = rop_product(2) [of g cp, folded N_def]
  have NV: "N = V * 2 ^ 63 + N mod 2 ^ 63" by (simp add: V_def)
  show ?thesis
  proof (cases "N mod 2 ^ 63 = 0")
    case True
    then have "V \<le> n" using r assms(3) by simp
    moreover have "N = V * 2 ^ 63" using NV True by linarith
    ultimately show ?thesis using P by simp
  next
    case False
    then have "V OR 1 \<le> n" using r assms(3) by simp
    then have "V + 1 \<le> n" using assms(2) unfolding or_one by (cases "even V") (auto simp: le_less)
    moreover have "N + 1 \<le> V * 2 ^ 63 + 2 ^ 63"
      using NV Suc_leI [OF mod_less_divisor [of "2 ^ 63" N]] by simp
    ultimately show ?thesis using P by simp
  qed
qed

lemma rop_ge_even:
  assumes "unat g \<le> 2 ^ 126" "even n" "n \<le> unat (rop g cp)"
  shows "n * 2 ^ 127 \<le> unat g * unat cp"
proof -
  define N where "N = unat g div 2 ^ 63 * unat cp div 2 + unat g mod 2 ^ 63 * unat cp div 2 ^ 64"
  define V where "V = N div 2 ^ 63"
  note r = rop_nat(1) [OF assms(1), of cp, folded N_def V_def]
  note P = rop_product(1) [of g cp, folded N_def]
  have "V * 2 ^ 63 \<le> N" by (simp add: V_def)
  moreover have "n \<le> V"
  proof (cases "N mod 2 ^ 63 = 0")
    case True
    then show ?thesis using r assms(3) by simp
  next
    case False
    then have "n \<le> V OR 1" using r assms(3) by simp
    then show ?thesis using assms(2) unfolding or_one by (cases "even V") (auto simp: le_Suc_eq)
  qed
  ultimately show ?thesis using P by simp
qed

lemma rop_less: "unat g \<le> 2 ^ 126 \<Longrightarrow> unat (rop g cp) \<le> 2 ^ 63 + 1"
proof -
  assume g: "unat g \<le> 2 ^ 126"
  define N where "N = unat g div 2 ^ 63 * unat cp div 2 + unat g mod 2 ^ 63 * unat cp div 2 ^ 64"
  note r = rop_nat [OF g, of cp, folded N_def]
  show ?thesis using r(2) unfolding r(1) by (auto simp: or_one simp del: One_nat_def)
qed


section \<open>The exponents\<close>

lemma flog10_3q_log:
  assumes "\<bar>q\<bar> \<le> 1100"
  shows "real_of_int (flog10_3q_pow2 q) + 1 / 8 \<le> real_of_int q * log 10 2"
    "real_of_int q * log 10 2 < real_of_int (flog10_3q_pow2 q) + 13 / 10"
proof -
  define k where "k = flog10_3q_pow2 q"
  have k: "k * 4294967296 \<le> q * 1292913986 - 536607788" "q * 1292913986 - 536607788 < (k + 1) * 4294967296"
    using div_bounds [of k] by (simp_all add: k_def flog10_3q_pow2_def)
  have "real_of_int k + 1 / 8 \<le> real_of_int q * log 10 2 \<and> real_of_int q * log 10 2 < real_of_int k + 13 / 10"
  proof (cases "0 \<le> q")
    case True
    have "2136 * k + 267 \<le> 643 * q" using k assms True by linarith
    moreover have "146 * q \<le> 485 * k + 630" using k(2) assms by simp
    ultimately have "2136 * real_of_int k + 267 \<le> 643 * real_of_int q" "146 * real_of_int q \<le> 485 * real_of_int k + 630"
      by linarith+
    then show ?thesis using log10_2_scaled(1) [OF True] by auto
  next
    case False
    have "485 * k + 61 \<le> 146 * q" using k assms False by linarith
    moreover have "643 * q \<le> 2136 * k + 2776" using k(2) assms by simp
    ultimately have "485 * real_of_int k + 61 \<le> 146 * real_of_int q" "643 * real_of_int q \<le> 2136 * real_of_int k + 2776"
      by linarith+
    moreover have "real_of_int q * (146 / 485) < real_of_int q * log 10 2"
      "real_of_int q * log 10 2 < real_of_int q * (643 / 2136)"
      using log10_2_scaled(2) [of q] False by simp_all
    ultimately show ?thesis by - (rule conjI; linarith)
  qed
  then show "real_of_int (flog10_3q_pow2 q) + 1 / 8 \<le> real_of_int q * log 10 2"
    "real_of_int q * log 10 2 < real_of_int (flog10_3q_pow2 q) + 13 / 10" by (simp_all add: k_def)
qed

lemma flog10_3q_bounds:
  assumes "\<bar>q\<bar> \<le> 1100"
  shows "4 * (10 :: real) powi flog10_3q_pow2 q \<le> 3 * 2 powi q" "(2 :: real) powi q < 22 * 10 powi flog10_3q_pow2 q"
proof -
  define x where "x = (10 :: real) powr (1 / 8)"
  define y where "y = (10 :: real) powr (13 / 10)"
  have "x ^ 8 = 10" by (simp add: x_def powr_power)
  moreover have "(4 / 3 :: real) ^ 8 < 10" by (simp add: power_divide)
  ultimately have x: "4 / 3 < x" using power_less_imp_less_base [of "4 / 3" 8 x] by (simp add: x_def)
  have "y ^ 10 = 10 ^ 13" by (simp add: y_def powr_power)
  moreover have "(10 :: real) ^ 13 < 22 ^ 10" by simp
  ultimately have "y ^ 10 < 22 ^ 10" by simp
  then have y: "y < 22" by (rule power_less_imp_less_base) simp
  define T where "T = (10 :: real) powi flog10_3q_pow2 q"
  have T: "0 < T" by (simp add: T_def)
  have "T * x \<le> 2 powi q"
    using flog10_3q_log(1) [OF assms] unfolding T_def x_def powi_log powi10 powr_add [symmetric] by simp
  moreover have "T * (4 / 3) \<le> T * x" using T x by (intro mult_left_mono) simp_all
  ultimately have "4 * T \<le> 3 * 2 powi q" by linarith
  then show "4 * (10 :: real) powi flog10_3q_pow2 q \<le> 3 * 2 powi q" by (simp only: T_def)
  have "2 powi q < T * y"
    using flog10_3q_log(2) [OF assms] unfolding T_def y_def powi_log powi10 powr_add [symmetric] by simp
  moreover have "T * y < T * 22" using T y by (rule mult_strict_left_mono [rotated])
  ultimately have "2 powi q < 22 * T" by linarith
  then show "(2 :: real) powi q < 22 * 10 powi flog10_3q_pow2 q" by (simp only: T_def)
qed

lemma exponent_range:
  assumes "- 1074 \<le> q" "q \<le> 971"
  shows "- 324 \<le> flog10pow2 q" "flog10pow2 q \<le> 292" "- 324 \<le> flog10_3q_pow2 q" "flog10_3q_pow2 q \<le> 292"
proof -
  have "(- 1074) * 1292913986 div 2 ^ 32 \<le> q * 1292913986 div 2 ^ 32"
    "q * 1292913986 div 2 ^ 32 \<le> 971 * 1292913986 div 2 ^ 32"
    "((- 1074) * 1292913986 - 536607788) div 2 ^ 32 \<le> (q * 1292913986 - 536607788) div 2 ^ 32"
    "(q * 1292913986 - 536607788) div 2 ^ 32 \<le> (971 * 1292913986 - 536607788) div 2 ^ 32"
    using assms by (intro zdiv_mono1; simp)+
  then show "- 324 \<le> flog10pow2 q" "flog10pow2 q \<le> 292" "- 324 \<le> flog10_3q_pow2 q" "flog10_3q_pow2 q \<le> 292"
    by (simp_all add: flog10pow2_def flog10_3q_pow2_def)
qed

text \<open>The shift of the factors, from the position of the interval between two powers of ten.\<close>

lemma shift_range:
  assumes "\<bar>k\<bar> \<le> 350" "(10 :: real) powi k \<le> 2 powi q" "(2 :: real) powi q < 22 * 10 powi k"
  shows "2 \<le> q + flog2pow10 (- k) + 2" "q + flog2pow10 (- k) + 2 \<le> 6"
proof -
  define b where "b = flog2pow10 (- k)"
  define T where "T = (10 :: real) powi k"
  have T: "0 < T" "10 powi (- k) = 1 / T" by (simp_all add: T_def power_int_minus field_simps)
  have b: "2 powi b \<le> 1 / T" "1 / T < 2 powi (b + 1)"
    using flog2pow10_bounds [of "- k"] assms(1) by (simp_all add: b_def T(2) del: power_int_minus)
  have "(2 :: real) powi (q + b) = 2 powi q * 2 powi b" by (rule powi_add)
  also have "\<dots> \<le> 2 powi q * (1 / T)" using b(1) by (intro mult_left_mono) simp_all
  also have "\<dots> < 22" using assms(3) T(1) by (simp add: T_def [symmetric] divide_less_eq)
  finally have "(2 :: real) powi (q + b) < 2 powi 5" by simp
  then have "q + b < 5" by (meson leD not_le_imp_less one_le_numeral power_int_increasing)
  then show "q + flog2pow10 (- k) + 2 \<le> 6" by (simp add: b_def)
  have "1 \<le> 2 powi q * (1 / T)" using assms(2) T(1) by (simp add: T_def [symmetric] le_divide_eq)
  also have "\<dots> < 2 powi q * 2 powi (b + 1)" using b(2) by (intro mult_strict_left_mono) simp_all
  also have "\<dots> = 2 powi (q + b + 1)" by (simp only: powi_add [symmetric] add.assoc)
  finally have "(2 :: real) powi 0 < 2 powi (q + b + 1)" by simp
  then have "0 < q + b + 1" by (meson leD not_le_imp_less one_le_numeral power_int_increasing)
  then show "2 \<le> q + flog2pow10 (- k) + 2" by (simp add: b_def)
qed


section \<open>The choice of the digits\<close>

text \<open>The choice on naturals: no operation of \<open>pick_shortest\<close> wraps around.\<close>

definition pick_nat :: "nat \<Rightarrow> nat \<Rightarrow> nat \<Rightarrow> nat \<Rightarrow> nat" where
  "pick_nat out vb vbl vbr =
     (let s = vb div 4; sp10 = s div 10 * 10; tp10 = sp10 + 10;
          upin = (vbl + out \<le> 4 * sp10); wpin = (4 * tp10 + out \<le> vbr) in
      if upin \<noteq> wpin then (if upin then sp10 else tp10)
      else
        let t = s + 1; uin = (vbl + out \<le> 4 * s); win = (4 * t + out \<le> vbr) in
        if uin \<noteq> win then (if uin then s else t)
        else if vb < 2 * (s + t) \<or> (vb = 2 * (s + t) \<and> even s) then s else t)"

lemma unat_push_small: "unat (w :: u64) * 2 ^ n < 2 ^ 64 \<Longrightarrow> unat (push_bit n w) = unat w * 2 ^ n"
  by (simp only: unsigned_push_bit_eq) (simp add: take_bit_nat_eq_self push_bit_eq_mult)

lemma pick_shortest_nat:
  fixes out vb vbl vbr :: u64
  assumes "unat vb \<le> 2 ^ 63 + 1" "unat vbl \<le> 2 ^ 63 + 1" "unat out \<le> 1"
  shows "unat (pick_shortest out vb vbl vbr) = pick_nat (unat out) (unat vb) (unat vbl) (unat vbr)"
proof -
  define S where "S = unat vb div 4"
  define s where "s = drop_bit 2 vb"
  have s: "unat s = S" by (simp add: s_def S_def unat_shr)
  have S: "S \<le> 2 ^ 61" using div_le_mono [OF assms(1), of 4] by (simp add: S_def)
  define sp10 where "sp10 = s div 10 * 10"
  obtain P where P: "S div 10 * 10 = P" by simp
  have SP: "P \<le> S" by (simp flip: P)
  have "unat (s div 10) = S div 10" by (simp add: unat_div s)
  then have sp: "unat sp10 = P"
    using SP S unfolding sp10_def by (subst unat_mult_small) (simp_all add: P)
  have tp: "unat (sp10 + 10) = P + 10"
    using SP S by (subst unat_add_small) (simp_all add: sp)
  have t: "unat (s + 1) = S + 1"
    using S by (subst unat_add_small) (simp_all add: s)
  have b4: "unat (push_bit 2 w) = 4 * unat w" if "unat w \<le> 2 ^ 61 + 10" for w :: u64
    using that by (subst unat_push_small) simp_all
  have sp4: "unat (push_bit 2 sp10) = 4 * (P)" using SP S by (subst b4) (simp_all add: sp)
  have tp4: "unat (push_bit 2 (sp10 + 10)) = 4 * (P + 10)"
    using SP S b4 [of "sp10 + 10"] unfolding tp by simp
  have s4: "unat (push_bit 2 s) = 4 * S" using S by (subst b4) (simp_all add: s)
  have t4: "unat (push_bit 2 (s + 1)) = 4 * (S + 1)" using S b4 [of "s + 1"] unfolding t by simp
  have o: "unat (vbl + out) = unat vbl + unat out"
    using assms(2,3) by (subst unat_add_small) simp_all
  have o2: "unat (push_bit 2 (sp10 + 10) + out) = 4 * (P + 10) + unat out"
    using SP S assms(3) unat_add_small [of "push_bit 2 (sp10 + 10)" out] unfolding tp4 by simp
  have o3: "unat (push_bit 2 (s + 1) + out) = 4 * (S + 1) + unat out"
    using S assms(3) unat_add_small [of "push_bit 2 (s + 1)" out] unfolding t4 by simp
  have st: "unat (s + (s + 1)) = S + (S + 1)"
    using S unat_add_small [of s "s + 1"] unfolding s t by simp
  have mid: "unat (push_bit 1 (s + (s + 1))) = 2 * (S + (S + 1))"
    using S unat_push_small [of "s + (s + 1)" 1] unfolding st by simp
  have ev: "s AND 1 = 0 \<longleftrightarrow> even S"
  proof -
    have "s AND 1 = 0 \<longleftrightarrow> unat (s AND mask 1) = 0" by (simp only: unsigned_eq_0_iff) simp
    also have "\<dots> \<longleftrightarrow> even S" by (simp only: unat_and_mask s power_one_right even_iff_mod_2_eq_zero)
    finally show ?thesis .
  qed
  have eqm: "vb = push_bit 1 (s + (s + 1)) \<longleftrightarrow> unat vb = 2 * (S + (S + 1))"
    by (simp only: mid [symmetric] unsigned_word_eqI word_unat_eq_iff)
  show ?thesis
    unfolding pick_shortest_def pick_nat_def Let_def s_def [symmetric] sp10_def [symmetric] S_def [symmetric]
      word_le_nat_alt word_less_nat_alt o o2 o3 sp4 s4 mid ev eqm P
    by (simp only: if_distrib [of unat] s sp tp t)
qed

lemma choice_cases:
  "(if a \<noteq> b then (if a then p else q) else if u \<noteq> w then (if u then s else t) else if z then s else t) = D
    \<Longrightarrow> a \<and> D = p \<or> b \<and> D = q \<or> u \<and> D = s \<or> w \<and> D = t \<or> \<not> u \<and> \<not> w \<and> (D = s \<or> D = t)"
  by (auto split: if_splits)

lemma pick_nat_close:
  fixes Xl X Xr d :: real
  assumes vb: "\<And>n. even n \<Longrightarrow> vb \<le> n \<Longrightarrow> X \<le> real n + d" "\<And>n. even n \<Longrightarrow> n \<le> vb \<Longrightarrow> real n \<le> X + d"
    and vbl: "\<And>n. even n \<Longrightarrow> vbl \<le> n \<Longrightarrow> Xl \<le> real n + d" "\<And>n. even n \<Longrightarrow> n \<le> vbl \<Longrightarrow> real n \<le> Xl + d"
    and vbr: "\<And>n. even n \<Longrightarrow> vbr \<le> n \<Longrightarrow> Xr \<le> real n + d" "\<And>n. even n \<Longrightarrow> n \<le> vbr \<Longrightarrow> real n \<le> Xr + d"
    and out: "out \<le> 1" and X: "Xl \<le> X" "X \<le> Xr" "4 \<le> Xr - Xl"
  shows "Xl \<le> 4 * real (pick_nat out vb vbl vbr) + d" "4 * real (pick_nat out vb vbl vbr) \<le> Xr + d"
proof -
  define s where "s = vb div 4"
  define p where "p = s div 10 * 10"
  have s: "4 * s \<le> vb" "vb \<le> 4 * (s + 1)" by (simp_all add: s_def)
  have p: "p \<le> s" "s + 1 \<le> p + 10" by (simp_all add: p_def)
  have lowS: "4 * real s \<le> Xr + d" using vb(2) [of "4 * s"] s(1) X(2) by simp
  have lowT: "Xl \<le> 4 * real (s + 1) + d" using vb(1) [of "4 * (s + 1)"] s(2) X(1) by simp
  have in_l: "Xl \<le> 4 * real n + d" if "vbl + out \<le> 4 * n" for n
    using vbl(1) [of "4 * n"] that by simp
  have in_r: "4 * real n \<le> Xr + d" if "4 * n + out \<le> vbr" for n
    using vbr(2) [of "4 * n"] that by simp
  have not_l: "4 * real n \<le> Xl + d" if "\<not> vbl + out \<le> 4 * n" for n
    using vbl(2) [of "4 * n"] that out by simp
  have not_r: "Xr \<le> 4 * real n + d" if "\<not> 4 * n + out \<le> vbr" for n
    using vbr(1) [of "4 * n"] that out by simp
  have P: "4 * real p \<le> Xr + d" "Xl \<le> 4 * real (p + 10) + d"
  proof -
    have "real p \<le> real s" "real (s + 1) \<le> real (p + 10)"
      by (simp_all only: of_nat_le_iff p)
    then show "4 * real p \<le> Xr + d" "Xl \<le> 4 * real (p + 10) + d"
      using lowS lowT by simp_all
  qed
  define D where "D = pick_nat out vb vbl vbr"
  have "pick_nat out vb vbl vbr = D" by (simp add: D_def)
  from choice_cases [OF this [unfolded pick_nat_def Let_def, folded s_def, folded p_def]]
  have "Xl \<le> 4 * real D + d \<and> 4 * real D \<le> Xr + d"
  proof (elim disjE conjE)
    assume "vbl + out \<le> 4 * p" "D = p"
    then show ?thesis using in_l [of p] P(1) by simp
  next
    assume "4 * (p + 10) + out \<le> vbr" "D = p + 10"
    then show ?thesis using in_r [of "p + 10"] P(2) by simp
  next
    assume "vbl + out \<le> 4 * s" "D = s"
    then show ?thesis using in_l [of s] lowS by simp
  next
    assume "4 * (s + 1) + out \<le> vbr" "D = s + 1"
    then show ?thesis using in_r [of "s + 1"] lowT by simp
  next
    assume a: "\<not> vbl + out \<le> 4 * s" "\<not> 4 * (s + 1) + out \<le> vbr" "D = s"
    then show ?thesis using not_r [of "s + 1"] X(3) lowS by simp
  next
    assume a: "\<not> vbl + out \<le> 4 * s" "\<not> 4 * (s + 1) + out \<le> vbr" "D = s + 1"
    then show ?thesis using not_l [of s] X(3) lowT by simp
  qed
  then show "Xl \<le> 4 * real (pick_nat out vb vbl vbr) + d" "4 * real (pick_nat out vb vbl vbr) \<le> Xr + d"
    by (simp_all add: D_def)
qed


section \<open>Emitting an integer\<close>

lemma u64_digits_eq: "u64_digits n out = dec_digits n @ out"
proof (induction n out rule: u64_digits.induct)
  case (1 n out)
  show ?case
  proof (cases "n < 10")
    case True
    then show ?thesis by (simp add: u64_digits.simps dec_digits.simps Let_def)
  next
    case False
    then have nz: "n div 10 \<noteq> 0" by linarith
    have "u64_digits n out = u64_digits (n div 10) (digit_byte (n mod 10) # out)"
      using nz by (subst u64_digits.simps) (simp add: Let_def)
    also have "\<dots> = dec_digits (n div 10) @ digit_byte (n mod 10) # out"
      using "1.IH" [OF refl refl nz] by simp
    also have "\<dots> = dec_digits n @ out" using False by (subst (2) dec_digits.simps) simp
    finally show ?thesis .
  qed
qed

lemma strip10_spec:
  assumes "0 < v" "strip10 v z = (w, z')"
  shows "v * 10 ^ z = w * 10 ^ z' \<and> w mod 10 \<noteq> 0 \<and> 0 < w \<and> w \<le> v \<and> z \<le> z'"
  using assms
proof (induction v z rule: strip10.induct)
  case (1 v z)
  show ?case
  proof (cases "v mod 10 = 0")
    case True
    with "1.prems" have nz: "0 < v div 10" and c: "v mod 10 = 0 \<and> 0 < v" by auto
    have "strip10 (v div 10) (z + 1) = (w, z')"
      using "1.prems"(2) c by (subst (asm) strip10.simps) simp
    from "1.IH" [OF c nz this] have IH: "v div 10 * 10 ^ (z + 1) = w * 10 ^ z'" "w mod 10 \<noteq> 0" "0 < w" "w \<le> v div 10" "z + 1 \<le> z'"
      by blast+
    have "v = v div 10 * 10" using True by (metis div_mult_mod_eq add_0_right)
    then have "v * 10 ^ z = v div 10 * 10 ^ (z + 1)" by simp
    then show ?thesis using IH(2-5) div_le_dividend [of v 10] unfolding IH(1) by simp
  next
    case False
    then have "strip10 v z = (v, z)" by (subst strip10.simps) simp
    with "1.prems" False show ?thesis by simp
  qed
qed

lemma last_dec_digits: "last (dec_digits n) = digit_byte (n mod 10)"
  by (subst dec_digits.simps) simp

lemma emit_u64_spec:
  assumes "v \<noteq> 0" "unat v < 10 ^ k"
  shows "\<exists>ds x. emit_u64 v = Some (ds, x) \<and> good_digits ds \<and> length ds \<le> k \<and> digit_value ds x = real (unat v)"
proof -
  have v: "0 < unat v" using assms(1) by (simp add: unat_gt_0)
  obtain w z where wz: "strip10 (unat v) 0 = (w, z)" by (cases "strip10 (unat v) 0") auto
  note s = strip10_spec [OF v wz]
  have code: "emit_u64 v = Some (dec_digits w, int z + int (length (dec_digits w)) - 1)"
    using assms(1) by (simp add: emit_u64_def wz u64_digits_eq Let_def)
  have k: "0 < k" using v assms(2) by (cases k) auto
  have "w < 10 ^ k" using s assms(2) by linarith
  then have len: "length (dec_digits w) \<le> k" using length_dec_digits [OF k] by blast
  have good: "good_digits (dec_digits w)"
    using s dec_digits_facts [of w] hd_dec_digits [of w]
    by (simp add: good_digits_def list_all_iff last_dec_digits byte_simps)
  have "digit_value (dec_digits w) (int z + int (length (dec_digits w)) - 1) = real (w * 10 ^ z)"
    by (simp add: digit_value_def)
  also have "w * 10 ^ z = unat v" using s by simp
  finally show ?thesis using code len good by blast
qed

section \<open>One step of the algorithm\<close>

lemma table_entry:
  assumes "- 324 \<le> k" "k \<le> 292"
  defines "g \<equiv> g_table ! nat (- k - g_min)"
  shows "unat g \<le> 2 ^ 126" "g_real (- k) < real (unat g)" "real (unat g) \<le> g_real (- k) + 1"
proof -
  have "g_min \<le> - k" "- k \<le> g_max" using assms by (simp_all add: g_min_def g_max_def)
  note e = g_table_entry [OF this, folded g_def g_real_def]
  show "unat g \<le> 2 ^ 126" using e by blast
  have "real (unat g) = real_of_int \<lfloor>g_real (- k)\<rfloor> + 1"
    using e by (metis of_int_1 of_int_add of_int_of_nat_eq)
  then show "g_real (- k) < real (unat g)" "real (unat g) \<le> g_real (- k) + 1" by linarith+
qed

text \<open>A product with a scaled factor is the factor in quarters of \<open>10\<^sup>k\<close>, times \<open>2 ^ 127\<close>.\<close>

lemma scaled_product:
  assumes k: "- 324 \<le> k" "k \<le> 292" and h: "int h = q + flog2pow10 (- k) + 2"
    and c: "c * 2 ^ h < 2 ^ 64"
  defines "g \<equiv> unat (g_table ! nat (- k - g_min))" and "X \<equiv> real c * (2 powi q / 10 powi k)"
  shows "X * 2 ^ 127 \<le> real (g * (c * 2 ^ h))" "real (g * (c * 2 ^ h)) \<le> X * 2 ^ 127 + 2 ^ 64"
proof -
  define G where "G = g_real (- k)"
  note e = table_entry(2,3) [OF k, folded g_def G_def]
  have scale: "G * 2 ^ h = 2 powi q / 10 powi k * 2 ^ 127"
  proof -
    have "G * 2 ^ h = 10 powi (- k) * (2 powi (125 - flog2pow10 (- k)) * 2 powi int h)"
      by (simp add: G_def g_real_def)
    also have "2 powi (125 - flog2pow10 (- k)) * 2 powi int h = (2 :: real) powi (q + 127)"
      by (simp only: powi_add [symmetric] h) (simp add: add.commute)
    also have "\<dots> = 2 powi q * 2 ^ 127" by (simp only: powi_add) simp
    finally show ?thesis by (simp add: power_int_minus field_simps)
  qed
  have "X * 2 ^ 127 = real c * (G * 2 ^ h)" unfolding scale X_def by simp
  also have "\<dots> = G * real (c * 2 ^ h)" by simp
  finally have X: "X * 2 ^ 127 = G * real (c * 2 ^ h)" .
  have P: "real (g * (c * 2 ^ h)) = real g * real (c * 2 ^ h)" by (rule of_nat_mult)
  show "X * 2 ^ 127 \<le> real (g * (c * 2 ^ h))"
    unfolding X P using e by (intro mult_right_mono) simp_all
  have "real (g * (c * 2 ^ h)) \<le> (G + 1) * real (c * 2 ^ h)"
    unfolding P using e by (intro mult_right_mono) simp_all
  also have "\<dots> = X * 2 ^ 127 + real (c * 2 ^ h)" unfolding X by (simp only: distrib_right mult_1)
  finally have "real (g * (c * 2 ^ h)) \<le> X * 2 ^ 127 + real (c * 2 ^ h)" .
  moreover have "real (c * 2 ^ h) \<le> real (2 ^ 64)" using c by (simp only: of_nat_le_iff less_imp_le)
  then have "real (c * 2 ^ h) \<le> 2 ^ 64" by simp
  ultimately show "real (g * (c * 2 ^ h)) \<le> X * 2 ^ 127 + 2 ^ 64" by (rule order_trans [OF _ add_left_mono])
qed

lemma rop_scaled:
  assumes k: "- 324 \<le> k" "k \<le> 292" and h: "int h = q + flog2pow10 (- k) + 2"
    and c: "unat w * 2 ^ h < 2 ^ 64"
  defines "v \<equiv> unat (rop (g_table ! nat (- k - g_min)) (push_bit h w))"
    and "X \<equiv> real (unat w) * (2 powi q / 10 powi k)" and "d \<equiv> 1 / 2 ^ 62"
  shows "even n \<Longrightarrow> v \<le> n \<Longrightarrow> X \<le> real n + d" "even n \<Longrightarrow> n \<le> v \<Longrightarrow> real n \<le> X + d"
proof -
  define g where "g = g_table ! nat (- k - g_min)"
  note g = table_entry(1) [OF k, folded g_def]
  have cp: "unat (push_bit h w) = unat w * 2 ^ h" using c by (rule unat_push_small)
  note P = scaled_product [OF k h c, folded X_def, folded g_def]
  show "X \<le> real n + d" if "even n" "v \<le> n"
  proof -
    have "unat g * (unat w * 2 ^ h) < n * 2 ^ 127 + 2 ^ 65"
      using rop_le_even [OF g that(1)] that(2) unfolding v_def g_def [symmetric] cp [symmetric] by blast
    then have "real (unat g * (unat w * 2 ^ h)) < real (n * 2 ^ 127 + 2 ^ 65)" by (simp only: of_nat_less_iff)
    then have "X * 2 ^ 127 < real n * 2 ^ 127 + 2 ^ 65" using P(1) by simp
    then show ?thesis by (simp add: d_def)
  qed
  show "real n \<le> X + d" if "even n" "n \<le> v"
  proof -
    have "n * 2 ^ 127 \<le> unat g * (unat w * 2 ^ h)"
      using rop_ge_even [OF g that(1)] that(2) unfolding v_def g_def [symmetric] cp [symmetric] by blast
    then have "real (n * 2 ^ 127) \<le> real (unat g * (unat w * 2 ^ h))" by (simp only: of_nat_le_iff)
    then have "real n * 2 ^ 127 \<le> X * 2 ^ 127 + 2 ^ 64" using P(2) by simp
    then show ?thesis by (simp add: d_def)
  qed
qed


lemma unat_and_1: "unat (w AND 1 :: u64) \<le> 1"
proof -
  have "unat (w AND mask 1) = unat w mod 2 ^ 1" by (rule unat_and_mask)
  then show ?thesis by simp
qed

lemma schubfach_step:
  fixes w b :: u64
  assumes m: "0 < unat w" "unat w < 2 ^ 53"
    and k: "- 324 \<le> k" "k \<le> 292" and h: "h = nat (q + flog2pow10 (- k) + 2)"
    and T: "(10 :: real) powi k \<le> 2 powi q" "(2 :: real) powi q < 22 * 10 powi k"
    and b: "unat b = B" "1 \<le> B" "B \<le> 2" and width: "4 * 10 powi k \<le> (2 + real B) * 2 powi q"
  defines "g \<equiv> g_table ! nat (- k - g_min)" and "cb \<equiv> push_bit 2 w" and "S \<equiv> (2 :: real) powi q / 10 powi k"
  defines "D \<equiv> unat (pick_shortest (w AND 1) (rop g (push_bit h cb)) (rop g (push_bit h (cb - b))) (rop g (push_bit h (cb + 2))))"
  shows "(4 * real (unat w) - real B) * S \<le> 4 * real D + 1 / 2 ^ 62"
    and "4 * real D \<le> (4 * real (unat w) + 2) * S + 1 / 2 ^ 62"
proof -
  have hr: "2 \<le> q + flog2pow10 (- k) + 2" "q + flog2pow10 (- k) + 2 \<le> 6"
    using shift_range [OF _ T] k by simp_all
  then have h': "int h = q + flog2pow10 (- k) + 2" "h \<le> 6" by (simp_all add: h)
  have cb: "unat cb = 4 * unat w" using m(2) by (simp only: cb_def) (subst unat_push_small; simp)
  have cl: "unat (cb - b) = 4 * unat w - B"
    using m(1) b cb by (simp add: unat_sub word_le_nat_alt)
  have cr: "unat (cb + 2) = 4 * unat w + 2"
    using m(2) cb by (subst unat_add_small) simp_all
  have fits: "n * 2 ^ h < 2 ^ 64" if "n \<le> 2 ^ 55 + 2" for n :: nat
  proof -
    have "n * 2 ^ h \<le> (2 ^ 55 + 2) * 2 ^ 6" using that h'(2) by (intro mult_le_mono power_increasing) simp_all
    then show ?thesis by simp
  qed
  have f: "unat cb * 2 ^ h < 2 ^ 64" "unat (cb - b) * 2 ^ h < 2 ^ 64" "unat (cb + 2) * 2 ^ h < 2 ^ 64"
    unfolding cb cl cr using m(2) by (intro fits; simp)+
  note rb = rop_scaled [OF k h'(1) f(1), folded g_def S_def]
    and rl = rop_scaled [OF k h'(1) f(2), folded g_def S_def]
    and rr = rop_scaled [OF k h'(1) f(3), folded g_def S_def]
  have S: "0 \<le> S" by (simp add: S_def)
  have Tp: "(0 :: real) < 10 powi k" by simp
  have four: "4 \<le> (2 + real B) * S"
    using width Tp by (simp add: S_def le_divide_eq)
  have reals: "real (unat cb) = 4 * real (unat w)" "real (unat (cb - b)) = 4 * real (unat w) - real B"
    "real (unat (cb + 2)) = 4 * real (unat w) + 2"
    using m(1) b(3) unfolding cb cl cr by (simp_all add: of_nat_diff)
  note g126 = table_entry(1) [OF k, folded g_def]
  have D: "D = pick_nat (unat (w AND 1)) (unat (rop g (push_bit h cb))) (unat (rop g (push_bit h (cb - b))))
      (unat (rop g (push_bit h (cb + 2))))"
    unfolding D_def by (rule pick_shortest_nat [OF rop_less [OF g126] rop_less [OF g126] unat_and_1])
  have o1: "real (unat (cb - b)) * S \<le> real (unat cb) * S"
    unfolding reals using S by (intro mult_right_mono) simp_all
  have o2: "real (unat cb) * S \<le> real (unat (cb + 2)) * S"
    unfolding reals using S by (intro mult_right_mono) simp_all
  have o3: "4 \<le> real (unat (cb + 2)) * S - real (unat (cb - b)) * S"
    unfolding reals using four by (simp add: algebra_simps)
  note pick = pick_nat_close [where vb = "unat (rop g (push_bit h cb))" and vbl = "unat (rop g (push_bit h (cb - b)))"
      and vbr = "unat (rop g (push_bit h (cb + 2)))" and X = "real (unat cb) * S"
      and Xl = "real (unat (cb - b)) * S" and Xr = "real (unat (cb + 2)) * S"]
  have "real (unat (cb - b)) * S \<le> 4 * real D + 1 / 2 ^ 62"
    unfolding D by (rule pick(1)) (assumption | rule rb rl rr unat_and_1 o1 o2 o3)+
  then show "(4 * real (unat w) - real B) * S \<le> 4 * real D + 1 / 2 ^ 62" unfolding reals .
  have "4 * real D \<le> real (unat (cb + 2)) * S + 1 / 2 ^ 62"
    unfolding D by (rule pick(2)) (assumption | rule rb rl rr unat_and_1 o1 o2 o3)+
  then show "4 * real D \<le> (4 * real (unat w) + 2) * S + 1 / 2 ^ 62" unfolding reals .
qed

text \<open>The fields of the bit pattern decide between the two widths of the interval.\<close>

lemma raw_fields:
  assumes "view f = Fin s m e"
  defines "be \<equiv> uint (drop_bit 52 (to_bits f) AND 0x7FF)" and "fr \<equiv> to_bits f AND (push_bit 52 1 - 1)"
  shows "\<exists>w. (if be = 0 then (fr, - 1074) else (fr OR push_bit 52 1, be - 1075)) = (w, e) \<and> unat w = m"
    and "(fr \<noteq> 0 \<or> be \<le> 1) \<longleftrightarrow> \<not> (m = 2 ^ 52 \<and> - 1074 < e)"
proof -
  show "\<exists>w. (if be = 0 then (fr, - 1074) else (fr OR push_bit 52 1, be - 1075)) = (w, e) \<and> unat w = m"
    using decompose_view [OF assms(1)] unfolding decompose_def Let_def be_def fr_def .
  have "unat (drop_bit 52 (to_bits f) AND 0x7FF) = f64_biased f"
    by (simp only: u64_masks unat_and_mask unat_shr f64_biased_def) simp
  then have be: "be = int (f64_biased f)" by (simp only: be_def uint_nat)
  have "unat fr = f64_fraction f"
    by (simp only: fr_def u64_masks unat_and_mask f64_fraction_def)
  then have fr: "fr = 0 \<longleftrightarrow> f64_fraction f = 0" by (simp flip: unsigned_eq_0_iff [where 'a = nat])
  have "f64_fraction f < 2 ^ 52" by (simp add: f64_fraction_def)
  then show "(fr \<noteq> 0 \<or> be \<le> 1) \<longleftrightarrow> \<not> (m = 2 ^ 52 \<and> - 1074 < e)"
    using assms(1) by (auto simp: fr be view_def Let_def split: if_splits)
qed

text \<open>What \<open>shortest_raw\<close> computes besides the exact case of integers below \<open>2 ^ 53\<close>.\<close>

lemma trailing_zeros_dvd: "0 < n \<Longrightarrow> j \<le> trailing_zeros n \<Longrightarrow> 2 ^ j dvd n"
proof (induction n arbitrary: j rule: trailing_zeros.induct)
  case (1 n)
  show ?case
  proof (cases "odd n")
    case True
    then have "trailing_zeros n = 0" by (subst trailing_zeros.simps) simp
    with "1.prems" show ?thesis by simp
  next
    case False
    then obtain p where p: "n = 2 * p" by blast
    have nz: "\<not> (n = 0 \<or> odd n)" using False "1.prems" by simp
    have tz: "trailing_zeros n = Suc (trailing_zeros (n div 2))" using nz by (subst trailing_zeros.simps) simp
    show ?thesis
    proof (cases j)
      case (Suc i)
      have "2 ^ i dvd n div 2" using "1.IH" [OF nz, of i] "1.prems" Suc tz p by simp
      then show ?thesis by (simp add: p Suc)
    qed simp
  qed
qed

lemma shortest_raw_exact:
  assumes v: "view f = Fin s m e" and m: "0 < m" and q: "- 52 \<le> e" "e \<le> 0" "2 ^ nat (- e) dvd m"
    and w: "unat (w :: u64) = m"
  shows "\<exists>ds x. emit_u64 (drop_bit (nat (- e)) w) = Some (ds, x) \<and> good_digits ds \<and> length ds \<le> 17
    \<and> digit_value ds x = real m * 2 powi e"
proof -
  obtain n where n: "m = 2 ^ nat (- e) * n" using q(3) by blast
  have u: "unat (drop_bit (nat (- e)) w) = n" by (simp add: unat_shr w n)
  have c: "m < 2 ^ 53" using view_canonical [of f] by (simp add: v canonical_def)
  have "n \<le> m" unfolding n by simp
  then have "n < 10 ^ 17" using c by simp
  then have lt: "unat (drop_bit (nat (- e)) w) < 10 ^ 17" by (simp only: u)
  have nz: "drop_bit (nat (- e)) w \<noteq> 0" using m u n by (cases "n = 0") auto
  have "(2 :: real) powi e = 1 / 2 ^ nat (- e)" using q(2) by (simp add: power_int_def power_divide)
  then have "real m * 2 powi e = real n" unfolding n by simp
  then show ?thesis using emit_u64_spec [OF nz lt] u by metis
qed


text \<open>From quarters of \<open>10\<^sup>k\<close> to the value of the digits.\<close>

lemma candidate_digits:
  fixes U T :: real
  assumes q: "U = 2 powi q" and T: "T = 10 powi k" "T \<le> U" and m: "0 < m" and B: "B \<le> 2"
    and top: "(4 * real m + 2) * U < 399999999999999999 * T"
    and D: "(4 * real m - real B) * (U / T) \<le> 4 * real (unat d) + 1 / 2 ^ 62"
      "4 * real (unat d) \<le> (4 * real m + 2) * (U / T) + 1 / 2 ^ 62"
  shows "\<exists>ds x. emit_u64 d = Some (ds, x) \<and> good_digits ds \<and> length ds \<le> 17
    \<and> (real m - real B / 4 - 1 / 2 ^ 64) * U \<le> digit_value ds (x + k)
    \<and> digit_value ds (x + k) \<le> (real m + 1 / 2 + 1 / 2 ^ 64) * U"
proof -
  have Tp: "0 < T" by (simp add: T(1))
  have S: "1 \<le> U / T" using T(2) Tp by (simp add: le_divide_eq)
  have "(4 * real m - real B) * 1 \<le> (4 * real m - real B) * (U / T)"
    using S m B by (intro mult_left_mono) simp_all
  moreover have "2 \<le> 4 * real m - real B" using m B by simp
  ultimately have "1 \<le> 4 * real (unat d)" using D(1) by simp
  then have nz: "d \<noteq> 0" by auto
  have "(4 * real m + 2) * (U / T) < 399999999999999999" using top Tp by (simp add: divide_less_eq)
  then have "4 * real (unat d) < 4 * 10 ^ 17" using D(2) by simp
  then have "real (unat d) < real (10 ^ 17)" by simp
  then have lt: "unat d < 10 ^ 17" by (simp only: of_nat_less_iff)
  obtain ds x where e: "emit_u64 d = Some (ds, x)" "good_digits ds" "length ds \<le> 17" "digit_value ds x = real (unat d)"
    using emit_u64_spec [OF nz lt] by blast
  have "x + k + 1 - int (length ds) = x + 1 - int (length ds) + k" by simp
  then have "digit_value ds (x + k) = digit_value ds x * T"
    by (simp only: digit_value_def powi10_add T(1) mult.assoc)
  then have val: "digit_value ds (x + k) = real (unat d) * T" by (simp only: e(4))
  have "(4 * real m - real B) * (U / T) * T \<le> (4 * real (unat d) + 1 / 2 ^ 62) * T"
    using D(1) Tp by (intro mult_right_mono) simp_all
  then have "(4 * real m - real B) * U \<le> 4 * (real (unat d) * T) + T / 2 ^ 62"
    using Tp by (simp add: algebra_simps)
  moreover have "4 * real (unat d) * T \<le> ((4 * real m + 2) * (U / T) + 1 / 2 ^ 62) * T"
    using D(2) Tp by (intro mult_right_mono) simp_all
  then have "4 * (real (unat d) * T) \<le> (4 * real m + 2) * U + T / 2 ^ 62"
    using Tp by (simp add: algebra_simps)
  ultimately have "(real m - real B / 4 - 1 / 2 ^ 64) * U \<le> real (unat d) * T"
    "real (unat d) * T \<le> (real m + 1 / 2 + 1 / 2 ^ 64) * U"
    using T(2) by (simp_all add: algebra_simps)
  then show ?thesis using e(1-3) unfolding val [symmetric] by blast
qed

lemma shortest_raw_close:
  assumes v: "view f = Fin sg m e" and m: "0 < m"
  shows "\<exists>ds x. shortest_raw f = Some (ds, x) \<and> good_digits ds \<and> length ds \<le> 17
    \<and> (real m - (if m = 2 ^ 52 \<and> - 1074 < e then 1 / 4 else 1 / 2) - 1 / 2 ^ 64) * 2 powi e \<le> digit_value ds x
    \<and> digit_value ds x \<le> (real m + 1 / 2 + 1 / 2 ^ 64) * 2 powi e"
proof -
  define be fr where "be = uint (drop_bit 52 (to_bits f) AND 0x7FF)" and "fr = to_bits f AND (push_bit 52 1 - 1)"
  obtain w where w: "(if be = 0 then (fr, - 1074) else (fr OR push_bit 52 1, be - 1075)) = (w, e)" "unat w = m"
    using raw_fields(1) [OF v] unfolding be_def fr_def by blast
  note reg = raw_fields(2) [OF v, folded be_def fr_def]
  have c: "m < 2 ^ 53" "- 1074 \<le> e" "e \<le> 971" using view_canonical [of f] by (simp_all add: v canonical_def)
  have w0: "w \<noteq> 0" using m w(2) by auto
  define cb where "cb = push_bit 2 w"
  define U where "U = (2 :: real) powi e"
  have U: "0 < U" by (simp add: U_def)
  define pick where "pick = (\<lambda>k b. let g = g_table ! nat (- k - g_min); h = nat (e + flog2pow10 (- k) + 2) in
    pick_shortest (w AND 1) (rop g (push_bit h cb)) (rop g (push_bit h (cb - b))) (rop g (push_bit h (cb + 2))))"
  have code: "shortest_raw f =
      (if - 52 \<le> e \<and> e \<le> 0 \<and> - e \<le> int (trailing_zeros m) then emit_u64 (drop_bit (nat (- e)) w)
       else let (b, k) = (if fr \<noteq> 0 \<or> be \<le> 1 then (2, flog10pow2 e) else (1, flog10_3q_pow2 e)) in
         case emit_u64 (pick k b) of None \<Rightarrow> None | Some (ds, x) \<Rightarrow> Some (ds, x + k))"
    unfolding shortest_raw_def be_def [symmetric] fr_def [symmetric] Let_def w(1) prod.case
    using w0 by (simp add: w(2) pick_def cb_def Let_def)
  define B where "B = (if m = 2 ^ 52 \<and> - 1074 < e then 1 else 2 :: nat)"
  have goal: "\<exists>ds x. shortest_raw f = Some (ds, x) \<and> good_digits ds \<and> length ds \<le> 17
    \<and> (real m - real B / 4 - 1 / 2 ^ 64) * U \<le> digit_value ds x \<and> digit_value ds x \<le> (real m + 1 / 2 + 1 / 2 ^ 64) * U"
  proof (cases "- 52 \<le> e \<and> e \<le> 0 \<and> - e \<le> int (trailing_zeros m)")
    case True
    then have "nat (- e) \<le> trailing_zeros m" by (simp only: nat_le_iff)
    from trailing_zeros_dvd [OF m this] shortest_raw_exact [OF v m _ _ _ w(2)] True
    obtain ds x where d: "emit_u64 (drop_bit (nat (- e)) w) = Some (ds, x)" "good_digits ds" "length ds \<le> 17"
      "digit_value ds x = real m * U" unfolding U_def by blast
    have "(real m - real B / 4 - 1 / 2 ^ 64) * U \<le> real m * U" "real m * U \<le> (real m + 1 / 2 + 1 / 2 ^ 64) * U"
      using U by (intro mult_right_mono; simp)+
    then show ?thesis using d True unfolding code by auto
  next
    case False
    define k where "k = (if B = 2 then flog10pow2 e else flog10_3q_pow2 e)"
    define T where "T = (10 :: real) powi k"
    have T: "0 < T" by (simp add: T_def)
    have kr: "- 324 \<le> k" "k \<le> 292" using exponent_range [OF c(2,3)] by (simp_all add: k_def)
    have abs: "\<bar>e\<bar> \<le> 1100" using c by simp
    have wd: "4 * T \<le> (2 + real B) * U" and lt: "U < (if B = 2 then 10 else 22) * T"
      using flog10pow2_bounds [OF abs] flog10_3q_bounds [OF abs]
      by (simp_all add: T_def U_def k_def B_def powi10_add)
    have T1: "T \<le> U" using wd U by (auto simp: B_def split: if_splits)
    have lt22: "U < 22 * T" using lt T by (auto split: if_splits)
    have top: "(4 * real m + 2) * U < 399999999999999999 * T"
    proof (cases "B = 2")
      case True
      have "real m \<le> 2 ^ 53 - 1" using c(1) by (simp flip: of_nat_le_iff)
      then have "4 * real m + 2 \<le> 36028797018963966" by simp
      then have "(4 * real m + 2) * U \<le> 36028797018963966 * U" using U by (intro mult_right_mono) simp_all
      also have "\<dots> \<le> 36028797018963966 * (10 * T)" using lt True by (intro mult_left_mono) simp_all
      also have "\<dots> < 399999999999999999 * T" using T by simp
      finally show ?thesis .
    next
      case False
      then have "m = 2 ^ 52" by (auto simp: B_def split: if_splits)
      then have "(4 * real m + 2) * U = 18014398509481986 * U" by simp
      also have "\<dots> \<le> 18014398509481986 * (22 * T)" using lt22 by (intro mult_left_mono) simp_all
      also have "\<dots> < 399999999999999999 * T" using T by simp
      finally show ?thesis .
    qed
    define b where "b = (if B = 2 then 2 else 1 :: u64)"
    have b: "unat b = B" "1 \<le> B" "B \<le> 2" by (simp_all add: b_def B_def)
    have sel: "(if fr \<noteq> 0 \<or> be \<le> 1 then (2, flog10pow2 e) else (1, flog10_3q_pow2 e)) = (b, k)"
      unfolding reg by (simp add: b_def k_def B_def)
    note step = schubfach_step [OF _ _ kr refl _ _ b, of w e, folded cb_def T_def U_def, unfolded w(2)]
    have D: "(4 * real m - real B) * (U / T) \<le> 4 * real (unat (pick k b)) + 1 / 2 ^ 62"
      "4 * real (unat (pick k b)) \<le> (4 * real m + 2) * (U / T) + 1 / 2 ^ 62"
      unfolding pick_def Let_def using step m c(1) T1 lt22 wd by blast+
    obtain ds x where d: "emit_u64 (pick k b) = Some (ds, x)" "good_digits ds" "length ds \<le> 17"
      "(real m - real B / 4 - 1 / 2 ^ 64) * U \<le> digit_value ds (x + k)"
      "digit_value ds (x + k) \<le> (real m + 1 / 2 + 1 / 2 ^ 64) * U"
      using candidate_digits [OF U_def T_def T1 m b(3) top D] by blast
    have "shortest_raw f = Some (ds, x + k)"
      by (simp only: code if_not_P [OF False] sel Let_def prod.case d(1) option.case)
    then show ?thesis using d by blast
  qed
  have B: "(if m = 2 ^ 52 \<and> - 1074 < e then 1 / 4 else 1 / 2) = real B / 4" by (simp add: B_def)
  show ?thesis using goal unfolding U_def B .
qed


text \<open>C24: for every finite nonzero float the shortest-digits algorithm returns at most 17 digits without
  leading or trailing zeros, so they fit its buffer of 20, and their value lies in the rounding
  interval of the float, half a unit in the last place to each side (a quarter below a power of
  two), up to \<open>2 ^ - 64\<close> units.\<close>

theorem shortest_digits_close:
  assumes "view f = Fin sg m e" "0 < m"
  shows "\<exists>ds x. shortest_raw f = Some (ds, x) \<and> good_digits ds \<and> length ds \<le> 17
    \<and> (real m - (if m = 2 ^ 52 \<and> - 1074 < e then 1 / 4 else 1 / 2) - 1 / 2 ^ 64) * 2 powi e \<le> digit_value ds x
    \<and> digit_value ds x \<le> (real m + 1 / 2 + 1 / 2 ^ 64) * 2 powi e"
  using assms by (rule shortest_raw_close)

theorem shortest_digits_close_witness:
  "\<exists>ds x. shortest_raw (F64 0x3FC0000000000000) = Some (ds, x) \<and> good_digits ds \<and> length ds \<le> 17
    \<and> digit_value ds x \<le> (2 ^ 52 + 1 / 2 + 1 / 2 ^ 64) * 2 powi (- 55)"
  using shortest_digits_close [OF eighth] by auto

section \<open>Totality of the layout\<close>

lemma view_f_abs: "view f = Fin s m e \<Longrightarrow> view (f_abs f) = Fin False m e"
  using view_canonical [of f] view_of_view [of "Fin False m e"] by (simp add: f_abs_def del: of_view.simps)

lemma f_eq_0: "view f = Fin s m e \<Longrightarrow> f_eq f (F64 0) \<longleftrightarrow> m = 0"
proof -
  assume v: "view f = Fin s m e"
  have z: "view (F64 0) = Fin False 0 (- 1074)" by (simp add: view_def f64_sign_def f64_biased_def f64_fraction_def)
  show ?thesis
    by (simp add: f_eq_def f_partial_cmp_def v z Let_def int_cmp_def signed_nat_def)
qed

lemma fixed_exact_total:
  assumes "view f = Fin s m e" "0 < m" "1 \<le> n" "n \<le> k"
  shows "\<exists>ds x. fixed_exact f n k = Some (ds, x)"
proof -
  have "is_finite f" "0 < f64_mag f" using assms(1,2) by (simp_all add: is_finite_def f64_mag_def)
  from fixed_exact_digits [OF this assms(3,4)] show ?thesis by blast
qed

lemma fixed_small_total:
  assumes "view f = Fin s m e" "0 < m" "1 \<le> n" "n \<le> 15"
  shows "\<exists>ds x. fixed_small f n = Some (ds, x)"
proof -
  obtain ds x where d: "shortest_raw f = Some (ds, x)" using shortest_raw_close [OF assms(1,2)] by blast
  obtain ds' x' where "fixed_exact f n 20 = Some (ds', x')"
    using fixed_exact_total [OF assms(1-3), of 20] assms(4) by auto
  then show ?thesis unfolding fixed_small_def d by (auto simp: Let_def split: prod.splits)
qed

lemma fixed_digits_total: "is_finite f \<Longrightarrow> \<exists>ds x. fixed_digits f n = Some (ds, x)"
proof -
  assume "is_finite f"
  then obtain s m e where v: "view f = Fin s m e" by (auto simp: is_finite_def split: f64_view.splits)
  show ?thesis
  proof (cases "m = 0")
    case True
    then show ?thesis by (simp add: fixed_digits_def f_eq_0 [OF v])
  next
    case False
    define n' where "n' = max 1 (min n max_digits)"
    have n': "1 \<le> n'" "n' \<le> max_digits" by (simp_all add: n'_def max_digits_def)
    obtain a where "fixed_exact (f_abs f) n' max_digits = Some a"
      using fixed_exact_total [OF view_f_abs [OF v] _ n'] False by auto
    moreover have "\<exists>a. fixed_small (f_abs f) n' = Some a" if "n' \<le> 15"
      using fixed_small_total [OF view_f_abs [OF v] _ n'(1) that] False by auto
    moreover have "fixed_digits f n = (if n' \<le> 15 \<and> f_le f_min_positive (f_abs f)
        then fixed_small (f_abs f) n' else fixed_exact (f_abs f) n' max_digits)"
      using False by (simp only: fixed_digits_def f_eq_0 [OF v] Let_def n'_def if_False)
    ultimately show ?thesis by auto
  qed
qed

lemma format_php_repr_total: "\<exists>b. format_php_repr f p mk = Some b"
proof (cases "view f")
  case (Fin s m e)
  note va = view_f_abs [OF Fin]
  show ?thesis
  proof (cases "m = 0")
    case True
    then show ?thesis
      using va by (simp add: format_php_repr_def is_nan_def is_infinite_def f_eq_0 [OF va] Fin)
  next
    case False
    then have m: "0 < m" by simp
    define P where "P = (if p = - 1 then 17 else if p < 1 then 1 else nat p)"
    have P: "1 \<le> P" by (simp add: P_def nat_le_iff le_nat_iff)
    have "1 \<le> min P max_digits" "min P max_digits \<le> max_digits" using P by (simp_all add: max_digits_def)
    from fixed_exact_total [OF va m this] obtain a where a: "format_long (f_abs f) P mk = Some a"
      by (auto simp: format_long_def)
    obtain b where b: "shortest_raw (f_abs f) = Some b" using shortest_raw_close [OF va m] by auto
    have c: "\<exists>c. fixed_small (f_abs f) P = Some c" if "P \<le> 15"
      using fixed_small_total [OF va m P that] by auto
    define small where "small \<longleftrightarrow> P \<le> 15 \<and> f_le f_min_positive (f_abs f)"
    have code: "format_php_repr f p mk = map_option (\<lambda>b. (if f64_sign f then [0x2D] else []) @ b)
        (if is_infinite (f_abs f) then Some (ascii ''INF'')
         else if f_eq (f_abs f) (F64 0) then Some [0x30]
         else if f_lt (f_abs f) (f_of_int 9007199254740992) \<and> f_eq (f_trunc (f_abs f)) (f_abs f)
           \<and> (16 < P \<or> f_lt (f_abs f) (pow10_f64 ! P))
         then Some (write_u64 (f_as_u64 (f_abs f)))
         else if p = - 1 then map_option (\<lambda>(ds, x). layout ds x P mk) (shortest_raw (f_abs f))
         else if small then map_option (\<lambda>(ds, x). layout ds x P mk) (fixed_small (f_abs f) P)
         else format_long (f_abs f) P mk)"
      unfolding format_php_repr_def is_nan_def Fin Let_def P_def [symmetric] small_def by simp
    show ?thesis
    proof (cases small)
      case True
      then obtain c where "fixed_small (f_abs f) P = Some c" using c by (auto simp: small_def)
      then show ?thesis unfolding code using True b by simp
    next
      case False
      then show ?thesis unfolding code using a b by simp
    qed
  qed
next
  case (Infinite s)
  have "view (f_abs f) = Infinite False"
    using view_of_view [of "Infinite False"] by (simp add: f_abs_def Infinite del: of_view.simps)
  then show ?thesis by (simp add: format_php_repr_def is_nan_def is_infinite_def Infinite Let_def)
qed (simp add: format_php_repr_def is_nan_def)

lemma format_php_total: "\<exists>b. format_php f p = Some b"
  using format_php_repr_total by (simp add: format_php_def Let_def)

text \<open>C25: every float has a text: whatever the float and the precision, PHP's layout and the digits
  for a given precision are produced, and no digit loop of the formatter runs forever.\<close>

theorem float_text_total:
  "(\<exists>b. format_php f precision = Some b) \<and> (\<exists>b. format_php_repr f precision marker = Some b)
    \<and> ((\<exists>ds x. fixed_digits f n = Some (ds, x)) \<or> is_nan f \<or> is_infinite f)"
proof -
  have "is_finite f \<or> is_nan f \<or> is_infinite f"
    by (cases "view f") (simp_all add: is_finite_def is_nan_def is_infinite_def)
  then show ?thesis using format_php_total format_php_repr_total fixed_digits_total by blast
qed

end
