(* ===== verification/Runtime.thy ===== *)
theory Runtime
  imports ArraySpec Numeric Shortest
begin

text \<open>
  What conversions and operators work in: diagnostics and thrown errors (\<open>error.rs\<close>), the values
  that handles point to, and the services of the engine (\<open>ctx.rs\<close>).  The world holds the cells of
  references, the data of arrays, objects and resources by address, and the thread-local flags of
  \<open>ops.rs\<close> and \<open>compare.rs\<close>; \<open>w_engine\<close> is the engine's own state, which the model does not look
  into.  A service takes the world and returns it, since it may run PHP code.
\<close>

section \<open>Diagnostics and errors\<close>

datatype level = Warning | Notice | Deprecated

definition errno :: "level \<Rightarrow> int" where
  "errno l = (case l of Warning \<Rightarrow> 2 | Notice \<Rightarrow> 8 | Deprecated \<Rightarrow> 8192)"

datatype error_kind = PlainError | TypeError | ValueError | ArithmeticError | DivisionByZero

definition error_class_name :: "error_kind \<Rightarrow> bytes" where
  "error_class_name k = ascii (case k of PlainError \<Rightarrow> ''Error'' | TypeError \<Rightarrow> ''TypeError''
     | ValueError \<Rightarrow> ''ValueError'' | ArithmeticError \<Rightarrow> ''ArithmeticError''
     | DivisionByZero \<Rightarrow> ''DivisionByZeroError'')"

record php_error =
  pe_kind :: error_kind
  pe_message :: bytes

type_synonym 'a php_result = "php_error + 'a"

definition new_error :: "error_kind \<Rightarrow> bytes \<Rightarrow> php_error" where
  "new_error k m = \<lparr>pe_kind = k, pe_message = m\<rparr>"

definition type_error :: "bytes \<Rightarrow> php_error" where
  "type_error m = new_error TypeError m"

definition plain_error :: "bytes \<Rightarrow> php_error" where
  "plain_error m = new_error PlainError m"

definition display_error :: "php_error \<Rightarrow> bytes" where
  "display_error e = error_class_name (pe_kind e) @ ascii '': '' @ pe_message e"

record notice =
  nt_level :: level
  nt_message :: bytes

section \<open>Text of byte strings\<close>

text \<open>\<open>from_utf8_lossy\<close>: every maximal ill-formed part becomes U+FFFD.\<close>

definition utf8_cont :: "u8 \<Rightarrow> bool" where
  "utf8_cont c \<longleftrightarrow> 0x80 \<le> c \<and> c \<le> 0xBF"

definition utf8_second :: "u8 \<Rightarrow> u8 \<Rightarrow> bool" where
  "utf8_second a c \<longleftrightarrow>
     (if a = 0xE0 then 0xA0 \<le> c \<and> c \<le> 0xBF else if a = 0xED then 0x80 \<le> c \<and> c \<le> 0x9F
      else if a = 0xF0 then 0x90 \<le> c \<and> c \<le> 0xBF else if a = 0xF4 then 0x80 \<le> c \<and> c \<le> 0x8F
      else utf8_cont c)"

definition utf8_width :: "u8 \<Rightarrow> nat" where
  "utf8_width a =
     (if a < 0x80 then 1 else if 0xC2 \<le> a \<and> a \<le> 0xDF then 2
      else if 0xE0 \<le> a \<and> a \<le> 0xEF then 3 else if 0xF0 \<le> a \<and> a \<le> 0xF4 then 4 else 0)"

text \<open>How many bytes the sequence at the head takes, and whether it is well formed.\<close>

fun utf8_head :: "bytes \<Rightarrow> nat \<times> bool" where
  "utf8_head [] = (0, True)"
| "utf8_head (a # s) =
     (let n = utf8_width a in
      if n \<le> 1 then (1, n = 1)
      else case s of [] \<Rightarrow> (1, False)
        | b # s \<Rightarrow> if \<not> utf8_second a b then (1, False) else if n = 2 then (2, True)
        else case s of [] \<Rightarrow> (2, False)
          | c # s \<Rightarrow> if \<not> utf8_cont c then (2, False) else if n = 3 then (3, True)
          else case s of [] \<Rightarrow> (3, False)
            | d # _ \<Rightarrow> if utf8_cont d then (4, True) else (3, False))"

function utf8_lossy :: "bytes \<Rightarrow> bytes" where
  "utf8_lossy [] = []"
| "utf8_lossy (a # s) =
     (let (n, ok) = utf8_head (a # s); n = max n 1 in
      (if ok then take n (a # s) else [0xEF, 0xBF, 0xBD]) @ utf8_lossy (drop n (a # s)))"
  by pat_completeness auto
termination
  by (relation "measure length") auto

section \<open>The world\<close>

record php_object =
  ob_class :: nat
  ob_class_name :: bytes
  ob_slots :: "val list"
  ob_props :: "nat option"

record 'e world =
  w_refs :: refs
  w_arrays :: "array_data list"
  w_objects :: "php_object list"
  w_res_ids :: "i64 list"
  w_commuted :: bool
  w_comparing :: "nat list"
  w_nest_error :: bool
  w_engine :: 'e

text \<open>\<open>PhpArray::data\<close>, \<open>len\<close> and \<open>is_empty\<close>; an array without allocation is empty.\<close>

definition array_at :: "'e world \<Rightarrow> nat option \<Rightarrow> array_data" where
  "array_at W a = (case a of None \<Rightarrow> arr_new | Some p \<Rightarrow> w_arrays W ! p)"

definition php_len :: "'e world \<Rightarrow> nat option \<Rightarrow> nat" where
  "php_len W a = (case a of None \<Rightarrow> 0 | Some p \<Rightarrow> arr_len (w_arrays W ! p))"

definition php_is_empty :: "'e world \<Rightarrow> nat option \<Rightarrow> bool" where
  "php_is_empty W a \<longleftrightarrow> php_len W a = 0"

definition php_get :: "'e world \<Rightarrow> nat option \<Rightarrow> key \<Rightarrow> val option" where
  "php_get W a k = (case a of None \<Rightarrow> None | Some p \<Rightarrow> arr_get (w_arrays W ! p) k)"

text \<open>\<open>PhpArray::data_addr\<close>: 0 for the empty array.\<close>

definition data_addr :: "nat option \<Rightarrow> nat" where
  "data_addr a = (case a of None \<Rightarrow> 0 | Some p \<Rightarrow> Suc p)"

definition new_array :: "'e world \<Rightarrow> array_data \<Rightarrow> 'e world \<times> nat option" where
  "new_array W d = (W\<lparr>w_arrays := w_arrays W @ [d]\<rparr>, Some (length (w_arrays W)))"

text \<open>Cloning values adds a handle to the cells they refer to.\<close>

fun share_refs :: "val list \<Rightarrow> refs \<Rightarrow> refs" where
  "share_refs [] R = R"
| "share_refs (v # vs) R = share_refs vs (case v of VRef r \<Rightarrow> ref_clone R r | _ \<Rightarrow> R)"

text \<open>\<open>Rc::make_mut\<close> of an array that another handle shares: a copy of the data.\<close>

definition separate :: "'e world \<Rightarrow> nat option \<Rightarrow> 'e world \<times> nat option" where
  "separate W a =
     (let d = arr_clone (w_refs W) (array_at W a) in
      new_array (W\<lparr>w_refs := share_refs (map snd (arr_iter d)) (w_refs W)\<rparr>) d)"

definition class_name_text :: "'e world \<Rightarrow> nat \<Rightarrow> bytes" where
  "class_name_text W p = utf8_lossy (ob_class_name (w_objects W ! p))"

definition type_name_for_error :: "'e world \<Rightarrow> val \<Rightarrow> bytes" where
  "type_name_for_error W v =
     (case deref (w_refs W) v of VObject p \<Rightarrow> class_name_text W p | v \<Rightarrow> type_name (type_of (w_refs W) v))"

definition is_object :: "val \<Rightarrow> bool" where
  "is_object v = (case v of VObject _ \<Rightarrow> True | _ \<Rightarrow> False)"

definition is_bool :: "val \<Rightarrow> bool" where
  "is_bool v = (case v of VBool _ \<Rightarrow> True | _ \<Rightarrow> False)"

definition is_resource :: "val \<Rightarrow> bool" where
  "is_resource v = (case v of VResource _ \<Rightarrow> True | _ \<Rightarrow> False)"

section \<open>Services of the engine\<close>

datatype binop = Add | Sub | Mul | Div | Mod | Pow | Concat | BitAnd | BitOr | BitXor | Shl | Shr

record 'e ctx =
  c_notice :: "level \<Rightarrow> bytes \<Rightarrow> 'e world \<Rightarrow> 'e world"
  c_precision :: "'e world \<Rightarrow> int"
  c_object_to_string :: "nat \<Rightarrow> 'e world \<Rightarrow> bytes php_result \<times> 'e world"
  c_object_to_number :: "nat \<Rightarrow> bool \<Rightarrow> 'e world \<Rightarrow> number \<times> 'e world"
  c_object_to_array :: "nat \<Rightarrow> 'e world \<Rightarrow> nat option \<times> 'e world"
  c_object_compare :: "val \<Rightarrow> val \<Rightarrow> 'e world \<Rightarrow> int php_result option \<times> 'e world"
  c_object_loose_eq :: "val \<Rightarrow> val \<Rightarrow> 'e world \<Rightarrow> bool php_result option \<times> 'e world"
  c_object_binop :: "binop \<Rightarrow> val \<Rightarrow> val \<Rightarrow> 'e world \<Rightarrow> val php_result option \<times> 'e world"

definition could_not_convert :: "'e world \<Rightarrow> nat \<Rightarrow> string \<Rightarrow> bytes" where
  "could_not_convert W p t =
     ascii ''Object of class '' @ class_name_text W p @ ascii '' could not be converted to '' @ ascii t"

text \<open>The default methods of the trait.\<close>

definition default_to_string :: "nat \<Rightarrow> 'e world \<Rightarrow> bytes php_result \<times> 'e world" where
  "default_to_string p W = (Inl (plain_error (could_not_convert W p ''string'')), W)"

definition default_to_number ::
  "(level \<Rightarrow> bytes \<Rightarrow> 'e world \<Rightarrow> 'e world) \<Rightarrow> nat \<Rightarrow> bool \<Rightarrow> 'e world \<Rightarrow> number \<times> 'e world" where
  "default_to_number notify p want_float W =
     (let W = notify Warning (could_not_convert W p (if want_float then ''float'' else ''int'')) W in
      (if want_float then NFloat (f_of_int 1) else NInt 1, W))"

definition default_to_array :: "nat \<Rightarrow> 'e world \<Rightarrow> nat option \<times> 'e world" where
  "default_to_array p W = (ob_props (w_objects W ! p), W)"

definition default_ctx :: "(level \<Rightarrow> bytes \<Rightarrow> 'e world \<Rightarrow> 'e world) \<Rightarrow> 'e ctx" where
  "default_ctx notify =
     \<lparr>c_notice = notify, c_precision = (\<lambda>_. 14), c_object_to_string = default_to_string,
      c_object_to_number = default_to_number notify, c_object_to_array = default_to_array,
      c_object_compare = (\<lambda>a b W. (None, W)), c_object_loose_eq = (\<lambda>a b W. (None, W)),
      c_object_binop = (\<lambda>op a b W. (None, W))\<rparr>"

text \<open>\<open>Diagnostics\<close>: a context that records what it is told.\<close>

record diagnostics =
  dg_notices :: "notice list"
  dg_precision :: "int option"

definition diagnostics_new :: diagnostics where
  "diagnostics_new = \<lparr>dg_notices = [], dg_precision = None\<rparr>"

definition diagnostics_take :: "diagnostics \<Rightarrow> diagnostics \<times> notice list" where
  "diagnostics_take d = (d\<lparr>dg_notices := []\<rparr>, dg_notices d)"

definition record_notice :: "level \<Rightarrow> bytes \<Rightarrow> diagnostics world \<Rightarrow> diagnostics world" where
  "record_notice l m W =
     W\<lparr>w_engine := (w_engine W)\<lparr>dg_notices := dg_notices (w_engine W) @ [\<lparr>nt_level = l, nt_message = m\<rparr>]\<rparr>\<rparr>"

definition diagnostics_ctx :: "diagnostics ctx" where
  "diagnostics_ctx = (default_ctx record_notice)
     \<lparr>c_precision := \<lambda>W. case dg_precision (w_engine W) of Some p \<Rightarrow> p | None \<Rightarrow> 14\<rparr>"

definition empty_world :: "'e \<Rightarrow> 'e world" where
  "empty_world e = \<lparr>w_refs = [], w_arrays = [], w_objects = [], w_res_ids = [], w_commuted = False,
     w_comparing = [], w_nest_error = False, w_engine = e\<rparr>"

end
