(* ===== verification/Convert.thy ===== *)
theory Convert
  imports Runtime
begin

text \<open>
  Conversions between PHP types (\<open>convert.rs\<close>).  A conversion takes the context, the value and the
  world, and returns its result with the world, which diagnostics and the engine's services change.
  A reference is converted through its cell; cells never hold references, so one dereferencing is
  the whole recursion.  The formatter's option is opened with \<open>the\<close>: \<open>Shortest\<close> shows that
  there is always a text.
\<close>

section \<open>Float text\<close>

definition float_to_string :: "f64 \<Rightarrow> int \<Rightarrow> bytes" where
  "float_to_string f precision = the (format_php f precision)"

definition float_repr :: "f64 \<Rightarrow> bytes" where
  "float_repr f = the (format_php_repr f (- 1) 0x45)"

section \<open>Booleans\<close>

definition nan_coerced :: "string \<Rightarrow> bytes" where
  "nan_coerced t = ascii ''unexpected NAN value was coerced to '' @ ascii t"

definition warn_nan :: "'e ctx \<Rightarrow> f64 \<Rightarrow> string \<Rightarrow> 'e world \<Rightarrow> 'e world" where
  "warn_nan C f t W = (if is_nan f then c_notice C Warning (nan_coerced t) W else W)"

definition str_to_bool :: "bytes \<Rightarrow> bool" where
  "str_to_bool s \<longleftrightarrow> \<not> (s = [] \<or> (length s = 1 \<and> s ! 0 = 0x30))"

definition to_bool :: "'e ctx \<Rightarrow> val \<Rightarrow> 'e world \<Rightarrow> bool \<times> 'e world" where
  "to_bool C v W =
     (case deref (w_refs W) v of
        VNull \<Rightarrow> (False, W)
      | VBool b \<Rightarrow> (b, W)
      | VInt i \<Rightarrow> (i \<noteq> 0, W)
      | VFloat f \<Rightarrow> (\<not> f_eq f (F64 0), warn_nan C f ''bool'' W)
      | VStr s \<Rightarrow> (str_to_bool s, W)
      | VArray a \<Rightarrow> (\<not> php_is_empty W a, W)
      | _ \<Rightarrow> (True, W))"

definition to_bool_quiet :: "'e world \<Rightarrow> val \<Rightarrow> bool" where
  "to_bool_quiet W v =
     (case deref (w_refs W) v of
        VFloat f \<Rightarrow> \<not> f_eq f (F64 0)
      | VNull \<Rightarrow> False | VBool b \<Rightarrow> b | VInt i \<Rightarrow> i \<noteq> 0 | VStr s \<Rightarrow> str_to_bool s
      | VArray a \<Rightarrow> \<not> php_is_empty W a | _ \<Rightarrow> True)"

section \<open>Integers\<close>

definition two63 :: f64 where
  "two63 = f_neg (f_of_i64 (word_of_int i64_min))"

definition float_in_int_range :: "f64 \<Rightarrow> bool" where
  "float_in_int_range f \<longleftrightarrow> f_le (f_neg two63) f \<and> f_lt f two63"

definition two64 :: f64 where
  "two64 = f_of_int 18446744073709551616"

definition float_to_int_wrapping :: "f64 \<Rightarrow> i64" where
  "float_to_int_wrapping f =
     (if \<not> is_finite f then 0
      else if float_in_int_range f then f_as_i64 f
      else
        let m = f_rem (f_trunc f) two64;
            m = (if f_lt m (F64 0) then f_add m two64 else m) in
        f_as_u64 m)"

definition warn_not_representable :: "'e ctx \<Rightarrow> f64 \<Rightarrow> 'e world \<Rightarrow> 'e world" where
  "warn_not_representable C f W =
     c_notice C Warning (ascii ''The float '' @ float_repr f @ ascii '' is not representable as an int, cast occurred'') W"

definition float_to_int_cast :: "'e ctx \<Rightarrow> f64 \<Rightarrow> 'e world \<Rightarrow> i64 \<times> 'e world" where
  "float_to_int_cast C f W =
     (if is_finite f \<and> float_in_int_range f then (f_as_i64 f, W)
      else (float_to_int_wrapping f, warn_not_representable C f W))"

definition loses_precision :: "string \<Rightarrow> bytes \<Rightarrow> bytes" where
  "loses_precision kind t =
     ascii ''Implicit conversion from '' @ ascii kind @ t @ ascii '' to int loses precision''"

definition float_to_int_implicit :: "'e ctx \<Rightarrow> f64 \<Rightarrow> 'e world \<Rightarrow> i64 \<times> 'e world" where
  "float_to_int_implicit C f W =
     (if is_finite f \<and> float_in_int_range f then
        let i = f_as_i64 f in
        (i, if f_eq (f_of_i64 i) f then W
            else c_notice C Deprecated (loses_precision ''float '' (float_repr f)) W)
      else
        let W = warn_not_representable C f W;
            W = (if is_nan f then c_notice C Deprecated (loses_precision ''float '' (ascii ''NAN'')) W else W) in
        (float_to_int_wrapping f, W))"

definition float_to_int_saturating :: "f64 \<Rightarrow> i64" where
  "float_to_int_saturating f =
     (if \<not> is_finite f then 0
      else if f_le two63 f then word_of_int i64_max
      else if f_lt f (f_neg two63) then word_of_int i64_min
      else f_as_i64 f)"

definition str_to_int :: "bytes \<Rightarrow> i64" where
  "str_to_int s = (case np_num (parse_numeric s) of NInt i \<Rightarrow> i | NFloat f \<Rightarrow> float_to_int_saturating f)"

definition i64_of_bool :: "bool \<Rightarrow> i64" where
  "i64_of_bool b = (if b then 1 else 0)"

definition to_int :: "'e ctx \<Rightarrow> val \<Rightarrow> 'e world \<Rightarrow> i64 \<times> 'e world" where
  "to_int C v W =
     (case deref (w_refs W) v of
        VNull \<Rightarrow> (0, W)
      | VBool b \<Rightarrow> (i64_of_bool b, W)
      | VInt i \<Rightarrow> (i, W)
      | VFloat f \<Rightarrow> float_to_int_cast C f W
      | VStr s \<Rightarrow> (str_to_int s, W)
      | VArray a \<Rightarrow> (i64_of_bool (\<not> php_is_empty W a), W)
      | VObject p \<Rightarrow> (case c_object_to_number C p False W of
            (NInt i, W) \<Rightarrow> (i, W) | (NFloat f, W) \<Rightarrow> float_to_int_cast C f W)
      | VResource r \<Rightarrow> (w_res_ids W ! r, W)
      | VRef _ \<Rightarrow> (0, W))"

section \<open>Floats\<close>

definition first_nonspace :: "bytes \<Rightarrow> u8 option" where
  "first_nonspace s = (case dropWhile is_php_whitespace s of [] \<Rightarrow> None | c # _ \<Rightarrow> Some c)"

definition str_to_float :: "bytes \<Rightarrow> f64" where
  "str_to_float s =
     (let p = parse_numeric s in
      case np_num p of
        NInt i \<Rightarrow>
          if i = 0 \<and> np_kind p \<noteq> NonNumeric
          then (if first_nonspace s = Some 0x2D then f_neg (F64 0) else F64 0)
          else f_of_i64 i
      | NFloat f \<Rightarrow> f)"

definition to_float :: "'e ctx \<Rightarrow> val \<Rightarrow> 'e world \<Rightarrow> f64 \<times> 'e world" where
  "to_float C v W =
     (case deref (w_refs W) v of
        VNull \<Rightarrow> (F64 0, W)
      | VBool b \<Rightarrow> (f_of_i64 (i64_of_bool b), W)
      | VInt i \<Rightarrow> (f_of_i64 i, W)
      | VFloat f \<Rightarrow> (f, W)
      | VStr s \<Rightarrow> (str_to_float s, W)
      | VArray a \<Rightarrow> (f_of_i64 (i64_of_bool (\<not> php_is_empty W a)), W)
      | VObject p \<Rightarrow> (case c_object_to_number C p True W of (n, W) \<Rightarrow> (number_to_f64 n, W))
      | VResource r \<Rightarrow> (f_of_i64 (w_res_ids W ! r), W)
      | VRef _ \<Rightarrow> (F64 0, W))"

definition to_number_cast :: "'e ctx \<Rightarrow> val \<Rightarrow> 'e world \<Rightarrow> number \<times> 'e world" where
  "to_number_cast C v W =
     (case deref (w_refs W) v of
        VInt i \<Rightarrow> (NInt i, W)
      | VFloat f \<Rightarrow> (NFloat f, W)
      | VStr s \<Rightarrow> (np_num (parse_numeric s), W)
      | v \<Rightarrow> (case to_int C v W of (i, W) \<Rightarrow> (NInt i, W)))"

section \<open>Strings\<close>

definition to_str :: "'e ctx \<Rightarrow> val \<Rightarrow> 'e world \<Rightarrow> bytes php_result \<times> 'e world" where
  "to_str C v W =
     (case deref (w_refs W) v of
        VNull \<Rightarrow> (Inr [], W)
      | VBool b \<Rightarrow> (Inr (if b then [0x31] else []), W)
      | VInt i \<Rightarrow> (Inr (int_to_string i), W)
      | VFloat f \<Rightarrow> (let W = warn_nan C f ''string'' W in (Inr (float_to_string f (c_precision C W)), W))
      | VStr s \<Rightarrow> (Inr s, W)
      | VArray _ \<Rightarrow> (Inr (ascii ''Array''), c_notice C Warning (ascii ''Array to string conversion'') W)
      | VObject p \<Rightarrow> c_object_to_string C p W
      | VResource r \<Rightarrow> (Inr (ascii ''Resource id #'' @ int_digits (w_res_ids W ! r)), W)
      | VRef _ \<Rightarrow> (Inr [], W))"

definition append_str :: "'e ctx \<Rightarrow> bytes \<Rightarrow> val \<Rightarrow> 'e world \<Rightarrow> bytes php_result \<times> 'e world" where
  "append_str C out v W =
     (case v of
        VNull \<Rightarrow> (Inr out, W)
      | VBool b \<Rightarrow> (Inr (if b then out @ [0x31] else out), W)
      | VInt i \<Rightarrow> (Inr (push_int out i), W)
      | VFloat f \<Rightarrow> (let W = warn_nan C f ''string'' W in (Inr (out @ float_to_string f (c_precision C W)), W))
      | VStr s \<Rightarrow> (Inr (out @ s), W)
      | v \<Rightarrow> (case to_str C v W of (Inl e, W) \<Rightarrow> (Inl e, W) | (Inr s, W) \<Rightarrow> (Inr (out @ s), W)))"

section \<open>Arrays and keys\<close>

text \<open>A list of one element (\<open>PhpArray::from_values\<close>).\<close>

definition singleton_array :: "val \<Rightarrow> 'e world \<Rightarrow> nat option \<times> 'e world" where
  "singleton_array v W =
     (case new_array (W\<lparr>w_refs := share_refs [v] (w_refs W)\<rparr>) (the (arr_from_values [v])) of (W, a) \<Rightarrow> (a, W))"

definition to_array :: "'e ctx \<Rightarrow> val \<Rightarrow> 'e world \<Rightarrow> nat option \<times> 'e world" where
  "to_array C v W =
     (case deref (w_refs W) v of
        VNull \<Rightarrow> (None, W)
      | VArray a \<Rightarrow> (a, W)
      | VObject p \<Rightarrow> c_object_to_array C p W
      | VFloat f \<Rightarrow> singleton_array (VFloat f) (warn_nan C f ''array'' W)
      | v \<Rightarrow> singleton_array v W)"

definition to_key :: "'e ctx \<Rightarrow> val \<Rightarrow> bytes \<Rightarrow> 'e world \<Rightarrow> key php_result \<times> 'e world" where
  "to_key C v container W =
     (case deref (w_refs W) v of
        VInt i \<Rightarrow> (Inr (KInt i), W)
      | VStr s \<Rightarrow> (Inr (key_from_php_str s), W)
      | VBool b \<Rightarrow> (Inr (KInt (i64_of_bool b)), W)
      | VFloat f \<Rightarrow> (case float_to_int_implicit C f W of (i, W) \<Rightarrow> (Inr (KInt i), W))
      | VNull \<Rightarrow> (Inr (KStr []), c_notice C Deprecated
          (ascii ''Using null as an array offset is deprecated, use an empty string instead'') W)
      | VResource r \<Rightarrow>
          (let i = w_res_ids W ! r in
           (Inr (KInt i), c_notice C Warning (ascii ''Resource ID#'' @ int_digits i
              @ ascii '' used as offset, casting to integer ('' @ int_digits i @ ascii '')'') W))
      | v \<Rightarrow> (Inl (type_error (ascii ''Cannot access offset of type '' @ type_name_for_error W v
              @ ascii '' on '' @ container)), W))"

definition str_to_number_operand :: "'e ctx \<Rightarrow> bytes \<Rightarrow> 'e world \<Rightarrow> (number \<times> bool) option \<times> 'e world" where
  "str_to_number_operand C s W =
     (let p = parse_numeric s in
      case np_kind p of
        Numeric \<Rightarrow> (Some (np_num p, np_float_syntax p), W)
      | Leading \<Rightarrow> (Some (np_num p, np_float_syntax p), c_notice C Warning (ascii ''A non-numeric value encountered'') W)
      | NonNumeric \<Rightarrow> (None, W))"

end
