(* ===== verification/ConvertSpec.thy ===== *)
theory ConvertSpec
  imports Convert
begin

text \<open>
  Conversion of floats to integers: a cast reads the integer part modulo \<open>2 ^ 64\<close>, with the bound
  checks and the float remainder computed exactly.
\<close>

section \<open>Values of floats\<close>

definition fin_value :: "bool \<Rightarrow> nat \<Rightarrow> int \<Rightarrow> real" where
  "fin_value s m e = of_int (signed_nat s m) * 2 powi e"

lemma powi2_add: "(2 :: real) powi (a + b) = 2 powi a * 2 powi b"
  by (simp add: power_int_add)

lemma scaled_int:
  assumes "l \<le> e"
  shows "real_of_int (signed_nat s m * 2 ^ nat (e - l)) = fin_value s m e * 2 powi (- l)"
proof -
  have "(2 :: real) powi (e - l) = 2 powi e * 2 powi (- l)" by (simp only: powi2_add [symmetric]) simp
  moreover have "(2 :: real) powi (e - l) = 2 ^ nat (e - l)" using assms by (simp add: power_int_def)
  ultimately show ?thesis by (simp add: fin_value_def)
qed

lemma view_cmp_value:
  "view_cmp (Fin s m e) (Fin t n g) =
     Some (if fin_value s m e < fin_value t n g then Less else if fin_value s m e = fin_value t n g then Equal else Greater)"
proof -
  define l where "l = min e g"
  define a b where "a = signed_nat s m * 2 ^ nat (e - l)" and "b = signed_nat t n * 2 ^ nat (g - l)"
  have p: "(0 :: real) < 2 powi (- l)" by simp
  have ab: "real_of_int a = fin_value s m e * 2 powi (- l)" "real_of_int b = fin_value t n g * 2 powi (- l)"
    unfolding a_def b_def by (rule scaled_int; simp add: l_def)+
  have "a < b \<longleftrightarrow> fin_value s m e < fin_value t n g"
    using mult_less_cancel_right_pos [OF p] by (simp only: of_int_less_iff [symmetric, where 'a = real] ab)
  moreover have "a = b \<longleftrightarrow> fin_value s m e = fin_value t n g"
    using p by (simp only: of_int_eq_iff [symmetric, where 'a = real] ab mult_cancel_right) simp
  ultimately show ?thesis by (simp add: a_def b_def l_def Let_def int_cmp_def)
qed

lemma f_cmp_value:
  assumes "view a = Fin s m e" "view b = Fin t n g"
  shows "f_lt a b \<longleftrightarrow> fin_value s m e < fin_value t n g" "f_le a b \<longleftrightarrow> fin_value s m e \<le> fin_value t n g"
    "f_eq a b \<longleftrightarrow> fin_value s m e = fin_value t n g"
  by (auto simp: f_lt_def f_le_def f_eq_def f_partial_cmp_def assms view_cmp_value simp del: view_cmp.simps)

section \<open>Exact roundings\<close>

text \<open>A number with at most 53 significant bits is rounded to itself.\<close>

lemma canonical_exists:
  assumes "0 < r" "r < 2 ^ 53" "0 \<le> l" "l \<le> 900"
  shows "\<exists>m e. canonical m e \<and> 0 < m \<and> real m * 2 powi e = real r * 2 powi l"
proof -
  define j where "j = 53 - bit_len r"
  note b = bit_len_bounds [OF assms(1)]
  have "2 ^ (bit_len r - 1) < (2 :: nat) ^ 53" using b assms(2) by linarith
  then have "bit_len r - 1 < 53" by (rule power_less_imp_less_exp [rotated]) simp
  then have bl: "bit_len r + j = 53" using b by (simp add: j_def)
  have "2 ^ 52 = (2 :: nat) ^ (bit_len r - 1) * 2 ^ j" using bl b by (simp flip: power_add)
  also have "\<dots> \<le> r * 2 ^ j" using b by (intro mult_right_mono) simp_all
  finally have lo: "2 ^ 52 \<le> r * 2 ^ j" .
  have "r * 2 ^ j < 2 ^ bit_len r * 2 ^ j" using b by (intro mult_strict_right_mono) simp_all
  also have "\<dots> = 2 ^ 53" using bl by (simp flip: power_add)
  finally have hi: "r * 2 ^ j < 2 ^ 53" .
  have "j \<le> 53" by (simp add: j_def)
  then have "canonical (r * 2 ^ j) (l - int j)" using lo hi assms by (simp add: canonical_def)
  moreover have "real (r * 2 ^ j) * 2 powi (l - int j) = real r * 2 powi l"
  proof -
    have "(2 :: real) powi l = 2 powi int j * 2 powi (l - int j)" by (simp only: powi2_add [symmetric]) simp
    then show ?thesis by simp
  qed
  moreover have "0 < r * 2 ^ j" using assms(1) by simp
  ultimately show ?thesis by blast
qed

lemma round_ratio_repr:
  assumes "0 < d" "r < 2 ^ 53" "0 \<le> l" "l \<le> 900" "real n / real d = real r * 2 powi l"
  shows "\<exists>m e. round_ratio s n d = Fin s m e \<and> canonical m e \<and> real m * 2 powi e = real r * 2 powi l"
proof (cases "r = 0")
  case True
  then have "n = 0" using assms(1,5) by simp
  then show ?thesis using True by (simp add: round_ratio_def canonical_def)
next
  case False
  then obtain m e where "canonical m e" "0 < m" "real m * 2 powi e = real r * 2 powi l"
    using canonical_exists [of r l] assms by auto
  then show ?thesis using round_ratio_exact [OF assms(1), of m e n s] assms(5) by auto
qed

lemma round_dyadic_repr:
  assumes "\<bar>k\<bar> < 2 ^ 53" "0 \<le> l" "l \<le> 900"
  shows "\<exists>s m e. round_dyadic z k l = Fin s m e \<and> canonical m e \<and> fin_value s m e = of_int k * 2 powi l"
proof (cases "k = 0")
  case True
  then show ?thesis by (simp add: round_dyadic_def canonical_def fin_value_def signed_nat_def)
next
  case False
  have "real (scale2 (nat \<bar>k\<bar>) l) / real (scale2 1 (- l)) = real (nat \<bar>k\<bar>) * 2 powi l"
    using scale2_ratio [of 1 "nat \<bar>k\<bar>" l] by simp
  moreover have "nat \<bar>k\<bar> < 2 ^ 53" using assms(1) by (simp add: nat_less_iff)
  ultimately obtain m e where m: "round_ratio (k < 0) (scale2 (nat \<bar>k\<bar>) l) (scale2 1 (- l)) = Fin (k < 0) m e"
    "canonical m e" "real m * 2 powi e = real (nat \<bar>k\<bar>) * 2 powi l"
    using round_ratio_repr [of "scale2 1 (- l)" "nat \<bar>k\<bar>" l "scale2 (nat \<bar>k\<bar>) l"] assms(2,3) by force
  have "fin_value (k < 0) m e = of_int k * 2 powi l"
    using m(3) by (auto simp: fin_value_def signed_nat_def)
  then show ?thesis using m False by (auto simp: round_dyadic_def)
qed

lemma view_two63: "view two63 = Fin False (2 ^ 52) 11"
proof -
  have s: "sint (word_of_int i64_min :: i64) = - (2 ^ 63)" by (rule sint_of_int) (simp add: in_i64_def)
  have "round_ratio True (2 ^ 63) 1 = Fin True (2 ^ 52) 11"
    by (rule round_ratio_exact) (simp_all add: canonical_def)
  then have "round_dyadic False (- (2 ^ 63)) 0 = Fin True (2 ^ 52) 11"
    by (simp add: round_dyadic_def scale2_def)
  then have "view (f_of_i64 (word_of_int i64_min)) = Fin True (2 ^ 52) 11"
    using view_of_view [of "Fin True (2 ^ 52) 11"]
    by (simp only: f_of_i64_def f_of_int_def s) (simp add: canonical_def del: of_view.simps)
  then have "two63 = of_view (Fin False (2 ^ 52) 11)" by (simp only: two63_def f_neg_def) simp
  then show ?thesis using view_of_view [of "Fin False (2 ^ 52) 11"] by (simp add: canonical_def del: of_view.simps)
qed

lemma view_neg_two63: "view (f_neg two63) = Fin True (2 ^ 52) 11"
  using view_of_view [of "Fin True (2 ^ 52) 11"] by (simp add: f_neg_def view_two63 canonical_def del: of_view.simps)

lemma view_two64: "view two64 = Fin False (2 ^ 52) 12"
proof -
  have "round_ratio False (2 ^ 64) 1 = Fin False (2 ^ 52) 12"
    by (rule round_ratio_exact) (simp_all add: canonical_def)
  then have "round_dyadic False (2 ^ 64) 0 = Fin False (2 ^ 52) 12"
    by (simp add: round_dyadic_def scale2_def)
  then have "two64 = of_view (Fin False (2 ^ 52) 12)" by (simp add: two64_def f_of_int_def)
  then show ?thesis using view_of_view [of "Fin False (2 ^ 52) 12"] by (simp add: canonical_def del: of_view.simps)
qed


section \<open>Integer parts\<close>

lemma trunc_magnitude_floor: "int (trunc_magnitude m e) = \<lfloor>real m * 2 powi e\<rfloor>"
proof (cases "0 \<le> e")
  case True
  then have eq: "real m * 2 powi e = real (m * 2 ^ nat e)" by (simp add: power_int_def)
  show ?thesis using True unfolding eq by (simp only: trunc_magnitude.simps if_True floor_of_nat)
next
  case False
  then have eq: "real m * 2 powi e = real m / real (2 ^ nat (- e))"
    using powi_split [of 2 e] by simp
  show ?thesis using False unfolding eq by (simp only: trunc_magnitude.simps if_False floor_divide_of_nat_eq)
qed

lemma fin_value_sign: "fin_value s m e = (if s then - (real m * 2 powi e) else real m * 2 powi e)"
  by (simp add: fin_value_def signed_nat_def)

lemma in_range_iff:
  assumes v: "view f = Fin s m e"
  shows "float_in_int_range f \<longleftrightarrow> - (2 ^ 63) \<le> fin_value s m e \<and> fin_value s m e < 2 ^ 63"
proof -
  have "(2 :: real) powi 11 = 2 ^ 11" by simp
  then have "fin_value True (2 ^ 52) 11 = - (2 ^ 63)" "fin_value False (2 ^ 52) 11 = 2 ^ 63"
    by (simp_all add: fin_value_sign)
  then show ?thesis
    by (simp add: float_in_int_range_def f_cmp_value [OF view_neg_two63 v] f_cmp_value [OF v view_two63])
qed

lemma trunc_int_bounds:
  assumes v: "view f = Fin s m e" and r: "- (2 ^ 63) \<le> fin_value s m e" "fin_value s m e < 2 ^ 63"
  shows "in_i64 (trunc_int f)"
proof -
  define x where "x = real m * 2 powi e"
  have x: "0 \<le> x" by (simp add: x_def)
  have t: "trunc_int f = (if s then - \<lfloor>x\<rfloor> else \<lfloor>x\<rfloor>)"
    by (simp add: trunc_int_def v signed_nat_def trunc_magnitude_floor x_def del: trunc_magnitude.simps)
  obtain z where z: "\<lfloor>x\<rfloor> = z" by simp
  have z0: "0 \<le> z" using x by (simp flip: z)
  show ?thesis
  proof (cases s)
    case True
    then have "x \<le> 2 ^ 63" using r by (simp add: fin_value_sign x_def)
    then have "z \<le> 2 ^ 63" by (simp add: floor_le_iff flip: z)
    then show ?thesis using True z0 unfolding t z by (simp add: in_i64_def)
  next
    case False
    then have "x < 2 ^ 63" using r by (simp add: fin_value_sign x_def)
    then have "z < 2 ^ 63" by (simp add: floor_less_iff flip: z)
    then show ?thesis using False z0 unfolding t z by (simp add: in_i64_def)
  qed
qed

lemma f_as_i64_in_range:
  assumes "view f = Fin s m e" "in_i64 (trunc_int f)"
  shows "f_as_i64 f = word_of_int (trunc_int f)"
  using assms by (simp add: f_as_i64_def saturate_def in_i64_def)

text \<open>A float beyond the range is an integer with a large exponent.\<close>

lemma out_of_range:
  assumes v: "view f = Fin s m e" and "\<not> float_in_int_range f"
  shows "11 \<le> e" "0 < m" "trunc_int f = signed_nat s (m * 2 ^ nat e)" "f_trunc f = of_view (Fin s m e)"
proof -
  have c: "canonical m e" using view_canonical [of f] by (simp add: v)
  obtain x where x: "real m * 2 powi e = x" by simp
  have "0 \<le> real m * 2 powi e" by simp
  then have "2 ^ 63 \<le> real m * 2 powi e"
    using assms(2) unfolding in_range_iff [OF v] fin_value_sign x by (cases s) auto
  show e: "11 \<le> e"
  proof (rule ccontr)
    assume "\<not> 11 \<le> e"
    then have "(2 :: real) powi e \<le> 2 powi 10" by (intro power_int_increasing) simp_all
    then have "real m * 2 powi e \<le> real m * 2 powi 10" by (intro mult_left_mono) simp_all
    also have "real m < 2 ^ 53" using c by (simp add: canonical_def flip: of_nat_power)
    then have "real m * 2 powi 10 < 2 ^ 53 * 2 powi 10" by (intro mult_strict_right_mono) simp_all
    finally have "real m * 2 powi e < 2 ^ 63" by simp
    with \<open>2 ^ 63 \<le> real m * 2 powi e\<close> show False by simp
  qed
  show m: "0 < m" using \<open>2 ^ 63 \<le> real m * 2 powi e\<close> by (cases m) simp_all
  show "trunc_int f = signed_nat s (m * 2 ^ nat e)" using e by (simp add: trunc_int_def v trunc_magnitude.simps)
  have "real (trunc_magnitude m e) / real 1 = real m * 2 powi e" using e by (simp add: trunc_magnitude.simps power_int_def)
  then have "round_ratio s (trunc_magnitude m e) 1 = Fin s m e" using c m by (intro round_ratio_exact) simp_all
  then show "f_trunc f = of_view (Fin s m e)" by (simp add: f_trunc_def v)
qed

lemma f_as_u64_value:
  assumes "view g = Fin s m e" "fin_value s m e = of_int x" "0 \<le> x" "x < 2 ^ 64"
  shows "f_as_u64 g = word_of_int x"
proof -
  define y where "y = real m * 2 powi e"
  have y: "0 \<le> y" by (simp add: y_def)
  have fv: "(if s then - y else y) = of_int x" using assms(2) unfolding fin_value_sign y_def .
  have tr: "trunc_int g = (if s then - \<lfloor>y\<rfloor> else \<lfloor>y\<rfloor>)"
    by (simp add: trunc_int_def assms(1) signed_nat_def trunc_magnitude_floor y_def del: trunc_magnitude.simps)
  have "trunc_int g = x"
  proof (cases s)
    case True
    then have "- y = real_of_int x" using fv by simp
    then have "x = 0" "y = 0" using y assms(3) by simp_all
    then show ?thesis using tr True by simp
  next
    case False
    then show ?thesis using fv tr by simp
  qed
  then show ?thesis using assms(1,3,4) by (simp add: f_as_u64_def saturate_def)
qed

lemma view_repr: "\<exists>s m e. v = Fin s m e \<and> canonical m e \<and> fin_value s m e = x \<Longrightarrow>
    \<exists>s m e. view (of_view v) = Fin s m e \<and> fin_value s m e = x"
proof -
  assume "\<exists>s m e. v = Fin s m e \<and> canonical m e \<and> fin_value s m e = x"
  then obtain s m e where v: "v = Fin s m e" "canonical m e" "fin_value s m e = x" by blast
  then have "view (of_view v) = v" by (intro view_of_view) simp
  then show ?thesis using v by blast
qed


section \<open>The wrapping conversion\<close>

lemma word_of_int_mod: "(word_of_int (x mod 2 ^ 64) :: u64) = word_of_int x"
  by (rule word_of_int_eq_iff [THEN iffD2]) (simp add: take_bit_eq_mod)

lemma wrapping_out_of_range:
  assumes v: "view f = Fin s m e" and out: "\<not> float_in_int_range f"
  shows "float_to_int_wrapping f = word_of_int (trunc_int f)"
proof -
  note o = out_of_range [OF v out]
  have c: "canonical m e" using view_canonical [of f] by (simp add: v)
  have fin: "is_finite f" by (simp add: is_finite_def v)
  have vt: "view (f_trunc f) = Fin s m e" using c unfolding o(4) by (intro view_of_view) simp
  define l where "l = min e 12"
  define r where "r = m * 2 ^ nat (e - l) mod (2 ^ 52 * 2 ^ nat (12 - l))"
  have l: "l = 11 \<or> l = 12" using o(1) by (auto simp: l_def)
  have rlt: "r < 2 ^ 53" using l by (auto simp: r_def intro!: less_le_trans [OF mod_less_divisor])
  have L: "0 \<le> l" "l \<le> 900" using l by auto
  have scale: "r * 2 ^ nat l = m * 2 ^ nat e mod 2 ^ 64"
  proof -
    have "r * 2 ^ nat l = (m * 2 ^ nat (e - l) * 2 ^ nat l) mod (2 ^ 52 * 2 ^ nat (12 - l) * 2 ^ nat l)"
      by (simp add: r_def mod_mult_mult2)
    also have "m * 2 ^ nat (e - l) * 2 ^ nat l = m * 2 ^ nat e"
      using l by (auto simp: l_def nat_diff_distrib mult.assoc simp flip: power_add)
    also have "2 ^ 52 * 2 ^ nat (12 - l) * 2 ^ nat l = (2 :: nat) ^ 64" using l by auto
    finally show ?thesis .
  qed
  define k where "k = signed_nat s r"
  define mm where "mm = f_rem (f_trunc f) two64"
  have rem: "mm = of_view (round_dyadic s k l)"
    by (simp add: mm_def f_rem_def vt view_two64 l_def r_def k_def Let_def)
  have "\<bar>k\<bar> < 2 ^ 53" using rlt by (auto simp: k_def signed_nat_def)
  from view_repr [OF round_dyadic_repr [OF this L, of s]] obtain t n g where
    vm: "view mm = Fin t n g" "fin_value t n g = of_int k * 2 powi l" unfolding rem by blast
  define R where "R = int (r * 2 ^ nat l)"
  have kl: "of_int k * 2 powi l = (of_int (if s then - R else R) :: real)"
    using L by (simp add: k_def signed_nat_def R_def power_int_def)
  have "m * 2 ^ nat e mod 2 ^ 64 < 2 ^ 64" by simp
  then have "int (m * 2 ^ nat e mod 2 ^ 64) < int (2 ^ 64)" by (simp only: of_nat_less_iff)
  then have R: "0 \<le> R" "R < 2 ^ 64" unfolding R_def scale by simp_all
  have target: "word_of_int (trunc_int f) = (word_of_int (if s then - R else R) :: u64)"
  proof -
    have "int (m * 2 ^ nat e) mod 2 ^ 64 = R" unfolding R_def scale by (simp add: zmod_int)
    then have "trunc_int f mod 2 ^ 64 = (if s then - R else R) mod 2 ^ 64"
      unfolding o(3) signed_nat_def by (auto simp: mod_minus_eq)
    then show ?thesis by (metis word_of_int_mod)
  qed
  have z: "fin_value False 0 (- 1074) = 0" by (simp add: fin_value_sign)
  have v0: "view (F64 0) = Fin False 0 (- 1074)" by (simp add: view_def f64_sign_def f64_biased_def f64_fraction_def)
  have neg: "f_lt mm (F64 0) \<longleftrightarrow> s \<and> R \<noteq> 0"
    unfolding f_cmp_value(1) [OF vm(1) v0] vm(2) kl z using R(1) by auto
  show ?thesis
  proof (cases "s \<and> R \<noteq> 0")
    case False
    then have "fin_value t n g = of_int R" unfolding vm(2) kl by auto
    then have "f_as_u64 mm = word_of_int R" using vm(1) R by (intro f_as_u64_value)
    then show ?thesis using fin out neg False unfolding target
      by (auto simp: float_to_int_wrapping_def mm_def [symmetric] Let_def)
  next
    case True
    define S where "S = f_add mm two64"
    define d where "d = min g 12"
    define j where "j = signed_nat t n * 2 ^ nat (g - d) + signed_nat False (2 ^ 52) * 2 ^ nat (12 - d)"
    have S: "S = of_view (round_dyadic False j d)"
      by (simp add: S_def f_add_def vm(1) view_two64 d_def j_def Let_def)
    have jv: "of_int j * 2 powi d = (of_int (2 ^ 64 - R) :: real)"
    proof -
      have c: "2 powi (- d) * 2 powi d = (1 :: real)" by (simp only: powi2_add [symmetric]) simp
      have "real_of_int j = (fin_value t n g + fin_value False (2 ^ 52) 12) * 2 powi (- d)"
        unfolding j_def of_int_add distrib_right by (intro arg_cong2 [of _ _ _ _ "(+)"] scaled_int; simp add: d_def)
      then have "of_int j * 2 powi d = (fin_value t n g + fin_value False (2 ^ 52) 12) * (2 powi (- d) * 2 powi d)"
        by (simp only: mult.assoc)
      also have "\<dots> = fin_value t n g + 2 ^ 64" unfolding c by (simp add: fin_value_sign)
      also have "\<dots> = of_int (2 ^ 64 - R)" using True unfolding vm(2) kl by simp
      finally show ?thesis .
    qed
    have "\<exists>s m e. round_dyadic False j d = Fin s m e \<and> canonical m e \<and> fin_value s m e = of_int (2 ^ 64 - R)"
    proof -
      have jpos: "0 < j"
      proof -
        have "0 < real_of_int j * 2 powi d" unfolding jv using R(2) by simp
        then have "0 < real_of_int j" by (rule zero_less_mult_pos2) simp
        then show ?thesis by simp
      qed
      define q where "q = 2 ^ nat (64 - l) - r"
      have "r * 2 ^ nat l < 2 ^ nat (64 - l) * 2 ^ nat l"
        using R(2) l unfolding R_def by (auto simp flip: power_add)
      then have rl: "r < 2 ^ nat (64 - l)" by simp
      have q: "q < 2 ^ 53"
      proof -
        have "0 < r" using True by (simp add: R_def)
        have "(2 :: nat) ^ nat (64 - l) \<le> 2 ^ 53" using l by auto
        then show ?thesis using \<open>0 < r\<close> rl by (simp add: q_def)
      qed
      have qv: "real q * 2 powi l = of_int (2 ^ 64 - R)"
      proof -
        have "real q * 2 powi l = (2 ^ nat (64 - l) - real r) * 2 ^ nat l"
          using rl L by (simp add: q_def of_nat_diff power_int_def)
        also have "\<dots> = 2 ^ nat (64 - l) * 2 ^ nat l - real r * 2 ^ nat l" by (rule left_diff_distrib)
        also have "2 ^ nat (64 - l) * 2 ^ nat l = (2 :: real) ^ 64" using l by auto
        finally show ?thesis by (simp add: R_def)
      qed
      have "real (scale2 (nat \<bar>j\<bar>) d) / real (scale2 1 (- d)) = real q * 2 powi l"
        using scale2_ratio [of 1 "nat \<bar>j\<bar>" d] jpos jv unfolding qv by simp
      from round_ratio_repr [OF _ q L this, of False] obtain m' e' where
        "round_ratio False (scale2 (nat \<bar>j\<bar>) d) (scale2 1 (- d)) = Fin False m' e'" "canonical m' e'"
        "real m' * 2 powi e' = real q * 2 powi l" by auto
      then show ?thesis using jpos unfolding qv by (auto simp: round_dyadic_def fin_value_sign)
    qed
    from view_repr [OF this] obtain t' n' g' where vS: "view S = Fin t' n' g'" "fin_value t' n' g' = of_int (2 ^ 64 - R)"
      unfolding S by blast
    have "f_as_u64 S = word_of_int (2 ^ 64 - R)"
      using vS True R by (intro f_as_u64_value [OF vS]) simp_all
    also have "\<dots> = word_of_int ((2 ^ 64 - R) mod 2 ^ 64)" by (simp only: word_of_int_mod)
    also have "(2 ^ 64 - R) mod 2 ^ 64 = (- R) mod 2 ^ 64" by (simp add: mod_diff_left_eq [symmetric])
    also have "word_of_int \<dots> = (word_of_int (- R) :: u64)" by (rule word_of_int_mod)
    finally show ?thesis using fin out neg True unfolding target
      by (simp add: float_to_int_wrapping_def mm_def [symmetric] S_def [symmetric] Let_def)
  qed
qed


text \<open>C30: converting a float to an integer truncates towards zero and wraps modulo \<open>2 ^ 64\<close> for every
  float (infinities and NaN give 0), in casts and in implicit conversions alike; a cast of a float in
  range raises nothing, and the saturating conversion of strings clamps the integer part instead.\<close>

theorem float_to_int_spec:
  "float_to_int_wrapping f = word_of_int (trunc_int f)
   \<and> fst (float_to_int_cast C f W) = word_of_int (trunc_int f)
   \<and> fst (float_to_int_implicit C f W) = word_of_int (trunc_int f)
   \<and> (if is_finite f \<and> float_in_int_range f then snd (float_to_int_cast C f W) = W
      else snd (float_to_int_cast C f W) = warn_not_representable C f W)
   \<and> sint (float_to_int_saturating f) = (if is_finite f then max i64_min (min i64_max (trunc_int f)) else 0)"
proof (cases "view f")
  case (Fin s m e)
  have fin: "is_finite f" by (simp add: is_finite_def Fin)
  note range = in_range_iff [OF Fin] and bounds = trunc_int_bounds [OF Fin]
  have inr: "float_in_int_range f \<Longrightarrow> in_i64 (trunc_int f) \<and> f_as_i64 f = word_of_int (trunc_int f)"
    using bounds f_as_i64_in_range [OF Fin] unfolding range by blast
  have wrap: "float_to_int_wrapping f = word_of_int (trunc_int f)"
  proof (cases "float_in_int_range f")
    case True
    then show ?thesis using inr fin by (simp add: float_to_int_wrapping_def)
  next
    case False
    then show ?thesis by (rule wrapping_out_of_range [OF Fin])
  qed
  have sat: "sint (float_to_int_saturating f) = max i64_min (min i64_max (trunc_int f))"
  proof -
    define y where "y = real m * 2 powi e"
    have y: "0 \<le> y" by (simp add: y_def)
    have fv: "fin_value s m e = (if s then - y else y)" by (simp add: fin_value_sign y_def)
    have tr: "trunc_int f = (if s then - \<lfloor>y\<rfloor> else \<lfloor>y\<rfloor>)"
      by (simp add: trunc_int_def Fin signed_nat_def trunc_magnitude_floor y_def del: trunc_magnitude.simps)
    have b: "fin_value True (2 ^ 52) 11 = - (2 ^ 63)" "fin_value False (2 ^ 52) 11 = 2 ^ 63"
      by (simp_all add: fin_value_sign)
    have hi: "f_le two63 f \<longleftrightarrow> 2 ^ 63 \<le> fin_value s m e"
      unfolding f_cmp_value(2) [OF view_two63 Fin] b ..
    have lo: "f_lt f (f_neg two63) \<longleftrightarrow> fin_value s m e < - (2 ^ 63)"
      unfolding f_cmp_value(1) [OF Fin view_neg_two63] b ..
    obtain z where z: "\<lfloor>y\<rfloor> = z" by simp
    have z0: "0 \<le> z" using y by (simp flip: z)
    consider "2 ^ 63 \<le> fin_value s m e" | "fin_value s m e < - (2 ^ 63)"
      | "- (2 ^ 63) \<le> fin_value s m e" "fin_value s m e < 2 ^ 63" by linarith
    then show ?thesis
    proof cases
      case 1
      then have "\<not> s" "2 ^ 63 \<le> y" using y by (auto simp: fv split: if_splits)
      then have "2 ^ 63 \<le> z" by (simp add: le_floor_iff flip: z)
      then have "i64_max \<le> trunc_int f" using \<open>\<not> s\<close> unfolding tr z by simp
      moreover have "float_to_int_saturating f = word_of_int i64_max"
        using 1 fin by (simp add: float_to_int_saturating_def hi)
      moreover have "sint (word_of_int i64_max :: i64) = i64_max" by (rule sint_of_int) (simp add: in_i64_def)
      ultimately show ?thesis by simp
    next
      case 2
      then have s: "s" "2 ^ 63 < y" using y by (auto simp: fv split: if_splits)
      then have "2 ^ 63 \<le> z" by (simp add: le_floor_iff flip: z)
      then have "trunc_int f \<le> i64_min" using s unfolding tr z by simp
      moreover have "\<not> 2 ^ 63 \<le> fin_value s m e" using 2 by simp
      then have "float_to_int_saturating f = word_of_int i64_min"
        using 2 fin by (simp add: float_to_int_saturating_def hi lo)
      moreover have "sint (word_of_int i64_min :: i64) = i64_min" by (rule sint_of_int) (simp add: in_i64_def)
      ultimately show ?thesis by simp
    next
      case 3
      then have i: "in_i64 (trunc_int f)" by (rule bounds)
      have "float_to_int_saturating f = f_as_i64 f"
        using 3 fin by (simp add: float_to_int_saturating_def hi lo)
      then have "sint (float_to_int_saturating f) = trunc_int f"
        using i by (simp add: f_as_i64_in_range [OF Fin i] sint_of_int)
      then show ?thesis using i by (simp add: in_i64_def)
    qed
  qed
  show ?thesis
    using wrap sat inr fin by (auto simp: float_to_int_cast_def float_to_int_implicit_def Let_def)
qed (simp_all add: float_to_int_wrapping_def float_to_int_cast_def float_to_int_implicit_def is_finite_def
    trunc_int_def float_to_int_saturating_def Let_def)

end
