(* ===== verification/Ops.thy ===== *)
theory Ops
  imports Convert
begin

text \<open>
  The operators (\<open>ops.rs\<close>).  An operator takes the context, its operands and the world and returns
  a value or a thrown error with the world.  \<open>deref2!\<close> restarts an operator on dereferenced
  operands; here the operands are dereferenced first, which is the same because dereferencing a
  value that is not a reference gives it back.
\<close>

definition binop_symbol :: "binop \<Rightarrow> bytes" where
  "binop_symbol op = ascii (case op of Add \<Rightarrow> ''+'' | Sub \<Rightarrow> ''-'' | Mul \<Rightarrow> ''*'' | Div \<Rightarrow> ''/'' | Mod \<Rightarrow> ''%''
     | Pow \<Rightarrow> ''**'' | Concat \<Rightarrow> ''.'' | BitAnd \<Rightarrow> ''&'' | BitOr \<Rightarrow> ''|'' | BitXor \<Rightarrow> ''^'' | Shl \<Rightarrow> ''<<'' | Shr \<Rightarrow> ''>>'')"

section \<open>Operands\<close>

definition set_expression_operands :: "bool \<Rightarrow> 'e world \<Rightarrow> 'e world" where
  "set_expression_operands on W = W\<lparr>w_commuted := on\<rparr>"

definition literal_on_left :: "'e world \<Rightarrow> bool" where
  "literal_on_left W = w_commuted W"

definition commuted :: "'e world \<Rightarrow> binop \<Rightarrow> bool" where
  "commuted W op \<longleftrightarrow> op \<in> {Mul, BitAnd, BitOr, BitXor} \<and> w_commuted W"

definition unsupported :: "'e world \<Rightarrow> binop \<Rightarrow> val \<Rightarrow> val \<Rightarrow> php_error" where
  "unsupported W op a b =
     (let (a, b) = (if commuted W op then (b, a) else (a, b)) in
      type_error (ascii ''Unsupported operand types: '' @ type_name_for_error W a @ ascii '' '' @ binop_symbol op
        @ ascii '' '' @ type_name_for_error W b))"

definition overload :: "'e ctx \<Rightarrow> binop \<Rightarrow> val \<Rightarrow> val \<Rightarrow> 'e world \<Rightarrow> val php_result option \<times> 'e world" where
  "overload C op a b W = (if is_object a \<or> is_object b then c_object_binop C op a b W else (None, W))"

definition num_operand :: "'e ctx \<Rightarrow> val \<Rightarrow> 'e world \<Rightarrow> number option \<times> 'e world" where
  "num_operand C v W =
     (case v of
        VInt i \<Rightarrow> (Some (NInt i), W)
      | VFloat f \<Rightarrow> (Some (NFloat f), W)
      | VNull \<Rightarrow> (Some (NInt 0), W)
      | VBool b \<Rightarrow> (Some (NInt (i64_of_bool b)), W)
      | VStr s \<Rightarrow> (case str_to_number_operand C s W of (r, W) \<Rightarrow> (map_option fst r, W))
      | _ \<Rightarrow> (None, W))"

text \<open>Both operands through a conversion, as \<open>num_operands\<close> and \<open>int_operands\<close> do.\<close>

definition both_operands :: "('e ctx \<Rightarrow> val \<Rightarrow> 'e world \<Rightarrow> 'n option \<times> 'e world) \<Rightarrow>
    'e ctx \<Rightarrow> binop \<Rightarrow> val \<Rightarrow> val \<Rightarrow> 'e world \<Rightarrow> ('n \<times> 'n) php_result \<times> 'e world" where
  "both_operands conv C op a b W =
     (if commuted W op \<and> (is_object b \<or> is_resource b) then (Inl (unsupported W op a b), W)
      else case conv C a W of
        (None, W) \<Rightarrow> (Inl (unsupported W op a b), W)
      | (Some x, W) \<Rightarrow>
        (case conv C b W of
           (None, W) \<Rightarrow> (Inl (unsupported W op a b), W)
         | (Some y, W) \<Rightarrow> (Inr (x, y), W)))"

definition num_operands :: "'e ctx \<Rightarrow> binop \<Rightarrow> val \<Rightarrow> val \<Rightarrow> 'e world \<Rightarrow> (number \<times> number) php_result \<times> 'e world" where
  "num_operands C op a b W = both_operands num_operand C op a b W"

definition num_val :: "number \<Rightarrow> val" where
  "num_val n = (case n of NInt i \<Rightarrow> VInt i | NFloat f \<Rightarrow> VFloat f)"

text \<open>\<open>overload_first!\<close> followed by the conversion of the operands and the operation on numbers.\<close>

definition slow_op :: "'e ctx \<Rightarrow> binop \<Rightarrow> (number \<times> number \<Rightarrow> val php_result) \<Rightarrow> val \<Rightarrow> val \<Rightarrow> 'e world
    \<Rightarrow> val php_result \<times> 'e world" where
  "slow_op C op f a b W =
     (case overload C op a b W of
        (Some r, W) \<Rightarrow> (r, W)
      | (None, W) \<Rightarrow>
        (case num_operands C op a b W of (Inl e, W) \<Rightarrow> (Inl e, W) | (Inr p, W) \<Rightarrow> (f p, W)))"

section \<open>Addition, subtraction, multiplication\<close>

definition add_numbers :: "number \<times> number \<Rightarrow> val" where
  "add_numbers p =
     (case p of
        (NInt x, NInt y) \<Rightarrow> (case checked_add x y of Some r \<Rightarrow> VInt r | None \<Rightarrow> VFloat (f_add (f_of_i64 x) (f_of_i64 y)))
      | (x, y) \<Rightarrow> VFloat (f_add (number_to_f64 x) (number_to_f64 y)))"

definition sub_numbers :: "number \<times> number \<Rightarrow> val" where
  "sub_numbers p =
     (case p of
        (NInt x, NInt y) \<Rightarrow> (case checked_sub x y of Some r \<Rightarrow> VInt r | None \<Rightarrow> VFloat (f_sub (f_of_i64 x) (f_of_i64 y)))
      | (x, y) \<Rightarrow> VFloat (f_sub (number_to_f64 x) (number_to_f64 y)))"

definition mul_numbers :: "number \<times> number \<Rightarrow> val" where
  "mul_numbers p =
     (case p of
        (NInt x, NInt y) \<Rightarrow> (case checked_mul x y of Some r \<Rightarrow> VInt r | None \<Rightarrow> VFloat (f_mul (f_of_i64 x) (f_of_i64 y)))
      | (x, y) \<Rightarrow> VFloat (f_mul (number_to_f64 x) (number_to_f64 y)))"

text \<open>
  \<open>array_union\<close>: the first insertion separates the copy from \<open>a\<close>, the later ones write in place.
  The loop reads the entries of \<open>b\<close>, which the operator holds.
\<close>

fun union_entries :: "(key \<times> val) list \<Rightarrow> nat option \<Rightarrow> bool \<Rightarrow> 'e world \<Rightarrow> nat option \<times> 'e world" where
  "union_entries [] r own W = (r, W)"
| "union_entries ((k, v) # es) r own W =
     (if php_get W r k = None then
        let (W, r) = (if own then (W, r) else separate W r);
            W = (case r of None \<Rightarrow> W
                 | Some p \<Rightarrow> W\<lparr>w_arrays := (w_arrays W)[p := fst (arr_insert (w_arrays W ! p) k v)],
                              w_refs := share_refs [v] (w_refs W)\<rparr>) in
        union_entries es r True W
      else union_entries es r own W)"

definition array_union :: "nat option \<Rightarrow> nat option \<Rightarrow> 'e world \<Rightarrow> nat option \<times> 'e world" where
  "array_union a b W =
     (if php_is_empty W b then (a, W)
      else if php_is_empty W a then (b, W)
      else union_entries (arr_iter (array_at W b)) a False W)"

definition add :: "'e ctx \<Rightarrow> val \<Rightarrow> val \<Rightarrow> 'e world \<Rightarrow> val php_result \<times> 'e world" where
  "add C a b W =
     (let a = deref (w_refs W) a; b = deref (w_refs W) b in
      case (a, b) of
        (VInt x, VInt y) \<Rightarrow> (Inr (add_numbers (NInt x, NInt y)), W)
      | (VFloat x, VFloat y) \<Rightarrow> (Inr (VFloat (f_add x y)), W)
      | (VInt x, VFloat y) \<Rightarrow> (Inr (VFloat (f_add (f_of_i64 x) y)), W)
      | (VFloat x, VInt y) \<Rightarrow> (Inr (VFloat (f_add x (f_of_i64 y))), W)
      | (VArray x, VArray y) \<Rightarrow> (case array_union x y W of (r, W) \<Rightarrow> (Inr (VArray r), W))
      | _ \<Rightarrow> slow_op C Add (\<lambda>p. Inr (add_numbers p)) a b W)"

definition sub :: "'e ctx \<Rightarrow> val \<Rightarrow> val \<Rightarrow> 'e world \<Rightarrow> val php_result \<times> 'e world" where
  "sub C a b W =
     (let a = deref (w_refs W) a; b = deref (w_refs W) b in
      case (a, b) of
        (VInt x, VInt y) \<Rightarrow> (Inr (sub_numbers (NInt x, NInt y)), W)
      | (VFloat x, VFloat y) \<Rightarrow> (Inr (VFloat (f_sub x y)), W)
      | (VInt x, VFloat y) \<Rightarrow> (Inr (VFloat (f_sub (f_of_i64 x) y)), W)
      | (VFloat x, VInt y) \<Rightarrow> (Inr (VFloat (f_sub x (f_of_i64 y))), W)
      | _ \<Rightarrow> slow_op C Sub (\<lambda>p. Inr (sub_numbers p)) a b W)"

definition mul :: "'e ctx \<Rightarrow> val \<Rightarrow> val \<Rightarrow> 'e world \<Rightarrow> val php_result \<times> 'e world" where
  "mul C a b W =
     (let a = deref (w_refs W) a; b = deref (w_refs W) b in
      case (a, b) of
        (VInt x, VInt y) \<Rightarrow> (Inr (mul_numbers (NInt x, NInt y)), W)
      | (VFloat x, VFloat y) \<Rightarrow> (Inr (VFloat (f_mul x y)), W)
      | (VInt x, VFloat y) \<Rightarrow> (Inr (VFloat (f_mul (f_of_i64 x) y)), W)
      | (VFloat x, VInt y) \<Rightarrow> (Inr (VFloat (f_mul x (f_of_i64 y))), W)
      | _ \<Rightarrow> slow_op C Mul (\<lambda>p. Inr (mul_numbers p)) a b W)"

section \<open>Division\<close>

definition div_by_zero :: php_error where
  "div_by_zero = new_error DivisionByZero (ascii ''Division by zero'')"

definition number_is_zero :: "number \<Rightarrow> bool" where
  "number_is_zero n = (case n of NInt i \<Rightarrow> i = 0 | NFloat f \<Rightarrow> f_eq f (F64 0))"

definition div_numbers :: "number \<times> number \<Rightarrow> val php_result" where
  "div_numbers p =
     (case p of (x, y) \<Rightarrow>
        if number_is_zero y then Inl div_by_zero
        else case (x, y) of
          (NInt x, NInt y) \<Rightarrow>
            Inr (if sint y = - 1 \<and> sint x = i64_min then VFloat (f_div (f_of_i64 x) (f_of_int (- 1)))
                 else if trunc_mod (sint x) (sint y) = 0 then VInt (word_of_int (trunc_div (sint x) (sint y)))
                 else VFloat (f_div (f_of_i64 x) (f_of_i64 y)))
        | (x, y) \<Rightarrow> Inr (VFloat (f_div (number_to_f64 x) (number_to_f64 y))))"

definition div_op :: "'e ctx \<Rightarrow> val \<Rightarrow> val \<Rightarrow> 'e world \<Rightarrow> val php_result \<times> 'e world" where
  "div_op C a b W =
     (let a = deref (w_refs W) a; b = deref (w_refs W) b in
      case (a, b) of
        (VInt x, VInt y) \<Rightarrow> (div_numbers (NInt x, NInt y), W)
      | (VFloat x, VFloat y) \<Rightarrow> (div_numbers (NFloat x, NFloat y), W)
      | _ \<Rightarrow> slow_op C Div div_numbers a b W)"

section \<open>Integer operands\<close>

definition float_string_to_int :: "'e ctx \<Rightarrow> bytes \<Rightarrow> f64 \<Rightarrow> 'e world \<Rightarrow> i64 \<times> 'e world" where
  "float_string_to_int C s f W =
     (let i = float_to_int_saturating f;
          exact = (is_finite f \<and> float_in_int_range f \<and> f_eq (f_of_i64 i) f) in
      (i, if exact then W
          else c_notice C Deprecated (loses_precision ''float-string \"'' (utf8_lossy s @ ascii ''\"'')) W))"

definition int_operand :: "'e ctx \<Rightarrow> val \<Rightarrow> 'e world \<Rightarrow> i64 option \<times> 'e world" where
  "int_operand C v W =
     (case v of
        VInt i \<Rightarrow> (Some i, W)
      | VNull \<Rightarrow> (Some 0, W)
      | VBool b \<Rightarrow> (Some (i64_of_bool b), W)
      | VFloat f \<Rightarrow> (case float_to_int_implicit C f W of (i, W) \<Rightarrow> (Some i, W))
      | VStr s \<Rightarrow>
          (case str_to_number_operand C s W of
             (None, W) \<Rightarrow> (None, W)
           | (Some (NInt i, _), W) \<Rightarrow> (Some i, W)
           | (Some (NFloat f, _), W) \<Rightarrow> (case float_string_to_int C s f W of (i, W) \<Rightarrow> (Some i, W)))
      | _ \<Rightarrow> (None, W))"

definition int_operands :: "'e ctx \<Rightarrow> binop \<Rightarrow> val \<Rightarrow> val \<Rightarrow> 'e world \<Rightarrow> (i64 \<times> i64) php_result \<times> 'e world" where
  "int_operands C op a b W = both_operands int_operand C op a b W"

text \<open>Two integers as they are, everything else through overloading and \<open>int_operands\<close>.\<close>

definition int_op :: "'e ctx \<Rightarrow> binop \<Rightarrow> (i64 \<times> i64 \<Rightarrow> val php_result) \<Rightarrow> val \<Rightarrow> val \<Rightarrow> 'e world
    \<Rightarrow> val php_result \<times> 'e world" where
  "int_op C op f a b W =
     (case (a, b) of
        (VInt x, VInt y) \<Rightarrow> (f (x, y), W)
      | _ \<Rightarrow>
        (case overload C op a b W of
           (Some r, W) \<Rightarrow> (r, W)
         | (None, W) \<Rightarrow>
           (case int_operands C op a b W of (Inl e, W) \<Rightarrow> (Inl e, W) | (Inr p, W) \<Rightarrow> (f p, W))))"

definition modulo_ints :: "i64 \<times> i64 \<Rightarrow> val php_result" where
  "modulo_ints p =
     (case p of (x, y) \<Rightarrow>
        if y = 0 then Inl (new_error DivisionByZero (ascii ''Modulo by zero''))
        else if sint y = - 1 then Inr (VInt 0)
        else Inr (VInt (word_of_int (trunc_mod (sint x) (sint y)))))"

definition modulo_op :: "'e ctx \<Rightarrow> val \<Rightarrow> val \<Rightarrow> 'e world \<Rightarrow> val php_result \<times> 'e world" where
  "modulo_op C a b W = int_op C Mod modulo_ints (deref (w_refs W) a) (deref (w_refs W) b) W"

definition intdiv :: "i64 \<Rightarrow> i64 \<Rightarrow> i64 php_result" where
  "intdiv a b =
     (if b = 0 then Inl div_by_zero
      else if sint b = - 1 \<and> sint a = i64_min
      then Inl (new_error ArithmeticError (ascii ''Division of PHP_INT_MIN by -1 is not an integer''))
      else Inr (word_of_int (trunc_div (sint a) (sint b))))"


section \<open>Powers\<close>

function float_pow_loop :: "f64 \<Rightarrow> f64 \<Rightarrow> nat \<Rightarrow> f64" where
  "float_pow_loop result b e =
     (if e = 0 then result
      else
        let result = (if odd e then f_mul result b else result);
            e = e div 2;
            b = (if e \<noteq> 0 then f_mul b b else b) in
        float_pow_loop result b e)"
  by pat_completeness auto
termination
  by (relation "measure (\<lambda>(result, b, e). e)") auto

declare float_pow_loop.simps [simp del]

definition float_pow_rest :: "f64 \<Rightarrow> f64 \<Rightarrow> nat \<Rightarrow> bool \<Rightarrow> number" where
  "float_pow_rest result b e squared_next =
     (let b = (if squared_next \<and> e \<noteq> 0 then f_mul b b else b) in NFloat (float_pow_loop result b e))"

text \<open>The loop of \<open>int_pow\<close>, with the exponent read as a natural number.\<close>

function int_pow_loop :: "i64 \<Rightarrow> i64 \<Rightarrow> nat \<Rightarrow> number" where
  "int_pow_loop result b e =
     (case (if odd e then checked_mul result b else Some result) of
        None \<Rightarrow> float_pow_rest (f_mul (f_of_i64 result) (f_of_i64 b)) (f_of_i64 b) (e div 2) True
      | Some r \<Rightarrow>
          if e div 2 = 0 then NInt r
          else case checked_mul b b of
            Some x \<Rightarrow> int_pow_loop r x (e div 2)
          | None \<Rightarrow> float_pow_rest (f_of_i64 r) (f_mul (f_of_i64 b) (f_of_i64 b)) (e div 2) False)"
  by pat_completeness auto
termination
  by (relation "measure (\<lambda>(result, b, e). e)") auto

declare int_pow_loop.simps [simp del]

definition int_pow :: "i64 \<Rightarrow> i64 \<Rightarrow> number" where
  "int_pow base e = int_pow_loop 1 base (unat e)"

text \<open>The platform's \<open>powf\<close> is a parameter.\<close>

definition pow_numbers :: "(f64 \<Rightarrow> f64 \<Rightarrow> f64) \<Rightarrow> 'e ctx \<Rightarrow> number \<times> number \<Rightarrow> 'e world \<Rightarrow> val \<times> 'e world" where
  "pow_numbers powf C p W =
     (case p of (x, y) \<Rightarrow>
        let W = (if f_eq (number_to_f64 x) (F64 0) \<and> f_lt (number_to_f64 y) (F64 0)
                 then c_notice C Deprecated (ascii ''Power of base 0 and negative exponent is deprecated'') W else W) in
        case (x, y) of
          (NInt i, NInt j) \<Rightarrow>
            (if 0 \<le> sint j then num_val (int_pow i j) else VFloat (powf (f_of_i64 i) (f_of_i64 j)), W)
        | (x, y) \<Rightarrow> (VFloat (powf (number_to_f64 x) (number_to_f64 y)), W))"

definition pow_op :: "(f64 \<Rightarrow> f64 \<Rightarrow> f64) \<Rightarrow> 'e ctx \<Rightarrow> val \<Rightarrow> val \<Rightarrow> 'e world \<Rightarrow> val php_result \<times> 'e world" where
  "pow_op powf C a b W =
     (let a = deref (w_refs W) a; b = deref (w_refs W) b;
          finish = (\<lambda>p W. case pow_numbers powf C p W of (v, W) \<Rightarrow> (Inr v, W)) in
      case (a, b) of
        (VInt x, VInt y) \<Rightarrow> finish (NInt x, NInt y) W
      | (VFloat x, VFloat y) \<Rightarrow> finish (NFloat x, NFloat y) W
      | _ \<Rightarrow>
        (case overload C Pow a b W of
           (Some r, W) \<Rightarrow> (r, W)
         | (None, W) \<Rightarrow>
           (case num_operands C Pow a b W of (Inl e, W) \<Rightarrow> (Inl e, W) | (Inr p, W) \<Rightarrow> finish p W)))"

section \<open>Strings\<close>

definition concat_op :: "'e ctx \<Rightarrow> val \<Rightarrow> val \<Rightarrow> 'e world \<Rightarrow> bytes php_result \<times> 'e world" where
  "concat_op C a b W =
     (case (a, b) of
        (VStr x, VStr y) \<Rightarrow> (Inr (if y = [] then x else if x = [] then y else x @ y), W)
      | (VStr x, VInt i) \<Rightarrow> (Inr (x @ int_digits i), W)
      | (VInt i, VStr y) \<Rightarrow> (Inr (int_digits i @ y), W)
      | _ \<Rightarrow>
        (case append_str C [] a W of
           (Inl e, W) \<Rightarrow> (Inl e, W)
         | (Inr out, W) \<Rightarrow> append_str C out b W))"

text \<open>\<open>$a .= $b\<close>: the string afterwards.\<close>

definition concat_assign :: "'e ctx \<Rightarrow> bytes \<Rightarrow> val \<Rightarrow> 'e world \<Rightarrow> php_error option \<times> bytes \<times> 'e world" where
  "concat_assign C target b W =
     (case b of
        VStr s \<Rightarrow> (None, target @ s, W)
      | v \<Rightarrow> (case to_str C v W of (Inl e, W) \<Rightarrow> (Some e, target, W) | (Inr s, W) \<Rightarrow> (None, target @ s, W)))"

definition bytewise :: "bytes \<Rightarrow> bytes \<Rightarrow> binop \<Rightarrow> bytes" where
  "bytewise a b op =
     (case op of
        BitOr \<Rightarrow>
          (let (long, short) = (if length b \<le> length a then (a, b) else (b, a)) in
           map2 (\<lambda>x y. x OR y) long short @ drop (length short) long)
      | BitAnd \<Rightarrow> map2 (\<lambda>x y. x AND y) a b
      | _ \<Rightarrow> map2 (\<lambda>x y. x XOR y) a b)"

section \<open>Bits\<close>

definition bit_ints :: "binop \<Rightarrow> i64 \<times> i64 \<Rightarrow> val php_result" where
  "bit_ints op p =
     (case p of (x, y) \<Rightarrow> Inr (VInt (case op of BitAnd \<Rightarrow> x AND y | BitOr \<Rightarrow> x OR y | _ \<Rightarrow> x XOR y)))"

definition bitwise :: "'e ctx \<Rightarrow> binop \<Rightarrow> val \<Rightarrow> val \<Rightarrow> 'e world \<Rightarrow> val php_result \<times> 'e world" where
  "bitwise C op a b W =
     (let a = deref (w_refs W) a; b = deref (w_refs W) b in
      case (a, b) of
        (VStr x, VStr y) \<Rightarrow> (Inr (VStr (bytewise x y op)), W)
      | _ \<Rightarrow> int_op C op (bit_ints op) a b W)"

definition shift_ints :: "binop \<Rightarrow> i64 \<times> i64 \<Rightarrow> val php_result" where
  "shift_ints op p =
     (case p of (x, y) \<Rightarrow>
        if sint y < 0 then Inl (new_error ArithmeticError (ascii ''Bit shift by negative number''))
        else Inr (VInt (if op = Shl then (if 64 \<le> sint y then 0 else push_bit (unat y) x)
          else if 64 \<le> sint y then (if sint x < 0 then - 1 else 0)
          else signed_drop_bit (unat y) x)))"

definition shift_op :: "'e ctx \<Rightarrow> binop \<Rightarrow> val \<Rightarrow> val \<Rightarrow> 'e world \<Rightarrow> val php_result \<times> 'e world" where
  "shift_op C op a b W = int_op C op (shift_ints op) (deref (w_refs W) a) (deref (w_refs W) b) W"

definition value_name :: "'e world \<Rightarrow> val \<Rightarrow> bytes" where
  "value_name W v = (case v of VBool b \<Rightarrow> ascii (if b then ''true'' else ''false'') | v \<Rightarrow> type_name_for_error W v)"

definition bit_not :: "'e ctx \<Rightarrow> val \<Rightarrow> 'e world \<Rightarrow> val php_result \<times> 'e world" where
  "bit_not C a W =
     (case deref (w_refs W) a of
        VInt i \<Rightarrow> (Inr (VInt (NOT i)), W)
      | VFloat f \<Rightarrow> (case float_to_int_implicit C f W of (i, W) \<Rightarrow> (Inr (VInt (NOT i)), W))
      | VStr s \<Rightarrow> (Inr (VStr (map (\<lambda>c. NOT c) s)), W)
      | v \<Rightarrow> (Inl (type_error (ascii ''Cannot perform bitwise not on '' @ value_name W v)), W))"

section \<open>Unary operators\<close>

definition neg_op :: "'e ctx \<Rightarrow> val \<Rightarrow> 'e world \<Rightarrow> val php_result \<times> 'e world" where
  "neg_op C a W =
     (case a of
        VInt i \<Rightarrow> (Inr (case checked_neg i of Some r \<Rightarrow> VInt r | None \<Rightarrow> VFloat (f_neg (f_of_i64 i))), W)
      | VFloat f \<Rightarrow> (Inr (VFloat (f_neg f)), W)
      | _ \<Rightarrow> mul C a (VInt (- 1)) W)"

definition plus_op :: "'e ctx \<Rightarrow> val \<Rightarrow> 'e world \<Rightarrow> val php_result \<times> 'e world" where
  "plus_op C a W =
     (case a of VInt _ \<Rightarrow> (Inr a, W) | VFloat _ \<Rightarrow> (Inr a, W) | _ \<Rightarrow> mul C a (VInt 1) W)"

definition not_op :: "'e ctx \<Rightarrow> val \<Rightarrow> 'e world \<Rightarrow> bool \<times> 'e world" where
  "not_op C a W = (case to_bool C a W of (b, W) \<Rightarrow> (\<not> b, W))"

definition xor_op :: "'e ctx \<Rightarrow> val \<Rightarrow> val \<Rightarrow> 'e world \<Rightarrow> bool \<times> 'e world" where
  "xor_op C a b W =
     (case to_bool C a W of (x, W) \<Rightarrow> (case to_bool C b W of (y, W) \<Rightarrow> (x \<noteq> y, W)))"

section \<open>Incrementing\<close>

definition is_alnum :: "u8 \<Rightarrow> bool" where
  "is_alnum c \<longleftrightarrow> is_ascii_digit c \<or> 0x41 \<le> c \<and> c \<le> 0x5A \<or> 0x61 \<le> c \<and> c \<le> 0x7A"

text \<open>The loop of \<open>str_increment_bytes\<close>, before its index is decremented.\<close>

fun str_inc_loop :: "nat \<Rightarrow> bytes \<Rightarrow> bytes" where
  "str_inc_loop 0 out =
     (let first = out ! 0 in (if first = 0x61 then 0x61 else if first = 0x41 then 0x41 else 0x31) # out)"
| "str_inc_loop (Suc i) out =
     (let c = out ! i in
      if 0x61 \<le> c \<and> c \<le> 0x79 \<or> 0x41 \<le> c \<and> c \<le> 0x59 \<or> 0x30 \<le> c \<and> c \<le> 0x38 then out[i := c + 1]
      else if c = 0x7A \<or> c = 0x5A \<or> c = 0x39 then
        let out = out[i := if c = 0x7A then 0x61 else if c = 0x5A then 0x41 else 0x30] in
        if 0 < i \<and> \<not> is_alnum (out ! (i - 1)) then out else str_inc_loop i out
      else out)"

definition str_increment_bytes :: "bytes \<Rightarrow> bytes" where
  "str_increment_bytes s = (if s = [] then [0x31] else str_inc_loop (length s) s)"

definition f_one :: f64 where
  "f_one = f_of_int 1"

definition inc_number :: "number \<Rightarrow> val" where
  "inc_number n =
     (case n of
        NInt i \<Rightarrow> (case checked_add i 1 of Some r \<Rightarrow> VInt r | None \<Rightarrow> VFloat (f_add (f_of_i64 i) f_one))
      | NFloat f \<Rightarrow> VFloat (f_add f f_one))"

definition dec_number :: "number \<Rightarrow> val" where
  "dec_number n =
     (case n of
        NInt i \<Rightarrow> (case checked_sub i 1 of Some r \<Rightarrow> VInt r | None \<Rightarrow> VFloat (f_sub (f_of_i64 i) f_one))
      | NFloat f \<Rightarrow> VFloat (f_sub f f_one))"

definition no_effect :: "string \<Rightarrow> bytes" where
  "no_effect what = ascii what @ ascii '' has no effect, this will change in the next major version of PHP''"

definition increment :: "'e ctx \<Rightarrow> val \<Rightarrow> 'e world \<Rightarrow> val php_result \<times> 'e world" where
  "increment C a W =
     (case deref (w_refs W) a of
        VInt i \<Rightarrow> (Inr (inc_number (NInt i)), W)
      | VFloat f \<Rightarrow> (Inr (inc_number (NFloat f)), W)
      | VNull \<Rightarrow> (Inr (VInt 1), W)
      | VBool b \<Rightarrow> (Inr (VBool b), c_notice C Warning (no_effect ''Increment on type bool'') W)
      | VStr s \<Rightarrow>
          (let p = parse_numeric s in
           if np_kind p = Numeric then (Inr (inc_number (np_num p)), W)
           else (Inr (VStr (str_increment_bytes s)),
             c_notice C Deprecated (ascii ''Increment on non-numeric string is deprecated, use str_increment() instead'') W))
      | v \<Rightarrow> (Inl (type_error (ascii ''Cannot increment '' @ type_name_for_error W v)), W))"

definition decrement :: "'e ctx \<Rightarrow> val \<Rightarrow> 'e world \<Rightarrow> val php_result \<times> 'e world" where
  "decrement C a W =
     (case deref (w_refs W) a of
        VInt i \<Rightarrow> (Inr (dec_number (NInt i)), W)
      | VFloat f \<Rightarrow> (Inr (dec_number (NFloat f)), W)
      | VNull \<Rightarrow> (Inr VNull, c_notice C Warning (no_effect ''Decrement on type null'') W)
      | VBool b \<Rightarrow> (Inr (VBool b), c_notice C Warning (no_effect ''Decrement on type bool'') W)
      | VStr s \<Rightarrow>
          if s = [] then
            (Inr (VInt (- 1)), c_notice C Deprecated (ascii ''Decrement on empty string is deprecated as non-numeric'') W)
          else
            (let p = parse_numeric s in
             if np_kind p = Numeric then (Inr (dec_number (np_num p)), W)
             else (Inr (VStr s),
               c_notice C Deprecated (ascii ''Decrement on non-numeric string has no effect and is deprecated'') W))
      | v \<Rightarrow> (Inl (type_error (ascii ''Cannot decrement '' @ type_name_for_error W v)), W))"

section \<open>All binary operators\<close>

definition binary_op :: "(f64 \<Rightarrow> f64 \<Rightarrow> f64) \<Rightarrow> 'e ctx \<Rightarrow> binop \<Rightarrow> val \<Rightarrow> val \<Rightarrow> 'e world \<Rightarrow> val php_result \<times> 'e world" where
  "binary_op powf C op a b W =
     (case op of
        Add \<Rightarrow> add C a b W
      | Sub \<Rightarrow> sub C a b W
      | Mul \<Rightarrow> mul C a b W
      | Div \<Rightarrow> div_op C a b W
      | Mod \<Rightarrow> modulo_op C a b W
      | Pow \<Rightarrow> pow_op powf C a b W
      | Concat \<Rightarrow> (case concat_op C a b W of (Inl e, W) \<Rightarrow> (Inl e, W) | (Inr s, W) \<Rightarrow> (Inr (VStr s), W))
      | BitAnd \<Rightarrow> bitwise C BitAnd a b W
      | BitOr \<Rightarrow> bitwise C BitOr a b W
      | BitXor \<Rightarrow> bitwise C BitXor a b W
      | Shl \<Rightarrow> shift_op C Shl a b W
      | Shr \<Rightarrow> shift_op C Shr a b W)"

end
