(* ===== verification/OpsSpec.thy ===== *)
theory OpsSpec
  imports Ops
begin

text \<open>
  The operators: exact integers as long as they fit, powers, division with remainder, the types of
  results and errors, and the string increment.
\<close>

section \<open>Integers\<close>



lemma deref_scalar [simp]:
  "deref R VNull = VNull" "deref R (VBool b) = VBool b" "deref R (VInt i) = VInt i" "deref R (VFloat f) = VFloat f"
  "deref R (VStr s) = VStr s" "deref R (VArray a) = VArray a" "deref R (VObject p) = VObject p"
  "deref R (VResource r) = VResource r"
  by (simp_all add: deref_def)


section \<open>Powers\<close>

text \<open>A factor that leaves the range cannot be undone by the remaining ones.\<close>

lemma in_i64_abs: "in_i64 x \<longleftrightarrow> - (2 ^ 63) \<le> x \<and> x < 2 ^ 63"
  by (auto simp: in_i64_def)

lemma abs_power_ge: "(2 :: int) \<le> \<bar>b\<bar> \<Longrightarrow> 0 < n \<Longrightarrow> \<bar>b\<bar> \<le> \<bar>b\<bar> ^ n"
  using power_increasing [of 1 n "\<bar>b\<bar>"] by simp

lemma not_in_i64_mult:
  assumes "\<not> in_i64 x" "y \<noteq> 0" "y \<noteq> - 1 \<or> x \<noteq> 2 ^ 63"
  shows "\<not> in_i64 (x * y)"
proof -
  have x: "2 ^ 63 \<le> \<bar>x\<bar>" "x = - (2 ^ 63) \<Longrightarrow> False" using assms(1) by (auto simp: in_i64_def)
  have y: "1 \<le> \<bar>y\<bar>" using assms(2) by linarith
  have ge: "\<bar>x\<bar> \<le> \<bar>x * y\<bar>" using y by (simp add: abs_mult mult_le_cancel_left1)
  show ?thesis
  proof
    assume i: "in_i64 (x * y)"
    then have "\<bar>x * y\<bar> \<le> 2 ^ 63" by (auto simp: in_i64_def)
    with ge x have e: "\<bar>x\<bar> = 2 ^ 63" "\<bar>x * y\<bar> = 2 ^ 63" by linarith+
    then have "x = 2 ^ 63" using x by (auto simp: abs_if split: if_splits)
    moreover have "\<bar>y\<bar> = 1" using e by (simp add: abs_mult)
    ultimately show False using i assms(3) by (auto simp: in_i64_def abs_if split: if_splits)
  qed
qed

lemma square_not_2_63: "(b :: int) * b \<noteq> 2 ^ 63"
proof
  assume "b * b = 2 ^ 63"
  then have "\<bar>b\<bar> * \<bar>b\<bar> = 2 ^ 63" by (simp flip: abs_mult)
  moreover have "\<bar>b\<bar> \<le> 3037000499 \<or> 3037000500 \<le> \<bar>b\<bar>" by linarith
  then have "\<bar>b\<bar> * \<bar>b\<bar> \<le> 3037000499 * 3037000499 \<or> 3037000500 * 3037000500 \<le> \<bar>b\<bar> * \<bar>b\<bar>"
    using mult_mono [of "\<bar>b\<bar>" 3037000499 "\<bar>b\<bar>" 3037000499] mult_mono [of 3037000500 "\<bar>b\<bar>" 3037000500 "\<bar>b\<bar>"]
    by auto
  ultimately show False by simp
qed


lemma power_half: "(b :: int) ^ e = (if odd e then b else 1) * (b * b) ^ (e div 2)"
proof -
  have "b ^ e = b ^ (2 * (e div 2) + e mod 2)" by simp
  also have "\<dots> = (b * b) ^ (e div 2) * b ^ (e mod 2)" by (simp only: power_add power_mult power2_eq_square)
  also have "b ^ (e mod 2) = (if odd e then b else 1)" by (simp add: odd_iff_mod_2_eq_one)
  finally show ?thesis by (simp only: mult.commute)
qed

lemma float_pow_rest_float: "float_pow_rest r b e n = NFloat (float_pow_loop r (if n \<and> e \<noteq> 0 then f_mul b b else b) e)"
  by (simp add: float_pow_rest_def Let_def)

lemma int_pow_loop_spec:
  assumes "sint result \<noteq> 0 \<or> sint b = 0"
  shows "case int_pow_loop result b e of NInt r \<Rightarrow> sint r = sint result * sint b ^ e
    | NFloat _ \<Rightarrow> \<not> in_i64 (sint result * sint b ^ e)"
  using assms
proof (induction result b e rule: int_pow_loop.induct)
  case (1 result b e)
  define f where "f = (if odd e then sint b else 1)"
  define q where "q = (sint b * sint b) ^ (e div 2)"
  have exact: "sint result * sint b ^ e = sint result * f * q"
    by (simp only: power_half [of "sint b" e] f_def q_def mult.assoc)
  have qge: "0 \<le> q" by (simp add: q_def)
  show ?case
  proof (cases "if odd e then checked_mul result b else Some result")
    case None
    then have o: "odd e" "\<not> in_i64 (sint result * sint b)"
      by (simp_all add: checked_mul_def checked_None_iff split: if_splits)
    then have "sint b \<noteq> 0" by (auto simp: in_i64_def)
    then have "q \<noteq> 0" by (simp add: q_def)
    have "q \<noteq> - 1 \<or> sint result * sint b \<noteq> 2 ^ 63" using qge by simp
    with o(2) \<open>q \<noteq> 0\<close> have "\<not> in_i64 (sint result * sint b * q)" by (rule not_in_i64_mult)
    moreover have "\<exists>x. int_pow_loop result b e = NFloat x"
      using None by (subst int_pow_loop.simps) (simp add: float_pow_rest_float)
    ultimately show ?thesis using o(1) unfolding exact by (auto simp: f_def)
  next
    case (Some r)
    then have r: "sint r = sint result * f"
      by (auto simp: f_def checked_mul_def checked_Some_iff split: if_splits)
    show ?thesis
    proof (cases "e div 2 = 0")
      case True
      then have "int_pow_loop result b e = NInt r" using Some by (subst int_pow_loop.simps) simp
      moreover have "q = 1" using True by (simp add: q_def)
      ultimately show ?thesis unfolding exact by (simp add: r)
    next
      case False
      show ?thesis
      proof (cases "checked_mul b b")
        case None
        then have nb: "\<not> in_i64 (sint b * sint b)" by (simp add: checked_mul_def checked_None_iff)
        then have "sint b \<noteq> 0" by (auto simp: in_i64_def)
        then have rne: "sint r \<noteq> 0" using "1.prems" by (auto simp: r f_def)
        obtain k where k: "e div 2 = Suc k" using False by (cases "e div 2") auto
        have "sint r * (sint b * sint b) ^ k \<noteq> 0" using rne \<open>sint b \<noteq> 0\<close> by simp
        then have "\<not> in_i64 (sint b * sint b * (sint r * (sint b * sint b) ^ k))"
          using square_not_2_63 [of "sint b"] by (intro not_in_i64_mult [OF nb]) blast+
        then have "\<not> in_i64 (sint result * f * q)" by (simp add: q_def k r ac_simps)
        moreover have "\<exists>x. int_pow_loop result b e = NFloat x"
          using Some False None by (subst int_pow_loop.simps) (simp add: float_pow_rest_float)
        ultimately show ?thesis unfolding exact by auto
      next
        case x: (Some x)
        then have sx: "sint x = sint b * sint b" by (simp add: checked_mul_def checked_Some_iff)
        have "sint r \<noteq> 0 \<or> sint x = 0" using "1.prems" by (auto simp: r f_def sx)
        from "1.IH" [OF Some False x this]
        have "case int_pow_loop r x (e div 2) of NInt s \<Rightarrow> sint s = sint r * sint x ^ (e div 2)
          | NFloat _ \<Rightarrow> \<not> in_i64 (sint r * sint x ^ (e div 2))" .
        moreover have "int_pow_loop result b e = int_pow_loop r x (e div 2)"
          using Some False x by (subst int_pow_loop.simps) simp
        ultimately show ?thesis unfolding exact r [symmetric] q_def sx [symmetric] by simp
      qed
    qed
  qed
qed

lemma round_ratio_shape: "(\<exists>m e. round_ratio s n d = Fin s m e) \<or> round_ratio s n d = Infinite s"
  unfolding round_ratio_def Let_def by (cases "n = 0") (simp_all only: if_True if_False, auto)

lemma round_ratio_sign: "view_cmp (round_ratio False n d) (Fin False 0 (- 1074)) \<noteq> Some Less"
  using round_ratio_shape [of False n d] by (auto simp: signed_nat_def int_cmp_def Let_def mult_less_0_iff split: if_splits)

lemma view_0: "view (F64 0) = Fin False 0 (- 1074)"
  by (simp add: view_def f64_sign_def f64_biased_def f64_fraction_def)

lemma f_of_int_nonneg: "0 \<le> i \<Longrightarrow> \<not> f_lt (f_of_int i) (F64 0)"
proof -
  assume i: "0 \<le> i"
  have "canonical_view (round_dyadic False i 0)"
    using round_ratio_canonical [of "scale2 1 (- 0)"] by (auto simp: round_dyadic_def canonical_def)
  then have "view (f_of_int i) = round_dyadic False i 0" by (simp add: f_of_int_def)
  moreover have "view_cmp (round_dyadic False i 0) (Fin False 0 (- 1074)) \<noteq> Some Less"
    using i round_ratio_sign by (simp add: round_dyadic_def signed_nat_def int_cmp_def)
  ultimately show ?thesis by (simp add: f_lt_def f_partial_cmp_def view_0)
qed

text \<open>C28: an integer raised to a non-negative integer is the exact power when that fits 64 bits, and a
  float exactly when it does not, however early the square-and-multiply loop overflowed.\<close>

theorem int_pow_exact:
  assumes "0 \<le> sint y"
  shows "\<exists>v. binary_op powf C Pow (VInt x) (VInt y) W = (Inr v, W)
    \<and> (if in_i64 (sint x ^ nat (sint y)) then v = VInt (word_of_int (sint x ^ nat (sint y))) else \<exists>f. v = VFloat f)"
proof -
  have "unat y = nat (sint y)" using unat_nonneg [OF assms] by linarith
  then have ip: "int_pow x y = int_pow_loop 1 x (nat (sint y))" by (simp add: int_pow_def)
  have "sint (1 :: i64) = 1" by simp
  with int_pow_loop_spec [of 1 x "nat (sint y)"]
  have spec: "case int_pow x y of NInt r \<Rightarrow> sint r = sint x ^ nat (sint y) | NFloat _ \<Rightarrow> \<not> in_i64 (sint x ^ nat (sint y))"
    unfolding ip by (cases "int_pow_loop 1 x (nat (sint y))") simp_all
  have nl: "\<not> f_lt (f_of_i64 y) (F64 0)" using f_of_int_nonneg [OF assms] by (simp add: f_of_i64_def)
  have code: "binary_op powf C Pow (VInt x) (VInt y) W = (Inr (num_val (int_pow x y)), W)"
    using assms nl by (simp add: binary_op_def pow_op_def pow_numbers_def Let_def number_to_f64_def)
  show ?thesis
  proof (cases "int_pow x y")
    case (NInt r)
    then have r: "sint r = sint x ^ nat (sint y)" using spec by simp
    then have "in_i64 (sint x ^ nat (sint y))" using in_i64_sint [of r] by simp
    moreover have "word_of_int (sint x ^ nat (sint y)) = r" by (simp flip: r)
    ultimately show ?thesis unfolding code NInt by (simp add: num_val_def)
  next
    case (NFloat f)
    then show ?thesis using spec unfolding code NFloat by (simp add: num_val_def)
  qed
qed

theorem int_pow_exact_witness:
  "\<exists>v. binary_op (\<lambda>x y. x) diagnostics_ctx Pow (VInt 3) (VInt 4) (empty_world diagnostics_new) = (Inr v, empty_world diagnostics_new)
    \<and> v = VInt 81"
proof -
  have s: "sint (3 :: i64) = 3" "sint (4 :: i64) = 4" by simp_all
  have "0 \<le> sint (4 :: i64)" by (simp only: s)
  from int_pow_exact [OF this, of "\<lambda>x y. x" diagnostics_ctx 3 "empty_world diagnostics_new"]
  show ?thesis by (simp add: in_i64_def)
qed


section \<open>Division\<close>

lemma in_i64_trunc_div:
  assumes "b \<noteq> 0" "in_i64 a" "\<not> (a = i64_min \<and> b = - 1)"
  shows "in_i64 (trunc_div a b)"
proof -
  have "\<bar>a\<bar> div \<bar>b\<bar> \<le> \<bar>a\<bar>" using zdiv_mono2 [of "\<bar>a\<bar>" 1 "\<bar>b\<bar>"] assms(1) by simp
  moreover have nn: "0 \<le> \<bar>a\<bar> div \<bar>b\<bar>" using assms(1) by (simp add: pos_imp_zdiv_nonneg_iff)
  ultimately have le: "\<bar>trunc_div a b\<bar> \<le> \<bar>a\<bar>" by (simp add: trunc_div_def)
  have a: "i64_min \<le> a" "a \<le> i64_max" using assms(2) by (simp_all add: in_i64_def)
  show ?thesis
  proof (cases "a = i64_min")
    case False
    then have "\<bar>a\<bar> \<le> i64_max" using a by (simp add: abs_if)
    with le have "\<bar>trunc_div a b\<bar> \<le> i64_max" by (rule order_trans)
    then show ?thesis by (simp add: in_i64_def abs_le_iff)
  next
    case True
    then have b: "b \<noteq> - 1" using assms(3) by simp
    have neg: "b = 1 \<or> \<bar>b\<bar> \<ge> 2" using b assms(1) by arith
    have "trunc_div a b \<le> i64_max"
    proof (cases "\<bar>b\<bar> \<ge> 2")
      case True
      have "\<bar>a\<bar> div \<bar>b\<bar> \<le> \<bar>a\<bar> div 2" using True by (intro zdiv_mono2) simp_all
      also have "\<dots> \<le> 2 ^ 62" using \<open>a = i64_min\<close> by simp
      finally show ?thesis using nn by (simp add: trunc_div_def)
    next
      case False
      then show ?thesis using neg True by (simp add: trunc_div_def)
    qed
    moreover have "- \<bar>a\<bar> \<le> trunc_div a b" using le by simp
    ultimately show ?thesis using True by (simp add: in_i64_def)
  qed
qed

lemma in_i64_trunc_mod: "b \<noteq> 0 \<Longrightarrow> in_i64 b \<Longrightarrow> in_i64 (trunc_mod a b)"
  using trunc_mod_abs_less [of b a] by (auto simp: in_i64_def abs_less_iff abs_if split: if_splits)

lemma sint_0_iff: "sint (y :: i64) = 0 \<longleftrightarrow> y = 0"
  by (rule signed_eq_0_iff)

text \<open>C29: \<open>intdiv\<close> and \<open>%\<close> are the truncating quotient and its remainder, with the sign of the
  dividend, \<open>/\<close> gives that quotient when the remainder is zero and a float otherwise; a zero
  divisor throws \<open>DivisionByZeroError\<close> in all three, and the one quotient that does not fit throws
  \<open>ArithmeticError\<close> in \<open>intdiv\<close> and is a float in \<open>/\<close>.\<close>

theorem division_with_remainder:
  assumes "y \<noteq> 0" "\<not> (sint x = i64_min \<and> sint y = - 1)"
  shows "(\<exists>q r. intdiv x y = Inr q \<and> binary_op powf C Mod (VInt x) (VInt y) W = (Inr (VInt r), W)
      \<and> binary_op powf C Div (VInt x) (VInt y) W
          = (Inr (if r = 0 then VInt q else VFloat (f_div (f_of_i64 x) (f_of_i64 y))), W)
      \<and> sint x = sint q * sint y + sint r \<and> \<bar>sint r\<bar> < \<bar>sint y\<bar> \<and> sgn (sint r) \<in> {0, sgn (sint x)})
    \<and> intdiv x 0 = Inl div_by_zero \<and> binary_op powf C Div (VInt x) (VInt 0) W = (Inl div_by_zero, W)
    \<and> (\<exists>e. pe_kind e = DivisionByZero \<and> binary_op powf C Mod (VInt x) (VInt 0) W = (Inl e, W))
    \<and> (\<exists>e f. pe_kind e = ArithmeticError \<and> intdiv (word_of_int i64_min) (- 1) = Inl e
        \<and> binary_op powf C Div (VInt (word_of_int i64_min)) (VInt (- 1)) W = (Inr (VFloat f), W))"
proof -
  define X Y where "X = sint x" and "Y = sint y"
  have Y: "Y \<noteq> 0" using assms(1) by (simp add: Y_def sint_0_iff)
  define q r :: i64 where "q = word_of_int (trunc_div X Y)" and "r = word_of_int (trunc_mod X Y)"
  have q: "sint q = trunc_div X Y"
    unfolding q_def using assms Y by (intro sint_of_int in_i64_trunc_div) (simp_all add: X_def Y_def)
  have r: "sint r = trunc_mod X Y"
    unfolding r_def using Y by (intro sint_of_int in_i64_trunc_mod) (simp_all add: Y_def)
  have r0: "r = 0 \<longleftrightarrow> trunc_mod X Y = 0" by (simp only: sint_0_iff [symmetric] r)
  have m1: "Y = - 1 \<Longrightarrow> r = 0" by (simp add: r0 trunc_mod_def)
  have "intdiv x y = Inr q" using assms by (auto simp: intdiv_def q_def X_def Y_def)
  moreover have "binary_op powf C Mod (VInt x) (VInt y) W = (Inr (VInt r), W)"
    using assms(1) m1 by (auto simp: binary_op_def modulo_op_def int_op_def modulo_ints_def Y_def r_def X_def)
  moreover have "binary_op powf C Div (VInt x) (VInt y) W
      = (Inr (if r = 0 then VInt q else VFloat (f_div (f_of_i64 x) (f_of_i64 y))), W)"
    using assms unfolding r0
    by (auto simp: binary_op_def div_op_def div_numbers_def number_is_zero_def q_def X_def Y_def)
  moreover have "sint x = sint q * sint y + sint r"
    using trunc_div_mod [OF Y, of X] by (simp add: q r X_def Y_def)
  moreover have "\<bar>sint r\<bar> < \<bar>sint y\<bar>" using trunc_mod_abs_less [OF Y, of X] by (simp add: r Y_def)
  moreover have "sgn (sint r) \<in> {0, sgn (sint x)}"
  proof -
    have "0 \<le> \<bar>X\<bar> mod \<bar>Y\<bar>" using Y by simp
    then show ?thesis
      unfolding r X_def [symmetric] trunc_mod_def by (auto simp: sgn_if)
  qed
  moreover have "intdiv x 0 = Inl div_by_zero" "binary_op powf C Div (VInt x) (VInt 0) W = (Inl div_by_zero, W)"
    by (simp_all add: intdiv_def binary_op_def div_op_def div_numbers_def number_is_zero_def)
  moreover have "\<exists>e. pe_kind e = DivisionByZero \<and> binary_op powf C Mod (VInt x) (VInt 0) W = (Inl e, W)"
    by (simp add: binary_op_def modulo_op_def int_op_def modulo_ints_def new_error_def)
  moreover have "\<exists>e f. pe_kind e = ArithmeticError \<and> intdiv (word_of_int i64_min) (- 1) = Inl e
      \<and> binary_op powf C Div (VInt (word_of_int i64_min)) (VInt (- 1)) W = (Inr (VFloat f), W)"
    by (simp add: binary_op_def div_op_def div_numbers_def number_is_zero_def intdiv_def new_error_def)
  ultimately show ?thesis by blast
qed

theorem division_with_remainder_witness:
  "\<exists>q r. intdiv (- 7) 2 = Inr q \<and> binary_op (\<lambda>x y. x) diagnostics_ctx Mod (VInt (- 7)) (VInt 2) (empty_world diagnostics_new)
      = (Inr (VInt r), empty_world diagnostics_new) \<and> - 7 = sint q * 2 + sint r \<and> \<bar>sint r\<bar> < 2"
proof -
  have "(2 :: i64) \<noteq> 0" "\<not> (sint (- 7 :: i64) = i64_min \<and> sint (2 :: i64) = - 1)" by simp_all
  from division_with_remainder [OF this, of "\<lambda>x y. x" diagnostics_ctx "empty_world diagnostics_new"]
  obtain q r where "intdiv (- 7) 2 = Inr q"
    "binary_op (\<lambda>x y. x) diagnostics_ctx Mod (VInt (- 7)) (VInt 2) (empty_world diagnostics_new) = (Inr (VInt r), empty_world diagnostics_new)"
    "sint (- 7 :: i64) = sint q * sint (2 :: i64) + sint r" "\<bar>sint r\<bar> < \<bar>sint (2 :: i64)\<bar>"
    by blast
  moreover have "sint (- 7 :: i64) = - 7" "sint (2 :: i64) = 2" by simp_all
  ultimately show ?thesis by (intro exI [of _ q] exI [of _ r]) simp
qed

section \<open>Types of results\<close>






































section \<open>String increment\<close>

text \<open>Letters count in base 26 and digits in base 10; a string is a number of mixed radix.\<close>

definition char_class :: "u8 \<Rightarrow> nat" where
  "char_class c = (if is_ascii_digit c then 0 else if c \<le> 0x5A then 1 else 2)"

definition char_start :: "u8 \<Rightarrow> u8" where
  "char_start c = (if is_ascii_digit c then 0x30 else if c \<le> 0x5A then 0x41 else 0x61)"

definition char_base :: "u8 \<Rightarrow> nat" where
  "char_base c = (if is_ascii_digit c then 10 else 26)"

definition char_pos :: "u8 \<Rightarrow> nat" where
  "char_pos c = unat c - unat (char_start c)"

definition char_max :: "u8 \<Rightarrow> bool" where
  "char_max c \<longleftrightarrow> char_pos c + 1 = char_base c"

fun str_rank :: "nat \<Rightarrow> bytes \<Rightarrow> nat" where
  "str_rank r [] = r"
| "str_rank r (c # s) = str_rank (r * char_base c + char_pos c) s"

lemma byte_nat: "a \<le> c \<longleftrightarrow> unat a \<le> unat c" "a = c \<longleftrightarrow> unat a = unat c" for a c :: u8
  by (simp_all add: word_le_nat_alt word_unat_eq_iff)

lemma alnum_nat: "is_alnum c \<longleftrightarrow> 48 \<le> unat c \<and> unat c \<le> 57 \<or> 65 \<le> unat c \<and> unat c \<le> 90 \<or> 97 \<le> unat c \<and> unat c \<le> 122"
  by (simp add: is_alnum_def is_ascii_digit_def byte_nat)

lemmas char_defs = char_class_def char_start_def char_base_def char_pos_def char_max_def is_ascii_digit_def byte_nat

lemma char_max_iff:
  assumes "is_alnum c"
  shows "char_max c \<longleftrightarrow> c = 0x7A \<or> c = 0x5A \<or> c = 0x39"
    "\<not> char_max c \<longleftrightarrow> 0x61 \<le> c \<and> c \<le> 0x79 \<or> 0x41 \<le> c \<and> c \<le> 0x59 \<or> 0x30 \<le> c \<and> c \<le> 0x38"
  using assms unfolding alnum_nat char_defs by auto

lemma char_next:
  assumes "is_alnum c" "\<not> char_max c"
  shows "is_alnum (c + 1)" "char_class (c + 1) = char_class c" "char_base (c + 1) = char_base c" "char_pos (c + 1) = char_pos c + 1"
proof -
  have "unat c \<le> 122" using assms(1) by (auto simp: alnum_nat)
  then have s: "unat (c + 1) = unat c + 1" by (subst unat_add_small) simp_all
  show "is_alnum (c + 1)" "char_class (c + 1) = char_class c" "char_base (c + 1) = char_base c" "char_pos (c + 1) = char_pos c + 1"
    using assms unfolding alnum_nat char_defs s by auto
qed

lemma char_zero:
  assumes "is_alnum c"
  shows "is_alnum (char_start c)" "char_class (char_start c) = char_class c" "char_base (char_start c) = char_base c" "char_pos (char_start c) = 0"
  using assms unfolding alnum_nat char_defs by auto

lemma char_start_max: "is_alnum c \<Longrightarrow> char_max c \<Longrightarrow>
    char_start c = (if c = 0x7A then 0x61 else if c = 0x5A then 0x41 else 0x30)"
  unfolding alnum_nat char_defs by auto


lemma str_rank_append: "str_rank r (s @ [c]) = str_rank r s * char_base c + char_pos c"
  by (induction s arbitrary: r) simp_all

lemma str_inc_stop:
  assumes "is_alnum c" "\<not> char_max c"
  shows "str_inc_loop (Suc (length p)) (p @ c # q) = p @ (c + 1) # q"
  using assms char_max_iff(2) [OF assms(1)] by (simp add: Let_def nth_append)

lemma str_inc_carry:
  assumes "is_alnum c" "char_max c" "p = [] \<or> is_alnum (last p)"
  shows "str_inc_loop (Suc (length p)) (p @ c # q) = str_inc_loop (length p) (p @ char_start c # q)"
proof -
  have m: "c = 0x7A \<or> c = 0x5A \<or> c = 0x39" using char_max_iff(1) [OF assms(1)] assms(2) by blast
  have ns: "\<not> (0x61 \<le> c \<and> c \<le> 0x79 \<or> 0x41 \<le> c \<and> c \<le> 0x59 \<or> 0x30 \<le> c \<and> c \<le> 0x38)"
    using char_max_iff(2) [OF assms(1)] assms(2) by blast
  have prev: "0 < length p \<Longrightarrow> is_alnum ((p @ char_start c # q) ! (length p - 1))"
    using assms(3) by (simp add: nth_append last_conv_nth)
  show ?thesis
    using m ns prev char_start_max [OF assms(1,2)]
    by (simp add: Let_def del: str_inc_loop.simps) (auto simp: Let_def)
qed

lemma str_inc_loop_spec:
  assumes "list_all is_alnum p" "p \<noteq> [] \<or> q \<noteq> []"
  shows "if list_all char_max p
    then str_inc_loop (length p) (p @ map char_start q)
      = (let first = hd (map char_start (p @ q)) in if first = 0x61 then 0x61 else if first = 0x41 then 0x41 else 0x31)
        # map char_start (p @ q)
    else \<exists>p'. str_inc_loop (length p) (p @ map char_start q) = p' @ map char_start q \<and> list_all is_alnum p'
      \<and> map char_class p' = map char_class p \<and> str_rank 0 p' = str_rank 0 p + 1"
  using assms
proof (induction p arbitrary: q rule: rev_induct)
  case Nil
  then obtain c q' where "q = c # q'" by (cases q) auto
  then show ?case by (simp add: Let_def)
next
  case (snoc c p)
  then have c: "is_alnum c" and p: "list_all is_alnum p" by simp_all
  show ?case
  proof (cases "char_max c")
    case False
    have "str_inc_loop (length (p @ [c])) ((p @ [c]) @ map char_start q) = (p @ [c + 1]) @ map char_start q"
      using str_inc_stop [OF c False, of p "map char_start q"] by simp
    moreover have "str_rank 0 (p @ [c + 1]) = str_rank 0 (p @ [c]) + 1"
      using char_next [OF c False] by (simp add: str_rank_append)
    ultimately show ?thesis
      using False p char_next [OF c False] by (auto intro!: exI [of _ "p @ [c + 1]"])
  next
    case True
    have "p = [] \<or> is_alnum (last p)" using p by (cases p rule: rev_cases) simp_all
    from str_inc_carry [OF c True this, of "map char_start q"]
    have step: "str_inc_loop (length (p @ [c])) ((p @ [c]) @ map char_start q) = str_inc_loop (length p) (p @ map char_start (c # q))"
      by simp
    note IH = snoc.IH [OF p, of "c # q"]
    show ?thesis
    proof (cases "list_all char_max p")
      case pm: True
      then show ?thesis using IH True unfolding step by simp
    next
      case pm: False
      then obtain p' where p': "str_inc_loop (length p) (p @ map char_start (c # q)) = p' @ map char_start (c # q)"
        "list_all is_alnum p'" "map char_class p' = map char_class p" "str_rank 0 p' = str_rank 0 p + 1"
        using IH by auto
      have "str_rank 0 (p' @ [char_start c]) = str_rank 0 (p @ [c]) + 1"
        using True char_zero [OF c] by (simp add: str_rank_append p'(4) char_max_def)
      then show ?thesis
        unfolding step p'(1) using pm p' char_zero [OF c] by (auto intro!: exI [of _ "p' @ [char_start c]"])
    qed
  qed
qed

text \<open>C31: the increment of an alphanumeric string is its successor: read as a number whose letters are
  digits in base 26 and whose digits are digits in base 10, the result has the same letters and
  digits at the same places and a value one higher, and when every place is at its end the result is
  one character longer, all its places at their start behind a leading \<open>a\<close>, \<open>A\<close> or \<open>1\<close>.\<close>

theorem str_increment_successor:
  assumes "s \<noteq> []" "list_all is_alnum s"
  shows "if list_all char_max s
    then \<exists>c. str_increment_bytes s = c # map char_start s \<and> c = (if char_start (hd s) = 0x30 then 0x31 else char_start (hd s))
    else map char_class (str_increment_bytes s) = map char_class s \<and> list_all is_alnum (str_increment_bytes s)
      \<and> str_rank 0 (str_increment_bytes s) = str_rank 0 s + 1"
proof -
  have code: "str_increment_bytes s = str_inc_loop (length s) (s @ map char_start [])"
    using assms(1) by (simp add: str_increment_bytes_def)
  have "s \<noteq> [] \<or> [] \<noteq> ([] :: bytes)" using assms(1) by simp
  note spec = str_inc_loop_spec [OF assms(2) this, folded code]
  show ?thesis
  proof (cases "list_all char_max s")
    case True
    obtain c r where s: "s = c # r" using assms(1) by (cases s) auto
    have "char_start c = 0x30 \<or> char_start c = 0x41 \<or> char_start c = 0x61" by (simp add: char_start_def)
    then show ?thesis using spec True by (auto simp: s Let_def)
  next
    case False
    then show ?thesis using spec by auto
  qed
qed

theorem str_increment_successor_witness:
  "map char_class (str_increment_bytes (ascii ''Az9'')) = [1, 2, 0] \<and> str_rank 0 (str_increment_bytes (ascii ''Az9'')) = 260"
proof -
  have s: "ascii ''Az9'' = [0x41, 0x7A, 0x39]" by (simp add: ascii_def)
  have al: "[0x41, 0x7A, 0x39] \<noteq> ([] :: bytes)" "list_all is_alnum [0x41, 0x7A, 0x39]"
    by (simp_all add: is_alnum_def is_ascii_digit_def)
  have nm: "\<not> list_all char_max [0x41, 0x7A, 0x39]" by (simp add: char_max_def char_pos_def char_start_def char_base_def is_ascii_digit_def)
  show ?thesis
    using str_increment_successor [OF al] nm unfolding s
    by (simp add: char_class_def char_base_def char_pos_def char_start_def is_ascii_digit_def)
qed

end
