(* ===== verification/Compare.thy ===== *)
theory Compare
  imports Convert
begin

text \<open>
  Comparison (\<open>compare.rs\<close>).  Results are -1, 0 and 1 as integers.  Values nest through arrays and
  objects, and an object graph may be cyclic, where the code recurses until the stack ends: the
  recursive comparisons take fuel, and \<open>None\<close> is the exhausted stack.  One unit of fuel is one level
  of nesting.  The addresses of arrays being compared are kept in the world, as in the thread-local
  \<open>COMPARING\<close>.  Iteration reads the entries the comparison started with, since the handles it holds
  keep their data from being written.
\<close>

section \<open>Numbers and strings\<close>

definition ord :: "ordering \<Rightarrow> int" where
  "ord x = (case x of Less \<Rightarrow> - 1 | Equal \<Rightarrow> 0 | Greater \<Rightarrow> 1)"

definition cmp_bool :: "bool \<Rightarrow> bool \<Rightarrow> int" where
  "cmp_bool a b = (if a then 1 else 0) - (if b then 1 else 0)"

definition cmp_f64 :: "f64 \<Rightarrow> f64 \<Rightarrow> int" where
  "cmp_f64 a b = (case f_partial_cmp a b of Some x \<Rightarrow> ord x | None \<Rightarrow> 1)"

definition cmp_i64 :: "i64 \<Rightarrow> i64 \<Rightarrow> int" where
  "cmp_i64 a b = ord (int_cmp (sint a) (sint b))"

definition cmp_int_float :: "i64 \<Rightarrow> f64 \<Rightarrow> int" where
  "cmp_int_float a b = cmp_f64 (f_of_i64 a) b"

definition cmp_num :: "number \<Rightarrow> number \<Rightarrow> int" where
  "cmp_num a b =
     (case (a, b) of
        (NInt x, NInt y) \<Rightarrow> cmp_i64 x y
      | (NInt x, NFloat y) \<Rightarrow> cmp_int_float x y
      | (NFloat x, NInt y) \<Rightarrow> cmp_f64 x (f_of_i64 y)
      | (NFloat x, NFloat y) \<Rightarrow> cmp_f64 x y)"

text \<open>\<open>Ord\<close> of byte slices: lexicographic, a proper prefix is smaller.\<close>

fun bytes_cmp :: "bytes \<Rightarrow> bytes \<Rightarrow> ordering" where
  "bytes_cmp [] [] = Equal"
| "bytes_cmp [] (_ # _) = Less"
| "bytes_cmp (_ # _) [] = Greater"
| "bytes_cmp (a # s) (b # t) = (if a < b then Less else if b < a then Greater else bytes_cmp s t)"

definition cmp_bytes :: "bytes \<Rightarrow> bytes \<Rightarrow> int" where
  "cmp_bytes a b = ord (bytes_cmp a b)"

definition is_int_syntax :: "bytes \<Rightarrow> bool" where
  "is_int_syntax s \<longleftrightarrow> \<not> list_ex (\<lambda>c. c = 0x2E \<or> c = 0x65 \<or> c = 0x45) s"

definition int_overflow :: "number \<Rightarrow> bytes \<Rightarrow> bool" where
  "int_overflow n s \<longleftrightarrow> (case n of NFloat _ \<Rightarrow> True | NInt _ \<Rightarrow> False) \<and> is_int_syntax s"

definition cmp_strings :: "bytes \<Rightarrow> bytes \<Rightarrow> int" where
  "cmp_strings a b =
     (case (numeric_value a, numeric_value b) of
        (Some x, Some y) \<Rightarrow>
          if f_eq (number_to_f64 x) (number_to_f64 y)
             \<and> (is_int_syntax a \<and> is_int_syntax b \<and> (int_overflow x a \<or> int_overflow y b) \<or> is_infinite (number_to_f64 x))
          then cmp_bytes a b else cmp_num x y
      | _ \<Rightarrow> cmp_bytes a b)"

definition starts_numeric :: "bytes \<Rightarrow> bool" where
  "starts_numeric s =
     (case first_nonspace s of None \<Rightarrow> False | Some c \<Rightarrow> is_ascii_digit c \<or> c \<in> {0x2D, 0x2B, 0x2E})"

definition eq_strings :: "bytes \<Rightarrow> bytes \<Rightarrow> bool" where
  "eq_strings a b =
     (if a = b then True
      else if \<not> starts_numeric a \<or> \<not> starts_numeric b then False
      else cmp_strings a b = 0)"

definition cmp_num_str :: "'e ctx \<Rightarrow> number \<Rightarrow> bytes \<Rightarrow> 'e world \<Rightarrow> int" where
  "cmp_num_str C n s W =
     (case numeric_value s of
        Some m \<Rightarrow> cmp_num n m
      | None \<Rightarrow> cmp_bytes (case n of NInt i \<Rightarrow> int_to_string i | NFloat f \<Rightarrow> float_to_string f (c_precision C W)) s)"

section \<open>Nesting\<close>

definition nesting_error :: php_error where
  "nesting_error = plain_error (ascii ''Nesting level too deep - recursive dependency?'')"

definition nest_mark :: "nat option \<Rightarrow> 'e world \<Rightarrow> 'e world" where
  "nest_mark a W = (if data_addr a \<noteq> 0 then W\<lparr>w_comparing := w_comparing W @ [data_addr a]\<rparr> else W)"

definition nest_enter :: "nat option \<Rightarrow> 'e world \<Rightarrow> 'e world option" where
  "nest_enter a W = (if data_addr a \<noteq> 0 \<and> data_addr a \<in> set (w_comparing W) then None else Some (nest_mark a W))"

text \<open>The guard's drop removes the last occurrence of the address.\<close>

definition nest_leave :: "nat option \<Rightarrow> 'e world \<Rightarrow> 'e world" where
  "nest_leave a W =
     (if data_addr a \<noteq> 0 then W\<lparr>w_comparing := rev (remove1 (data_addr a) (rev (w_comparing W)))\<rparr> else W)"

section \<open>The loop over the entries of an array\<close>

text \<open>
  \<open>f\<close> compares two elements; a result for which \<open>stop\<close> holds ends the loop, a missing key gives
  \<open>missing\<close>, the end \<open>done\<close>.
\<close>

type_synonym ('e, 'r) outcome = "('r php_result \<times> 'e world) option"

fun compare_entries :: "(val \<Rightarrow> val \<Rightarrow> 'e world \<Rightarrow> ('e, 'r) outcome) \<Rightarrow> 'r \<Rightarrow> ('r \<Rightarrow> bool) \<Rightarrow> 'r \<Rightarrow>
    (key \<Rightarrow> val option) \<Rightarrow> (key \<times> val) list \<Rightarrow> 'e world \<Rightarrow> ('e, 'r) outcome" where
  "compare_entries f missing stop end_value lookup [] W = Some (Inr end_value, W)"
| "compare_entries f missing stop end_value lookup ((k, v) # es) W =
     (case lookup k of
        None \<Rightarrow> Some (Inr missing, W)
      | Some w \<Rightarrow>
        (case f v w W of
           None \<Rightarrow> None
         | Some (Inl e, W) \<Rightarrow> Some (Inl e, W)
         | Some (Inr c, W) \<Rightarrow>
             if stop c then Some (Inr c, W) else compare_entries f missing stop end_value lookup es W))"

definition guarded :: "nat option \<Rightarrow> ('e world \<Rightarrow> ('e, 'r) outcome) \<Rightarrow> 'e world \<Rightarrow> ('e, 'r) outcome" where
  "guarded a f W =
     (case nest_enter a W of
        None \<Rightarrow> Some (Inl nesting_error, W)
      | Some W' \<Rightarrow> map_option (\<lambda>(r, W). (r, nest_leave a W)) (f W'))"

definition compare_arrays :: "(val \<Rightarrow> val \<Rightarrow> 'e world \<Rightarrow> ('e, int) outcome) \<Rightarrow> nat option \<Rightarrow> nat option \<Rightarrow> 'e world \<Rightarrow> ('e, int) outcome" where
  "compare_arrays f a b W =
     (if a = b then Some (Inr 0, W)
      else if php_len W a \<noteq> php_len W b then Some (Inr (ord (int_cmp (int (php_len W a)) (int (php_len W b)))), W)
      else guarded a (compare_entries f 1 (\<lambda>c. c \<noteq> 0) 0 (php_get W b) (arr_iter (array_at W a))) W)"

section \<open>The ordering\<close>

text \<open>The slots of two objects of one class, in order, until one differs.\<close>

fun compare_slots :: "(val \<Rightarrow> val \<Rightarrow> 'e world \<Rightarrow> ('e, int) outcome) \<Rightarrow> (val \<times> val) list \<Rightarrow> 'e world \<Rightarrow> ('e, int) outcome" where
  "compare_slots f [] W = Some (Inr 0, W)"
| "compare_slots f ((u, v) # ps) W =
     (case f u v W of
        None \<Rightarrow> None
      | Some (Inl e, W) \<Rightarrow> Some (Inl e, W)
      | Some (Inr c, W) \<Rightarrow> if c \<noteq> 0 then Some (Inr c, W) else compare_slots f ps W)"

definition num_notice :: "'e ctx \<Rightarrow> nat \<Rightarrow> bool \<Rightarrow> 'e world \<Rightarrow> 'e world" where
  "num_notice C p float W = c_notice C Notice (could_not_convert W p (if float then ''float'' else ''int'')) W"

definition default_object_compare :: "'e ctx \<Rightarrow> (val \<Rightarrow> val \<Rightarrow> 'e world \<Rightarrow> ('e, int) outcome) \<Rightarrow> val \<Rightarrow> val \<Rightarrow> 'e world
    \<Rightarrow> ('e, int) outcome" where
  "default_object_compare C f a b W =
     (case (a, b) of
        (VObject x, VObject y) \<Rightarrow>
          (let ox = w_objects W ! x; oy = w_objects W ! y in
           if x = y then Some (Inr 0, W)
           else if ob_class ox \<noteq> ob_class oy then Some (Inr 1, W)
           else case compare_slots f (zip (ob_slots ox) (ob_slots oy)) W of
               None \<Rightarrow> None
             | Some (Inl e, W) \<Rightarrow> Some (Inl e, W)
             | Some (Inr c, W) \<Rightarrow>
                 if c \<noteq> 0 then Some (Inr c, W)
                 else compare_arrays f (ob_props (w_objects W ! x)) (ob_props (w_objects W ! y)) W)
      | (VObject p, VInt i) \<Rightarrow> Some (Inr (ord (int_cmp 1 (sint i))), num_notice C p False W)
      | (VInt i, VObject p) \<Rightarrow> Some (Inr (ord (int_cmp (sint i) 1)), num_notice C p False W)
      | (VObject p, VFloat g) \<Rightarrow> Some (Inr (cmp_f64 (f_of_int 1) g), num_notice C p True W)
      | (VFloat g, VObject p) \<Rightarrow> Some (Inr (cmp_f64 g (f_of_int 1)), num_notice C p True W)
      | (VObject _, _) \<Rightarrow> Some (Inr 1, W)
      | _ \<Rightarrow> Some (Inr (- 1), W))"

text \<open>The value a resource compares as, and the ordering of numbers and strings.\<close>

definition resource_value :: "'e world \<Rightarrow> val \<Rightarrow> val" where
  "resource_value W v = (case v of VResource r \<Rightarrow> VInt (w_res_ids W ! r) | _ \<Rightarrow> v)"

definition compare_plain :: "'e ctx \<Rightarrow> val \<Rightarrow> val \<Rightarrow> 'e world \<Rightarrow> int" where
  "compare_plain C a b W =
     (case (a, b) of
        (VInt x, VInt y) \<Rightarrow> cmp_i64 x y
      | (VFloat x, VFloat y) \<Rightarrow> cmp_f64 x y
      | (VInt x, VFloat y) \<Rightarrow> cmp_int_float x y
      | (VFloat x, VInt y) \<Rightarrow> cmp_f64 x (f_of_i64 y)
      | (VStr x, VStr y) \<Rightarrow> cmp_strings x y
      | (VFloat x, VStr s) \<Rightarrow> if is_nan x then 1 else cmp_num_str C (NFloat x) s W
      | (VStr s, VFloat x) \<Rightarrow> if is_nan x then 1 else - cmp_num_str C (NFloat x) s W
      | (VInt x, VStr s) \<Rightarrow> cmp_num_str C (NInt x) s W
      | (VStr s, VInt y) \<Rightarrow> - cmp_num_str C (NInt y) s W
      | _ \<Rightarrow> 0)"

text \<open>The match of \<open>compare_slow\<close> on dereferenced operands, its arms in the source's order.\<close>

definition compare_step :: "'e ctx \<Rightarrow> (val \<Rightarrow> val \<Rightarrow> 'e world \<Rightarrow> ('e, int) outcome) \<Rightarrow> val \<Rightarrow> val \<Rightarrow> 'e world \<Rightarrow> ('e, int) outcome" where
  "compare_step C f a b W =
     (case (a, b) of
        (VNull, VNull) \<Rightarrow> Some (Inr 0, W)
      | (VBool x, _) \<Rightarrow> Some (Inr (cmp_bool x (to_bool_quiet W b)), W)
      | (_, VBool y) \<Rightarrow> Some (Inr (cmp_bool (to_bool_quiet W a) y), W)
      | (VNull, VStr s) \<Rightarrow> Some (Inr (cmp_bytes [] s), W)
      | (VStr s, VNull) \<Rightarrow> Some (Inr (cmp_bytes s []), W)
      | (VNull, _) \<Rightarrow> Some (Inr (cmp_bool False (to_bool_quiet W b)), W)
      | (_, VNull) \<Rightarrow> Some (Inr (cmp_bool (to_bool_quiet W a) False), W)
      | _ \<Rightarrow>
        if is_object a \<or> is_object b then
          (case c_object_compare C a b W of
             (Some r, W) \<Rightarrow> Some (r, W)
           | (None, W) \<Rightarrow> default_object_compare C f a b W)
        else case (a, b) of
            (VArray x, VArray y) \<Rightarrow> compare_arrays f x y W
          | (VArray _, _) \<Rightarrow> Some (Inr 1, W)
          | (_, VArray _) \<Rightarrow> Some (Inr (- 1), W)
          | _ \<Rightarrow> Some (Inr (compare_plain C (resource_value W a) (resource_value W b) W), W))"

fun compare :: "'e ctx \<Rightarrow> nat \<Rightarrow> val \<Rightarrow> val \<Rightarrow> 'e world \<Rightarrow> ('e, int) outcome" where
  "compare C 0 a b W = None"
| "compare C (Suc n) a b W = compare_step C (compare C n) (deref (w_refs W) a) (deref (w_refs W) b) W"


definition less :: "'e ctx \<Rightarrow> nat \<Rightarrow> val \<Rightarrow> val \<Rightarrow> 'e world \<Rightarrow> ('e, bool) outcome" where
  "less C n a b W = map_option (\<lambda>(r, W). (map_sum id (\<lambda>c. c < 0) r, W)) (compare C n a b W)"

definition less_eq :: "'e ctx \<Rightarrow> nat \<Rightarrow> val \<Rightarrow> val \<Rightarrow> 'e world \<Rightarrow> ('e, bool) outcome" where
  "less_eq C n a b W = map_option (\<lambda>(r, W). (map_sum id (\<lambda>c. c \<le> 0) r, W)) (compare C n a b W)"

definition greater :: "'e ctx \<Rightarrow> nat \<Rightarrow> val \<Rightarrow> val \<Rightarrow> 'e world \<Rightarrow> ('e, bool) outcome" where
  "greater C n a b W = map_option (\<lambda>(r, W). (map_sum id (\<lambda>c. c < 0) r, W)) (compare C n b a W)"

definition greater_eq :: "'e ctx \<Rightarrow> nat \<Rightarrow> val \<Rightarrow> val \<Rightarrow> 'e world \<Rightarrow> ('e, bool) outcome" where
  "greater_eq C n a b W = map_option (\<lambda>(r, W). (map_sum id (\<lambda>c. c \<le> 0) r, W)) (compare C n b a W)"

section \<open>Loose equality\<close>

definition loose_eq_arrays :: "(val \<Rightarrow> val \<Rightarrow> 'e world \<Rightarrow> ('e, bool) outcome) \<Rightarrow> nat option \<Rightarrow> nat option \<Rightarrow> 'e world \<Rightarrow> ('e, bool) outcome" where
  "loose_eq_arrays f a b W =
     (if a = b then Some (Inr True, W)
      else if php_len W a \<noteq> php_len W b then Some (Inr False, W)
      else guarded a (compare_entries f False (\<lambda>c. \<not> c) True (php_get W b) (arr_iter (array_at W a))) W)"

definition is_zero_outcome :: "('e, int) outcome \<Rightarrow> ('e, bool) outcome" where
  "is_zero_outcome r = map_option (\<lambda>(r, W). (map_sum id (\<lambda>c. c = 0) r, W)) r"

definition loose_eq_step :: "'e ctx \<Rightarrow> (val \<Rightarrow> val \<Rightarrow> 'e world \<Rightarrow> ('e, bool) outcome) \<Rightarrow>
    (val \<Rightarrow> val \<Rightarrow> 'e world \<Rightarrow> ('e, int) outcome) \<Rightarrow> val \<Rightarrow> val \<Rightarrow> 'e world \<Rightarrow> ('e, bool) outcome" where
  "loose_eq_step C f cmp a b W =
     (case (a, b) of
        (VInt x, VInt y) \<Rightarrow> Some (Inr (x = y), W)
      | (VFloat x, VFloat y) \<Rightarrow> Some (Inr (f_eq x y), W)
      | (VInt x, VFloat y) \<Rightarrow> Some (Inr (f_eq (f_of_i64 x) y), W)
      | (VFloat x, VInt y) \<Rightarrow> Some (Inr (f_eq x (f_of_i64 y)), W)
      | (VStr x, VStr y) \<Rightarrow> Some (Inr (eq_strings x y), W)
      | (VNull, VNull) \<Rightarrow> Some (Inr True, W)
      | (VArray x, VArray y) \<Rightarrow> loose_eq_arrays f x y W
      | _ \<Rightarrow>
        if is_object a \<or> is_object b then
          if is_bool a \<or> is_bool b then Some (Inr (to_bool_quiet W a = to_bool_quiet W b), W)
          else if a = VNull \<or> b = VNull then Some (Inr False, W)
          else (case c_object_loose_eq C a b W of
              (Some r, W) \<Rightarrow> Some (r, W)
            | (None, W) \<Rightarrow> is_zero_outcome (cmp a b W))
        else is_zero_outcome (cmp a b W))"

fun loose_eq :: "'e ctx \<Rightarrow> nat \<Rightarrow> val \<Rightarrow> val \<Rightarrow> 'e world \<Rightarrow> ('e, bool) outcome" where
  "loose_eq C 0 a b W = None"
| "loose_eq C (Suc n) a b W =
     loose_eq_step C (loose_eq C n) (compare C (Suc n)) (deref (w_refs W) a) (deref (w_refs W) b) W"

section \<open>Identity\<close>

text \<open>\<open>refers_to_compared\<close>: a reference to an array whose elements are being compared.\<close>

definition refers_to_compared :: "'e world \<Rightarrow> val \<Rightarrow> bool" where
  "refers_to_compared W v =
     (case v of VRef r \<Rightarrow>
        (case ref_get (w_refs W) r of VArray x \<Rightarrow> data_addr x \<noteq> 0 \<and> data_addr x \<in> set (w_comparing W) | _ \<Rightarrow> False)
      | _ \<Rightarrow> False)"

definition take_nest_error :: "'e world \<Rightarrow> bool \<times> 'e world" where
  "take_nest_error W = (w_nest_error W, W\<lparr>w_nest_error := False\<rparr>)"

fun identical_entries :: "(val \<Rightarrow> val \<Rightarrow> 'e world \<Rightarrow> (bool \<times> 'e world) option) \<Rightarrow>
    ((key \<times> val) \<times> (key \<times> val)) list \<Rightarrow> 'e world \<Rightarrow> (bool \<times> 'e world) option" where
  "identical_entries f [] W = Some (True, W)"
| "identical_entries f (((ka, va), (kb, vb)) # es) W =
     (if refers_to_compared W va then Some (False, W\<lparr>w_nest_error := True\<rparr>)
      else if ka \<noteq> kb then Some (False, W)
      else case f va vb W of
        None \<Rightarrow> None
      | Some (False, W) \<Rightarrow> Some (False, W)
      | Some (True, W) \<Rightarrow> identical_entries f es W)"

definition strict_eq_arrays :: "(val \<Rightarrow> val \<Rightarrow> 'e world \<Rightarrow> (bool \<times> 'e world) option) \<Rightarrow> nat option \<Rightarrow> nat option \<Rightarrow> 'e world
    \<Rightarrow> (bool \<times> 'e world) option" where
  "strict_eq_arrays f a b W =
     (if a = b then Some (True, W)
      else if php_len W a \<noteq> php_len W b then Some (False, W)
      else map_option (\<lambda>(r, W). (r, nest_leave a W))
        (identical_entries f (zip (arr_iter (array_at W a)) (arr_iter (array_at W b))) (nest_mark a W)))"

fun strict_eq :: "nat \<Rightarrow> val \<Rightarrow> val \<Rightarrow> 'e world \<Rightarrow> (bool \<times> 'e world) option" where
  "strict_eq 0 a b W = None"
| "strict_eq (Suc n) a b W =
     (case (deref (w_refs W) a, deref (w_refs W) b) of
        (VNull, VNull) \<Rightarrow> Some (True, W)
      | (VBool x, VBool y) \<Rightarrow> Some (x = y, W)
      | (VInt x, VInt y) \<Rightarrow> Some (x = y, W)
      | (VFloat x, VFloat y) \<Rightarrow> Some (f_eq x y, W)
      | (VStr x, VStr y) \<Rightarrow> Some (x = y, W)
      | (VArray x, VArray y) \<Rightarrow> strict_eq_arrays (strict_eq n) x y W
      | (VObject x, VObject y) \<Rightarrow> Some (x = y, W)
      | (VResource x, VResource y) \<Rightarrow> Some (x = y, W)
      | _ \<Rightarrow> Some (False, W))"

end
