(* ===== verification/CompareSpec.thy ===== *)
theory CompareSpec
  imports Compare
begin

text \<open>
  What the comparisons of \<open>Compare\<close> guarantee.  The laws of a three-way comparison are locales,
  interpreted on the comparisons of the code that have them; the comparison of values keeps the
  stack of arrays under comparison and ends on every heap of arrays, cyclic ones included.
\<close>

section \<open>Three-way comparisons\<close>

locale comparison =
  fixes cmp :: "'a \<Rightarrow> 'a \<Rightarrow> int"
  assumes cmp_range: "cmp a b \<in> {- 1, 0, 1}"
    and cmp_swap: "cmp a b = - cmp b a"
begin

lemma cmp_refl [simp]: "cmp a a = 0"
  using cmp_swap [of a a] by simp

lemma cmp_zero_sym: "cmp a b = 0 \<longleftrightarrow> cmp b a = 0"
  using cmp_swap [of a b] by simp

lemma cmp_pos: "0 < cmp a b \<longleftrightarrow> cmp b a < 0"
  using cmp_swap [of a b] by simp

lemma cmp_total: "cmp a b < 0 \<or> cmp a b = 0 \<or> cmp b a < 0"
  using cmp_swap [of a b] by linarith

end

locale linear_comparison = comparison +
  assumes cmp_zero: "cmp a b = 0 \<Longrightarrow> a = b"
    and cmp_trans: "cmp a b < 0 \<Longrightarrow> cmp b c < 0 \<Longrightarrow> cmp a c < 0"
begin

lemma cmp_zero_iff: "cmp a b = 0 \<longleftrightarrow> a = b"
  using cmp_zero by auto

lemma cmp_trans_le: "cmp a b \<le> 0 \<Longrightarrow> cmp b c \<le> 0 \<Longrightarrow> cmp a c \<le> 0"
  using cmp_trans [of a b c] by (auto simp: le_less cmp_zero_iff)

end

lemma ord_range: "ord x \<in> {- 1, 0, 1}"
  by (simp add: ord_def split: ordering.split)

lemma ord_int_cmp [simp]: "ord (int_cmp a b) = (if a < b then - 1 else if a = b then 0 else 1)"
  by (simp add: ord_def int_cmp_def)

interpretation ints: linear_comparison cmp_i64
  by unfold_locales (auto simp: cmp_i64_def sint_eq_iff split: if_splits)

lemma bytes_cmp_swap: "ord (bytes_cmp a b) = - ord (bytes_cmp b a)"
  by (induction a b rule: bytes_cmp.induct) (auto simp: ord_def)

lemma bytes_cmp_Equal: "bytes_cmp a b = Equal \<longleftrightarrow> a = b"
  by (induction a b rule: bytes_cmp.induct) auto

lemma bytes_cmp_trans: "bytes_cmp a b = Less \<Longrightarrow> bytes_cmp b c = Less \<Longrightarrow> bytes_cmp a c = Less"
proof (induction a b arbitrary: c rule: bytes_cmp.induct)
  case (2 x s)
  then show ?case by (cases c) auto
next
  case (4 x s y t)
  then show ?case
    by (cases c) (auto split: if_splits)
qed auto

lemma ord_iff [simp]: "ord x < 0 \<longleftrightarrow> x = Less" "ord x = 0 \<longleftrightarrow> x = Equal"
  by (simp_all add: ord_def split: ordering.split)

interpretation byte_strings: linear_comparison cmp_bytes
proof
  show "cmp_bytes a b \<in> {- 1, 0, 1}" for a b by (simp only: cmp_bytes_def ord_range)
  show "cmp_bytes a b = - cmp_bytes b a" for a b by (simp only: cmp_bytes_def bytes_cmp_swap [of a b])
qed (auto simp: cmp_bytes_def bytes_cmp_Equal dest: bytes_cmp_trans)

section \<open>Numbers and strings\<close>

lemma int_cmp_swap: "int_cmp b a = (case int_cmp a b of Less \<Rightarrow> Greater | Equal \<Rightarrow> Equal | Greater \<Rightarrow> Less)"
  by (simp add: int_cmp_def)

lemma view_cmp_swap: "view_cmp y x = map_option (case_ordering Greater Equal Less) (view_cmp x y)"
proof (cases x)
  case (Fin s m e)
  show ?thesis
  proof (cases y)
    case (Fin t n g)
    show ?thesis
      unfolding \<open>x = _\<close> Fin by (simp add: Let_def min.commute int_cmp_swap [of _ "signed_nat s m * _"])
  qed (simp_all add: \<open>x = _\<close>)
qed (cases y; simp)+

lemma view_cmp_None: "view_cmp x y = None \<longleftrightarrow> x = Nan \<or> y = Nan"
  by (cases x; cases y; simp add: Let_def)

lemma f_partial_cmp_None: "f_partial_cmp a b = None \<longleftrightarrow> is_nan a \<or> is_nan b"
  by (simp add: f_partial_cmp_def view_cmp_None is_nan_def)

lemma f_eq_sym: "f_eq a b = f_eq b a"
proof -
  have "f_partial_cmp b a = map_option (case_ordering Greater Equal Less) (f_partial_cmp a b)"
    unfolding f_partial_cmp_def by (rule view_cmp_swap)
  then show ?thesis by (cases "f_partial_cmp a b") (simp_all add: f_eq_def split: ordering.split)
qed

lemma f_eq_infinite: "f_eq a b \<Longrightarrow> is_infinite a = is_infinite b"
  by (cases "view a"; cases "view b"; simp add: f_eq_def f_partial_cmp_def is_infinite_def split: if_splits)

lemma cmp_f64_swap:
  assumes "\<not> is_nan a" "\<not> is_nan b"
  shows "cmp_f64 a b = - cmp_f64 b a"
proof -
  obtain x where x: "f_partial_cmp b a = Some x"
    using assms f_partial_cmp_None [of b a] by blast
  then have "f_partial_cmp a b = Some (case_ordering Greater Equal Less x)"
    by (simp add: f_partial_cmp_def view_cmp_swap [of "view a" "view b"])
  then show ?thesis using x by (simp add: cmp_f64_def ord_def split: ordering.split)
qed

lemma cmp_f64_range: "cmp_f64 a b \<in> {- 1, 0, 1}"
proof (cases "f_partial_cmp a b")
  case (Some x)
  then show ?thesis using ord_range [of x] by (simp add: cmp_f64_def)
qed (simp add: cmp_f64_def)

lemma cmp_f64_zero: "cmp_f64 a b = 0 \<longleftrightarrow> f_eq a b"
  by (cases "f_partial_cmp a b") (simp_all add: cmp_f64_def f_eq_def)

lemma cmp_num_range: "cmp_num x y \<in> {- 1, 0, 1}"
  using ints.cmp_range cmp_f64_range by (cases x; cases y) (simp_all only: cmp_num_def prod.case number.case cmp_int_float_def)

text \<open>Numbers that come from text are never NaN.\<close>

lemma round_ratio_number: "round_ratio s n d \<noteq> Nan"
  by (simp add: round_ratio_def Let_def)

lemma of_view_number: "canonical_view v \<Longrightarrow> v \<noteq> Nan \<Longrightarrow> \<not> is_nan (of_view v)"
  by (simp add: is_nan_def del: of_view.simps)

lemma f_of_i64_number: "\<not> is_nan (f_of_i64 i)"
proof -
  have "0 < scale2 1 (- 0)" by (simp add: scale2_def)
  from round_ratio_canonical [OF this] show ?thesis
    unfolding f_of_i64_def f_of_int_def
    by (intro of_view_number) (auto simp: round_dyadic_def round_ratio_number canonical_def)
qed

lemma decimal_f64_number: "\<not> is_nan (decimal_f64 s m x)"
  unfolding decimal_f64_def
  by (intro of_view_number) (auto simp: round_ratio_number intro: round_ratio_canonical)

definition text_number :: "number \<Rightarrow> bool" where
  "text_number n \<longleftrightarrow> \<not> is_nan (number_to_f64 n)"

lemma text_numberI [intro]: "text_number (NInt i)" "text_number (NFloat (decimal_f64 s m x))"
  by (simp_all add: text_number_def number_to_f64_def f_of_i64_number decimal_f64_number)

lemma numeric_string_parts:
  assumes "numeric_value s = Some n"
  obtains w sg d fr ex r where "s = w @ sg @ d @ fr @ ex @ r" "all_ws w" "num_parts sg d fr ex" "all_ws r"
proof -
  have "np_kind (parse_slow s) = Numeric"
    using assms by (simp add: numeric_value_def parse_numeric_slow Let_def split: if_splits)
  then show ?thesis using parse_slow_split [of s] that by (metis numericness.distinct(3))
qed

lemma numeric_value_text: "numeric_value s = Some n \<Longrightarrow> text_number n"
proof -
  assume n: "numeric_value s = Some n"
  then obtain w sg d fr ex r where s: "s = w @ sg @ d @ fr @ ex @ r" "all_ws w" "num_parts sg d fr ex" "all_ws r"
    by (rule numeric_string_parts)
  from s(3) have p: "sign_opt sg" "list_all is_ascii_digit d" "frac_ok d fr" "exp_ok ex" by (simp_all add: num_parts_def)
  have "text_number (int_or_float b d)" for b
    by (auto simp: int_or_float_def)
  then show "text_number n"
    using n numeric_value_parts [OF s(2) p s(4)] by (auto simp: s(1) split: if_splits)
qed

lemma numeric_value_starts: "numeric_value s = Some n \<Longrightarrow> starts_numeric s"
proof -
  assume "numeric_value s = Some n"
  then obtain w sg d fr ex r where s: "s = w @ sg @ d @ fr @ ex @ r" "all_ws w" "num_parts sg d fr ex" "all_ws r"
    by (rule numeric_string_parts)
  define t where "t = sg @ d @ fr @ ex @ r"
  have t: "starts (\<lambda>c. is_ascii_digit c \<or> c \<in> {0x2D, 0x2B, 0x2E}) t"
    using s(3) by (cases sg; cases d) (auto simp: t_def num_parts_def sign_opt_def frac_ok_def)
  have "dropWhile is_php_whitespace s = t"
    using s num_parts_starts(1) [OF s(3), of r] by (simp add: t_def all_ws_def dropWhile_digits)
  then show "starts_numeric s"
    using t by (cases t) (simp_all add: starts_numeric_def first_nonspace_def)
qed

lemma cmp_num_swap:
  assumes "text_number x" "text_number y"
  shows "cmp_num x y = - cmp_num y x"
proof -
  have f: "\<not> is_nan (number_to_f64 x)" "\<not> is_nan (number_to_f64 y)" using assms by (simp_all add: text_number_def)
  show ?thesis
  proof (cases "\<exists>u v. x = NInt u \<and> y = NInt v")
    case True
    then obtain u v where "x = NInt u" "y = NInt v" by blast
    then show ?thesis using ints.cmp_swap [of u v] by (simp add: cmp_num_def)
  next
    case False
    have "cmp_num x y = cmp_f64 (number_to_f64 x) (number_to_f64 y)" "cmp_num y x = cmp_f64 (number_to_f64 y) (number_to_f64 x)"
      using False by (cases x; cases y; simp add: cmp_num_def number_to_f64_def cmp_int_float_def)+
    then show ?thesis using cmp_f64_swap [OF f] by simp
  qed
qed

lemma cmp_strings_swap: "cmp_strings a b = - cmp_strings b a"
proof (cases "numeric_value a = None \<or> numeric_value b = None")
  case True
  have "cmp_strings a b = cmp_bytes a b" "cmp_strings b a = cmp_bytes b a"
    using True by (cases "numeric_value a"; cases "numeric_value b"; simp add: cmp_strings_def)+
  then show ?thesis using byte_strings.cmp_swap [of a b] by simp
next
  case False
  then obtain x y where xy: "numeric_value a = Some x" "numeric_value b = Some y" by auto
  define p q where "p = number_to_f64 x" and "q = number_to_f64 y"
  define bytewise where "bytewise c d u v \<longleftrightarrow>
      f_eq (number_to_f64 u) (number_to_f64 v)
      \<and> (is_int_syntax c \<and> is_int_syntax d \<and> (int_overflow u c \<or> int_overflow v d) \<or> is_infinite (number_to_f64 u))"
    for c d u v
  have b: "bytewise b a y x = bytewise a b x y"
    unfolding bytewise_def f_eq_sym [of "number_to_f64 y"]
    using f_eq_infinite [of "number_to_f64 x" "number_to_f64 y"] by blast
  have "cmp_strings a b = (if bytewise a b x y then cmp_bytes a b else cmp_num x y)"
    "cmp_strings b a = (if bytewise b a y x then cmp_bytes b a else cmp_num y x)"
    by (simp_all add: cmp_strings_def xy bytewise_def)
  then show ?thesis
    using byte_strings.cmp_swap [of a b] cmp_num_swap [OF numeric_value_text numeric_value_text, OF xy]
    unfolding b by simp
qed

interpretation strings: comparison cmp_strings
proof
  show "cmp_strings a b \<in> {- 1, 0, 1}" for a b
    unfolding cmp_strings_def using byte_strings.cmp_range [of a b] cmp_num_range
    by (auto split: option.split)
qed (rule cmp_strings_swap)

lemma eq_strings_iff: "eq_strings a b \<longleftrightarrow> cmp_strings a b = 0"
proof (cases "a \<noteq> b \<and> (\<not> starts_numeric a \<or> \<not> starts_numeric b)")
  case True
  then have "numeric_value a = None \<or> numeric_value b = None"
    using numeric_value_starts by (metis option.exhaust)
  then have "cmp_strings a b = cmp_bytes a b"
    by (cases "numeric_value a"; cases "numeric_value b"; simp add: cmp_strings_def)
  then show ?thesis using True by (auto simp: eq_strings_def byte_strings.cmp_zero_iff)
qed (auto simp: eq_strings_def)

text \<open>C32: the comparison of two strings is antisymmetric with results -1, 0 and 1; \<open>==\<close> on strings, with its
  shortcuts for equal strings and for strings that do not start like a number, is the comparison giving zero; strings that
  are not both numeric are ordered as byte strings.\<close>

theorem cmp_strings_spec:
  "cmp_strings a b \<in> {- 1, 0, 1} \<and> cmp_strings b a = - cmp_strings a b
   \<and> (eq_strings a b \<longleftrightarrow> cmp_strings a b = 0)
   \<and> (if is_numeric_str a \<and> is_numeric_str b then
        cmp_strings a b = cmp_num (np_num (parse_numeric a)) (np_num (parse_numeric b))
        \<or> (f_eq (number_to_f64 (np_num (parse_numeric a))) (number_to_f64 (np_num (parse_numeric b)))
            \<and> cmp_strings a b = cmp_bytes a b)
      else cmp_strings a b = cmp_bytes a b)"
proof (intro conjI)
  show "cmp_strings a b \<in> {- 1, 0, 1}" by (rule strings.cmp_range)
  show "cmp_strings b a = - cmp_strings a b" by (rule strings.cmp_swap)
  show "eq_strings a b \<longleftrightarrow> cmp_strings a b = 0" by (rule eq_strings_iff)
qed (auto simp: cmp_strings_def numeric_value_def is_numeric_str_def Let_def)

section \<open>The stack of arrays under comparison\<close>



text \<open>An outcome that leaves the stack as it was in \<open>W\<close>, and the comparisons that have only such outcomes.\<close>

definition restores :: "'e world \<Rightarrow> ('r \<times> 'e world) option \<Rightarrow> bool" where
  "restores W r = pred_option (\<lambda>(_, W'). w_comparing W' = w_comparing W) r"

lemma restores_simps [simp]:
  "restores W None" "restores W (Some (r, V)) \<longleftrightarrow> w_comparing V = w_comparing W"
  "restores W (map_option (\<lambda>(r, V). (h r, V)) x) \<longleftrightarrow> restores W x"
  by (auto simp: restores_def option.pred_map split: prod.splits) (cases x; auto)+
























section \<open>Comparisons of arrays end\<close>

text \<open>A heap without objects whose handles are valid.  Its arrays may be nested in each other through references in
  any way, cyclic ones included.\<close>

definition closed_val :: "'e world \<Rightarrow> val \<Rightarrow> bool" where
  "closed_val W v =
     (case v of VArray a \<Rightarrow> (case a of None \<Rightarrow> True | Some p \<Rightarrow> p < length (w_arrays W))
      | VObject _ \<Rightarrow> False | VRef r \<Rightarrow> r < length (w_refs W) | _ \<Rightarrow> True)"

definition closed_world :: "'e world \<Rightarrow> bool" where
  "closed_world W \<longleftrightarrow> flat_refs (w_refs W) \<and> (\<forall>c \<in> set (w_refs W). closed_val W (rc_val c))
     \<and> (\<forall>d \<in> set (w_arrays W). arr_inv d \<and> (\<forall>kv \<in> set (a_list d). closed_val W (snd kv)))"

text \<open>How many arrays are not under comparison.\<close>

definition free_arrays :: "'e world \<Rightarrow> nat" where
  "free_arrays W = card (Suc ` {..< length (w_arrays W)} - set (w_comparing W))"

lemma nest_mark_simps [simp]:
  "w_arrays (nest_mark a W) = w_arrays W" "w_refs (nest_mark a W) = w_refs W"
  "nest_leave a (nest_mark a W) = W"
  by (simp_all add: nest_mark_def nest_leave_def)

lemma closed_mark [simp]: "closed_val (nest_mark a W) v = closed_val W v" "closed_world (nest_mark a W) = closed_world W"
  by (simp_all add: closed_val_def [abs_def] closed_world_def)

lemma free_arrays_le: "free_arrays W \<le> length (w_arrays W)"
  using card_mono [of "Suc ` {..< length (w_arrays W)}" "Suc ` {..< length (w_arrays W)} - set (w_comparing W)"]
  by (simp add: free_arrays_def card_image)

lemma free_arrays_mark:
  assumes "p < length (w_arrays W)" "Suc p \<notin> set (w_comparing W)"
  shows "free_arrays (nest_mark (Some p) W) < free_arrays W"
  unfolding free_arrays_def nest_mark_simps
  by (rule psubset_card_mono) (use assms in \<open>auto simp: nest_mark_def data_addr_def\<close>)

lemma closed_deref:
  assumes "closed_world W" "closed_val W v"
  shows "closed_val W (deref (w_refs W) v)" "\<not> is_object (deref (w_refs W) v)" "\<not> is_ref (deref (w_refs W) v)"
proof -
  have r: "closed_val W (rc_val (w_refs W ! r)) \<and> \<not> is_ref (rc_val (w_refs W ! r))" if "r < length (w_refs W)" for r
    using assms(1) that by (simp add: closed_world_def flat_refs_nth)
  show c: "closed_val W (deref (w_refs W) v)"
    using assms(2) r by (cases v) (auto simp: deref_def ref_get_def closed_val_def)
  then show "\<not> is_object (deref (w_refs W) v)" by (cases "deref (w_refs W) v") (simp_all add: is_object_def closed_val_def)
  show "\<not> is_ref (deref (w_refs W) v)"
    using assms(2) r by (cases v) (auto simp: deref_def ref_get_def closed_val_def)
qed

lemma closed_entries:
  assumes "closed_world W" "closed_val W (VArray a)"
  shows "(k, v) \<in> set (arr_iter (array_at W a)) \<Longrightarrow> closed_val W v" "php_get W a k = Some v \<Longrightarrow> closed_val W v"
proof -
  have d: "arr_inv d" "(k, v) \<in> set (a_list d) \<Longrightarrow> closed_val W v" if "d \<in> set (w_arrays W)" for d
    using assms(1) that by (force simp: closed_world_def)+
  have p: "w_arrays W ! p \<in> set (w_arrays W)" if "a = Some p" for p
    using assms(2) that by (simp add: closed_val_def)
  show "closed_val W v" if "(k, v) \<in> set (arr_iter (array_at W a))"
  proof (cases a)
    case None
    have "a_list arr_new = []" using arr_new_ok(2) abs_arr_sel(1) [of arr_new] by simp
    with None that show ?thesis by (simp add: array_at_def arr_iter_spec arr_new_ok(1))
  next
    case (Some q)
    then show ?thesis using that d [OF p] by (simp add: array_at_def arr_iter_spec)
  qed
  show "closed_val W v" if "php_get W a k = Some v"
    using that d [OF p] by (auto simp: php_get_def arr_get_spec split: option.splits dest: map_of_SomeD)
qed

text \<open>Comparisons of elements that give an answer and leave the world alone.\<close>

definition answers :: "'e world \<Rightarrow> (val \<Rightarrow> val \<Rightarrow> 'e world \<Rightarrow> ('r \<times> 'e world) option) \<Rightarrow> bool" where
  "answers W f \<longleftrightarrow> (\<forall>a b. closed_val W a \<longrightarrow> closed_val W b \<longrightarrow> (\<exists>r. f a b W = Some (r, W)))"

lemma compare_entries_answers:
  assumes "answers W f" "\<forall>(k, v) \<in> set es. closed_val W v" "\<forall>k v. g k = Some v \<longrightarrow> closed_val W v"
  shows "\<exists>r. compare_entries f m s d g es W = Some (r, W)"
  using assms(2)
proof (induction es)
  case (Cons e es)
  obtain k v where e: "e = (k, v)" by (cases e)
  obtain r where r: "compare_entries f m s d g es W = Some (r, W)" using Cons by auto
  show ?case
  proof (cases "g k")
    case (Some w)
    then obtain c where "f v w W = Some (c, W)" using assms(1,3) Cons.prems unfolding answers_def e by force
    with Some r show ?thesis by (cases c) (auto simp: e)
  qed (simp add: e)
qed simp

lemma guarded_answers:
  assumes "closed_val W (VArray a)"
    and "\<And>V. V = nest_mark a W \<Longrightarrow> a = None \<or> free_arrays V < free_arrays W \<Longrightarrow> \<exists>r. f V = Some (r, V)"
  shows "\<exists>r. guarded a f W = Some (r, W)"
proof (cases "data_addr a \<noteq> 0 \<and> data_addr a \<in> set (w_comparing W)")
  case True
  then show ?thesis by (simp add: guarded_def nest_enter_def)
next
  case False
  then have "a = None \<or> free_arrays (nest_mark a W) < free_arrays W"
    using assms(1) free_arrays_mark by (cases a) (simp_all add: data_addr_def closed_val_def)
  then obtain r where "f (nest_mark a W) = Some (r, nest_mark a W)" using assms(2) by blast
  then show ?thesis using False by (auto simp: guarded_def nest_enter_def)
qed

lemma entries_answer:
  assumes "closed_world W" "closed_val W (VArray a)" "closed_val W (VArray b)" "php_len W a = php_len W b" "a \<noteq> b"
    and f: "\<And>V. closed_world V \<Longrightarrow> free_arrays V < free_arrays W \<Longrightarrow> answers V f"
  shows "\<exists>r. guarded a (compare_entries f m s d (php_get W b) (arr_iter (array_at W a))) W = Some (r, W)"
proof (rule guarded_answers [OF assms(2)])
  fix V
  assume V: "V = nest_mark a W" "a = None \<or> free_arrays V < free_arrays W"
  show "\<exists>r. compare_entries f m s d (php_get W b) (arr_iter (array_at W a)) V = Some (r, V)"
  proof (cases a)
    case None
    have "a_list arr_new = []" using arr_new_ok(2) abs_arr_sel(1) [of arr_new] by simp
    with None show ?thesis by (simp add: array_at_def arr_iter_spec arr_new_ok(1))
  next
    case (Some p)
    then have "answers V f" using V assms(1) by (intro f) simp_all
    then show ?thesis
      by (rule compare_entries_answers) (use V closed_entries assms(1-3) in \<open>auto simp: V(1)\<close>)
  qed
qed

lemma compare_arrays_answers:
  assumes "closed_world W" "closed_val W (VArray a)" "closed_val W (VArray b)"
    and "\<And>V. closed_world V \<Longrightarrow> free_arrays V < free_arrays W \<Longrightarrow> answers V f"
  shows "\<exists>r. compare_arrays f a b W = Some (r, W)"
  using entries_answer [OF assms(1-3) _ _ assms(4)] by (simp add: compare_arrays_def)

lemma loose_eq_arrays_answers:
  assumes "closed_world W" "closed_val W (VArray a)" "closed_val W (VArray b)"
    and "\<And>V. closed_world V \<Longrightarrow> free_arrays V < free_arrays W \<Longrightarrow> answers V f"
  shows "\<exists>r. loose_eq_arrays f a b W = Some (r, W)"
  using entries_answer [OF assms(1-3) _ _ assms(4)] by (simp add: loose_eq_arrays_def)

lemma compare_step_answers:
  assumes "closed_world W" "closed_val W a" "closed_val W b" "\<not> is_ref a" "\<not> is_ref b"
    and "\<And>V. closed_world V \<Longrightarrow> free_arrays V < free_arrays W \<Longrightarrow> answers V f"
  shows "\<exists>r. compare_step C f a b W = Some (r, W)"
  using assms(2-5) compare_arrays_answers [OF assms(1) _ _ assms(6)]
  by (cases a; cases b) (simp_all add: compare_step_def is_object_def closed_val_def)

lemma compare_answers: "closed_world W \<Longrightarrow> free_arrays W < n \<Longrightarrow> answers W (compare C n)"
proof (induction n arbitrary: W)
  case (Suc n)
  have "\<exists>r. compare C (Suc n) a b W = Some (r, W)" if "closed_val W a" "closed_val W b" for a b
    unfolding compare.simps
    by (rule compare_step_answers [OF Suc.prems(1) closed_deref(1) closed_deref(1) closed_deref(3) closed_deref(3)])
      (use Suc that in auto)
  then show ?case by (simp only: answers_def) blast
qed simp

lemma loose_eq_step_answers:
  assumes "closed_world W" "closed_val W a" "closed_val W b" "\<not> is_ref a" "\<not> is_ref b"
    and "\<And>V. closed_world V \<Longrightarrow> free_arrays V < free_arrays W \<Longrightarrow> answers V f" "answers W g"
  shows "\<exists>r. loose_eq_step C f g a b W = Some (r, W)"
proof -
  have z: "\<exists>r. is_zero_outcome (g a b W) = Some (r, W)"
    using assms(2,3,7) unfolding answers_def is_zero_outcome_def by fastforce
  show ?thesis
    using assms(2-5) z loose_eq_arrays_answers [OF assms(1) _ _ assms(6)]
    by (cases a; cases b) (simp_all add: loose_eq_step_def is_object_def closed_val_def)
qed

lemma loose_eq_answers: "closed_world W \<Longrightarrow> free_arrays W < n \<Longrightarrow> answers W (loose_eq C n)"
proof (induction n arbitrary: W)
  case (Suc n)
  have "\<exists>r. loose_eq C (Suc n) a b W = Some (r, W)" if "closed_val W a" "closed_val W b" for a b
    unfolding loose_eq.simps
    by (rule loose_eq_step_answers [OF Suc.prems(1) closed_deref(1) closed_deref(1) closed_deref(3) closed_deref(3)
          _ compare_answers])
      (use Suc that in auto)
  then show ?case by (simp only: answers_def) blast
qed simp

text \<open>C34: on a heap of arrays without objects, however its arrays refer to each other, a comparison and a loose equality
  end with a result or an error and leave the world as it was; as many levels of recursion as there are arrays, and one
  more, are enough.\<close>

theorem compare_ends:
  assumes "closed_world W" "closed_val W a" "closed_val W b" "length (w_arrays W) < n"
  shows "(\<exists>r. compare C n a b W = Some (r, W)) \<and> (\<exists>r. loose_eq C n a b W = Some (r, W))"
proof -
  have "free_arrays W < n" using free_arrays_le [of W] assms(4) by linarith
  then show ?thesis
    using compare_answers [OF assms(1)] loose_eq_answers [OF assms(1)] assms(2,3) unfolding answers_def by blast
qed

text \<open>Two arrays that each hold a reference to the other.\<close>

definition knot :: "unit world" where
  "knot = (empty_world ())\<lparr>w_refs := [\<lparr>rc_val = VArray (Some 1), rc_count = 1, rc_typed = False\<rparr>,
      \<lparr>rc_val = VArray (Some 0), rc_count = 1, rc_typed = False\<rparr>],
     w_arrays := [arr_from_pairs [(KInt 0, VRef 0)], arr_from_pairs [(KInt 0, VRef 1)]]\<rparr>"

lemma closed_knot: "closed_world knot"
proof -
  have l: "arr_inv (arr_from_pairs [(KInt 0, v)]) \<and> a_list (arr_from_pairs [(KInt 0, v)]) = [(KInt 0, v)]" for v
  proof -
    have "arr_ok (length [(KInt 0, v)] + 100) arr_new" by (intro arr_ok_new) (simp add: max_entries_def)
    moreover have "a_list arr_new = []" using arr_new_ok(2) abs_arr_sel(1) [of arr_new] by simp
    ultimately show ?thesis
      using php.put_all [of "[(KInt 0, v)]" 100 arr_new] by (simp add: arr_from_pairs_def arr_ok_def)
  qed
  show ?thesis
    by (simp add: closed_world_def knot_def empty_world_def flat_refs_def closed_val_def l)
qed

lemma knot_nesting:
  "compare (default_ctx (\<lambda>_ _ W. W)) 3 (VArray (Some 0)) (VArray (Some 1)) knot = Some (Inl nesting_error, knot)"
  by code_simp

theorem compare_ends_witness:
  "(\<exists>r. loose_eq (default_ctx (\<lambda>_ _ W. W)) 3 (VArray (Some 0)) (VArray (Some 1)) knot = Some (r, knot))
   \<and> compare (default_ctx (\<lambda>_ _ W. W)) 3 (VArray (Some 0)) (VArray (Some 1)) knot = Some (Inl nesting_error, knot)"
  using compare_ends [OF closed_knot, of "VArray (Some 0)" "VArray (Some 1)" 3 "default_ctx (\<lambda>_ _ W. W)"] knot_nesting
  by (simp add: knot_def closed_val_def del: loose_eq.simps compare.simps)

end
