(* ===== verification/BcLimbs.thy ===== *)
theory BcLimbs
  imports Numeric
begin

text \<open>
  Natural numbers in limbs of base \<open>10\<^sup>8\<close> (\<open>crates/goro-ext-bcmath/src/limbs.rs\<close>), least significant
  limb first: packing digits into limbs eight at a time with word tricks, schoolbook multiplication
  with deferred carries, Karatsuba, and Knuth's algorithm D with a floating point estimate.
  Functions that write into a slice return what they write; a loop that walks along a slice is a
  recursion over the list that carries what the loop carries.  Limbs are 32 bit words and products
  64 bit words, with Rust's wrapping arithmetic.  Where the source would index out of a slice the
  recursion ends: the callers' lengths exclude it.
\<close>

section \<open>Digits\<close>

type_synonym limbs8 = "u32 list"

definition bc_base :: nat where
  "bc_base = 100000000"

definition base32 :: u32 where
  "base32 = 100000000"

definition base64 :: u64 where
  "base64 = 100000000"

definition ascii0 :: u64 where
  "ascii0 = 0x3030303030303030"

text \<open>Eight digits in a little-endian word: pairs, then fours, then eight are combined.\<close>

definition parse8w :: "u64 \<Rightarrow> u32" where
  "parse8w w =
     (let v = w - ascii0;
          v = drop_bit 8 ((v AND 0x0F0F0F0F0F0F0F0F) * 2561);
          v = drop_bit 16 ((v AND 0x00FF00FF00FF00FF) * 6553601);
          v = drop_bit 32 ((v AND 0x0000FFFF0000FFFF) * 42949672960001) in
      ucast v)"

definition parse8 :: "bytes \<Rightarrow> u32" where
  "parse8 chunk = parse8w (le_word (take 8 chunk))"

definition fmt8 :: "u32 \<Rightarrow> bytes" where
  "fmt8 v =
     (let hi = v div 10000; lo = v mod 10000;
          x = ucast hi OR push_bit 32 (ucast lo) :: u64;
          q = drop_bit 19 (x * 5243) AND 0x0000007F0000007F;
          x = q OR push_bit 16 (x - q * 100);
          q = drop_bit 10 (x * 103) AND 0x000F000F000F000F;
          x = q OR push_bit 8 (x - q * 10) in
      le_bytes (x OR ascii0))"

text \<open>The digits \<open>s[start..e]\<close>, at most eight, with one load when the slice allows it.\<close>

definition parse_range :: "bytes \<Rightarrow> nat \<Rightarrow> nat \<Rightarrow> u32" where
  "parse_range s start e =
     (let r = e - start in
      if r = 8 then parse8 (slice s start e)
      else if r = 0 then 0
      else
        let pad = 8 - r in
        if 8 \<le> e then
          let w = le_word (slice s (e - 8) e); keep = push_bit (8 * pad) (- 1) in
          parse8w ((w AND keep) OR (ascii0 AND NOT keep))
        else if start + 8 \<le> length s then
          let w = le_word (slice s start (start + 8)) in
          parse8w (push_bit (8 * pad) w OR drop_bit (8 * r) ascii0)
        else foldl (\<lambda>v c. v * 10 + ucast (c - 0x30)) 0 (slice s start e))"

definition pow10_u32 :: "u32 list" where
  "pow10_u32 = [1, 10, 100, 1000, 10000, 100000, 1000000, 10000000, 100000000]"

definition limb_count :: "nat \<Rightarrow> nat" where
  "limb_count digits = (digits + 7) div 8"

text \<open>The limb of the digits \<open>[start, e)\<close> of \<open>a ++ b ++ zeros\<close>, from at most two pieces.\<close>

definition chunk_limb :: "bytes \<Rightarrow> bytes \<Rightarrow> nat \<Rightarrow> nat \<Rightarrow> u32" where
  "chunk_limb a b start e =
     (let la = length a; digits = la + length b in
      if e - start = 8 \<and> e \<le> la then parse8 (slice a start e)
      else if e - start = 8 \<and> la \<le> start \<and> e \<le> digits then parse8 (slice b (start - la) (e - la))
      else
        let z_start = max start digits; zl = e - z_start; d_end = e - zl; b_start = max start la;
            (bv, bl) = (if b_start < d_end then (parse_range b (b_start - la) (d_end - la), d_end - b_start) else (0, 0));
            a_end = min d_end la;
            av = (if start < a_end then parse_range a start a_end else 0) in
        (av * pow10_u32 ! bl + bv) * pow10_u32 ! zl)"

fun chunk_limbs :: "bytes \<Rightarrow> bytes \<Rightarrow> nat \<Rightarrow> limbs8" where
  "chunk_limbs a b e = (if 0 < e then chunk_limb a b (e - 8) e # chunk_limbs a b (e - 8) else [])"

declare chunk_limbs.simps [simp del]

text \<open>What \<open>from_digits_slice\<close> writes and \<open>from_digits\<close> appends.\<close>

definition bc_from_digits :: "bytes \<Rightarrow> bytes \<Rightarrow> nat \<Rightarrow> limbs8" where
  "bc_from_digits a b zeros =
     replicate (zeros div 8) 0 @ chunk_limbs a b (length a + length b + zeros mod 8)"

definition bc_trim :: "limbs8 \<Rightarrow> limbs8" where
  "bc_trim v = rev (dropWhile (\<lambda>x. x = 0) (rev v))"

definition bc_to_digits :: "limbs8 \<Rightarrow> bytes" where
  "bc_to_digits l =
     (case rev (bc_trim l) of
        [] \<Rightarrow> []
      | t # ls \<Rightarrow> dropWhile (\<lambda>c. c = 0x30) (fmt8 t) @ concat (map fmt8 ls))"

section \<open>Addition and subtraction\<close>

fun inc_limbs :: "u32 \<Rightarrow> limbs8 \<Rightarrow> limbs8" where
  "inc_limbs carry [] = []"
| "inc_limbs carry (d # ds) =
     (if carry = 0 then d # ds
      else let t = d + 1 in if base32 \<le> t then 0 # inc_limbs carry ds else t # ds)"

fun add_limbs :: "u32 \<Rightarrow> limbs8 \<Rightarrow> limbs8 \<Rightarrow> limbs8" where
  "add_limbs carry ds [] = inc_limbs carry ds"
| "add_limbs carry [] (s # ss) = []"
| "add_limbs carry (d # ds) (s # ss) =
     (let t = d + s + carry in
      if base32 \<le> t then (t - base32) # add_limbs 1 ds ss else t # add_limbs 0 ds ss)"

definition bc_add_into :: "limbs8 \<Rightarrow> limbs8 \<Rightarrow> limbs8" where
  "bc_add_into dst src = add_limbs 0 dst src"

fun dec_limbs :: "u32 \<Rightarrow> limbs8 \<Rightarrow> limbs8" where
  "dec_limbs borrow [] = []"
| "dec_limbs borrow (d # ds) =
     (if borrow = 0 then d # ds else if 0 < d then (d - 1) # ds else (base32 - 1) # dec_limbs borrow ds)"

fun diff_limbs :: "u32 \<Rightarrow> limbs8 \<Rightarrow> limbs8 \<Rightarrow> limbs8" where
  "diff_limbs borrow ds [] = dec_limbs borrow ds"
| "diff_limbs borrow [] (s # ss) = []"
| "diff_limbs borrow (d # ds) (s # ss) =
     (let s = s + borrow in
      if s \<le> d then (d - s) # diff_limbs 0 ds ss else (d + base32 - s) # diff_limbs 1 ds ss)"

definition bc_sub_into :: "limbs8 \<Rightarrow> limbs8 \<Rightarrow> limbs8" where
  "bc_sub_into dst src = diff_limbs 0 dst src"

definition bc_add :: "limbs8 \<Rightarrow> limbs8 \<Rightarrow> limbs8" where
  "bc_add a b =
     (let (a, b) = (if length b \<le> length a then (a, b) else (b, a)) in bc_add_into (a @ [0]) b)"

section \<open>Multiplication\<close>

fun carry_limbs :: "u64 \<Rightarrow> u64 list \<Rightarrow> u64 list" where
  "carry_limbs carry [] = []"
| "carry_limbs carry (x # xs) = (let t = x + carry in t mod base64 # carry_limbs (t div base64) xs)"

definition carry_u64 :: "u64 list \<Rightarrow> u64 list" where
  "carry_u64 acc = carry_limbs 0 acc"

definition rows_per_carry :: nat where
  "rows_per_carry = 1800"

text \<open>One row: \<open>x * b\<close> added to the accumulator from its first place on.\<close>

fun add_row :: "u64 \<Rightarrow> limbs8 \<Rightarrow> u64 list \<Rightarrow> u64 list" where
  "add_row x (y # b) (d # acc) = (d + x * ucast y) # add_row x b acc"
| "add_row x _ acc = acc"

fun mul_rows :: "limbs8 \<Rightarrow> limbs8 \<Rightarrow> nat \<Rightarrow> nat \<Rightarrow> u64 list \<Rightarrow> u64 list" where
  "mul_rows [] b i rows acc = carry_u64 acc"
| "mul_rows (x # a) b i rows acc =
     (let acc = take i acc @ add_row (ucast x) b (drop i acc); rows = rows + 1 in
      if rows = rows_per_carry then mul_rows a b (i + 1) 0 (carry_u64 acc)
      else mul_rows a b (i + 1) rows acc)"

definition mul_school :: "limbs8 \<Rightarrow> limbs8 \<Rightarrow> limbs8" where
  "mul_school a b =
     (let (a, b) = (if length a < length b then (a, b) else (b, a)) in
      map ucast (mul_rows a b 0 0 (replicate (length a + length b) 0)))"

text \<open>The unrolled product of four limbs by four.\<close>

definition mul4_acc :: "limbs8 \<Rightarrow> limbs8 \<Rightarrow> u64 list" where
  "mul4_acc x y =
     foldl (\<lambda>acc (i, j). acc[i + j := acc ! (i + j) + ucast (x ! i) * ucast (y ! j)])
       (replicate 8 0) (List.product [0..<4] [0..<4])"

fun mul4_carry :: "u64 \<Rightarrow> u64 list \<Rightarrow> limbs8" where
  "mul4_carry carry [] = []"
| "mul4_carry carry (x # xs) =
     (let t = x + carry; c = t div base64 in ucast (t - c * base64) # mul4_carry c xs)"

definition mul4 :: "limbs8 \<Rightarrow> limbs8 \<Rightarrow> limbs8" where
  "mul4 x y = mul4_carry 0 (mul4_acc x y)"

definition karatsuba_limbs :: nat where
  "karatsuba_limbs = 48"

text \<open>\<open>dst[i..] += src\<close>\<close>

definition add_at :: "nat \<Rightarrow> limbs8 \<Rightarrow> limbs8 \<Rightarrow> limbs8" where
  "add_at i src dst = take i dst @ bc_add_into (drop i dst) src"

text \<open>The slices of length \<open>n\<close> with their offsets.\<close>

function slices :: "nat \<Rightarrow> nat \<Rightarrow> limbs8 \<Rightarrow> (nat \<times> limbs8) list" where
  "slices n i a = (if a = [] \<or> n = 0 then [] else (i, take n a) # slices n (i + n) (drop n a))"
  by pat_completeness auto
termination
  by (relation "measure (\<lambda>(n, i, a). length a)") auto

declare slices.simps [simp del]

lemma slices_length: "(i, p) \<in> set (slices n j a) \<Longrightarrow> length p \<le> n"
proof (induction n j a rule: slices.induct)
  case (1 n j a)
  then show ?case by (subst (asm) slices.simps) (auto split: if_splits)
qed

lemma length_inc_limbs [simp]: "length (inc_limbs c ds) = length ds"
  by (induction c ds rule: inc_limbs.induct) (simp_all add: Let_def)

lemma length_add_limbs: "length ss \<le> length ds \<Longrightarrow> length (add_limbs c ds ss) = length ds"
  by (induction c ds ss rule: add_limbs.induct) (simp_all add: Let_def)

lemma length_bc_add: "length (bc_add a b) = max (length a) (length b) + 1"
  by (simp add: bc_add_def bc_add_into_def length_add_limbs)

text \<open>The operands in order of length, and the lengths of their halves.\<close>

lemma ordered_operands:
  "x = (if length b \<le> length a then (a, b) else (b, a)) \<Longrightarrow> (u, v) = x \<Longrightarrow>
    length u + length v = length a + length b \<and> length v \<le> length u"
  by (auto split: if_splits)

lemma karatsuba_shorter:
  assumes "\<not> n < karatsuba_limbs" "\<not> 2 * n \<le> k" "n \<le> k"
  shows "k div 2 < n" "k div 2 + k div 2 < k + n" "2 * (k - k div 2 + (n - k div 2)) + 1 < 2 * (k + n)"
    "2 * (max (k div 2) (k - k div 2) + 1 + (max (k div 2) (n - k div 2) + 1)) + 1 < 2 * (k + n)"
  using assms by (simp_all add: karatsuba_limbs_def max_def) linarith+

function bc_mul :: "limbs8 \<Rightarrow> limbs8 \<Rightarrow> limbs8" and bc_mul_to :: "limbs8 \<Rightarrow> limbs8 \<Rightarrow> limbs8" where
  "bc_mul a b = (if a = [] \<or> b = [] then replicate (length a + length b) 0 else bc_mul_to a b)"
| "bc_mul_to a b =
     (let (a, b) = (if length b \<le> length a then (a, b) else (b, a)); zeros = replicate (length a + length b) 0 in
      if length b < karatsuba_limbs then mul_school a b
      else if 2 * length b \<le> length a then
        foldl (\<lambda>out (i, part). add_at i (bc_mul_to part b) out) zeros (slices (length b) 0 a)
      else
        let m = length a div 2;
            a0 = take m a; a1 = drop m a;
            b0 = (if m < length b then take m b else b); b1 = (if m < length b then drop m b else []);
            z0 = bc_mul a0 b0;
            z2 = (if b1 = [] then [] else bc_mul a1 b1);
            z1 = bc_mul (bc_add a0 a1) (bc_add b0 b1);
            z1 = bc_sub_into z1 z0;
            z1 = (if z2 \<noteq> [] then bc_sub_into z1 z2 else z1);
            z1 = bc_trim z1;
            out = bc_add_into zeros (bc_trim z0);
            out = add_at m z1 out in
        if z2 \<noteq> [] then add_at (2 * m) (bc_trim z2) out else out)"
  by pat_completeness auto
termination
proof (relation "measure (case_sum (\<lambda>(a, b). 2 * (length a + length b) + 1) (\<lambda>(a, b). 2 * (length a + length b)))",
    goal_cases)
  case (3 a b x u v z out e i part)
  have "length u + length v = length a + length b" using ordered_operands [OF 3(1,2)] by simp
  moreover have "length part \<le> length v" using 3(6,7) slices_length by blast
  ultimately show ?case using 3(4,5) by (simp add: karatsuba_limbs_def)
next
  case (4 a b x u v z m a0 a1 b0 b1)
  then show ?case using ordered_operands [OF 4(1,2)] karatsuba_shorter [of "length v" "length u"] by simp
next
  case (5 a b x u v z m a0 a1 b0 b1 z0)
  have le: "length u + length v = length a + length b" "length v \<le> length u"
    using ordered_operands [OF 5(1,2)] by simp_all
  note l = le karatsuba_shorter [OF 5(4,5) le(2)]
  have "Suc (2 * (length u - length u div 2) + 2 * (length v - length u div 2)) < 2 * length a + 2 * length b"
    using le(1) karatsuba_shorter(3) [OF 5(4,5) le(2)] unfolding distrib_left by simp
  then show ?case using 5(6-10) l(3) by simp
next
  case (6 a b x u v z m a0 a1 b0 b1 z0 z2)
  have le: "length u + length v = length a + length b" "length v \<le> length u"
    using ordered_operands [OF 6(1,2)] by simp_all
  have m: "m < length v" "m \<le> length u" using karatsuba_shorter(1) [OF 6(4,5) le(2)] 6(6) by simp_all
  then have "length (bc_add a0 a1) = max m (length u - m) + 1" "length (bc_add b0 b1) = max m (length v - m) + 1"
    using 6(7-10) by (simp_all add: length_bc_add)
  then have "2 * (length (bc_add a0 a1) + length (bc_add b0 b1)) + 1 < 2 * (length a + length b)"
    using karatsuba_shorter(4) [OF 6(4,5) le(2)] unfolding le(1) 6(6) by (simp only:)
  then show ?case by simp
qed simp_all

declare bc_mul.simps [simp del] bc_mul_to.simps [simp del]

section \<open>Division\<close>

fun mul_small_limbs :: "u32 \<Rightarrow> u64 \<Rightarrow> limbs8 \<Rightarrow> limbs8 \<times> u64" where
  "mul_small_limbs m carry [] = ([], carry)"
| "mul_small_limbs m carry (x # xs) =
     (let t = ucast x * ucast m + carry; (ys, c) = mul_small_limbs m (t div base64) xs in
      (ucast (t mod base64) # ys, c))"

definition mul_small_slice :: "limbs8 \<Rightarrow> u32 \<Rightarrow> limbs8 \<times> u32" where
  "mul_small_slice a m = (let (ys, c) = mul_small_limbs m 0 a in (ys, ucast c))"

text \<open>The loop of \<open>div_small_in_place\<close> runs from the top limb.\<close>

fun div_small_limbs :: "u64 \<Rightarrow> u64 \<Rightarrow> limbs8 \<Rightarrow> limbs8 \<times> u64" where
  "div_small_limbs d rem [] = ([], rem)"
| "div_small_limbs d rem (x # xs) =
     (let cur = rem * base64 + ucast x; (ys, r) = div_small_limbs d (cur mod d) xs in
      (ucast (cur div d) # ys, r))"

definition div_small_in_place :: "limbs8 \<Rightarrow> u32 \<Rightarrow> limbs8 \<times> u32" where
  "div_small_in_place a d =
     (let (ys, r) = div_small_limbs (ucast d) 0 (rev a) in (rev ys, ucast r))"

text \<open>The quotient in floating point: \<open>(x as f64 / y as f64) as u64\<close>.\<close>

definition float_quotient :: "u64 \<Rightarrow> u64 \<Rightarrow> u64" where
  "float_quotient x y = f_as_u64 (f_div (f_of_int (uint x)) (f_of_int (uint y)))"

text \<open>The correction of the estimate by the second limb of the divisor.\<close>

function qhat_fix :: "u64 \<Rightarrow> u64 \<Rightarrow> u64 \<Rightarrow> u64 \<Rightarrow> u64 \<Rightarrow> u64" where
  "qhat_fix qhat rhat vt vs low =
     (if base64 \<le> qhat \<or> rhat * base64 + low < qhat * vs then
        let qhat = qhat - 1; rhat = rhat + vt in
        if base64 \<le> rhat then qhat else qhat_fix qhat rhat vt vs low
      else qhat)"
  by pat_completeness auto
termination
proof (relation "measure (\<lambda>(qhat, rhat, vt, vs, low). unat qhat)", goal_cases)
  case (2 qhat rhat vt vs low)
  then have "qhat \<noteq> 0" by (auto simp: base64_def)
  then have "unat (qhat - 1) < unat qhat" by (simp add: unat_minus_one unat_gt_0)
  then show ?case using 2(2) by simp
qed simp

declare qhat_fix.simps [simp del]

definition knuth_qhat :: "u64 \<Rightarrow> u64 \<Rightarrow> u64 \<Rightarrow> u64 \<Rightarrow> u64" where
  "knuth_qhat num vt vs low =
     (let qhat = float_quotient num vt;
          rhat = num - qhat * vt;
          (qhat, rhat) =
            (if sint rhat < 0 then (qhat - 1, rhat + vt)
             else if sint vt \<le> sint rhat then (qhat + 1, rhat - vt) else (qhat, rhat)) in
      qhat_fix qhat rhat vt vs low)"

text \<open>\<open>u[j..j + nl] -= qhat * v\<close>: the limbs, the last high part and the last borrow.\<close>

fun knuth_sub :: "u64 \<Rightarrow> u64 \<Rightarrow> u64 \<Rightarrow> limbs8 \<Rightarrow> limbs8 \<Rightarrow> limbs8 \<times> u64 \<times> u64" where
  "knuth_sub qhat borrow prev_hi (u # us) (v # vs) =
     (let p = qhat * ucast v; hi = p div base64; lo = p - hi * base64;
          t = ucast u + 2 * base64 - lo - prev_hi - borrow;
          b1 = (if t < 2 * base64 then 1 else 0); b2 = (if t < base64 then 1 else 0);
          borrow = b1 + b2;
          (ws, h, b) = knuth_sub qhat borrow hi us vs in
      (ucast (t + borrow * base64 - 2 * base64) # ws, h, b))"
| "knuth_sub qhat borrow prev_hi us vs = ([], prev_hi, borrow)"

fun add_back :: "u32 \<Rightarrow> limbs8 \<Rightarrow> limbs8 \<Rightarrow> limbs8 \<times> u32" where
  "add_back c (u # us) (v # vs) =
     (let s = u + v + c in
      if base32 \<le> s then let (ws, c) = add_back 1 us vs in ((s - base32) # ws, c)
      else let (ws, c) = add_back 0 us vs in (s # ws, c))"
| "add_back c us vs = ([], c)"

text \<open>One step: the window \<open>u[j..=j + nl]\<close> becomes its remainder; the quotient limb.\<close>

definition knuth_window :: "limbs8 \<Rightarrow> limbs8 \<Rightarrow> limbs8 \<times> u32" where
  "knuth_window w v =
     (let nl = length v;
          num = ucast (w ! nl) * base64 + ucast (w ! (nl - 1));
          qhat = knuth_qhat num (ucast (v ! (nl - 1))) (ucast (v ! (nl - 2))) (ucast (w ! (nl - 2))) in
      if qhat = 0 then (w, 0)
      else
        let (ws, carry, borrow) = knuth_sub qhat 0 0 (take nl w) v;
            sub = carry + borrow; cur = ucast (w ! nl) in
        if sub \<le> cur then (ws @ [ucast (cur - sub)], ucast qhat)
        else
          let t = ucast (cur + base64 - sub) :: u32; (ws, c) = add_back 0 ws v in
          (ws @ [ucast ((ucast t + ucast c) mod base64)], ucast (qhat - 1)))"

definition knuth_step :: "limbs8 \<Rightarrow> limbs8 \<Rightarrow> nat \<Rightarrow> limbs8 \<times> u32" where
  "knuth_step u v j =
     (let n = length v + 1; (w, q) = knuth_window (take n (drop j u)) v in
      (take j u @ w @ drop (j + n) u, q))"

text \<open>The steps for \<open>j - 1\<close> down to 0: the scaled remainder and the quotient limbs.\<close>

fun knuth :: "limbs8 \<Rightarrow> limbs8 \<Rightarrow> nat \<Rightarrow> limbs8 \<times> limbs8" where
  "knuth u v 0 = (u, [])"
| "knuth u v (Suc j) =
     (let (u, qj) = knuth_step u v j; (u, qs) = knuth u v j in (u, qs @ [qj]))"

text \<open>The normalising factor \<open>BASE / (top + 1)\<close>.\<close>

definition normal_factor :: "u32 \<Rightarrow> u32" where
  "normal_factor top_limb =
     (let top1 = ucast top_limb + 1; f = float_quotient base64 top1;
          f = (if base64 < f * top1 then f - 1 else if (f + 1) * top1 \<le> base64 then f + 1 else f) in
      ucast f)"

text \<open>Quotient and remainder of trimmed operands; without \<open>want_rem\<close> (an empty slice \<open>r\<close>) no remainder.\<close>

definition divrem_slices :: "limbs8 \<Rightarrow> limbs8 \<Rightarrow> bool \<Rightarrow> limbs8 \<times> limbs8" where
  "divrem_slices n d want_rem =
     (if length d = 1 then
        let (q, rem) = div_small_in_place n (d ! 0) in (q, if want_rem then [rem] else [])
      else
        let f = normal_factor (d ! (length d - 1));
            (v, u) = (if 1 < f then
                let (v, _) = mul_small_slice d f; (u, c) = mul_small_slice n f in (v, u @ [c])
              else (d, n @ [0]));
            (u, q) = knuth u v (length u - length v) in
        (q, if want_rem then
              let r = take (length d) u in if 1 < f then fst (div_small_in_place r f) else r
            else []))"

text \<open>\<open>None\<close> is the panic of a division by zero.\<close>

definition bc_divrem :: "limbs8 \<Rightarrow> limbs8 \<Rightarrow> (limbs8 \<times> limbs8) option" where
  "bc_divrem n d =
     (let d = bc_trim d; n = bc_trim n in
      if d = [] then None
      else if length n < length d then Some ([], n)
      else Some (divrem_slices n d True))"

end
