(* ===== verification/BcMul.thy ===== *)
theory BcMul
  imports BcLimbs
begin

text \<open>
  Addition, subtraction and multiplication of \<open>BcLimbs\<close> compute with the values the limbs stand for.
  Normal limbs are below the base; lengths are those of the slices the source writes to.
\<close>

section \<open>Values\<close>

fun bval :: "nat list \<Rightarrow> nat" where
  "bval [] = 0"
| "bval (x # xs) = x + bc_base * bval xs"

abbreviation lval :: "limbs8 \<Rightarrow> nat" where
  "lval xs \<equiv> bval (map unat xs)"

abbreviation wval :: "u64 list \<Rightarrow> nat" where
  "wval xs \<equiv> bval (map unat xs)"

definition limbs_ok :: "limbs8 \<Rightarrow> bool" where
  "limbs_ok xs \<longleftrightarrow> (\<forall>x \<in> set xs. unat x < bc_base)"

named_theorems base_simps \<open>the base as a number and as words\<close>

lemma base_values [base_simps]:
  "unat base32 = 100000000" "unat base64 = 100000000" "bc_base = 100000000"
  by (simp_all add: base32_def base64_def bc_base_def)

lemma limbs_ok_simps [simp]:
  "limbs_ok []" "limbs_ok (x # xs) \<longleftrightarrow> unat x < bc_base \<and> limbs_ok xs"
  "limbs_ok (xs @ ys) \<longleftrightarrow> limbs_ok xs \<and> limbs_ok ys" "limbs_ok (rev xs) \<longleftrightarrow> limbs_ok xs"
  by (auto simp: limbs_ok_def)

lemma limbs_ok_replicate [simp]: "limbs_ok (replicate n 0)"
  by (simp add: limbs_ok_def bc_base_def)

lemma limbs_ok_parts: "limbs_ok xs \<Longrightarrow> limbs_ok (take n xs)" "limbs_ok xs \<Longrightarrow> limbs_ok (drop n xs)"
  by (auto simp: limbs_ok_def dest: in_set_takeD in_set_dropD)

lemma bc_base_pos [simp]: "0 < bc_base" "bc_base \<noteq> 0" "0 < bc_base ^ n"
  by (simp_all add: bc_base_def)

lemma bval_append: "bval (xs @ ys) = bval xs + bc_base ^ length xs * bval ys"
  by (induction xs) (simp_all add: algebra_simps)

lemma bval_replicate [simp]: "bval (replicate n 0) = 0"
  by (induction n) simp_all

lemma bval_split: "n \<le> length xs \<Longrightarrow> bval xs = bval (take n xs) + bc_base ^ n * bval (drop n xs)"
  using bval_append [of "take n xs" "drop n xs"] by simp

lemma lval_less: "limbs_ok xs \<Longrightarrow> lval xs < bc_base ^ length xs"
proof (induction xs)
  case (Cons x xs)
  then have "unat x + 1 \<le> bc_base" "lval xs + 1 \<le> bc_base ^ length xs" by simp_all
  then have "bc_base * (lval xs + 1) \<le> bc_base * bc_base ^ length xs" by (intro mult_le_mono2)
  with \<open>unat x + 1 \<le> bc_base\<close> show ?case by simp
qed simp

text \<open>Splitting off a first limb commutes with the remainder by a power of the base.\<close>

lemma base_step_mod: "x < bc_base \<Longrightarrow> (x + bc_base * y) mod (bc_base * m) = x + bc_base * (y mod m)"
  by (simp add: mod_mult2_eq)

lemma lval_trim: "lval (bc_trim xs) = lval xs"
proof (induction xs rule: rev_induct)
  case (snoc x xs)
  then show ?case by (cases "x = 0") (simp_all add: bc_trim_def bval_append)
qed (simp add: bc_trim_def)

lemma limbs_ok_trim [simp]: "limbs_ok xs \<Longrightarrow> limbs_ok (bc_trim xs)"
  unfolding bc_trim_def limbs_ok_def by (auto dest: set_dropWhileD)

lemma length_trim_le: "length (bc_trim xs) \<le> length xs"
  unfolding bc_trim_def using length_dropWhile_le [of _ "rev xs"] by simp

lemma last_trim: "bc_trim xs \<noteq> [] \<Longrightarrow> last (bc_trim xs) \<noteq> 0"
  using hd_dropWhile [of "\<lambda>x. x = 0" "rev xs"] by (simp add: bc_trim_def last_rev)

lemma lval_ge:
  assumes "xs \<noteq> []" "last xs \<noteq> 0"
  shows "bc_base ^ (length xs - 1) \<le> lval xs"
proof -
  obtain ys y where xs: "xs = ys @ [y]" using assms(1) by (cases xs rule: rev_cases) auto
  then have "1 \<le> unat y" using assms(2) by (simp add: unat_gt_0 Suc_le_eq)
  then have "bc_base ^ length ys * 1 \<le> bc_base ^ length ys * unat y" by (rule mult_le_mono2)
  then show ?thesis by (simp add: xs bval_append trans_le_add2)
qed

section \<open>Addition and subtraction\<close>

text \<open>Additions of 32 bit limbs with a carry do not wrap.\<close>

lemma unat_add_u32: "unat (a :: u32) + unat b < 2 ^ 32 \<Longrightarrow> unat (a + b) = unat a + unat b"
  by (simp add: unat_word_ariths)

lemma unat_sub_u32: "b \<le> a \<Longrightarrow> unat (a - b :: u32) = unat a - unat b"
  by (rule unat_sub)

lemma bit_cases: "unat (c :: 'a :: len word) \<le> 1 \<Longrightarrow> c = 0 \<and> unat c = 0 \<or> unat c = 1"
  by (auto simp: le_Suc_eq unat_eq_zero)

lemma inc_limbs_spec:
  "limbs_ok ds \<Longrightarrow> unat c \<le> 1 \<Longrightarrow>
    limbs_ok (inc_limbs c ds) \<and> lval (inc_limbs c ds) = (lval ds + unat c) mod bc_base ^ length ds"
proof (induction c ds rule: inc_limbs.induct)
  case (2 c d ds)
  have u: "unat (d + 1) = unat d + 1" using 2(2,3) by (subst unat_add_u32) (simp_all add: bc_base_def)
  show ?case
  proof (cases "c = 0")
    case True
    then show ?thesis using lval_less [OF 2(2)] 2(2) by simp
  next
    case False
    then have c: "unat c = 1" using bit_cases [OF 2(3)] by auto
    show ?thesis
    proof (cases "base32 \<le> d + 1")
      case True
      then have d: "unat d + 1 = bc_base" using u 2(2) by (simp add: word_le_nat_alt base_simps)
      have "unat d + bc_base * lval ds + 1 = 0 + bc_base * (lval ds + 1)" using d by (simp add: algebra_simps)
      then have "(unat d + bc_base * lval ds + 1) mod (bc_base * bc_base ^ length ds)
          = 0 + bc_base * ((lval ds + 1) mod bc_base ^ length ds)"
        by (simp only: base_step_mod bc_base_pos)
      then show ?thesis using "2.IH" True False c 2(2) by (simp add: Let_def)
    next
      case False': False
      then have "limbs_ok ((d + 1) # ds)" using u 2(2) by (simp add: word_le_nat_alt base_simps not_le)
      then show ?thesis using lval_less False False' u c by (fastforce simp: Let_def)
    qed
  qed
qed simp

lemma add_limbs_spec:
  "limbs_ok ds \<Longrightarrow> limbs_ok ss \<Longrightarrow> unat c \<le> 1 \<Longrightarrow> length ss \<le> length ds \<Longrightarrow>
    limbs_ok (add_limbs c ds ss) \<and>
    lval (add_limbs c ds ss) = (lval ds + lval ss + unat c) mod bc_base ^ length ds"
proof (induction c ds ss rule: add_limbs.induct)
  case (3 c d ds s ss)
  define t where "t = d + s + c"
  have u: "unat t = unat d + unat s + unat c"
    using 3(3-5) by (simp add: t_def unat_add_u32 bc_base_def)
  let ?c = "if base32 \<le> t then 1 else 0 :: u32" and ?x = "if base32 \<le> t then t - base32 else t"
  have x: "unat ?x < bc_base" "unat ?x + bc_base * unat ?c = unat t"
    using u 3(3-5) by (auto simp: word_le_nat_alt unat_sub_u32 base_simps not_le)
  have IH: "limbs_ok (add_limbs ?c ds ss) \<and>
      lval (add_limbs ?c ds ss) = (lval ds + lval ss + unat ?c) mod bc_base ^ length ds"
    using 3 by (simp add: t_def)
  have r: "add_limbs c (d # ds) (s # ss) = ?x # add_limbs ?c ds ss" by (simp add: t_def Let_def)
  have "unat d + bc_base * lval ds + (unat s + bc_base * lval ss) + unat c
      = unat ?x + bc_base * (lval ds + lval ss + unat ?c)"
    using x(2) u by (simp only: distrib_left)
  then have "(lval (d # ds) + lval (s # ss) + unat c) mod bc_base ^ length (d # ds)
      = unat ?x + bc_base * ((lval ds + lval ss + unat ?c) mod bc_base ^ length ds)"
    using base_step_mod [OF x(1)] by simp
  then show ?case using IH x(1) unfolding r by simp
qed (simp_all add: inc_limbs_spec)

lemma bc_add_into_spec:
  assumes "limbs_ok dst" "limbs_ok src" "length src \<le> length dst" "lval dst + lval src < bc_base ^ length dst"
  shows "limbs_ok (bc_add_into dst src)" "lval (bc_add_into dst src) = lval dst + lval src"
    "length (bc_add_into dst src) = length dst"
  using add_limbs_spec [OF assms(1,2), of 0] length_add_limbs [OF assms(3)] assms(3,4)
  by (simp_all add: bc_add_into_def)

lemma bc_add_spec:
  assumes "limbs_ok a" "limbs_ok b"
  shows "limbs_ok (bc_add a b)" "lval (bc_add a b) = lval a + lval b"
proof -
  have *: "limbs_ok (bc_add_into (a @ [0]) b) \<and> lval (bc_add_into (a @ [0]) b) = lval a + lval b"
    if "length b \<le> length a" "limbs_ok a" "limbs_ok b" for a b
  proof -
    have "lval b < bc_base ^ length a"
      by (rule order.strict_trans2 [OF lval_less [OF that(3)] power_increasing [OF that(1)]]) (simp add: bc_base_def)
    then have "lval a + lval b < 2 * bc_base ^ length a" using lval_less [OF that(2)] by simp
    also have "\<dots> \<le> bc_base * bc_base ^ length a" by (intro mult_le_mono1) (simp add: bc_base_def)
    finally have "lval (a @ [0]) + lval b < bc_base ^ length (a @ [0])" by (simp add: bval_append)
    then show ?thesis using bc_add_into_spec [of "a @ [0]" b] that by (simp add: bval_append)
  qed
  show "limbs_ok (bc_add a b)" "lval (bc_add a b) = lval a + lval b"
    using *[of b a] *[of a b] assms by (auto simp: bc_add_def Let_def)
qed

text \<open>Subtraction, as the remainder of the integer difference.\<close>

lemma base_step_mod_int:
  "0 \<le> x \<Longrightarrow> x < int bc_base \<Longrightarrow> 0 < m \<Longrightarrow> (x + int bc_base * y) mod (int bc_base * m) = x + int bc_base * (y mod m)"
  by (simp add: zmod_zmult2_eq)

lemma int_lval_mod: "limbs_ok ds \<Longrightarrow> int (lval ds) mod int bc_base ^ length ds = int (lval ds)"
  using lval_less [of ds] by (simp flip: of_nat_power of_nat_mod)

lemma dec_limbs_spec:
  "limbs_ok ds \<Longrightarrow> unat c \<le> 1 \<Longrightarrow>
    limbs_ok (dec_limbs c ds) \<and> int (lval (dec_limbs c ds)) = (int (lval ds) - int (unat c)) mod int bc_base ^ length ds"
proof (induction c ds rule: dec_limbs.induct)
  case (2 c d ds)
  show ?case
  proof (cases "c = 0")
    case True
    then show ?thesis using int_lval_mod [OF 2(2)] 2(2) by simp
  next
    case False
    then have c: "unat c = 1" using bit_cases [OF 2(3)] by auto
    show ?thesis
    proof (cases "0 < d")
      case True
      then have u: "unat (d - 1) + 1 = unat d" by (simp add: unat_minus_one unat_gt_0 word_gt_0)
      then have ok: "limbs_ok ((d - 1) # ds)" using 2(2) by simp
      have "uint d - 1 = uint (d - 1)" using arg_cong [OF u, of int] by simp
      then show ?thesis using int_lval_mod [OF ok] ok True False c by (simp add: algebra_simps)
    next
      case False': False
      then have d: "d = 0" by (simp add: word_gt_0)
      have t: "unat (base32 - 1) = bc_base - 1" by (simp add: base32_def bc_base_def)
      have e: "(int (lval (d # ds)) - 1) = int (bc_base - 1) + int bc_base * (int (lval ds) - 1)"
        by (simp add: d bc_base_def algebra_simps)
      have "(int (lval (d # ds)) - 1) mod int bc_base ^ length (d # ds)
          = int (bc_base - 1) + int bc_base * ((int (lval ds) - 1) mod int bc_base ^ length ds)"
        unfolding e length_Cons power_Suc by (rule base_step_mod_int) (simp_all add: bc_base_def)
      then show ?thesis using "2.IH" False d c 2(2) t by (simp add: bc_base_def)
    qed
  qed
qed simp

lemma diff_limbs_spec:
  "limbs_ok ds \<Longrightarrow> limbs_ok ss \<Longrightarrow> unat c \<le> 1 \<Longrightarrow> length ss \<le> length ds \<Longrightarrow>
    limbs_ok (diff_limbs c ds ss) \<and>
    int (lval (diff_limbs c ds ss)) = (int (lval ds) - int (lval ss) - int (unat c)) mod int bc_base ^ length ds"
proof (induction c ds ss rule: diff_limbs.induct)
  case (3 c d ds s ss)
  define t where "t = s + c"
  have u: "unat t = unat s + unat c" using 3(3-5) by (simp add: t_def unat_add_u32 bc_base_def)
  let ?c = "if t \<le> d then 0 else 1 :: u32" and ?x = "if t \<le> d then d - t else d + base32 - t"
  have x: "unat ?x < bc_base \<and> int (unat ?x) = int (unat d) - int (unat t) + int bc_base * int (unat ?c)"
  proof (cases "t \<le> d")
    case True
    then show ?thesis using 3(3) by (simp add: unat_sub_u32 word_le_nat_alt of_nat_diff less_imp_diff_less)
  next
    case False
    have ub: "unat (d + base32) = unat d + bc_base"
      using 3(3) by (subst unat_add_u32) (simp_all add: base_simps)
    then have "unat (d + base32 - t) = unat d + bc_base - unat t"
      using u 3(3-5) by (subst unat_sub_u32) (simp_all add: word_le_nat_alt)
    moreover have "unat d < unat t" "unat t \<le> unat d + bc_base" using False u 3(3-5) by (simp_all add: word_le_nat_alt)
    ultimately have "unat (d + base32 - t) < bc_base \<and> int (unat (d + base32 - t)) = int (unat d) - int (unat t) + int bc_base"
      by linarith
    then show ?thesis using False by simp
  qed
  have IH: "limbs_ok (diff_limbs ?c ds ss) \<and>
      int (lval (diff_limbs ?c ds ss)) = (int (lval ds) - int (lval ss) - int (unat ?c)) mod int bc_base ^ length ds"
    using 3 by (simp add: t_def)
  have r: "diff_limbs c (d # ds) (s # ss) = ?x # diff_limbs ?c ds ss" by (simp add: t_def Let_def)
  have e: "int (lval (d # ds)) - int (lval (s # ss)) - int (unat c)
      = int (unat ?x) + int bc_base * (int (lval ds) - int (lval ss) - int (unat ?c))"
    using x u by (simp add: algebra_simps)
  have "(int (lval (d # ds)) - int (lval (s # ss)) - int (unat c)) mod int bc_base ^ length (d # ds)
      = int (unat ?x) + int bc_base * ((int (lval ds) - int (lval ss) - int (unat ?c)) mod int bc_base ^ length ds)"
    unfolding e length_Cons power_Suc
    by (rule base_step_mod_int) (simp_all only: of_nat_0_le_iff of_nat_less_iff conjunct1 [OF x], simp)
  then show ?case using IH x unfolding r by simp
qed (simp_all add: dec_limbs_spec)

lemma length_dec_limbs [simp]: "length (dec_limbs c ds) = length ds"
  by (induction c ds rule: dec_limbs.induct) simp_all

lemma length_diff_limbs: "length ss \<le> length ds \<Longrightarrow> length (diff_limbs c ds ss) = length ds"
  by (induction c ds ss rule: diff_limbs.induct) (simp_all add: Let_def)

lemma bc_sub_into_spec:
  assumes "limbs_ok dst" "limbs_ok src" "length src \<le> length dst" "lval src \<le> lval dst"
  shows "limbs_ok (bc_sub_into dst src)" "lval (bc_sub_into dst src) = lval dst - lval src"
    "length (bc_sub_into dst src) = length dst"
proof -
  have lt: "int (lval dst) - int (lval src) < int bc_base ^ length dst"
    using lval_less [OF assms(1)] by (simp flip: of_nat_power add: of_nat_diff)
  have "int (lval (bc_sub_into dst src)) = int (lval dst) - int (lval src)"
    using diff_limbs_spec [OF assms(1,2), of 0] assms(3,4) lt by (simp add: bc_sub_into_def)
  then show "lval (bc_sub_into dst src) = lval dst - lval src" using assms(4) by linarith
  show "limbs_ok (bc_sub_into dst src)" "length (bc_sub_into dst src) = length dst"
    using diff_limbs_spec [OF assms(1,2), of 0] assms(3) by (simp_all add: bc_sub_into_def length_diff_limbs)
qed

section \<open>Schoolbook multiplication\<close>

text \<open>The largest entry of an accumulator before its carries are propagated: a normal limb and 1800
  products.  It and the largest carry fit 64 bits.\<close>

definition acc_max :: nat where
  "acc_max = (bc_base - 1) + 1800 * (bc_base - 1) ^ 2"

definition carry_max :: nat where
  "carry_max = 200000000000"

lemma acc_max_fits:
  assumes "x \<le> acc_max" "c \<le> carry_max"
  shows "x + c < 2 ^ 64" "(x + c) div bc_base \<le> carry_max"
proof -
  have "x + c \<le> acc_max + carry_max" using assms by simp
  moreover have "acc_max + carry_max < 2 ^ 64" "(acc_max + carry_max) div bc_base \<le> carry_max"
    by (simp_all add: acc_max_def carry_max_def bc_base_def)
  ultimately show "x + c < 2 ^ 64" "(x + c) div bc_base \<le> carry_max"
    using div_le_mono [of "x + c" "acc_max + carry_max" bc_base] by linarith+
qed

lemma carry_limbs_spec:
  "\<forall>x \<in> set acc. unat x \<le> acc_max \<Longrightarrow> unat c \<le> carry_max \<Longrightarrow>
    wval (carry_limbs c acc) = (wval acc + unat c) mod bc_base ^ length acc
    \<and> (\<forall>x \<in> set (carry_limbs c acc). unat x < bc_base) \<and> length (carry_limbs c acc) = length acc"
proof (induction c acc rule: carry_limbs.induct)
  case (2 c x xs)
  define t where "t = x + c"
  have t: "unat t = unat x + unat c"
    using acc_max_fits(1) [of "unat x" "unat c"] 2(2,3) by (simp add: t_def unat_add_fits)
  have m: "unat (t mod base64) = unat t mod bc_base" "unat (t div base64) = unat t div bc_base"
    by (simp_all add: unat_mod unat_div base_simps)
  have "unat (t div base64) \<le> carry_max" using acc_max_fits(2) [of "unat x" "unat c"] 2(2,3) t m by simp
  then have IH: "wval (carry_limbs (t div base64) xs) = (wval xs + unat (t div base64)) mod bc_base ^ length xs
    \<and> (\<forall>x \<in> set (carry_limbs (t div base64) xs). unat x < bc_base)
    \<and> length (carry_limbs (t div base64) xs) = length xs"
    using 2(1) [OF t_def] 2(2) by simp
  have lt: "unat t mod bc_base < bc_base" by simp
  have e: "wval (x # xs) + unat c = unat t mod bc_base + bc_base * (wval xs + unat t div bc_base)"
    using t div_mult_mod_eq [of "unat t" bc_base] by (simp add: algebra_simps)
  have "(wval (x # xs) + unat c) mod bc_base ^ length (x # xs)
      = unat t mod bc_base + bc_base * ((wval xs + unat t div bc_base) mod bc_base ^ length xs)"
    unfolding e length_Cons power_Suc by (rule base_step_mod) (rule lt)
  then show ?case using IH m by (simp add: t_def [symmetric] Let_def)
qed simp

lemma wval_less: "\<forall>x \<in> set xs. unat x < bc_base \<Longrightarrow> wval xs < bc_base ^ length xs"
proof (induction xs)
  case (Cons x xs)
  then have "unat x + 1 \<le> bc_base" "wval xs + 1 \<le> bc_base ^ length xs" by simp_all
  then have "bc_base * (wval xs + 1) \<le> bc_base * bc_base ^ length xs" by (intro mult_le_mono2)
  with \<open>unat x + 1 \<le> bc_base\<close> show ?case by simp
qed simp

lemma carry_u64_spec:
  assumes "\<forall>x \<in> set acc. unat x \<le> acc_max" "wval acc < bc_base ^ length acc"
  shows "wval (carry_u64 acc) = wval acc" "\<forall>x \<in> set (carry_u64 acc). unat x < bc_base"
    "length (carry_u64 acc) = length acc"
  using carry_limbs_spec [OF assms(1), of 0] assms(2) by (simp_all add: carry_u64_def)

lemma product_le: "x < bc_base \<Longrightarrow> y < bc_base \<Longrightarrow> x * y \<le> (bc_base - 1) ^ 2"
  unfolding power2_eq_square by (intro mult_le_mono) simp_all

text \<open>Accumulators with entries up to \<open>k\<close> rows above a normal limb.\<close>

definition rows_ok :: "nat \<Rightarrow> u64 list \<Rightarrow> bool" where
  "rows_ok k acc \<longleftrightarrow> (\<forall>x \<in> set acc. unat x \<le> (bc_base - 1) + k * (bc_base - 1) ^ 2)"

lemma rows_fit: "k \<le> 1800 \<Longrightarrow> (bc_base - 1) + k * (bc_base - 1) ^ 2 \<le> acc_max" "acc_max < 2 ^ 64"
  by (simp_all add: acc_max_def bc_base_def)

lemma rows_ok_max: "rows_ok k acc \<Longrightarrow> k \<le> 1800 \<Longrightarrow> \<forall>x \<in> set acc. unat x \<le> acc_max"
  using rows_fit(1) [of k] unfolding rows_ok_def by (meson order_trans)

lemma rows_ok_mono: "rows_ok k acc \<Longrightarrow> rows_ok (Suc k) acc"
  unfolding rows_ok_def by fastforce

lemma add_row_spec:
  "unat x < bc_base \<Longrightarrow> limbs_ok b \<Longrightarrow> length b \<le> length acc \<Longrightarrow> rows_ok k acc \<Longrightarrow> Suc k \<le> 1800 \<Longrightarrow>
    wval (add_row x b acc) = wval acc + unat x * lval b \<and> rows_ok (Suc k) (add_row x b acc)
    \<and> length (add_row x b acc) = length acc"
proof (induction x b acc rule: add_row.induct)
  case (1 x y b d acc)
  have uy: "unat (ucast y :: u64) = unat y" by (rule unat_up)
  have p: "unat x * unat y \<le> (bc_base - 1) ^ 2" using 1(2,3) by (intro product_le) simp_all
  have d: "unat d + unat x * unat y \<le> (bc_base - 1) + Suc k * (bc_base - 1) ^ 2"
    using 1(5) p by (simp add: rows_ok_def)
  then have lt: "unat d + unat x * unat y < 2 ^ 64" using rows_fit(1) [OF 1(6)] rows_fit(2) by linarith
  then have "unat x * unat y < 2 ^ 64" by linarith
  then have "unat (x * ucast y) = unat x * unat y" by (subst unat_mul_fits) (simp_all add: uy)
  then have u: "unat (d + x * ucast y) = unat d + unat x * unat y" using lt by (subst unat_add_fits) simp_all
  have IH: "wval (add_row x b acc) = wval acc + unat x * lval b \<and> rows_ok (Suc k) (add_row x b acc)
      \<and> length (add_row x b acc) = length acc"
    using 1 by (simp add: rows_ok_def)
  then show ?case using u d by (simp add: rows_ok_def algebra_simps)
qed (simp_all add: rows_ok_mono)

lemma rows_ok_append: "rows_ok k (xs @ ys) \<longleftrightarrow> rows_ok k xs \<and> rows_ok k ys"
  by (auto simp: rows_ok_def)

text \<open>A row added from place \<open>i\<close> on.\<close>

lemma add_row_at_spec:
  assumes "unat x < bc_base" "limbs_ok b" "i + length b \<le> length acc" "rows_ok k acc" "Suc k \<le> 1800"
  defines "acc' \<equiv> take i acc @ add_row x b (drop i acc)"
  shows "wval acc' = wval acc + bc_base ^ i * (unat x * lval b)" "rows_ok (Suc k) acc'" "length acc' = length acc"
proof -
  have k: "rows_ok k (take i acc)" "rows_ok k (drop i acc)"
    using assms(4) rows_ok_append [of k "take i acc" "drop i acc"] by simp_all
  have r: "wval (add_row x b (drop i acc)) = wval (drop i acc) + unat x * lval b"
    "rows_ok (Suc k) (add_row x b (drop i acc))" "length (add_row x b (drop i acc)) = length acc - i"
    using add_row_spec [OF assms(1,2) _ k(2) assms(5)] assms(3) by simp_all
  have "wval acc = wval (take i acc) + bc_base ^ i * wval (drop i acc)"
    using bval_split [of i "map unat acc"] assms(3) by (simp add: take_map drop_map)
  then show "wval acc' = wval acc + bc_base ^ i * (unat x * lval b)"
    using r(1) assms(3) by (simp add: acc'_def bval_append algebra_simps)
  show "rows_ok (Suc k) acc'" "length acc' = length acc"
    using k(1) r assms(3) by (simp_all add: acc'_def rows_ok_append rows_ok_mono)
qed

lemma rows_ok_0: "\<forall>x \<in> set acc. unat x < bc_base \<Longrightarrow> rows_ok 0 acc"
  by (fastforce simp: rows_ok_def)

lemma mul_rows_spec:
  "limbs_ok a \<Longrightarrow> limbs_ok b \<Longrightarrow> i + length a + length b \<le> length acc \<Longrightarrow> rows < 1800 \<Longrightarrow> rows_ok rows acc \<Longrightarrow>
    wval acc + bc_base ^ i * (lval a * lval b) < bc_base ^ length acc \<Longrightarrow>
    wval (mul_rows a b i rows acc) = wval acc + bc_base ^ i * (lval a * lval b)
    \<and> (\<forall>x \<in> set (mul_rows a b i rows acc). unat x < bc_base) \<and> length (mul_rows a b i rows acc) = length acc"
proof (induction a b i rows acc rule: mul_rows.induct)
  case (1 b i rows acc)
  then show ?case using carry_u64_spec [OF rows_ok_max] by simp
next
  case (2 x a b i rows acc)
  define acc' where "acc' = take i acc @ add_row (ucast x) b (drop i acc)"
  have "unat (ucast x :: u64) = unat x" by (rule unat_up)
  then have acc': "wval acc' = wval acc + bc_base ^ i * (unat x * lval b)" "rows_ok (Suc rows) acc'" "length acc' = length acc"
    using add_row_at_spec [of "ucast x" b i acc rows] 2(3-7) by (simp_all add: acc'_def)
  have v: "wval acc + bc_base ^ i * (lval (x # a) * lval b) = wval acc' + bc_base ^ (i + 1) * (lval a * lval b)"
    using acc'(1) by (simp add: algebra_simps)
  have l: "(i + 1) + length a + length b \<le> length acc'" using 2(5) acc'(3) by simp
  show ?case
  proof (cases "rows + 1 = rows_per_carry")
    case True
    have max: "\<forall>x \<in> set acc'. unat x \<le> acc_max" using rows_ok_max [OF acc'(2)] 2(6) by simp
    have "wval acc' < bc_base ^ length acc'" using 2(8) unfolding v acc'(3) by (rule add_lessD1)
    note c = carry_u64_spec [OF max this]
    have "wval (mul_rows a b (i + 1) 0 (carry_u64 acc'))
        = wval (carry_u64 acc') + bc_base ^ (i + 1) * (lval a * lval b)
      \<and> (\<forall>x \<in> set (mul_rows a b (i + 1) 0 (carry_u64 acc')). unat x < bc_base)
      \<and> length (mul_rows a b (i + 1) 0 (carry_u64 acc')) = length (carry_u64 acc')"
      using 2(1) [OF acc'_def refl True] 2(3,4,8) l c rows_ok_0 v acc'(3) by simp
    then show ?thesis using True c v acc'(3) by (simp add: Let_def acc'_def [symmetric])
  next
    case False
    then have "Suc rows < 1800" using 2(6) by (simp add: rows_per_carry_def)
    then have "wval (mul_rows a b (i + 1) (rows + 1) acc') = wval acc' + bc_base ^ (i + 1) * (lval a * lval b)
      \<and> (\<forall>x \<in> set (mul_rows a b (i + 1) (rows + 1) acc'). unat x < bc_base)
      \<and> length (mul_rows a b (i + 1) (rows + 1) acc') = length acc'"
      using 2(2) [OF acc'_def refl False] 2(3,4,8) l acc' v by simp
    then show ?thesis using False v acc'(3) by (simp add: Let_def acc'_def [symmetric])
  qed
qed

lemma narrow_limbs:
  assumes "\<forall>x \<in> set ws. unat x < bc_base"
  shows "lval (map ucast ws) = wval ws" "limbs_ok (map ucast ws)"
proof -
  have u: "unat (ucast x :: u32) = unat x" if "unat (x :: u64) < bc_base" for x
    using that by (simp add: unat_lo bc_base_def)
  have "map unat (map ucast ws :: limbs8) = map unat ws" using assms u by simp
  then show "lval (map ucast ws) = wval ws" by (simp only:)
  show "limbs_ok (map ucast ws)" using assms u by (simp add: limbs_ok_def)
qed

lemma limbs_product_less:
  assumes "limbs_ok a" "limbs_ok b"
  shows "lval a * lval b < bc_base ^ (length a + length b)"
  unfolding power_add by (rule mult_strict_mono) (use assms lval_less in simp_all)

lemma mul_school_spec:
  assumes "limbs_ok a" "limbs_ok b"
  shows "limbs_ok (mul_school a b) \<and> lval (mul_school a b) = lval a * lval b
    \<and> length (mul_school a b) = length a + length b"
proof -
  have *: "limbs_ok r \<and> lval r = lval a * lval b \<and> length r = length a + length b"
    if "r = map ucast (mul_rows a b 0 0 (replicate (length a + length b) 0))" "limbs_ok a" "limbs_ok b" for a b r
  proof -
    have "rows_ok 0 (replicate (length a + length b) 0)" by (simp add: rows_ok_def)
    then have m: "wval (mul_rows a b 0 0 (replicate (length a + length b) 0)) = lval a * lval b
      \<and> (\<forall>x \<in> set (mul_rows a b 0 0 (replicate (length a + length b) 0)). unat x < bc_base)
      \<and> length (mul_rows a b 0 0 (replicate (length a + length b) 0)) = length a + length b"
      using mul_rows_spec [of a b 0 "replicate (length a + length b) 0" 0] limbs_product_less [OF that(2,3)] that(2,3) by simp
    then show ?thesis using narrow_limbs that(1) by simp
  qed
  show ?thesis
  proof (cases "length a < length b")
    case True
    then show ?thesis using * [OF refl assms] by (simp add: mul_school_def)
  next
    case False
    then show ?thesis using * [OF refl assms(2,1)] by (simp add: mul_school_def mult.commute add.commute)
  qed
qed

section \<open>Karatsuba multiplication\<close>

lemma add_at_spec:
  assumes "limbs_ok dst" "limbs_ok src" "i + length src \<le> length dst"
    "lval dst + bc_base ^ i * lval src < bc_base ^ length dst"
  shows "limbs_ok (add_at i src dst) \<and> lval (add_at i src dst) = lval dst + bc_base ^ i * lval src
    \<and> length (add_at i src dst) = length dst"
proof -
  have v: "lval dst = lval (take i dst) + bc_base ^ i * lval (drop i dst)"
    using bval_split [of i "map unat dst"] assms(3) by (simp add: take_map drop_map)
  have "bc_base ^ i * (lval (drop i dst) + lval src) \<le> lval dst + bc_base ^ i * lval src"
    unfolding v by (simp add: algebra_simps)
  also have "\<dots> < bc_base ^ i * bc_base ^ (length dst - i)"
    using assms(3,4) by (simp flip: power_add)
  finally have "lval (drop i dst) + lval src < bc_base ^ (length dst - i)" by simp
  then show ?thesis
    using bc_add_into_spec [of "drop i dst" src] assms(1-3) limbs_ok_parts v
    by (simp add: add_at_def bval_append algebra_simps)
qed

definition mul_ok :: "limbs8 \<Rightarrow> limbs8 \<Rightarrow> limbs8 \<Rightarrow> bool" where
  "mul_ok a b r \<longleftrightarrow> limbs_ok r \<and> lval r = lval a * lval b \<and> length r = length a + length b"

lemma mul_ok_commute: "mul_ok a b r \<longleftrightarrow> mul_ok b a r"
  by (simp add: mul_ok_def mult.commute add.commute)

lemma slices_fold:
  assumes "0 < n" "limbs_ok b" "n = length b"
    and f: "\<And>p. limbs_ok p \<Longrightarrow> length p \<le> n \<Longrightarrow> mul_ok p b (f p)"
  shows "limbs_ok a \<Longrightarrow> limbs_ok out \<Longrightarrow> length out = i + length a + n \<Longrightarrow>
    lval out + bc_base ^ i * (lval a * lval b) < bc_base ^ length out \<Longrightarrow>
    limbs_ok (foldl (\<lambda>out (i, p). add_at i (f p) out) out (slices n i a))
    \<and> lval (foldl (\<lambda>out (i, p). add_at i (f p) out) out (slices n i a)) = lval out + bc_base ^ i * (lval a * lval b)
    \<and> length (foldl (\<lambda>out (i, p). add_at i (f p) out) out (slices n i a)) = length out"
proof (induction "length a" arbitrary: a i out rule: less_induct)
  case less
  show ?case
  proof (cases "a = []")
    case True
    then show ?thesis using less.prems by (subst (1 2 3) slices.simps) simp
  next
    case False
    define p q out' where "p = take n a" and "q = drop n a" and "out' = add_at i (f p) out"
    have l: "length p \<le> n" "length p + length q = length a" "p \<noteq> []"
      using False assms(1) by (simp_all add: p_def q_def)
    have ok: "limbs_ok p" "limbs_ok q" using less.prems(1) by (simp_all add: p_def q_def limbs_ok_parts)
    have fp: "limbs_ok (f p)" "lval (f p) = lval p * lval b" "length (f p) = length p + n"
      using f [OF ok(1) l(1)] assms(3) by (simp_all add: mul_ok_def)
    have va: "lval a = lval p + bc_base ^ length p * lval q"
      using bval_append [of "map unat p" "map unat q"] by (simp add: p_def q_def flip: map_append)
    have qi: "q = [] \<or> length p = n" by (auto simp: p_def q_def)
    have v: "lval out + bc_base ^ i * (lval a * lval b)
        = lval out + bc_base ^ i * lval (f p) + bc_base ^ (i + n) * (lval q * lval b)"
      using qi by (auto simp: va fp(2) power_add algebra_simps)
    have "lval out + bc_base ^ i * lval (f p) < bc_base ^ length out"
      using less.prems(4) unfolding v by (rule add_lessD1)
    then have o: "limbs_ok out'" "lval out' = lval out + bc_base ^ i * lval (f p)" "length out' = length out"
      using add_at_spec [OF less.prems(2) fp(1)] less.prems(3) fp(3) l(2) by (simp_all add: out'_def)
    have s: "slices n i a = (i, p) # slices n (i + n) q"
      using False assms(1) by (subst slices.simps) (simp add: p_def q_def)
    show ?thesis
    proof (cases "q = []")
      case True
      then show ?thesis using o v by (simp add: s slices.simps [of n _ "[]"] flip: out'_def)
    next
      case False
      then have lp: "length p = n" using qi by simp
      have "length q < length a" using l by (cases p) simp_all
      then
      have "limbs_ok (foldl (\<lambda>out (i, p). add_at i (f p) out) out' (slices n (i + n) q))
        \<and> lval (foldl (\<lambda>out (i, p). add_at i (f p) out) out' (slices n (i + n) q))
          = lval out' + bc_base ^ (i + n) * (lval q * lval b)
        \<and> length (foldl (\<lambda>out (i, p). add_at i (f p) out) out' (slices n (i + n) q)) = length out'"
        using less.hyps [of q out' "i + n"] less.prems(3,4) o ok(2) l lp v by simp
      then show ?thesis using o v by (simp add: s flip: out'_def)
    qed
  qed
qed

text \<open>The identity behind the three products.\<close>

lemma karatsuba_identity:
  fixes a0 a1 b0 b1 x :: nat
  shows "(a0 + x * a1) * (b0 + x * b1) =
    a0 * b0 + x * ((a0 + a1) * (b0 + b1) - a0 * b0 - a1 * b1) + x * x * (a1 * b1)"
proof -
  have "(a0 + a1) * (b0 + b1) - a0 * b0 - a1 * b1 = a0 * b1 + a1 * b0" by (simp add: algebra_simps)
  then show ?thesis by (simp add: algebra_simps)
qed

lemma trim_fits:
  assumes "bc_base ^ i * lval xs < bc_base ^ n" "i \<le> n"
  shows "i + length (bc_trim xs) \<le> n"
proof (cases "bc_trim xs = []")
  case False
  have "bc_base ^ (length (bc_trim xs) - 1) \<le> lval xs"
    using lval_ge [OF False last_trim [OF False]] by (simp add: lval_trim)
  then have "bc_base ^ (i + (length (bc_trim xs) - 1)) \<le> bc_base ^ i * lval xs" by (simp add: power_add)
  then have "bc_base ^ (i + (length (bc_trim xs) - 1)) < bc_base ^ n" using assms(1) by (rule order.strict_trans1)
  then have "i + (length (bc_trim xs) - 1) < n" by (rule power_less_imp_less_exp [rotated]) (simp add: bc_base_def)
  then show ?thesis using False by (cases "bc_trim xs") simp_all
qed (use assms in simp)

lemma bc_mul_of_to: "mul_ok a b (bc_mul_to a b) \<or> a = [] \<or> b = [] \<Longrightarrow> mul_ok a b (bc_mul a b)"
  by (subst bc_mul.simps) (auto simp: mul_ok_def)

text \<open>The three products put together.\<close>

definition karatsuba :: "nat \<Rightarrow> nat \<Rightarrow> limbs8 \<Rightarrow> limbs8 \<Rightarrow> limbs8 \<Rightarrow> limbs8" where
  "karatsuba n m z0 z2 z1 =
     add_at (2 * m) (bc_trim z2)
       (add_at m (bc_trim (bc_sub_into (bc_sub_into z1 z0) z2)) (bc_add_into (replicate n 0) (bc_trim z0)))"

lemma karatsuba_spec:
  assumes "mul_ok a0 b0 z0" "mul_ok a1 b1 z2" "mul_ok sa sb z1"
    and sums: "lval sa = lval a0 + lval a1" "lval sb = lval b0 + lval b1"
    and l: "length a0 = m" "length b0 = m" "length a1 + length b1 + 2 * m = n"
      "length sa = max m (length a1) + 1" "length sb = max m (length b1) + 1"
    and ok: "limbs_ok a0" "limbs_ok a1" "limbs_ok b0" "limbs_ok b1"
  shows "mul_ok (a0 @ a1) (b0 @ b1) (karatsuba n m z0 z2 z1)"
proof -
  let ?B = "bc_base ^ m"
  note z = assms(1-3) [unfolded mul_ok_def]
  define y where "y = (lval a0 + lval a1) * (lval b0 + lval b1) - lval a0 * lval b0 - lval a1 * lval b1"
  have le: "lval z0 \<le> lval z1" "lval z2 \<le> lval z1 - lval z0"
    using z sums by (simp_all add: algebra_simps)
  have s1: "limbs_ok (bc_sub_into z1 z0)" "lval (bc_sub_into z1 z0) = lval z1 - lval z0"
    "length (bc_sub_into z1 z0) = length z1"
    using bc_sub_into_spec [of z1 z0] le z l by simp_all
  define w where "w = bc_sub_into (bc_sub_into z1 z0) z2"
  have w: "limbs_ok w" "lval w = y"
    using bc_sub_into_spec [of "bc_sub_into z1 z0" z2] s1 le z l sums by (simp_all add: w_def y_def)
  have total: "lval (a0 @ a1) * lval (b0 @ b1) = lval a0 * lval b0 + ?B * y + ?B * ?B * (lval a1 * lval b1)"
    using karatsuba_identity [of "lval a0" ?B "lval a1" "lval b0" "lval b1"] l
    by (simp add: bval_append y_def)
  have n: "length (a0 @ a1) + length (b0 @ b1) = n" using l by simp
  have lt: "lval a0 * lval b0 + ?B * y + ?B * ?B * (lval a1 * lval b1) < bc_base ^ n"
    using limbs_product_less [of "a0 @ a1" "b0 @ b1"] ok unfolding n total by simp
  have lts: "lval z0 + ?B * lval w < bc_base ^ n" "lval z0 < bc_base ^ n" "?B * lval w < bc_base ^ n"
    using lt unfolding conjunct1 [OF conjunct2 [OF z(1)]] w(2) by linarith+
  define o0 where "o0 = bc_add_into (replicate n 0) (bc_trim z0)"
  have o0: "limbs_ok o0" "lval o0 = lval z0" "length o0 = n"
    using bc_add_into_spec [of "replicate n 0" "bc_trim z0"] trim_fits [of 0 z0 n] lts(2) z
    by (simp_all add: o0_def lval_trim)
  define o1 where "o1 = add_at m (bc_trim w) o0"
  have o1: "limbs_ok o1" "lval o1 = lval z0 + ?B * y" "length o1 = n"
    using add_at_spec [OF o0(1), of "bc_trim w" m] trim_fits [of m w n] lts o0 w l
    by (simp_all add: o1_def lval_trim)
  have "2 * m + length (bc_trim z2) \<le> n" using length_trim_le [of z2] z l by linarith
  moreover have "lval o1 + bc_base ^ (2 * m) * lval (bc_trim z2) < bc_base ^ length o1"
    using lt z o1 by (simp add: lval_trim mult_2 power_add)
  ultimately have "limbs_ok (add_at (2 * m) (bc_trim z2) o1)
      \<and> lval (add_at (2 * m) (bc_trim z2) o1) = lval o1 + bc_base ^ (2 * m) * lval (bc_trim z2)
      \<and> length (add_at (2 * m) (bc_trim z2) o1) = n"
    using add_at_spec [OF o1(1), of "bc_trim z2" "2 * m"] o1(3) z by simp
  then show ?thesis
    using total o1(2) z n
    by (simp add: mul_ok_def karatsuba_def lval_trim mult_2 power_add flip: w_def o0_def o1_def)
qed

lemma half_less: "2 * x + 1 < 2 * y \<Longrightarrow> x < (y :: nat)"
  by simp

text \<open>One call on operands in order, given correct products of shorter ones.\<close>

lemma bc_mul_to_step:
  assumes "length b \<le> length a" "limbs_ok a" "limbs_ok b"
    and IH: "\<And>x y. limbs_ok x \<Longrightarrow> limbs_ok y \<Longrightarrow> length x + length y < length a + length b \<Longrightarrow> mul_ok x y (bc_mul_to x y)"
  shows "mul_ok a b (bc_mul_to a b)"
proof (cases "length b < karatsuba_limbs")
  case True
  then show ?thesis using assms(1) mul_school_spec [OF assms(2,3)] by (subst bc_mul_to.simps) (simp add: mul_ok_def)
next
  case False
  show ?thesis
  proof (cases "2 * length b \<le> length a")
    case True
    define r where "r = foldl (\<lambda>out (i, part). add_at i (bc_mul_to part b) out)
      (replicate (length a + length b) 0) (slices (length b) 0 a)"
    have b: "0 < length b" using False unfolding karatsuba_limbs_def by linarith
    have "mul_ok p b (bc_mul_to p b)" if "limbs_ok p" "length p \<le> length b" for p
      using IH [OF that(1) assms(3)] that(2) True b by simp
    then have "limbs_ok r \<and> lval r = lval (replicate (length a + length b) 0) + bc_base ^ 0 * (lval a * lval b)
        \<and> length r = length a + length b"
      using slices_fold [OF b assms(3) refl, where f = "\<lambda>p. bc_mul_to p b" and a = a and i = 0
          and out = "replicate (length a + length b) 0"]
        limbs_product_less [OF assms(2,3)] assms(2) by (simp add: r_def)
    then have "mul_ok a b r" by (simp add: mul_ok_def)
    then show ?thesis using False True assms(1) by (subst bc_mul_to.simps) (simp add: r_def)
  next
    case bal: False
    define m where "m = length a div 2"
    note sh = karatsuba_shorter [OF False bal assms(1)]
    define a0 a1 b0 b1 where "a0 = take m a" and "a1 = drop m a" and "b0 = take m b" and "b1 = drop m b"
    have m: "m < length b" "m \<le> length a" using sh(1) by (simp_all add: m_def)
    have l: "length a0 = m" "length b0 = m" "length a1 = length a - m" "length b1 = length b - m"
      using m by (simp_all add: a0_def a1_def b0_def b1_def)
    have ok: "limbs_ok a0" "limbs_ok a1" "limbs_ok b0" "limbs_ok b1"
      using assms(2,3) by (simp_all add: a0_def a1_def b0_def b1_def limbs_ok_parts)
    note sums = bc_add_spec [OF ok(1,2)] bc_add_spec [OF ok(3,4)]
    have z: "mul_ok x y (bc_mul x y)" if "limbs_ok x" "limbs_ok y" "length x + length y < length a + length b" for x y
      using IH that bc_mul_of_to by blast
    have z0: "mul_ok a0 b0 (bc_mul a0 b0)" using z ok sh(2) l by (simp add: m_def)
    have z2: "mul_ok a1 b1 (bc_mul a1 b1)" using z ok sh(3) l by (simp add: m_def)
    have z1: "mul_ok (bc_add a0 a1) (bc_add b0 b1) (bc_mul (bc_add a0 a1) (bc_add b0 b1))"
    proof (rule z [OF sums(1,3)])
      have "length (bc_add a0 a1) + length (bc_add b0 b1) = max m (length a - m) + 1 + (max m (length b - m) + 1)"
        by (simp only: length_bc_add l)
      also have "\<dots> < length a + length b" using sh(4) unfolding m_def [symmetric] by (rule half_less)
      finally show "length (bc_add a0 a1) + length (bc_add b0 b1) < length a + length b" .
    qed
    have ne: "b1 \<noteq> []" "bc_mul a1 b1 \<noteq> []" using z2 m l by (auto simp: mul_ok_def)
    have "mul_ok (a0 @ a1) (b0 @ b1)
        (karatsuba (length a + length b) m (bc_mul a0 b0) (bc_mul a1 b1) (bc_mul (bc_add a0 a1) (bc_add b0 b1)))"
      using karatsuba_spec [OF z0 z2 z1 sums(2,4) l(1,2) _ _ _ ok] l m by (simp add: length_bc_add)
    moreover have "bc_mul_to a b =
        karatsuba (length a + length b) m (bc_mul a0 b0) (bc_mul a1 b1) (bc_mul (bc_add a0 a1) (bc_add b0 b1))"
      using False bal assms(1) m(1) ne
      by (subst bc_mul_to.simps) (simp add: Let_def karatsuba_def a0_def a1_def b0_def b1_def m_def)
    ultimately show ?thesis by (simp add: a0_def a1_def b0_def b1_def)
  qed
qed

lemma bc_mul_to_ok: "limbs_ok a \<Longrightarrow> limbs_ok b \<Longrightarrow> mul_ok a b (bc_mul_to a b)"
proof (induction "length a + length b" arbitrary: a b rule: less_induct)
  case less
  show ?case
  proof (cases "length b \<le> length a")
    case True
    then show ?thesis using bc_mul_to_step less by blast
  next
    case False
    have "bc_mul_to a b = bc_mul_to b a"
    proof -
      have e: "(if length b \<le> length a then (a, b) else (b, a)) = (if length a \<le> length b then (b, a) else (a, b))"
        using False by simp
      show ?thesis unfolding bc_mul_to.simps [of a b] bc_mul_to.simps [of b a] e by (rule refl)
    qed
    moreover have "mul_ok b a (bc_mul_to b a)"
    proof (rule bc_mul_to_step)
      show "length a \<le> length b" using False by simp
      show "mul_ok x y (bc_mul_to x y)"
        if "limbs_ok x" "limbs_ok y" "length x + length y < length b + length a" for x y
        using that(3) unfolding add.commute [of "length b"] by (rule less.hyps) (rule that)+
    qed (use less.prems in simp_all)
    ultimately show ?thesis by (simp add: mul_ok_commute)
  qed
qed

lemma bc_mul_ok: "limbs_ok a \<Longrightarrow> limbs_ok b \<Longrightarrow> mul_ok a b (bc_mul a b)"
  using bc_mul_to_ok bc_mul_of_to by blast

text \<open>C35: the product of two numbers in limbs, with schoolbook rows whose carries are deferred, slices for unbalanced
  operands and Karatsuba's three products, is the product of their values, in normal limbs and as many as the operands
  have; no accumulator overflows.\<close>

theorem bc_mul_exact:
  assumes "limbs_ok a" "limbs_ok b"
  shows "lval (bc_mul a b) = lval a * lval b \<and> limbs_ok (bc_mul a b) \<and> length (bc_mul a b) = length a + length b"
  using bc_mul_ok [OF assms] by (simp add: mul_ok_def)

theorem bc_mul_exact_witness:
  "limbs_ok [99999999, 5] \<and> limbs_ok [99999999] \<and> lval (bc_mul [99999999, 5] [99999999]) = 599999999 * 99999999"
  using bc_mul_exact [of "[99999999, 5]" "[99999999]"] by (simp add: bc_base_def)

end
