(* ===== verification/BcDiv.thy ===== *)
theory BcDiv
  imports BcMul ConvertSpec
begin

text \<open>
  Division of \<open>BcLimbs\<close>: the floating point estimate is within one of the quotient of two limbs by
  one (dividends above \<open>2\<^sup>5\<^sup>3\<close> are rounded, which the two corrections absorb), the test with the second
  limb makes it at most one too large, and the steps of algorithm D put together give quotient and
  remainder.
\<close>

section \<open>Multiplication and division by one limb\<close>

lemma mul_small_limbs_spec:
  "limbs_ok a \<Longrightarrow> 0 < unat m \<Longrightarrow> unat c < unat m \<Longrightarrow> mul_small_limbs m c a = (ys, c') \<Longrightarrow>
    lval ys + bc_base ^ length a * unat c' = lval a * unat m + unat c \<and> limbs_ok ys \<and> length ys = length a
    \<and> unat c' < unat m"
proof (induction m c a arbitrary: ys rule: mul_small_limbs.induct)
  case (2 m c x xs)
  define t where "t = (ucast x * ucast m + c :: u64)"
  have c32: "unat c < 2 ^ 32" using 2(4) u32_less [of m] by linarith
  have t: "unat t = unat x * unat m + unat c" unfolding t_def using unat_mul_add [OF c32] .
  have "(unat x + 1) * unat m \<le> bc_base * unat m" using 2(2) by (intro mult_le_mono1) simp
  then have "unat t < bc_base * unat m" using t 2(4) by simp
  then have td: "unat (t div base64) < unat m" by (simp add: unat_div base_simps less_mult_imp_div_less mult.commute)
  obtain zs where zs: "mul_small_limbs m (t div base64) xs = (zs, c')" "ys = ucast (t mod base64) # zs"
    using 2(5) by (simp add: t_def [symmetric] Let_def split: prod.splits)
  have IH: "lval zs + bc_base ^ length xs * unat c' = lval xs * unat m + unat (t div base64) \<and> limbs_ok zs
      \<and> length zs = length xs \<and> unat c' < unat m"
    using 2(1) [OF t_def _ 2(3) td zs(1)] 2(2) by simp
  have m: "unat (t mod base64) = unat t mod bc_base" "unat (t div base64) = unat t div bc_base"
    by (simp_all add: unat_mod unat_div base_simps)
  then have y: "unat (ucast (t mod base64) :: u32) = unat t mod bc_base"
    by (simp add: unat_lo bc_base_def)
  have "lval ys + bc_base ^ length (x # xs) * unat c'
      = unat t mod bc_base + bc_base * (lval zs + bc_base ^ length xs * unat c')"
    using y by (simp add: zs(2) algebra_simps)
  also have "\<dots> = bc_base * (lval xs * unat m) + (unat t mod bc_base + bc_base * (unat t div bc_base))"
    using IH m(2) by (simp add: algebra_simps)
  also have "\<dots> = lval (x # xs) * unat m + unat c" using t by (simp add: algebra_simps)
  finally show ?case using IH y zs(2) by simp
qed simp

lemma mul_small_slice_spec:
  assumes "limbs_ok a" "0 < unat m" "mul_small_slice a m = (ys, c)"
  shows "lval ys + bc_base ^ length a * unat c = lval a * unat m" "limbs_ok ys" "length ys = length a" "unat c < unat m"
proof -
  obtain c' where c': "mul_small_limbs m 0 a = (ys, c')" "c = ucast c'"
    using assms(3) by (simp add: mul_small_slice_def split: prod.splits)
  have *: "lval ys + bc_base ^ length a * unat c' = lval a * unat m + unat (0 :: u64) \<and> limbs_ok ys
      \<and> length ys = length a \<and> unat c' < unat m"
    using mul_small_limbs_spec [OF assms(1,2) _ c'(1)] assms(2) by simp
  then have "unat c = unat c'" using u32_less [of m] by (simp add: c'(2) unat_lo)
  then show "lval ys + bc_base ^ length a * unat c = lval a * unat m" "limbs_ok ys" "length ys = length a" "unat c < unat m"
    using * by simp_all
qed

text \<open>The value of limbs from the top.\<close>

lemma div_small_limbs_spec:
  "limbs_ok xs \<Longrightarrow> unat d < 2 ^ 32 \<Longrightarrow> unat r < unat d \<Longrightarrow> div_small_limbs d r xs = (ys, r') \<Longrightarrow>
    unat r * bc_base ^ length xs + lval (rev xs) = lval (rev ys) * unat d + unat r' \<and> unat r' < unat d
    \<and> limbs_ok ys \<and> length ys = length xs"
proof (induction d r xs arbitrary: ys rule: div_small_limbs.induct)
  case (2 d r x xs)
  define cur where "cur = r * base64 + ucast x"
  have "unat r * bc_base \<le> 2 ^ 32 * bc_base" using 2(3,4) by (intro mult_le_mono1) simp
  then have lt: "unat r * bc_base + unat x < 2 ^ 64" using 2(2) by (simp add: bc_base_def)
  then have "unat (r * base64) = unat r * bc_base" by (subst unat_mul_fits) (simp_all add: base_simps)
  then have cur: "unat cur = unat r * bc_base + unat x"
    unfolding cur_def using lt by (subst unat_add_fits) (simp_all add: unat_up)
  have rm: "unat (cur mod d) < unat d" using 2(4) by (simp add: unat_mod)
  obtain zs where zs: "div_small_limbs d (cur mod d) xs = (zs, r')" "ys = ucast (cur div d) # zs"
    using 2(5) by (simp add: cur_def [symmetric] Let_def split: prod.splits)
  have IH: "unat (cur mod d) * bc_base ^ length xs + lval (rev xs) = lval (rev zs) * unat d + unat r' \<and> unat r' < unat d
      \<and> limbs_ok zs \<and> length zs = length xs"
    using 2(1) [OF cur_def _ 2(3) rm zs(1)] 2(2) by simp
  have "unat r * bc_base + unat x < unat d * bc_base"
  proof -
    have "(unat r + 1) * bc_base \<le> unat d * bc_base" using 2(4) by (intro mult_le_mono1) simp
    then show ?thesis using 2(2) by simp
  qed
  then have q: "unat cur div unat d < bc_base" by (simp add: cur less_mult_imp_div_less mult.commute)
  then have y: "unat (ucast (cur div d) :: u32) = unat cur div unat d"
    by (simp add: unat_lo unat_div bc_base_def)
  have "unat r * bc_base ^ length (x # xs) + lval (rev (x # xs)) = lval (rev xs) + bc_base ^ length xs * unat cur"
    by (simp add: bval_append cur algebra_simps)
  also have "unat cur = unat cur div unat d * unat d + unat (cur mod d)" by (simp add: unat_mod)
  also have "lval (rev xs) + bc_base ^ length xs * (unat cur div unat d * unat d + unat (cur mod d))
      = (lval (rev zs) + bc_base ^ length zs * (unat cur div unat d)) * unat d + unat r'"
    using IH by (simp add: algebra_simps)
  also have "lval (rev zs) + bc_base ^ length zs * (unat cur div unat d) = lval (rev ys)"
    by (simp add: zs(2) bval_append y)
  finally show ?case using IH q y by (simp add: zs(2))
qed simp

lemma div_small_in_place_spec:
  assumes "limbs_ok a" "0 < unat d" "div_small_in_place a d = (q, r)"
  shows "lval a = lval q * unat d + unat r" "unat r < unat d" "limbs_ok q" "length q = length a"
proof -
  obtain ys r' where y: "div_small_limbs (ucast d) 0 (rev a) = (ys, r')" "q = rev ys" "r = ucast r'"
    using assms(3) by (simp add: div_small_in_place_def split: prod.splits)
  have ud: "unat (ucast d :: u64) = unat d" by (rule unat_up)
  have *: "unat (0 :: u64) * bc_base ^ length (rev a) + lval (rev (rev a)) = lval (rev ys) * unat (ucast d :: u64) + unat r'
      \<and> unat r' < unat (ucast d :: u64) \<and> limbs_ok ys \<and> length ys = length (rev a)"
    by (rule div_small_limbs_spec [OF _ _ _ y(1)]) (use assms(1,2) u32_less [of d] in \<open>simp_all add: ud\<close>)
  then have "unat r = unat r'" using u32_less [of d] by (simp add: y(3) unat_lo ud)
  then show "lval a = lval q * unat d + unat r" "unat r < unat d" "limbs_ok q" "length q = length a"
    using * by (simp_all add: y(2) ud)
qed

section \<open>The quotient in floating point\<close>

lemma powi_less: "(2 :: real) powi a < 2 powi b \<Longrightarrow> a < b"
  by (meson leD not_le_imp_less one_le_numeral power_int_increasing)

lemma view_of_nat:
  assumes "k < 2 ^ 53"
  shows "\<exists>m e. view (f_of_int (int k)) = Fin False m e \<and> real m * 2 powi e = real k"
proof (cases "k = 0")
  case True
  then have "view (f_of_int (int k)) = Fin False 0 (- 1074)"
    by (simp add: f_of_int_def round_dyadic_def canonical_def del: of_view.simps)
  then show ?thesis using True by auto
next
  case False
  have "real (scale2 k 0) / real (scale2 1 0) = real k * 2 powi 0" by (simp add: scale2_def)
  then obtain m e where m: "round_ratio False (scale2 k 0) (scale2 1 0) = Fin False m e" "canonical m e"
    "real m * 2 powi e = real k * 2 powi 0"
    using round_ratio_repr [of "scale2 1 0" k 0 "scale2 k 0" False] assms by (auto simp: scale2_def)
  have "f_of_int (int k) = of_view (Fin False m e)" using m(1) False by (simp add: f_of_int_def round_dyadic_def del: of_view.simps)
  then have "view (f_of_int (int k)) = Fin False m e" using m(2) by (simp del: of_view.simps)
  then show ?thesis using m(3) by auto
qed

text \<open>From \<open>2\<^sup>5\<^sup>3\<close> to \<open>2\<^sup>5\<^sup>4\<close> every other integer is a float: the nearest is at most one away.\<close>

lemma view_of_nat_above:
  assumes "2 ^ 53 \<le> k" "k < 2 ^ 54"
  shows "\<exists>m e k'. view (f_of_int (int k)) = Fin False m e \<and> real m * 2 powi e = real k' \<and> k' \<le> k + 1 \<and> k \<le> k' + 1"
proof -
  have k: "0 < k" using assms(1) by simp
  have "real k < real ((2 :: nat) ^ 54)" "real ((2 :: nat) ^ 53) \<le> real k" using assms by (simp_all only: of_nat_less_iff of_nat_le_iff)
  then have b: "(2 :: real) powi 53 \<le> real k" "real k < 2 powi 54" by (simp_all add: power_int_def)
  have "2 powi (ilog2_ratio k 1) \<le> real k" "real k < 2 powi (ilog2_ratio k 1 + 1)"
    using ilog2_ratio_bounds [OF k, of 1] by simp_all
  then have "(2 :: real) powi (ilog2_ratio k 1) < 2 powi 54" "(2 :: real) powi 53 < 2 powi (ilog2_ratio k 1 + 1)"
    using b by linarith+
  then have "ilog2_ratio k 1 < 54" "53 < ilog2_ratio k 1 + 1" using powi_less by blast+
  then have L: "ilog2_ratio k 1 = 53" by linarith
  define q r where "q = k div 2" and "r = k mod 2"
  define m where "m = (if 2 * r > 2 \<or> (2 * r = 2 \<and> odd q) then q + 1 else q)"
  have e: "max (- 1074) (53 - 52) = (1 :: int)" "k \<noteq> 0" using k by simp_all
  have sc: "scale2 k (- 1) = k" "scale2 1 1 = 2" by (simp_all add: scale2_def)
  have R: "round_ratio False k 1 = (if m = 2 ^ 53 then Fin False (2 ^ 52) 2 else Fin False m 1)"
    unfolding round_ratio_def Let_def L e(1) sc q_def [symmetric] r_def [symmetric] m_def [symmetric] by (simp add: e(2))
  have can: "canonical_view (round_ratio False k 1)" by (rule round_ratio_canonical) simp
  have f: "f_of_int (int k) = of_view (round_ratio False k 1)"
    using k by (simp add: f_of_int_def round_dyadic_def scale2_def del: of_view.simps)
  have v: "view (f_of_int (int k)) = round_ratio False k 1" unfolding f by (rule view_of_view [OF can])
  have "k = 2 * q + r" "r < 2" by (simp_all add: q_def r_def)
  then have m: "2 * m \<le> k + 1" "k \<le> 2 * m + 1" by (auto simp: m_def)
  show ?thesis
  proof (cases "m = 2 ^ 53")
    case True
    have "real (2 ^ 52) * 2 powi 2 = real (2 * m)" using True by simp
    then show ?thesis using v R True m by auto
  next
    case False
    have "real m * 2 powi 1 = real (2 * m)" by simp
    then show ?thesis using v R False m by (metis (no_types))
  qed
qed

lemma view_of_nat_near:
  assumes "k < 2 ^ 54"
  obtains m e k' where "view (f_of_int (int k)) = Fin False m e" "real m * 2 powi e = real k'"
    "k' \<le> k + 1" "k \<le> k' + 1" "k < 2 ^ 53 \<Longrightarrow> k' = k"
proof (cases "k < 2 ^ 53")
  case True
  then obtain m e where "view (f_of_int (int k)) = Fin False m e" "real m * 2 powi e = real k"
    using view_of_nat by blast
  then show ?thesis by (rule that) simp_all
next
  case False
  then obtain m e k' where "view (f_of_int (int k)) = Fin False m e" "real m * 2 powi e = real k'"
    "k' \<le> k + 1" "k \<le> k' + 1"
    using view_of_nat_above [of k] assms by (auto simp only: not_less)
  then show ?thesis by (rule that) (use False in simp)
qed

text \<open>A quotient below \<open>2\<^sup>5\<^sup>3\<close> is rounded to a float between its two neighbouring integers.\<close>

lemma round_ratio_between:
  assumes "0 < d" "n < 2 ^ 53 * d"
  shows "\<exists>m e. round_ratio s n d = Fin s m e \<and> canonical m e
    \<and> (\<forall>k. k * d \<le> n \<longrightarrow> real k \<le> real m * 2 powi e) \<and> (\<forall>k. n \<le> k * d \<longrightarrow> real m * 2 powi e \<le> real k)"
proof (cases "n = 0")
  case True
  then show ?thesis using assms(1) by (auto simp: round_ratio_def canonical_def)
next
  case False
  define e where "e = max (- 1074) (ilog2_ratio n d - 52)"
  define K where "K = nat (- e)"
  have "2 powi (ilog2_ratio n d) \<le> real n / real d" using ilog2_ratio_bounds False assms(1) by simp
  also have "real n / real d < 2 powi 53"
  proof -
    have "real n < real (2 ^ 53 * d)" using assms(2) by (simp only: of_nat_less_iff)
    then show ?thesis using assms(1) by (simp add: divide_less_eq power_int_def)
  qed
  finally have "(2 :: real) powi (ilog2_ratio n d) < 2 powi 53" .
  then have "ilog2_ratio n d < 53" by (rule powi_less)
  then have e: "e \<le> 0" by (simp add: e_def)
  define q r where "q = n * 2 ^ K div d" and "r = n * 2 ^ K mod d"
  have sc: "scale2 n (- e) = n * 2 ^ K" "scale2 d e = d" using e by (auto simp: scale2_def K_def)
  have n: "n * 2 ^ K = q * d + r" "r < d" using assms(1) by (simp_all add: q_def r_def)
  define m where "m = (if 2 * r > d \<or> (2 * r = d \<and> odd q) then q + 1 else q)"
  define m' e' where "m' = (if m = 2 ^ 53 then 2 ^ 52 else m)" and "e' = (if m = 2 ^ 53 then e + 1 else e)"
  have R: "round_ratio s n d = Fin s m' e'"
  proof -
    have "\<not> e' > 971" using e by (simp add: e'_def)
    then show ?thesis
      using False unfolding round_ratio_def Let_def e_def [symmetric] sc q_def [symmetric] r_def [symmetric]
        m_def [symmetric] m'_def [symmetric] e'_def [symmetric] by simp
  qed
  have can: "canonical m' e'" using round_ratio_canonical [OF assms(1), of s n] by (simp add: R)
  have pe: "(2 :: real) powi e = 1 / 2 ^ K" using e by (simp add: K_def power_int_def divide_simps)
  have val: "real m' * 2 powi e' = real m / 2 ^ K"
  proof (cases "m = 2 ^ 53")
    case True
    have "(2 :: real) powi (e + 1) = 2 / 2 ^ K" by (simp add: power_int_add pe)
    then show ?thesis using True by (simp add: m'_def e'_def)
  qed (simp add: m'_def e'_def pe)
  have lo: "k * 2 ^ K \<le> m" if "k * d \<le> n" for k
  proof -
    have "k * 2 ^ K * d \<le> n * 2 ^ K" using mult_le_mono1 [OF that, of "2 ^ K"] by (simp only: ac_simps)
    then have "k * 2 ^ K \<le> q" using assms(1) by (simp add: q_def less_eq_div_iff_mult_less_eq)
    then show ?thesis by (simp add: m_def)
  qed
  have hi: "m \<le> k * 2 ^ K" if "n \<le> k * d" for k
  proof -
    have le: "q * d + r \<le> k * 2 ^ K * d" using mult_le_mono1 [OF that, of "2 ^ K"] n(1) by (simp only: ac_simps)
    then have qk: "q \<le> k * 2 ^ K" using assms(1) by (meson add_leD1 mult_le_cancel2)
    show ?thesis
    proof (cases "q = k * 2 ^ K")
      case True
      then have "r = 0" using le by simp
      then show ?thesis using True assms(1) by (simp add: m_def)
    next
      case False
      then show ?thesis using qk by (simp add: m_def)
    qed
  qed
  have "real k \<le> real m' * 2 powi e'" if "k * d \<le> n" for k
  proof -
    have "real (k * 2 ^ K) \<le> real m" using lo [OF that] by (simp only: of_nat_le_iff)
    then show ?thesis by (simp add: val le_divide_eq)
  qed
  moreover have "real m' * 2 powi e' \<le> real k" if "n \<le> k * d" for k
  proof -
    have "real m \<le> real (k * 2 ^ K)" using hi [OF that] by (simp only: of_nat_le_iff)
    then show ?thesis by (simp add: val divide_le_eq)
  qed
  ultimately show ?thesis using R can by blast
qed

lemma f_as_u64_floor:
  assumes "view g = Fin False m e" "real m * 2 powi e < 2 ^ 64"
  shows "int (unat (f_as_u64 g)) = \<lfloor>real m * 2 powi e\<rfloor>"
proof -
  obtain z where z: "\<lfloor>real m * 2 powi e\<rfloor> = z" by simp
  have b: "0 \<le> z" "z < 2 ^ 64" using assms(2) unfolding z [symmetric] by (simp_all add: floor_less_iff)
  have "trunc_int g = z"
    by (simp add: trunc_int_def assms(1) signed_nat_def trunc_magnitude_floor z del: trunc_magnitude.simps)
  then have "f_as_u64 g = word_of_int z" using assms(1) b by (simp add: f_as_u64_def saturate_def)
  then show ?thesis using b by (simp add: z unsigned_of_int take_bit_int_eq_self)
qed

lemma ratio_le_iff:
  assumes "0 < (b :: nat)"
  shows "real i \<le> real a / real b \<longleftrightarrow> i * b \<le> a" "real a / real b \<le> real i \<longleftrightarrow> a \<le> i * b"
  using assms by (simp_all add: le_divide_eq divide_le_eq flip: of_nat_mult)

text \<open>The quotient of floats lies between the integers around the quotient of what the dividend was rounded to.\<close>

lemma float_quotient_between:
  assumes "unat x < 2 ^ 54" "0 < unat y" "unat y < 2 ^ 53" "unat x + 1 \<le> (2 ^ 53 - 1) * unat y"
  obtains x' where "x' \<le> unat x + 1" "unat x \<le> x' + 1" "unat x < 2 ^ 53 \<Longrightarrow> x' = unat x"
    "\<And>k. k * unat y \<le> x' \<Longrightarrow> k \<le> unat (float_quotient x y)"
    "\<And>k. x' \<le> k * unat y \<Longrightarrow> unat (float_quotient x y) \<le> k"
proof -
  obtain m e x' where x: "view (f_of_int (uint x)) = Fin False m e" "real m * 2 powi e = real x'"
    and near: "x' \<le> unat x + 1" "unat x \<le> x' + 1" "unat x < 2 ^ 53 \<Longrightarrow> x' = unat x"
    using view_of_nat_near [OF assms(1)] by auto
  obtain n g where y: "view (f_of_int (uint y)) = Fin False n g" "real n * 2 powi g = real (unat y)"
    using view_of_nat [OF assms(3)] by auto
  have "0 < real n * 2 powi g" unfolding y(2) using assms(2) by (simp only: of_nat_0_less_iff)
  then have n: "0 < n" by (cases n) simp_all
  define a b where "a = scale2 m (e - g)" and "b = scale2 n (g - e)"
  have b: "0 < b" using n by (simp add: b_def scale2_def)
  have "real a / real b = real m / real n * 2 powi (e - g)"
    using scale2_ratio [OF n, of m "e - g"] by (simp add: a_def b_def)
  also have "\<dots> = real x' / real (unat y)"
    unfolding x(2) [symmetric] y(2) [symmetric] by (simp add: power_int_diff)
  finally have ratio: "real a / real b = real x' / real (unat y)" .
  have iff1: "i * b \<le> a \<longleftrightarrow> i * unat y \<le> x'" for i
    using ratio_le_iff(1) [OF b, of i a] ratio_le_iff(1) [OF assms(2), of i x'] unfolding ratio by blast
  have iff2: "a \<le> i * b \<longleftrightarrow> x' \<le> i * unat y" for i
    using ratio_le_iff(2) [OF b, of a i] ratio_le_iff(2) [OF assms(2), of x' i] unfolding ratio by blast
  note iff = iff1 iff2
  have "x' \<le> (2 ^ 53 - 1) * unat y" using near(1) assms(4) by linarith
  then have ab: "a \<le> (2 ^ 53 - 1) * b" by (simp only: iff)
  then have "a < 2 ^ 53 * b" using b by simp
  then obtain p f where r: "round_ratio False a b = Fin False p f" "canonical p f"
    and lo: "\<And>i. i * b \<le> a \<Longrightarrow> real i \<le> real p * 2 powi f" and hi: "\<And>i. a \<le> i * b \<Longrightarrow> real p * 2 powi f \<le> real i"
    using round_ratio_between [OF b] by blast
  have v: "view (f_div (f_of_int (uint x)) (f_of_int (uint y))) = Fin False p f"
    using r n by (simp add: f_div_def x(1) y(1) flip: a_def b_def del: of_view.simps)
  have "real p * 2 powi f < 2 ^ 64" using hi [OF ab] by simp
  then have q: "int (unat (float_quotient x y)) = \<lfloor>real p * 2 powi f\<rfloor>"
    unfolding float_quotient_def by (rule f_as_u64_floor [OF v])
  have l: "k \<le> unat (float_quotient x y)" if "k * unat y \<le> x'" for k
  proof -
    have "int k \<le> \<lfloor>real p * 2 powi f\<rfloor>" using lo [of k] that by (simp add: iff le_floor_iff)
    then show ?thesis unfolding q [symmetric] by (simp only: of_nat_le_iff)
  qed
  have h: "unat (float_quotient x y) \<le> k" if "x' \<le> k * unat y" for k
  proof -
    have "\<lfloor>real p * 2 powi f\<rfloor> \<le> int k" using hi [of k] that by (simp add: iff floor_le_iff)
    then show ?thesis unfolding q [symmetric] by (simp only: of_nat_le_iff)
  qed
  show ?thesis by (rule that [OF near l h])
qed

lemma float_quotient_div:
  assumes "unat x < 2 ^ 54" "0 < unat y" "unat y < 2 ^ 53" "unat x + 1 \<le> (2 ^ 53 - 1) * unat y"
  shows "unat (float_quotient x y) \<le> unat x div unat y + 1" "unat x div unat y \<le> unat (float_quotient x y) + 1"
proof -
  let ?q = "unat x div unat y"
  obtain x' where x': "x' \<le> unat x + 1" "unat x \<le> x' + 1"
    and lo: "\<And>k. k * unat y \<le> x' \<Longrightarrow> k \<le> unat (float_quotient x y)"
    and hi: "\<And>k. x' \<le> k * unat y \<Longrightarrow> unat (float_quotient x y) \<le> k"
    using float_quotient_between [OF assms] by metis
  have x: "unat x = ?q * unat y + unat x mod unat y" by simp
  have r: "unat x mod unat y < unat y" using assms(2) by simp
  have "x' \<le> (?q + 1) * unat y" unfolding distrib_right using x r x'(1) by linarith
  then show "unat (float_quotient x y) \<le> ?q + 1" by (rule hi)
  show "?q \<le> unat (float_quotient x y) + 1"
  proof (cases ?q)
    case (Suc p)
    then have "?q * unat y = p * unat y + unat y" by simp
    then have "p * unat y \<le> x'" using x x'(2) assms(2) by linarith
    then show ?thesis using lo [of p] Suc by simp
  qed simp
qed

section \<open>The estimate of a quotient limb\<close>

lemma unat_fits_base:
  assumes "unat (a :: u64) \<le> bc_base + 1" "unat b \<le> bc_base"
  shows "unat (a * b) = unat a * unat b"
proof (rule unat_mul_fits)
  have "unat a * unat b \<le> (bc_base + 1) * bc_base" using assms by (rule mult_le_mono)
  then show "unat a * unat b < 2 ^ 64" by (simp add: bc_base_def)
qed

lemma unat_mul_base_add:
  assumes "unat (a :: u64) < bc_base" "unat c < bc_base"
  shows "unat (a * base64 + c) = unat a * bc_base + unat c" "unat a * bc_base + unat c < bc_base * bc_base"
proof -
  have "(unat a + 1) * bc_base \<le> bc_base * bc_base" using assms(1) by (intro mult_le_mono1) simp
  then show lt: "unat a * bc_base + unat c < bc_base * bc_base" using assms(2) by simp
  have "unat (a * base64) = unat a * unat base64" using assms(1) by (intro unat_fits_base) (simp_all add: base_simps)
  then have m: "unat (a * base64) = unat a * bc_base" by (simp add: base_simps)
  show "unat (a * base64 + c) = unat a * bc_base + unat c"
    using lt unfolding m [symmetric] by (intro unat_add_fits) (simp add: bc_base_def)
qed

text \<open>The result of the correction: the largest limb whose product with the two top limbs of the divisor is at most
  the three top limbs of the window.\<close>

definition best_limb :: "nat \<Rightarrow> nat \<Rightarrow> nat \<Rightarrow> bool" where
  "best_limb x d q \<longleftrightarrow> q < bc_base \<and> q * d \<le> x \<and> (\<forall>k. k < bc_base \<and> k * d \<le> x \<longrightarrow> k \<le> q)"

lemma best_limb_intro:
  assumes "q < bc_base" "q * d \<le> x" "\<And>k. k < bc_base \<Longrightarrow> k * d \<le> x \<Longrightarrow> k \<le> q"
  shows "best_limb x d q"
  using assms by (simp add: best_limb_def)

lemma best_limb_dest:
  assumes "best_limb x d q"
  shows "q < bc_base" "q * d \<le> x" "k < bc_base \<Longrightarrow> k * d \<le> x \<Longrightarrow> k \<le> q"
  using assms by (simp_all add: best_limb_def)

lemma qhat_fix_spec:
  "unat vt < bc_base \<Longrightarrow> unat vs < bc_base \<Longrightarrow> unat low < bc_base \<Longrightarrow> unat qhat \<le> bc_base + 1 \<Longrightarrow>
    unat rhat < bc_base \<Longrightarrow> n < unat vt * bc_base + bc_base \<Longrightarrow> unat qhat * unat vt + unat rhat = n \<Longrightarrow>
    (\<And>k. k < bc_base \<Longrightarrow> k * (unat vt * bc_base + unat vs) \<le> n * bc_base + unat low \<Longrightarrow> k \<le> unat qhat) \<Longrightarrow>
    best_limb (n * bc_base + unat low) (unat vt * bc_base + unat vs) (unat (qhat_fix qhat rhat vt vs low))"
proof (induction qhat rhat vt vs low rule: qhat_fix.induct)
  case (1 qhat rhat vt vs low)
  let ?B = bc_base and ?V = "unat vt * bc_base + unat vs" and ?W = "n * bc_base + unat low"
  note p = 1(2-8) and ub = 1(9)
  have rl: "unat (rhat * base64 + low) = unat rhat * ?B + unat low" using p by (intro unat_mul_base_add)
  have qv: "unat (qhat * vs) = unat qhat * unat vs" using p by (intro unat_fits_base) simp_all
  have split: "q * ?V = (q * unat vt + r) * ?B - r * ?B + q * unat vs" for q r
    by (simp add: algebra_simps)
  show ?case
  proof (cases "base64 \<le> qhat \<or> rhat * base64 + low < qhat * vs")
    case False
    then have q: "unat qhat < ?B" and le: "unat qhat * unat vs \<le> unat rhat * ?B + unat low"
      using rl qv by (simp_all add: word_le_nat_alt word_less_nat_alt base_simps not_le not_less)
    have "unat qhat * ?V + unat rhat * ?B = n * ?B + unat qhat * unat vs"
      unfolding p(7) [symmetric] by (simp add: algebra_simps)
    then have "unat qhat * ?V \<le> ?W" using le by linarith
    then have "best_limb ?W ?V (unat qhat)" using q ub by (intro best_limb_intro)
    then show ?thesis using False by (subst qhat_fix.simps) simp
  next
    case True
    have not: "\<not> unat qhat * ?V \<le> ?W" if "unat qhat < ?B"
    proof -
      have "unat rhat * ?B + unat low < unat qhat * unat vs"
        using True that rl qv by (simp add: word_le_nat_alt word_less_nat_alt base_simps)
      moreover have "unat qhat * ?V + unat rhat * ?B = n * ?B + unat qhat * unat vs"
        unfolding p(7) [symmetric] by (simp add: algebra_simps)
      ultimately show ?thesis by linarith
    qed
    have "unat qhat \<noteq> 0" using not bc_base_pos(1) by (metis less_eq_nat.simps(1) mult_zero_left)
    then have "qhat \<noteq> 0" by auto
    then have q1: "unat (qhat - 1) + 1 = unat qhat" by (simp add: unat_minus_one unat_gt_0)
    have r1: "unat (rhat + vt) = unat rhat + unat vt" using p by (intro unat_add_fits) (simp add: bc_base_def)
    have n1: "unat (qhat - 1) * unat vt + unat (rhat + vt) = n"
      unfolding r1 p(7) [symmetric] q1 [symmetric] by (simp add: algebra_simps)
    have ub1: "k \<le> unat (qhat - 1)" if "k < ?B" "k * ?V \<le> ?W" for k
    proof -
      have "k \<noteq> unat qhat" using not that by auto
      then show ?thesis using ub [OF that] q1 by linarith
    qed
    show ?thesis
    proof (cases "base64 \<le> rhat + vt")
      case True': True
      then have rB: "?B \<le> unat (rhat + vt)" by (simp add: word_le_nat_alt base_simps)
      have "unat (qhat - 1) * unat vt < ?B * unat vt" using n1 rB p(6) mult.commute [of ?B "unat vt"] by linarith
      then have q: "unat (qhat - 1) < ?B" by (simp only: mult_less_cancel2)
      have "unat (qhat - 1) * unat vs \<le> ?B * ?B" using q p(2) by (intro mult_le_mono) simp_all
      also have "\<dots> \<le> unat (rhat + vt) * ?B" using rB by (rule mult_le_mono1)
      finally have "unat (qhat - 1) * unat vs \<le> unat (rhat + vt) * ?B" .
      moreover have "unat (qhat - 1) * ?V + unat (rhat + vt) * ?B = n * ?B + unat (qhat - 1) * unat vs"
        unfolding n1 [symmetric] by (simp add: algebra_simps)
      ultimately have "unat (qhat - 1) * ?V \<le> ?W" by linarith
      then have "best_limb ?W ?V (unat (qhat - 1))" using q ub1 by (intro best_limb_intro)
      then show ?thesis using True True' by (subst qhat_fix.simps) (simp add: Let_def)
    next
      case False
      then have rB: "unat (rhat + vt) < ?B" by (simp add: word_le_nat_alt base_simps)
      have "best_limb ?W ?V (unat (qhat_fix (qhat - 1) (rhat + vt) vt vs low))"
        by (rule 1(1) [OF True refl refl False p(1-3) _ rB p(6) n1 ub1]) (use q1 p(4) in simp_all)
      then show ?thesis using True False by (subst qhat_fix.simps) (simp add: Let_def)
    qed
  qed
qed

lemma uint_less: "unat (x :: u64) < 2 ^ k \<Longrightarrow> uint x < 2 ^ k"
  using of_nat_less_iff [of "unat x" "2 ^ k", where ?'a = int] by simp

lemma sint_small: "unat (x :: u64) < 2 ^ 63 \<Longrightarrow> sint x = int (unat x)"
  using uint_less [of x 63] order.trans [of "- (2 ^ 63)" 0 "uint x"] by (simp add: sint_uint signed_take_bit_int_eq_self_iff)

lemma sint_diff_small:
  assumes "unat (a :: u64) < 2 ^ 62" "unat b < 2 ^ 62"
  shows "sint (a - b) = int (unat a) - int (unat b)"
proof -
  have s: "sint a = uint a" "sint b = uint b" using assms sint_small [of a] sint_small [of b] by simp_all
  obtain x y where x: "uint a = x" "0 \<le> x" and y: "uint b = y" "0 \<le> y" by simp
  have "x < 2 ^ 62" "y < 2 ^ 62" using uint_less [OF assms(1)] uint_less [OF assms(2)] unfolding x(1) y(1) by simp_all
  then have "- (2 ^ 63) \<le> x - y" "x - y < 2 ^ 63" using x(2) y(2) by simp_all
  then have "sint (a - b) = x - y" by (simp add: sint_word_ariths s x(1) y(1) signed_take_bit_int_eq_self_iff)
  then show ?thesis by (simp add: x(1) y(1))
qed

lemma knuth_qhat_spec:
  assumes vt: "unat vt < bc_base" "bc_base \<le> 2 * unat vt" and vs: "unat vs < bc_base" and low: "unat low < bc_base"
    and w: "unat w1 \<le> unat vt" "unat w2 < bc_base" and num: "num = w1 * base64 + w2"
  shows "best_limb (unat num * bc_base + unat low) (unat vt * bc_base + unat vs) (unat (knuth_qhat num vt vs low))"
proof -
  let ?n = "unat num" and ?t = "unat vt"
  have w1: "unat w1 < bc_base" using w(1) vt(1) by linarith
  have n: "?n = unat w1 * bc_base + unat w2" "?n < bc_base * bc_base"
    using unat_mul_base_add [OF w1 w(2)] by (simp_all add: num)
  have "unat w1 * bc_base \<le> ?t * bc_base" using w(1) by (rule mult_le_mono1)
  then have n': "?n < ?t * bc_base + bc_base" using n(1) w(2) by linarith
  have t0: "0 < ?t" using vt(2) by (simp add: bc_base_def)
  define q where "q = ?n div ?t"
  define r where "r = ?n mod ?t"
  have qr: "?n = q * ?t + r" "r < ?t" using t0 by (simp_all add: q_def r_def)
  have "q * ?t < (bc_base + 2) * ?t" using qr(1) n' vt(2) unfolding distrib_right mult.commute [of bc_base] by simp
  then have "q < bc_base + 2" by (simp only: mult_less_cancel2)
  then have qB: "q \<le> bc_base + 1" by simp
  define f where "f = float_quotient num vt"
  have "?n + 1 \<le> (2 ^ 53 - 1) * ?t"
    using n(2) vt(2) by (simp add: bc_base_def)
  then have f: "unat f \<le> q + 1" "q \<le> unat f + 1"
    using float_quotient_div [of num vt] n(2) t0 vt(1) by (simp_all add: f_def q_def bc_base_def)
  have "q * ?t \<le> ?n" "?n < 2 ^ 60" "?t < 2 ^ 60" using n(2) vt(1) qr(1) by (simp_all add: bc_base_def)
  then have small: "(q + 1) * ?t < 2 ^ 62" "?n < 2 ^ 62" "?t < 2 ^ 62" "?n + ?t < 2 ^ 62" by simp_all
  have "unat f * ?t \<le> (q + 1) * ?t" using f by (intro mult_le_mono1) linarith
  then have ft: "unat (f * vt) = unat f * ?t" using small(1) by (subst unat_mul_fits) simp_all
  have "unat f * ?t < 2 ^ 62" using small(1) \<open>unat f * ?t \<le> (q + 1) * ?t\<close> by linarith
  then have rh: "sint (num - f * vt) = int ?n - int (unat f * ?t)"
    using small(2) unfolding ft [symmetric] by (intro sint_diff_small)
  have sv: "sint vt = int ?t" using small(3) by (intro sint_small) simp
  have sub: "unat (num - f * vt) = ?n - unat f * ?t" if "unat f * ?t \<le> ?n"
    using that ft by (subst unat_sub) (simp_all add: word_le_nat_alt)
  have "\<exists>qh rh. knuth_qhat num vt vs low = qhat_fix qh rh vt vs low \<and> unat qh = q \<and> unat rh = r"
  proof -
    consider "unat f = q" | "unat f = q + 1" | "q = unat f + 1" using f by linarith
    then show ?thesis
    proof cases
      case 1
      then have "sint (num - f * vt) = int r" unfolding rh qr(1) by simp
      moreover have "\<not> sint vt \<le> int r" unfolding sv using qr(2) by (simp only: of_nat_le_iff not_le)
      ultimately have "knuth_qhat num vt vs low = qhat_fix f (num - f * vt) vt vs low"
        by (simp add: knuth_qhat_def flip: f_def)
      moreover have "unat (num - f * vt) = r" using 1 qr(1) sub by simp
      ultimately show ?thesis using 1 by blast
    next
      case 2
      have "sint (num - f * vt) = int r - int ?t" unfolding rh qr(1) 2 by simp
      moreover have "int r - int ?t < 0" using qr(2) by linarith
      ultimately have "sint (num - f * vt) < 0" by linarith
      then have "knuth_qhat num vt vs low = qhat_fix (f - 1) (num - f * vt + vt) vt vs low"
        by (simp add: knuth_qhat_def flip: f_def)
      moreover have "unat (num - f * vt + vt) = r"
      proof -
        have a: "unat (num + vt) = ?n + ?t" using small(4) by (intro unat_add_fits) simp
        have "unat (num + vt - f * vt) = r"
          using 2 qr(1) a ft by (subst unat_sub) (simp_all add: word_le_nat_alt)
        then show ?thesis by (simp add: algebra_simps)
      qed
      moreover have "unat (f - 1) = q" using 2 by (subst unat_minus_one) auto
      ultimately show ?thesis by blast
    next
      case 3
      have n3: "?n = unat f * ?t + ?t + r" unfolding qr(1) 3 by simp
      then have s3: "sint (num - f * vt) = int r + int ?t" unfolding rh by simp
      moreover have "sint vt \<le> int r + int ?t" "\<not> int r + int ?t < 0" unfolding sv by (simp, linarith)
      ultimately have "knuth_qhat num vt vs low = qhat_fix (f + 1) (num - f * vt - vt) vt vs low"
        by (simp add: knuth_qhat_def flip: f_def)
      moreover have "unat (num - f * vt - vt) = r"
        using sub n3 by (subst unat_sub) (simp_all add: word_le_nat_alt)
      moreover have "unat (f + 1) = q" using 3 qB by (subst unat_add_fits) (simp_all add: bc_base_def)
      ultimately show ?thesis by blast
    qed
  qed
  then obtain qh rh where h: "knuth_qhat num vt vs low = qhat_fix qh rh vt vs low" "unat qh = q" "unat rh = r" by blast
  have "k \<le> q" if "k < bc_base" "k * (?t * bc_base + unat vs) \<le> ?n * bc_base + unat low" for k
  proof (rule ccontr)
    assume "\<not> k \<le> q"
    then have "(q + 1) * ?t \<le> k * ?t" by (intro mult_le_mono1) simp
    then have "?n + 1 \<le> k * ?t" using qr unfolding distrib_right by linarith
    then have "(?n + 1) * bc_base \<le> k * ?t * bc_base" by (rule mult_le_mono1)
    then show False using that(2) low unfolding distrib_left by (simp add: ac_simps)
  qed
  then show ?thesis
    unfolding h(1) using vt(1) vs low qB qr n' h(2,3) by (intro qhat_fix_spec) (simp_all add: ac_simps)
qed

section \<open>Subtracting a multiple of the divisor\<close>

text \<open>The place where a difference of one limb borrows zero, one or two from the next.\<close>

lemma borrow_cases:
  assumes "t < 3 * base64"
  shows "unat ((if t < 2 * base64 then 1 else 0) + (if t < base64 then 1 else 0) :: u64) \<le> 2
    \<and> unat (ucast (t + ((if t < 2 * base64 then 1 else 0) + (if t < base64 then 1 else 0)) * base64 - 2 * base64) :: u32) < bc_base
    \<and> int (unat t) - 2 * int bc_base
      = int (unat (ucast (t + ((if t < 2 * base64 then 1 else 0) + (if t < base64 then 1 else 0)) * base64 - 2 * base64) :: u32))
        - int (unat ((if t < 2 * base64 then 1 else 0) + (if t < base64 then 1 else 0) :: u64)) * int bc_base"
proof -
  have t: "unat t < 300000000" using assms by (simp add: word_less_nat_alt base64_def)
  have iff: "t < 2 * base64 \<longleftrightarrow> unat t < 200000000" "t < base64 \<longleftrightarrow> unat t < 100000000"
    by (simp_all add: word_less_nat_alt base64_def)
  consider "unat t < 100000000" | "100000000 \<le> unat t" "unat t < 200000000" | "200000000 \<le> unat t" by linarith
  then show ?thesis
  proof cases
    case 1
    have e: "t + (1 + 1) * base64 - 2 * base64 = t" by (simp add: base64_def)
    show ?thesis using 1 unfolding iff by (simp add: e unat_lo bc_base_def)
  next
    case 2
    have "unat (t - base64) = unat t - 100000000" using 2 by (subst unat_sub) (simp_all add: word_le_nat_alt base64_def)
    then show ?thesis using 2 unfolding iff by (simp add: unat_lo bc_base_def)
  next
    case 3
    have "unat (t - 2 * base64) = unat t - 200000000" using 3 by (subst unat_sub) (simp_all add: word_le_nat_alt base64_def)
    then show ?thesis using 3 t unfolding iff by (simp add: unat_lo bc_base_def)
  qed
qed

lemma knuth_sub_spec:
  "limbs_ok us \<Longrightarrow> limbs_ok vs \<Longrightarrow> length us = length vs \<Longrightarrow> unat q < bc_base \<Longrightarrow> unat b \<le> 2 \<Longrightarrow> unat ph < bc_base \<Longrightarrow>
    knuth_sub q b ph us vs = (ws, h, b') \<Longrightarrow>
    int (lval us) - int (unat q) * int (lval vs) - int (unat ph) - int (unat b)
      = int (lval ws) - (int (unat h) + int (unat b')) * int bc_base ^ length us
    \<and> limbs_ok ws \<and> length ws = length us \<and> unat h < bc_base \<and> unat b' \<le> 2"
proof (induction q b ph us vs arbitrary: ws rule: knuth_sub.induct)
  case (1 q b ph u us v vs)
  define p where "p = q * ucast v"
  define hi where "hi = p div base64"
  define lo where "lo = p - hi * base64"
  define t where "t = ucast u + 2 * base64 - lo - ph - b"
  define b1 where "b1 = ((if t < 2 * base64 then 1 else 0) + (if t < base64 then 1 else 0) :: u64)"
  define w where "w = (ucast (t + b1 * base64 - 2 * base64) :: u32)"
  have uv: "unat u < bc_base" "unat v < bc_base" "limbs_ok us" "limbs_ok vs" using 1(2,3) by simp_all
  have p: "unat p = unat q * unat v" unfolding p_def using 1(5) uv by (subst unat_fits_base) (simp_all add: unat_up)
  have hi: "unat hi = unat p div bc_base" by (simp add: hi_def unat_div base_simps)
  have pb: "unat p < bc_base * bc_base" unfolding p using 1(5) uv(2) by (rule mult_strict_mono') simp_all
  then have hib: "unat hi < bc_base" unfolding hi by (simp add: less_mult_imp_div_less)
  have "unat (hi * base64) = unat hi * bc_base" using hib by (subst unat_fits_base) (simp_all add: base_simps)
  then have lo: "unat lo = unat p mod bc_base"
    by (simp add: lo_def hi word_le_nat_alt unat_sub minus_div_mult_eq_mod)
  then have lob: "unat lo < bc_base" by simp
  have s: "unat (ucast u + 2 * base64) = unat u + 2 * bc_base"
    using uv(1) by (subst unat_add_fits) (simp_all add: unat_up base64_def bc_base_def)
  have t1: "unat (ucast u + 2 * base64 - lo) = unat u + 2 * bc_base - unat lo"
    using lob s by (subst unat_sub) (simp_all add: word_le_nat_alt)
  have t2: "unat (ucast u + 2 * base64 - lo - ph) = unat u + 2 * bc_base - unat lo - unat ph"
    using lob 1(7) t1 by (subst unat_sub) (simp_all add: word_le_nat_alt)
  have le: "unat lo + unat ph + unat b \<le> unat u + 2 * bc_base" using lob 1(6,7) by linarith
  then have t: "unat t = unat u + 2 * bc_base - unat lo - unat ph - unat b"
    unfolding t_def using t2 by (subst unat_sub) (simp_all add: word_le_nat_alt)
  then have "unat t < 3 * bc_base" using uv(1) by linarith
  then have "t < 3 * base64" by (simp add: word_less_nat_alt base64_def bc_base_def)
  from borrow_cases [OF this] have b: "unat b1 \<le> 2" "unat w < bc_base"
    "int (unat t) - 2 * int bc_base = int (unat w) - int (unat b1) * int bc_base"
    unfolding b1_def w_def by blast+
  have step: "knuth_sub q b ph (u # us) (v # vs) = (case knuth_sub q b1 hi us vs of (ws, h, b) \<Rightarrow> (w # ws, h, b))"
    unfolding knuth_sub.simps(1) Let_def p_def hi_def lo_def t_def b1_def w_def by (rule refl)
  obtain xs h2 c2 where r: "knuth_sub q b1 hi us vs = (xs, h2, c2)" by (cases "knuth_sub q b1 hi us vs")
  then have ws: "ws = w # xs" "h2 = h" "c2 = b'" using 1(8) unfolding step by simp_all
  have "knuth_sub q b1 hi us vs = (xs, h, b')" using r ws by simp
  then have IH: "int (lval us) - int (unat q) * int (lval vs) - int (unat hi) - int (unat b1)
      = int (lval xs) - (int (unat h) + int (unat b')) * int bc_base ^ length us
    \<and> limbs_ok xs \<and> length xs = length us \<and> unat h < bc_base \<and> unat b' \<le> 2"
    by (intro 1(1) [OF p_def hi_def lo_def t_def refl refl b1_def]) (use uv 1(4,5) b(1) hib in simp_all)
  have "int (unat q) * int (unat v) = int (unat lo) + int bc_base * int (unat hi)"
  proof -
    have "unat q * unat v = unat lo + bc_base * unat hi" unfolding lo hi p by simp
    then have "int (unat q * unat v) = int (unat lo + bc_base * unat hi)" by (rule arg_cong)
    then show ?thesis by (simp only: of_nat_mult of_nat_add)
  qed
  moreover have "int (unat t) = int (unat u) + 2 * int bc_base - int (unat lo) - int (unat ph) - int (unat b)"
    using le unfolding t by linarith
  ultimately have first: "int (unat u) - int (unat q) * int (unat v) - int (unat ph) - int (unat b)
      = int (unat w) - int bc_base * (int (unat hi) + int (unat b1))"
    using b(3) by (simp only: distrib_left mult.commute [of "int bc_base"])
  have "int (lval (u # us)) - int (unat q) * int (lval (v # vs)) - int (unat ph) - int (unat b)
      = (int (unat u) - int (unat q) * int (unat v) - int (unat ph) - int (unat b))
        + int bc_base * (int (lval us) - int (unat q) * int (lval vs))"
    by (simp add: algebra_simps)
  also have "\<dots> = int (unat w) + int bc_base
      * (int (lval us) - int (unat q) * int (lval vs) - int (unat hi) - int (unat b1))"
    unfolding first by (simp add: algebra_simps)
  also have "\<dots> = int (lval ws) - (int (unat h) + int (unat b')) * int bc_base ^ length (u # us)"
    unfolding conjunct1 [OF IH] ws(1) by (simp add: algebra_simps)
  finally show ?case using IH b(2) unfolding ws(1) by simp
qed simp_all

lemma add_back_spec:
  "limbs_ok us \<Longrightarrow> limbs_ok vs \<Longrightarrow> length us = length vs \<Longrightarrow> unat c \<le> 1 \<Longrightarrow> add_back c us vs = (ws, c') \<Longrightarrow>
    lval us + lval vs + unat c = lval ws + bc_base ^ length us * unat c' \<and> limbs_ok ws \<and> length ws = length us \<and> unat c' \<le> 1"
proof (induction c us vs arbitrary: ws rule: add_back.induct)
  case (1 c u us v vs)
  define t where "t = u + v + c"
  have u: "unat t = unat u + unat v + unat c" using 1(3-6) by (simp add: t_def unat_add_u32 bc_base_def)
  let ?c = "if base32 \<le> t then 1 else 0 :: u32" and ?x = "if base32 \<le> t then t - base32 else t"
  have x: "unat ?x < bc_base" "unat ?x + bc_base * unat ?c = unat t"
    using u 1(3-6) by (auto simp: word_le_nat_alt unat_sub_u32 base_simps not_le)
  obtain xs d where r: "add_back ?c us vs = (xs, d)" by (cases "add_back ?c us vs")
  then have ws: "ws = ?x # xs" "d = c'" using 1(7) by (auto simp: Let_def t_def split: if_splits)
  have IH: "lval us + lval vs + unat ?c = lval xs + bc_base ^ length us * unat c' \<and> limbs_ok xs
      \<and> length xs = length us \<and> unat c' \<le> 1"
  proof (cases "base32 \<le> t")
    case True
    then show ?thesis using 1(1) [OF t_def True, of xs] 1(3-5) r ws(2) by simp
  next
    case False
    then show ?thesis using 1(2) [OF t_def False, of xs] 1(3-5) r ws(2) by simp
  qed
  obtain X C where XC: "unat ?x = X" "unat ?c = C" by blast
  have "lval (u # us) + lval (v # vs) + unat c = X + bc_base * (lval us + lval vs + C)"
    using x(2) u unfolding XC by (simp add: algebra_simps)
  also have "\<dots> = lval (?x # xs) + bc_base ^ length (u # us) * unat c'"
    using IH unfolding XC by (simp add: XC algebra_simps)
  finally show ?case using IH x(1) unfolding ws(1) by simp
qed simp_all

section \<open>One step of algorithm D\<close>

text \<open>The corrected estimate is the quotient or one more.\<close>

lemma best_limb_quotient:
  assumes Q: "best_limb x d Q" and d: "bc_base \<le> d" and X: "w < X" "v < X"
    and W: "w + X * x < bc_base * (v + X * d)"
  shows "(w + X * x) div (v + X * d) \<le> Q" "Q \<le> (w + X * x) div (v + X * d) + 1"
proof -
  define V where "V = v + X * d"
  define q where "q = (w + X * x) div V"
  have "0 < d" using d by (rule order.strict_trans2 [rotated]) simp
  then have V0: "0 < V" using X(2) by (simp add: V_def)
  have qV: "q * V \<le> w + X * x" "w + X * x < (q + 1) * V"
    using div_mult_mod_eq [of "w + X * x" V] mod_less_divisor [OF V0, of "w + X * x"]
    unfolding q_def distrib_right by linarith+
  have "q * V < bc_base * V" using qV(1) W unfolding V_def by (rule order.strict_trans1)
  then have qB: "q < bc_base" by (simp only: mult_less_cancel2)
  have "X * (q * d) \<le> q * V" by (simp add: V_def algebra_simps)
  then have "X * (q * d) < X * (x + 1)" using qV(1) X(1) unfolding distrib_left by linarith
  then have "q * d < x + 1" by (simp only: mult_less_cancel1)
  then show "(w + X * x) div (v + X * d) \<le> Q"
    using best_limb_dest(3) [OF Q qB] by (simp add: q_def V_def)
  have "Q \<le> q + 1"
  proof (rule ccontr)
    assume "\<not> Q \<le> q + 1"
    then obtain p where p: "Q = p + 1" "q + 1 \<le> p" by (cases Q) auto
    have "X * (Q * d) \<le> X * x" using best_limb_dest(2) [OF Q] by (rule mult_le_mono2)
    also have "\<dots> \<le> w + X * x" by simp
    also have "\<dots> < (q + 1) * V" by (rule qV)
    also have "\<dots> \<le> p * V" using p(2) by (rule mult_le_mono1)
    also have "\<dots> \<le> p * (X + X * d)" unfolding V_def using X(2) by (intro mult_le_mono2) simp
    also have "\<dots> = X * (p * (d + 1))" by (simp add: algebra_simps)
    finally have "Q * d < p * (d + 1)" by (simp only: mult_less_cancel1)
    then have "d < p" by (simp add: p(1))
    then show False using best_limb_dest(1) [OF Q] p(1) d by linarith
  qed
  then show "Q \<le> (w + X * x) div (v + X * d) + 1" by (simp add: q_def V_def)
qed

lemma nth_ok: "limbs_ok xs \<Longrightarrow> i < length xs \<Longrightarrow> unat (xs ! i) < bc_base"
  by (simp add: limbs_ok_def)

lemma lval_top: "n < length xs \<Longrightarrow> lval (take (Suc n) xs) = lval (take n xs) + bc_base ^ n * unat (xs ! n)"
  by (simp add: take_Suc_conv_app_nth bval_append min_def)

text \<open>The top limbs of window and divisor give the quotient or one more.\<close>

lemma knuth_qhat_near:
  assumes ok: "limbs_ok w" "limbs_ok v" and l: "length v = n + 2" "length w = n + 3"
    and top: "bc_base \<le> 2 * unat (v ! (n + 1))" and W: "lval w < bc_base * lval v"
  defines "Q \<equiv> unat (knuth_qhat (ucast (w ! (n + 2)) * base64 + ucast (w ! (n + 1))) (ucast (v ! (n + 1))) (ucast (v ! n)) (ucast (w ! n)))"
  shows "Q < bc_base" "lval w div lval v \<le> Q" "Q \<le> lval w div lval v + 1"
proof -
  let ?X = "bc_base ^ n"
  have vd: "lval v = lval (take n v) + ?X * (unat (v ! (n + 1)) * bc_base + unat (v ! n))"
    using lval_top [of n v] lval_top [of "Suc n" v] l by (simp add: algebra_simps)
  have wd: "lval w = lval (take n w) + ?X * ((unat (w ! (n + 2)) * bc_base + unat (w ! (n + 1))) * bc_base + unat (w ! n))"
    using lval_top [of n w] lval_top [of "Suc n" w] lval_top [of "Suc (Suc n)" w] l
    by (simp add: algebra_simps numeral_2_eq_2)
  have small: "lval (take n v) < ?X" "lval (take n w) < ?X"
    using lval_less [OF limbs_ok_parts(1) [OF ok(2)], of n] lval_less [OF limbs_ok_parts(1) [OF ok(1)], of n] l by simp_all
  have limbs: "unat (v ! (n + 1)) < bc_base" "unat (v ! n) < bc_base" "unat (w ! n) < bc_base" "unat (w ! (n + 1)) < bc_base"
      "unat (w ! (n + 2)) < bc_base"
    using ok l by (simp_all add: nth_ok)
  have le: "unat (w ! (n + 2)) \<le> unat (v ! (n + 1))"
  proof (rule ccontr)
    assume "\<not> unat (w ! (n + 2)) \<le> unat (v ! (n + 1))"
    then have "(unat (v ! (n + 1)) + 1) * (bc_base * (bc_base * ?X)) \<le> unat (w ! (n + 2)) * (bc_base * (bc_base * ?X))"
      by (intro mult_le_mono1) simp
    also have "\<dots> \<le> lval w" by (simp add: wd algebra_simps)
    finally have "(unat (v ! (n + 1)) + 1) * (bc_base * (bc_base * ?X)) < bc_base * lval v" using W by (rule order.strict_trans1)
    moreover have "(unat (v ! (n + 1)) + 1) * (bc_base * (bc_base * ?X)) = bc_base * ((unat (v ! (n + 1)) + 1) * (bc_base * ?X))"
      by (rule mult.left_commute)
    ultimately have "(unat (v ! (n + 1)) + 1) * (bc_base * ?X) < lval v" by (simp only: mult_less_cancel1)
    moreover have "(unat (v ! n) + 1) * ?X \<le> bc_base * ?X" using limbs(2) by (intro mult_le_mono1) simp
    ultimately show False using small(1) by (simp add: vd algebra_simps)
  qed
  have "unat (ucast (w ! (n + 2)) * base64 + ucast (w ! (n + 1)) :: u64) = unat (w ! (n + 2)) * bc_base + unat (w ! (n + 1))"
    using unat_mul_base_add(1) [of "ucast (w ! (n + 2))" "ucast (w ! (n + 1))"] limbs by (simp add: unat_up)
  then have Q: "best_limb ((unat (w ! (n + 2)) * bc_base + unat (w ! (n + 1))) * bc_base + unat (w ! n))
      (unat (v ! (n + 1)) * bc_base + unat (v ! n)) Q"
    unfolding Q_def using knuth_qhat_spec [of "ucast (v ! (n + 1))" "ucast (v ! n)" "ucast (w ! n)" "ucast (w ! (n + 2))"
        "ucast (w ! (n + 1))", OF _ _ _ _ _ _ refl] limbs le top by (simp add: unat_up)
  show "Q < bc_base" by (rule best_limb_dest(1) [OF Q])
  have "0 < unat (v ! (n + 1))" using top by (simp add: bc_base_def)
  then have "1 * bc_base \<le> unat (v ! (n + 1)) * bc_base" by (intro mult_le_mono1) simp
  then have d: "bc_base \<le> unat (v ! (n + 1)) * bc_base + unat (v ! n)" by linarith
  show "lval w div lval v \<le> Q" "Q \<le> lval w div lval v + 1"
    using best_limb_quotient [OF Q d small(2,1)] W unfolding wd vd by blast+
qed

lemma quotient_remainder:
  "(w :: nat) = q * v + r \<Longrightarrow> r < v \<Longrightarrow> w div v = q \<and> w mod v = r"
  by (metis add.commute div_mult_self3 div_less add_0 less_nat_zero_code mod_less mod_mult_self3 gr_implies_not0)

text \<open>The case where one multiple of the divisor too many was subtracted.\<close>

lemma knuth_window_spec:
  assumes ok: "limbs_ok w" "limbs_ok v" and l: "length v = n + 2" "length w = n + 3"
    and top: "bc_base \<le> 2 * unat (v ! (n + 1))" and W: "lval w < bc_base * lval v"
    and r: "knuth_window w v = (w', q)"
  shows "lval w = unat q * lval v + lval w' \<and> lval w' < lval v \<and> limbs_ok w' \<and> length w' = length w \<and> unat q < bc_base"
proof -
  define Q where "Q = knuth_qhat (ucast (w ! (n + 2)) * base64 + ucast (w ! (n + 1))) (ucast (v ! (n + 1))) (ucast (v ! n)) (ucast (w ! n))"
  define d where "d = lval w div lval v"
  define m where "m = lval w mod lval v"
  have near: "unat Q < bc_base" "d \<le> unat Q" "unat Q \<le> d + 1"
    using knuth_qhat_near [OF ok l top W] by (simp_all add: Q_def d_def)
  have V: "0 < lval v" using W by (cases "lval v") simp_all
  have dm: "lval w = d * lval v + m" "m < lval v" using V by (simp_all add: d_def m_def)
  have qs: "unat (ucast Q :: u32) = unat Q" using near(1) by (simp add: unat_lo bc_base_def)
  have idx: "n + 2 - 1 = n + 1" "n + 2 - 2 = n" by simp_all
  have rw: "knuth_window w v = (if Q = 0 then (w, 0) else
      case knuth_sub Q 0 0 (take (n + 2) w) v of (ws, carry, borrow) \<Rightarrow>
        if carry + borrow \<le> ucast (w ! (n + 2)) then (ws @ [ucast (ucast (w ! (n + 2)) - (carry + borrow))], ucast Q)
        else case add_back 0 ws v of (ws', c) \<Rightarrow>
          (ws' @ [ucast ((ucast (ucast (ucast (w ! (n + 2)) + base64 - (carry + borrow)) :: u32) + ucast c) mod base64)], ucast (Q - 1)))"
    unfolding knuth_window_def Let_def l(1) idx Q_def by (rule refl)
  show ?thesis
  proof (cases "Q = 0")
    case True
    then have "d = 0" using near(2) by simp
    then show ?thesis using True r dm ok l by (simp add: rw)
  next
    case False
    obtain ws carry borrow where ks: "knuth_sub Q 0 0 (take (n + 2) w) v = (ws, carry, borrow)"
      by (cases "knuth_sub Q 0 0 (take (n + 2) w) v")
    have S: "int (lval (take (n + 2) w)) - int (unat Q) * int (lval v) - int (unat (0 :: u64)) - int (unat (0 :: u64))
        = int (lval ws) - (int (unat carry) + int (unat borrow)) * int bc_base ^ length (take (n + 2) w)
      \<and> limbs_ok ws \<and> length ws = length (take (n + 2) w) \<and> unat carry < bc_base \<and> unat borrow \<le> 2"
      by (rule knuth_sub_spec [OF _ _ _ _ _ _ ks]) (use ok l near(1) in \<open>simp_all add: limbs_ok_parts\<close>)
    have lws: "length ws = n + 2" "limbs_ok ws" using S l by simp_all
    have sub: "unat (carry + borrow) = unat carry + unat borrow"
      using S by (intro unat_add_fits) (simp add: bc_base_def)
    have cur: "unat (ucast (w ! (n + 2)) :: u64) = unat (w ! (n + 2))" by (rule unat_up)
    have wt: "unat (w ! (n + 2)) < bc_base" using nth_ok [OF ok(1)] l by simp
    let ?X = "bc_base ^ (n + 2)"
    have lw: "lval w = lval (take (n + 2) w) + ?X * unat (w ! (n + 2))"
      using lval_top [of "n + 2" w] l by simp
    define D where "D = int (unat (w ! (n + 2))) - int (unat (carry + borrow))"
    have bal: "int (lval w) - int (unat Q) * int (lval v) = int (lval ws) + int ?X * D"
      using conjunct1 [OF S] l unfolding lw D_def sub by (simp add: algebra_simps)
    have lt: "lval ws < ?X" "lval v < ?X" using lval_less [OF lws(2)] lval_less [OF ok(2)] lws(1) l(1) by simp_all
    show ?thesis
    proof (cases "unat Q = d")
      case True
      have "int (lval w) - int (unat Q) * int (lval v) = int m" unfolding dm(1) True by simp
      then have m: "int m = int (lval ws) + int ?X * D" using bal by simp
      have "D = 0"
      proof -
        have "int ?X * D < int ?X * 1" "int ?X * (- 1) < int ?X * D" using m lt dm(2) by linarith+
        then have "D < 1" "- 1 < D" by (simp_all only: mult_less_cancel_left_pos of_nat_0_less_iff bc_base_pos)
        then show ?thesis by linarith
      qed
      then have mm: "lval ws = m" using m by simp
      have e: "unat (carry + borrow) = unat (w ! (n + 2))" using \<open>D = 0\<close> unfolding D_def by linarith
      then have z: "ucast (w ! (n + 2)) - (carry + borrow) = 0"
        using cur by (metis right_minus_eq word_unat_eq_iff)
      then have "carry + borrow \<le> ucast (w ! (n + 2))" by simp
      then have res: "w' = ws @ [0]" "q = ucast Q" using r False z unfolding rw ks by simp_all
      show ?thesis using dm True mm lws l near(1) qs by (simp add: res bval_append)
    next
      case neq: False
      then have Q1: "unat Q = d + 1" using near by linarith
      have "int (lval w) - int (unat Q) * int (lval v) = int m - int (lval v)" unfolding dm(1) Q1 by (simp add: algebra_simps)
      then have m: "int m - int (lval v) = int (lval ws) + int ?X * D" using bal by simp
      have D: "D = - 1"
      proof -
        have "int ?X * D < int ?X * 0" "int ?X * (- 2) < int ?X * D" using m lt dm(2) by linarith+
        then have "D < 0" "- 2 < D" by (simp_all only: mult_less_cancel_left_pos of_nat_0_less_iff bc_base_pos)
        then show ?thesis by linarith
      qed
      have e: "unat (carry + borrow) = unat (w ! (n + 2)) + 1" using D unfolding D_def by linarith
      have not: "\<not> carry + borrow \<le> ucast (w ! (n + 2))" using e cur by (simp add: word_le_nat_alt)
      have "int ?X * D = - int ?X" unfolding D by simp
      then have ms: "lval ws + lval v = m + ?X" using m by linarith
      obtain ws' c where ab: "add_back 0 ws v = (ws', c)" by (cases "add_back 0 ws v")
      have A: "lval ws + lval v + unat (0 :: u32) = lval ws' + bc_base ^ length ws * unat c \<and> limbs_ok ws'
          \<and> length ws' = length ws \<and> unat c \<le> 1"
        by (rule add_back_spec [OF _ _ _ _ ab]) (use ok lws l in simp_all)
      then have lws': "limbs_ok ws'" "length ws' = n + 2" "lval ws' < ?X" using lval_less [of ws'] lws by simp_all
      have c: "unat c = 1" using bit_cases [of c] A ms lws' lws(1) by auto
      then have mm: "lval ws' = m" using A ms lws(1) by simp
      have t: "unat (ucast (w ! (n + 2)) + base64 - (carry + borrow)) = bc_base - 1"
      proof -
        have "unat (ucast (w ! (n + 2)) + base64) = unat (w ! (n + 2)) + bc_base"
          using cur wt by (subst unat_add_fits) (simp_all add: base_simps)
        then show ?thesis using e by (subst unat_sub) (simp_all add: word_le_nat_alt bc_base_def)
      qed
      define y where "y = (ucast (ucast (w ! (n + 2)) + base64 - (carry + borrow)) :: u32)"
      have y: "unat y = bc_base - 1" using t by (simp add: y_def unat_lo bc_base_def)
      have "unat (ucast y + ucast c :: u64) = bc_base"
        using y c by (subst unat_add_fits) (simp_all add: unat_up bc_base_def)
      then have "(ucast y + ucast c) mod base64 = 0"
        by (simp add: word_unat_eq_iff unat_mod base_simps)
      note z = this [unfolded y_def]
      have res: "w' = ws' @ [0]" "q = ucast (Q - 1)"
        using r unfolding rw ks prod.case if_not_P [OF False] if_not_P [OF not] ab z by simp_all
      have "unat (Q - 1) = d" using Q1 False by (simp add: unat_minus_one unat_gt_0)
      then have "unat q = d" using near Q1 by (simp add: res unat_lo bc_base_def)
      then show ?thesis using dm mm lws' l near Q1 by (simp add: res bval_append)
    qed
  qed
qed

section \<open>Algorithm D\<close>

lemma knuth_step_spec:
  assumes ok: "limbs_ok u" "limbs_ok v" and l: "length v = n + 2" "length u \<ge> j + n + 3"
    and top: "bc_base \<le> 2 * unat (v ! (n + 1))" and W: "lval (drop (Suc j) u) < lval v"
    and r: "knuth_step u v j = (u', q)"
  shows "lval u = bc_base ^ j * (unat q * lval v) + lval u' \<and> lval (drop j u') < lval v \<and> limbs_ok u' \<and> length u' = length u
    \<and> unat q < bc_base"
proof -
  define w where "w = take (n + 3) (drop j u)"
  define h where "h = drop (j + (n + 3)) u"
  have lw: "length w = n + 3" "limbs_ok w" using l ok(1) by (simp_all add: w_def limbs_ok_parts)
  have "h = drop (n + 3) (drop j u)" by (simp add: h_def add.commute)
  then have split: "drop j u = w @ h" unfolding w_def by (simp only: append_take_drop_id)
  have u: "u = take j u @ w @ h" by (simp flip: split)
  have dS: "drop (Suc j) u = drop 1 w @ h"
  proof -
    have "drop (Suc j) u = drop 1 (w @ h)" by (simp flip: split)
    then show ?thesis using lw(1) by simp
  qed
  have "lval v < bc_base ^ (n + 2)" using lval_less [OF ok(2)] l(1) by simp
  moreover have "lval (drop 1 w) + bc_base ^ (n + 2) * lval h < lval v" using W lw(1) unfolding dS by (simp add: bval_append)
  ultimately have "bc_base ^ (n + 2) * lval h < bc_base ^ (n + 2) * 1" by linarith
  then have "lval h < 1" by (simp only: mult_less_cancel1)
  then have h0: "lval h = 0" by simp
  have wc: "lval w < bc_base * lval v"
  proof -
    obtain x xs where x: "w = x # xs" using lw(1) by (cases w) simp_all
    have "lval xs < lval v" using W h0 by (simp add: dS x bval_append)
    then have "bc_base * (lval xs + 1) \<le> bc_base * lval v" by (intro mult_le_mono2) simp
    then show ?thesis using lw(2) by (simp add: x)
  qed
  obtain w' where kw: "knuth_window w v = (w', q)" "u' = take j u @ w' @ h"
    using r l(1) by (auto simp: knuth_step_def Let_def w_def h_def numeral_3_eq_3 split: prod.splits)
  note s = knuth_window_spec [OF lw(2) ok(2) l(1) lw(1) top wc kw(1)]
  have lj: "length (take j u) = j" using l(2) by simp
  have "lval u = lval (take j u) + bc_base ^ j * lval w" using lj h0 by (subst u) (simp add: bval_append)
  also have "\<dots> = bc_base ^ j * (unat q * lval v) + lval u'"
    using s h0 lj by (simp add: kw(2) bval_append algebra_simps)
  finally have "lval u = bc_base ^ j * (unat q * lval v) + lval u'" .
  moreover have "drop j u' = w' @ h" using lj by (simp add: kw(2))
  moreover have "limbs_ok u'" using s ok(1) by (simp add: kw(2) h_def limbs_ok_parts)
  moreover have "length u' = length u"
  proof -
    have "length u' = j + length w + length h" using s lj by (simp add: kw(2))
    also have "\<dots> = length (take j u @ w @ h)" using lj by simp
    finally show ?thesis by (simp flip: u)
  qed
  ultimately show ?thesis using s h0 by (simp add: bval_append)
qed

lemma knuth_spec:
  "limbs_ok u \<Longrightarrow> limbs_ok v \<Longrightarrow> length v = n + 2 \<Longrightarrow> j + n + 2 \<le> length u \<Longrightarrow> bc_base \<le> 2 * unat (v ! (n + 1)) \<Longrightarrow>
    lval (drop j u) < lval v \<Longrightarrow> knuth u v j = (u', qs) \<Longrightarrow>
    lval u = lval qs * lval v + lval u' \<and> lval u' < lval v \<and> limbs_ok u' \<and> limbs_ok qs \<and> length u' = length u \<and> length qs = j"
proof (induction u v j arbitrary: u' qs rule: knuth.induct)
  case (1 u v)
  then show ?case by simp
next
  case (2 u v j)
  obtain u1 q where s: "knuth_step u v j = (u1, q)" by (cases "knuth_step u v j")
  obtain u2 qs2 where k: "knuth u1 v j = (u2, qs2)" by (cases "knuth u1 v j")
  have e: "u' = u2" "qs = qs2 @ [q]" using 2(8) s k by simp_all
  have S: "lval u = bc_base ^ j * (unat q * lval v) + lval u1 \<and> lval (drop j u1) < lval v \<and> limbs_ok u1
      \<and> length u1 = length u \<and> unat q < bc_base"
    using knuth_step_spec [OF 2(2,3,4) _ 2(6,7) s] 2(5) by simp
  have "lval u1 = lval qs2 * lval v + lval u2 \<and> lval u2 < lval v \<and> limbs_ok u2 \<and> limbs_ok qs2 \<and> length u2 = length u1
      \<and> length qs2 = j"
    by (rule 2(1) [OF s [symmetric] refl _ _ _ _ _ _ k]) (use 2 S in simp_all)
  then show ?case using S by (simp add: e bval_append algebra_simps)
qed

text \<open>The normalising factor is exact.\<close>

lemma normal_factor_exact:
  assumes "0 < unat x" "unat x < bc_base"
  shows "unat (normal_factor x) = bc_base div (unat x + 1)"
proof -
  define y where "y = ucast x + (1 :: u64)"
  define t where "t = unat x + 1"
  have y: "unat y = t" using assms by (subst y_def, subst unat_add_fits) (simp_all add: t_def unat_up bc_base_def)
  have t: "2 \<le> t" "t \<le> bc_base" using assms by (simp_all add: t_def)
  define f where "f = float_quotient base64 y"
  define q where "q = bc_base div t"
  define r where "r = bc_base mod t"
  have qr: "bc_base = q * t + r" "r < t" using t(1) by (simp_all add: q_def r_def)
  have q: "1 \<le> q" "q \<le> bc_base" using t by (simp_all add: q_def div_le_dividend div_greater_zero_iff Suc_le_eq)
  have "unat f \<le> q + 1" "q \<le> unat f + 1"
    using float_quotient_div [of base64 y] t y by (simp_all add: f_def q_def base_simps)
  then consider "unat f = q" | "unat f = q + 1" | "unat f + 1 = q" by linarith
  moreover have m: "unat (a * y) = unat a * t" if "unat a \<le> bc_base + 1" for a
    using that t(2) y by (subst unat_fits_base) simp_all
  moreover have s: "unat (f + 1) = unat f + 1" if "unat f \<le> bc_base"
    using that by (subst unat_add_fits) (simp_all add: bc_base_def)
  moreover have w: "base64 < a * y \<longleftrightarrow> bc_base < unat a * t" "a * y \<le> base64 \<longleftrightarrow> unat a * t \<le> bc_base"
    if "unat a \<le> bc_base + 1" for a
    using m [OF that] by (simp_all add: word_less_nat_alt word_le_nat_alt base_simps)
  ultimately have "unat (if base64 < f * y then f - 1 else if (f + 1) * y \<le> base64 then f + 1 else f) = q"
  proof cases
    case 1
    have "\<not> base64 < f * y" using w(1) [of f] 1 q qr by simp
    moreover have "\<not> (f + 1) * y \<le> base64" using w(2) [of "f + 1"] s 1 q qr by simp
    ultimately show ?thesis using 1 by simp
  next
    case 2
    have "base64 < f * y" using w(1) [of f] 2 q qr by simp
    moreover have "unat (f - 1) = q" using 2 by (subst unat_minus_one) auto
    ultimately show ?thesis by simp
  next
    case 3
    have l: "(unat f + 1) * t \<le> bc_base" using 3 qr(1) by simp
    have "unat f * t \<le> bc_base" using l unfolding distrib_right by linarith
    then have "\<not> base64 < f * y" using w(1) [of f] 3 q by simp
    moreover have u: "unat (f + 1) = q" using s 3 q by simp
    moreover have "q * t \<le> bc_base" using qr(1) by simp
    then have "(f + 1) * y \<le> base64" using w(2) [of "f + 1"] q unfolding u by simp
    ultimately show ?thesis by simp
  qed
  moreover have "normal_factor x = ucast (if base64 < f * y then f - 1 else if (f + 1) * y \<le> base64 then f + 1 else f)"
    unfolding normal_factor_def Let_def y_def [symmetric] f_def [symmetric] by (rule refl)
  ultimately have "unat (normal_factor x) = q" using q(2) by (simp add: unat_lo bc_base_def)
  then show ?thesis by (simp add: q_def t_def)
qed

section \<open>Quotient and remainder\<close>

lemma lval_top_bounds:
  assumes "limbs_ok v" "length v = n + 2"
  shows "unat (v ! (n + 1)) * bc_base ^ (n + 1) \<le> lval v" "lval v < (unat (v ! (n + 1)) + 1) * bc_base ^ (n + 1)"
proof -
  have e: "lval v = lval (take (n + 1) v) + bc_base ^ (n + 1) * unat (v ! (n + 1))"
    using lval_top [of "n + 1" v] assms(2) by simp
  have "lval (take (n + 1) v) < bc_base ^ (n + 1)"
    using lval_less [OF limbs_ok_parts(1) [OF assms(1)], of "n + 1"] assms(2) by simp
  then show "unat (v ! (n + 1)) * bc_base ^ (n + 1) \<le> lval v" "lval v < (unat (v ! (n + 1)) + 1) * bc_base ^ (n + 1)"
    unfolding e by (simp_all add: algebra_simps)
qed

text \<open>The factor makes the top limb at least half the base.\<close>

lemma normal_factor_half:
  assumes "0 < x" "x < bc_base"
  shows "bc_base \<le> 2 * (bc_base div (x + 1) * x)" "1 \<le> bc_base div (x + 1)" "bc_base div (x + 1) * (x + 1) \<le> bc_base"
proof -
  define f where "f = bc_base div (x + 1)"
  define r where "r = bc_base mod (x + 1)"
  have fr: "bc_base = f * (x + 1) + r" "r < x + 1" unfolding f_def r_def by (simp_all only: div_mult_mod_eq mod_less_divisor)
  have f: "1 \<le> f" using assms by (simp add: f_def div_greater_zero_iff Suc_le_eq)
  have even: "2 * (bc_base div 2) = bc_base" by (simp add: bc_base_def)
  have "bc_base \<le> 2 * (f * x)"
  proof (cases "x = 1")
    case True
    have "f = bc_base div 2" unfolding f_def True by (simp only: one_add_one)
    then show ?thesis using even True by simp
  next
    case x: False
    show ?thesis
    proof (cases "f = 1")
      case True
      then have "bc_base \<le> 2 * x + 1" using fr by simp
      then have "bc_base \<le> 2 * x" using even by presburger
      then show ?thesis by (simp add: True)
    next
      case False
      then have "2 * (x - 1) \<le> f * (x - 1)" using f by (intro mult_le_mono1) simp
      moreover have "f * x = f * (x - 1) + f" using assms(1) by (cases x) simp_all
      ultimately have "f + r \<le> f * x" using fr(2) x assms(1) by linarith
      moreover have "bc_base = f * x + f + r" using fr(1) by simp
      ultimately show ?thesis by linarith
    qed
  qed
  then show "bc_base \<le> 2 * (bc_base div (x + 1) * x)" by (simp add: f_def)
  show "1 \<le> bc_base div (x + 1)" using f by (simp add: f_def)
  show "bc_base div (x + 1) * (x + 1) \<le> bc_base" by (rule div_times_less_eq_dividend)
qed

text \<open>Algorithm D on operands scaled by a common factor.\<close>

lemma knuth_scaled:
  assumes ok: "limbs_ok u" "limbs_ok v" and l: "length v = n + 2" "length u = m + 1" "n + 2 \<le> m"
    and sc: "lval v = f * D" "lval u = f * N" "bc_base ^ (n + 1) \<le> D" "N < bc_base ^ m" "0 < f"
    and top: "bc_base \<le> 2 * unat (v ! (n + 1))"
    and r: "knuth u v (length u - length v) = (u', q)"
  shows "lval q = N div D" "lval (take (length v) u') = f * (N mod D)" "limbs_ok q" "limbs_ok (take (length v) u')"
proof -
  define j where "j = length u - length v"
  have j: "j + n + 2 \<le> length u" "m = j + (n + 1)" using l by (simp_all add: j_def)
  have "bc_base ^ j * lval (drop j u) \<le> lval u" using bval_split [of j "map unat u"] j(1) by (simp add: drop_map)
  also have "\<dots> = f * N" by (rule sc)
  also have "\<dots> < f * bc_base ^ m" using sc(4,5) by simp
  also have "\<dots> = bc_base ^ j * (f * bc_base ^ (n + 1))" unfolding j(2) power_add by (simp add: algebra_simps)
  also have "\<dots> \<le> bc_base ^ j * lval v" unfolding sc(1) using sc(3) by (intro mult_le_mono2)
  finally have "lval (drop j u) < lval v" by (simp only: mult_less_cancel1)
  then have K: "lval u = lval q * lval v + lval u' \<and> lval u' < lval v \<and> limbs_ok u' \<and> limbs_ok q \<and> length u' = length u \<and> length q = j"
    using r by (intro knuth_spec [OF ok l(1) j(1) top]) (simp_all add: j_def)
  define R where "R = lval u'"
  have e: "f * N = lval q * (f * D) + R" "R < f * D" using K unfolding sc(1,2) R_def by simp_all
  have "lval q * D \<le> N"
  proof -
    have "f * (lval q * D) \<le> f * N" unfolding e(1) by simp
    then show ?thesis using sc(5) by simp
  qed
  then obtain s where s: "N = lval q * D + s" using le_Suc_ex by blast
  have Rs: "R = f * s" using e(1) unfolding s distrib_left by simp
  then have "s < D" using e(2) by simp
  then have nd: "N div D = lval q \<and> N mod D = s" using s by (intro quotient_remainder)
  then show "lval q = N div D" by simp
  have "lval v < bc_base ^ length v" by (rule lval_less [OF ok(2)])
  moreover have "lval u' = lval (take (length v) u') + bc_base ^ length v * lval (drop (length v) u')"
    using bval_split [of "length v" "map unat u'"] K l by (simp add: drop_map take_map)
  ultimately have "bc_base ^ length v * lval (drop (length v) u') < bc_base ^ length v * 1" using K by linarith
  then have "lval (drop (length v) u') < 1" by (simp only: mult_less_cancel1)
  then have "lval (take (length v) u') = R"
    using bval_split [of "length v" "map unat u'"] K l by (simp add: drop_map take_map R_def)
  then show "lval (take (length v) u') = f * (N mod D)" using Rs nd by simp
  show "limbs_ok q" "limbs_ok (take (length v) u')" using K by (simp_all add: limbs_ok_parts)
qed

lemma divrem_slices_spec:
  assumes ok: "limbs_ok n" "limbs_ok d" and d: "d \<noteq> []" "last d \<noteq> 0" and l: "length d \<le> length n"
    and r: "divrem_slices n d True = (q, r)"
  shows "lval q = lval n div lval d \<and> lval r = lval n mod lval d \<and> limbs_ok q \<and> limbs_ok r"
proof (cases "length d = 1")
  case True
  then obtain x where x: "d = [x]" by (cases d) auto
  obtain q' rem where s: "div_small_in_place n x = (q', rem)" by (cases "div_small_in_place n x")
  have e: "q = q'" "r = [rem]" using r s by (simp_all add: divrem_slices_def x)
  have x0: "0 < unat x" using d(2) by (simp add: x unat_gt_0)
  note S = div_small_in_place_spec [OF ok(1) x0 s]
  have "unat rem < bc_base" using S(2) ok(2) by (simp add: x)
  then show ?thesis using quotient_remainder [OF S(1,2)] S by (simp add: e x)
next
  case False
  then obtain k where k: "length d = k + 2" using d(1) by (cases "length d" rule: nat.exhaust; cases "length d - 1" rule: nat.exhaust) auto
  define x where "x = d ! (k + 1)"
  have lx: "last d = x" using d(1) k by (simp add: last_conv_nth x_def)
  then have x0: "0 < unat x" using d(2) by (simp add: unat_gt_0)
  have xB: "unat x < bc_base" using nth_ok [OF ok(2)] k by (simp add: x_def)
  define F where "F = normal_factor x"
  define f where "f = bc_base div (unat x + 1)"
  have F: "unat F = f" using normal_factor_exact [OF x0 xB] by (simp add: F_def f_def)
  have f: "bc_base \<le> 2 * (f * unat x)" "1 \<le> f" "f * (unat x + 1) \<le> bc_base"
    using normal_factor_half [OF x0 xB] by (simp_all add: f_def)
  have dB: "bc_base ^ (k + 1) \<le> lval d" using lval_ge [OF d] by (simp add: k)
  have nB: "lval n < bc_base ^ length n" by (rule lval_less [OF ok(1)])
  have d_def: "divrem_slices n d True =
      (case (if 1 < F then (case mul_small_slice d F of (v, _) \<Rightarrow> case mul_small_slice n F of (u, c) \<Rightarrow> (v, u @ [c])) else (d, n @ [0]))
       of (v, u) \<Rightarrow> case knuth u v (length u - length v) of (u, q) \<Rightarrow>
         (q, if 1 < F then fst (div_small_in_place (take (length d) u) F) else take (length d) u))"
    using False k by (simp add: divrem_slices_def Let_def F_def x_def)
  show ?thesis
  proof (cases "1 < F")
    case True
    then have f1: "1 < f" using F by (simp add: word_less_nat_alt)
    obtain v c where v: "mul_small_slice d F = (v, c)" by (cases "mul_small_slice d F")
    obtain w c' where w: "mul_small_slice n F = (w, c')" by (cases "mul_small_slice n F")
    have F0: "0 < unat F" using f1 F by simp
    note mv = mul_small_slice_spec [OF ok(2) F0 v] and mw = mul_small_slice_spec [OF ok(1) F0 w]
    have "bc_base ^ length d * unat c \<le> lval d * f" using mv(1) unfolding F by linarith
    also have "\<dots> < (unat x + 1) * bc_base ^ (k + 1) * f"
      using lval_top_bounds(2) [OF ok(2) k] f(2) by (simp add: x_def)
    also have "\<dots> = f * (unat x + 1) * bc_base ^ (k + 1)" by (simp only: ac_simps)
    also have "\<dots> \<le> bc_base * bc_base ^ (k + 1)" using f(3) by (rule mult_le_mono1)
    also have "\<dots> = bc_base ^ length d * 1" by (simp add: k)
    finally have "bc_base ^ length d * unat c < bc_base ^ length d * 1" .
    then have "unat c < 1" by (simp only: mult_less_cancel1)
    then have lv: "lval v = f * lval d" using mv(1) unfolding F by (simp add: mult.commute)
    have c': "unat c' < bc_base" using mw(4) F f(3) f1 by (metis div_le_dividend f_def order.strict_trans2)
    have lu: "lval (w @ [c']) = f * lval n" using mw(1,3) unfolding F by (simp add: bval_append mult.commute)
    have "f * (unat x * bc_base ^ (k + 1)) \<le> lval v"
      unfolding lv using lval_top_bounds(1) [OF ok(2) k] unfolding x_def by (rule mult_le_mono2)
    also have "\<dots> < (unat (v ! (k + 1)) + 1) * bc_base ^ (k + 1)"
      by (rule lval_top_bounds(2)) (use mv k in simp_all)
    finally have "f * unat x * bc_base ^ (k + 1) < (unat (v ! (k + 1)) + 1) * bc_base ^ (k + 1)" by (simp only: ac_simps)
    then have "f * unat x < unat (v ! (k + 1)) + 1" by (simp only: mult_less_cancel2)
    then have top: "bc_base \<le> 2 * unat (v ! (k + 1))" using f(1) by linarith
    obtain u' q' where kn: "knuth (w @ [c']) v (length (w @ [c']) - length v) = (u', q')"
      by (cases "knuth (w @ [c']) v (length (w @ [c']) - length v)")
    have e: "q = q'" "r = fst (div_small_in_place (take (length v) u') F)"
      using r unfolding d_def v w if_P [OF True] prod.case kn by (simp_all add: mv(3))
    have K: "lval q' = lval n div lval d" "lval (take (length v) u') = f * (lval n mod lval d)" "limbs_ok q'" "limbs_ok (take (length v) u')"
      using knuth_scaled [of "w @ [c']" v k "length n" f "lval d" "lval n", OF _ _ _ _ _ lv lu dB nB _ top kn]
        mv mw c' k l f1 by simp_all
    obtain r' rem where s: "div_small_in_place (take (length v) u') F = (r', rem)" by (cases "div_small_in_place (take (length v) u') F")
    note S = div_small_in_place_spec [OF K(4) F0 s]
    have "f * (lval n mod lval d) = lval r' * f + unat rem" "unat rem < f" using S(1,2) unfolding K(2) F by simp_all
    then have "f * (lval n mod lval d) div f = lval r'" by (simp only: quotient_remainder)
    then have "lval n mod lval d = lval r'" using f1 by simp
    then show ?thesis using K S by (simp add: e s)
  next
    case False
    then have f1: "f = 1" using F f(2) by (simp add: word_less_nat_alt)
    obtain u' q' where kn: "knuth (n @ [0]) d (length (n @ [0]) - length d) = (u', q')"
      by (cases "knuth (n @ [0]) d (length (n @ [0]) - length d)")
    have e: "q = q'" "r = take (length d) u'" using r unfolding d_def if_not_P [OF False] prod.case kn by simp_all
    have "lval q' = lval n div lval d" "lval (take (length d) u') = 1 * (lval n mod lval d)" "limbs_ok q'" "limbs_ok (take (length d) u')"
      using knuth_scaled [of "n @ [0]" d k "length n" 1 "lval d" "lval n", OF _ _ _ _ _ _ _ dB nB _ _ kn]
        ok k l f(1) f1 by (simp_all add: bval_append bc_base_def x_def)
    then show ?thesis by (simp add: e)
  qed
qed

text \<open>C36: division of numbers in limbs, by one limb or by algorithm D with its quotient limbs estimated in floating point, gives
  the quotient and the remainder of the values, in normal limbs; a divisor of value zero is the only panic.\<close>

theorem bc_divrem_exact:
  assumes "limbs_ok n" "limbs_ok d"
  shows "if lval d = 0 then bc_divrem n d = None
    else \<exists>q r. bc_divrem n d = Some (q, r) \<and> lval q = lval n div lval d \<and> lval r = lval n mod lval d \<and> limbs_ok q \<and> limbs_ok r"
proof (cases "bc_trim d = []")
  case True
  then have "lval d = 0" using lval_trim [of d] by simp
  then show ?thesis using True by (simp add: bc_divrem_def)
next
  case False
  have ge: "bc_base ^ (length (bc_trim d) - 1) \<le> lval d"
    using lval_ge [OF False last_trim [OF False]] by (simp add: lval_trim)
  then have d0: "lval d \<noteq> 0" using bc_base_pos(3) by (metis le_zero_eq less_irrefl)
  have okt: "limbs_ok (bc_trim n)" "limbs_ok (bc_trim d)" using assms by simp_all
  show ?thesis
  proof (cases "length (bc_trim n) < length (bc_trim d)")
    case True
    have "lval (bc_trim n) < bc_base ^ length (bc_trim n)" by (rule lval_less [OF okt(1)])
    also have "\<dots> \<le> bc_base ^ (length (bc_trim d) - 1)" using True by (intro power_increasing) (simp_all add: bc_base_def)
    finally have "lval n < lval d" using ge unfolding lval_trim by (rule order.strict_trans2)
    then show ?thesis using True False d0 okt by (simp add: bc_divrem_def lval_trim)
  next
    case lt: False
    obtain q r where r: "divrem_slices (bc_trim n) (bc_trim d) True = (q, r)"
      by (cases "divrem_slices (bc_trim n) (bc_trim d) True")
    have "lval q = lval n div lval d \<and> lval r = lval n mod lval d \<and> limbs_ok q \<and> limbs_ok r"
      using divrem_slices_spec [OF okt False last_trim [OF False] _ r] lt by (simp add: lval_trim)
    then show ?thesis using r lt False d0 by (simp add: bc_divrem_def)
  qed
qed

theorem bc_divrem_exact_witness:
  "limbs_ok [1, 2, 3] \<and> limbs_ok [7, 99999999] \<and>
    (\<exists>q r. bc_divrem [1, 2, 3] [7, 99999999] = Some (q, r) \<and> lval q = 30000000200000001 div 9999999900000007
      \<and> lval r = 30000000200000001 mod 9999999900000007)"
  using bc_divrem_exact [of "[1, 2, 3]" "[7, 99999999]"] by (auto simp: bc_base_def)

end
