(* ===== verification/Json.thy ===== *)
theory Json
  imports Runtime
begin

text \<open>
  The json extension's errors, options and services (\<open>crates/goro-ext-json/src/lib.rs\<close>).  The state
  of a call is the world of values, the error kept for \<open>json_last_error\<close>, and the guards of the
  encoder, which are thread-local in the source because \<open>jsonSerialize\<close> may call the encoder again.
\<close>

section \<open>Constants\<close>

definition json_hex_tag :: i64 where "json_hex_tag = 1"
definition json_hex_amp :: i64 where "json_hex_amp = 2"
definition json_hex_apos :: i64 where "json_hex_apos = 4"
definition json_hex_quot :: i64 where "json_hex_quot = 8"
definition json_force_object :: i64 where "json_force_object = 16"
definition json_numeric_check :: i64 where "json_numeric_check = 32"
definition json_unescaped_slashes :: i64 where "json_unescaped_slashes = 64"
definition json_pretty_print :: i64 where "json_pretty_print = 128"
definition json_unescaped_unicode :: i64 where "json_unescaped_unicode = 256"
definition json_partial_output_on_error :: i64 where "json_partial_output_on_error = 512"
definition json_preserve_zero_fraction :: i64 where "json_preserve_zero_fraction = 1024"
definition json_unescaped_line_terminators :: i64 where "json_unescaped_line_terminators = 2048"
definition json_object_as_array :: i64 where "json_object_as_array = 1"
definition json_bigint_as_string :: i64 where "json_bigint_as_string = 2"
definition json_invalid_utf8_ignore :: i64 where "json_invalid_utf8_ignore = 1048576"
definition json_invalid_utf8_substitute :: i64 where "json_invalid_utf8_substitute = 2097152"
definition json_throw_on_error :: i64 where "json_throw_on_error = 4194304"

text \<open>\<open>flags & f != 0\<close>\<close>

definition json_flag :: "i64 \<Rightarrow> i64 \<Rightarrow> bool" where
  "json_flag flags f \<longleftrightarrow> flags AND f \<noteq> 0"

section \<open>Errors\<close>

datatype json_error =
    JNoError | JDepth | JStateMismatch | JCtrlChar | JSyntax | JUtf8 | JRecursion | JInfOrNan
  | JUnsupportedType | JInvalidPropertyName | JUtf16 | JNonBackedEnum

definition json_code :: "json_error \<Rightarrow> i64" where
  "json_code e = (case e of
       JNoError \<Rightarrow> 0 | JDepth \<Rightarrow> 1 | JStateMismatch \<Rightarrow> 2 | JCtrlChar \<Rightarrow> 3 | JSyntax \<Rightarrow> 4 | JUtf8 \<Rightarrow> 5
     | JRecursion \<Rightarrow> 6 | JInfOrNan \<Rightarrow> 7 | JUnsupportedType \<Rightarrow> 8 | JInvalidPropertyName \<Rightarrow> 9 | JUtf16 \<Rightarrow> 10
     | JNonBackedEnum \<Rightarrow> 11)"

definition json_message :: "json_error \<Rightarrow> bytes" where
  "json_message e = ascii (case e of
       JNoError \<Rightarrow> ''No error''
     | JDepth \<Rightarrow> ''Maximum stack depth exceeded''
     | JStateMismatch \<Rightarrow> ''State mismatch (invalid or malformed JSON)''
     | JCtrlChar \<Rightarrow> ''Control character error, possibly incorrectly encoded''
     | JSyntax \<Rightarrow> ''Syntax error''
     | JUtf8 \<Rightarrow> ''Malformed UTF-8 characters, possibly incorrectly encoded''
     | JRecursion \<Rightarrow> ''Recursion detected''
     | JInfOrNan \<Rightarrow> ''Inf and NaN cannot be JSON encoded''
     | JUnsupportedType \<Rightarrow> ''Type is not supported''
     | JInvalidPropertyName \<Rightarrow> ''The decoded property name is invalid''
     | JUtf16 \<Rightarrow> ''Single unpaired UTF-16 surrogate in unicode escape''
     | JNonBackedEnum \<Rightarrow> ''Non-backed enums have no default serialization'')"

definition json_errors :: "json_error list" where
  "json_errors = [JNoError, JDepth, JStateMismatch, JCtrlChar, JSyntax, JUtf8, JRecursion, JInfOrNan,
     JUnsupportedType, JInvalidPropertyName, JUtf16, JNonBackedEnum]"

definition json_from_code :: "i64 \<Rightarrow> json_error option" where
  "json_from_code c = (if 0 \<le>s c \<and> c \<le>s 11 then Some (json_errors ! unat c) else None)"

datatype utf8_mode = Utf8Error | Utf8Ignore | Utf8Substitute

definition utf8_from_decode_flags :: "i64 \<Rightarrow> utf8_mode" where
  "utf8_from_decode_flags flags =
     (if json_flag flags json_invalid_utf8_substitute then Utf8Substitute
      else if json_flag flags json_invalid_utf8_ignore then Utf8Ignore else Utf8Error)"

definition utf8_from_encode_flags :: "i64 \<Rightarrow> utf8_mode" where
  "utf8_from_encode_flags flags =
     (if json_flag flags json_invalid_utf8_ignore then Utf8Ignore
      else if json_flag flags json_invalid_utf8_substitute then Utf8Substitute else Utf8Error)"

section \<open>State and services\<close>

text \<open>\<open>GuardStack\<close>: the containers being encoded, innermost last; those beyond the first 16 are also in a set.\<close>

record guard_stack =
  gs_items :: "nat list"
  gs_deep :: "nat set"

record guards =
  g_arrays :: guard_stack
  g_objects :: guard_stack
  g_serializable :: guard_stack

record 'e json_state =
  js_world :: "'e world"
  js_last_error :: json_error
  js_guards :: guards

datatype object_kind = KPlain | KSerializable | KUnitEnum | KBackedEnum val

text \<open>The trait \<open>JsonHost\<close>: \<open>'x\<close> is what the engine throws.\<close>

record ('e, 'x) json_host =
  jh_serialize_precision :: "'e json_state \<Rightarrow> int"
  jh_object_kind :: "nat \<Rightarrow> 'e json_state \<Rightarrow> object_kind \<times> 'e json_state"
  jh_json_serialize :: "nat \<Rightarrow> 'e json_state \<Rightarrow> ('x + val) \<times> 'e json_state"
  jh_object_properties :: "nat \<Rightarrow> 'e json_state \<Rightarrow> ('x + nat option) \<times> 'e json_state"
  jh_new_object :: "nat option \<Rightarrow> 'e json_state \<Rightarrow> val \<times> 'e json_state"
  jh_json_exception :: "json_error \<Rightarrow> 'e json_state \<Rightarrow> 'x \<times> 'e json_state"
  jh_throw_error :: "php_error \<Rightarrow> 'e json_state \<Rightarrow> 'x \<times> 'e json_state"
  jh_max_encode_nesting :: "'e json_state \<Rightarrow> nat option"

definition default_serialize_precision :: "'e json_state \<Rightarrow> int" where
  "default_serialize_precision st = - 1"

definition default_max_encode_nesting :: "'e json_state \<Rightarrow> nat option" where
  "default_max_encode_nesting st = None"

definition json_last_error :: "'e json_state \<Rightarrow> i64" where
  "json_last_error st = json_code (js_last_error st)"

definition json_last_error_msg :: "'e json_state \<Rightarrow> bytes" where
  "json_last_error_msg st = json_message (js_last_error st)"

definition set_last_error :: "json_error \<Rightarrow> 'e json_state \<Rightarrow> 'e json_state" where
  "set_last_error e st = st\<lparr>js_last_error := e\<rparr>"

end
