(* ===== verification/JsonEncode.thy ===== *)
theory JsonEncode
  imports Json
begin

text \<open>
  The encoder (\<open>crates/goro-ext-json/src/encode.rs\<close>): an iterative writer with a stack of open
  containers and guards against recursion.  What nests without a container (references, values
  returned by \<open>jsonSerialize\<close>, cases of backed enums) is recursion in the source and takes fuel
  here, as does the loop over the elements; \<open>None\<close> is fuel that ran out.
\<close>

section \<open>Guards\<close>

definition guard_shallow :: nat where "guard_shallow = 16"

definition guard_empty :: guard_stack where
  "guard_empty = \<lparr>gs_items = [], gs_deep = {}\<rparr>"

definition guards_empty :: guards where
  "guards_empty = \<lparr>g_arrays = guard_empty, g_objects = guard_empty, g_serializable = guard_empty\<rparr>"

definition guard_contains :: "guard_stack \<Rightarrow> nat \<Rightarrow> bool" where
  "guard_contains g x \<longleftrightarrow>
     x \<in> set (take (min (length (gs_items g)) guard_shallow) (gs_items g))
     \<or> guard_shallow < length (gs_items g) \<and> x \<in> gs_deep g"

definition guard_push :: "nat \<Rightarrow> guard_stack \<Rightarrow> guard_stack" where
  "guard_push x g =
     (let g = (if guard_shallow \<le> length (gs_items g) then g\<lparr>gs_deep := insert x (gs_deep g)\<rparr> else g) in
      g\<lparr>gs_items := gs_items g @ [x]\<rparr>)"

definition guard_pop :: "guard_stack \<Rightarrow> guard_stack" where
  "guard_pop g =
     (if gs_items g = [] then g
      else
        let x = last (gs_items g); g = g\<lparr>gs_items := butlast (gs_items g)\<rparr> in
        if guard_shallow \<le> length (gs_items g) then g\<lparr>gs_deep := gs_deep g - {x}\<rparr> else g)"

definition guard_len :: "guard_stack \<Rightarrow> nat" where
  "guard_len g = length (gs_items g)"

function guard_truncate :: "nat \<Rightarrow> guard_stack \<Rightarrow> guard_stack" where
  "guard_truncate n g = (if n < length (gs_items g) then guard_truncate n (guard_pop g) else g)"
  by pat_completeness auto
termination
  by (relation "measure (\<lambda>(n, g). length (gs_items g))") (auto simp: guard_pop_def Let_def)

declare guard_truncate.simps [simp del]

section \<open>Strings\<close>

text \<open>Escape kinds: copied as is, a short escape, \<open>\u00XX\<close>.\<close>

definition e_copy :: u8 where "e_copy = 0"
definition e_short :: u8 where "e_short = 1"
definition e_hex :: u8 where "e_hex = 2"

definition escape_table :: "i64 \<Rightarrow> u8 list" where
  "escape_table flags =
     (let t = replicate 0x20 e_hex @ replicate 96 e_copy;
          t = foldl (\<lambda>t c. t[c := e_short]) t [0x08, 0x0C, 0x0A, 0x0D, 0x09, 0x5C, 0x22];
          t = (if \<not> json_flag flags json_unescaped_slashes then t[0x2F := e_short] else t);
          t = (if json_flag flags json_hex_quot then t[0x22 := e_hex] else t);
          t = (if json_flag flags json_hex_tag then t[0x3C := e_hex, 0x3E := e_hex] else t);
          t = (if json_flag flags json_hex_amp then t[0x26 := e_hex] else t) in
      if json_flag flags json_hex_apos then t[0x27 := e_hex] else t)"

definition hex_lower :: bytes where "hex_lower = ascii ''0123456789abcdef''"
definition hex_upper :: bytes where "hex_upper = ascii ''0123456789ABCDEF''"

definition u16_escape :: "u32 \<Rightarrow> bytes" where
  "u16_escape u =
     [0x5C, 0x75, hex_lower ! unat (drop_bit 12 u AND 15), hex_lower ! unat (drop_bit 8 u AND 15),
      hex_lower ! unat (drop_bit 4 u AND 15), hex_lower ! unat (u AND 15)]"

text \<open>The character at the head of the text and its length, or how many bytes of a malformed sequence to skip.\<close>

definition trail_at :: "bytes \<Rightarrow> nat \<Rightarrow> bool" where
  "trail_at b j \<longleftrightarrow> j < length b \<and> b ! j AND 0xC0 = 0x80"

definition lead_at :: "bytes \<Rightarrow> nat \<Rightarrow> bool" where
  "lead_at b j \<longleftrightarrow> b ! j < 0x80 \<or> (0xC2 \<le> b ! j \<and> b ! j \<le> 0xF4)"

definition cut_at :: "bytes \<Rightarrow> nat \<Rightarrow> nat" where
  "cut_at b need =
     (case filter (\<lambda>j. length b \<le> j \<or> lead_at b j) [1..<need] of [] \<Rightarrow> need | j # _ \<Rightarrow> j)"

definition trail_bits :: "bytes \<Rightarrow> nat \<Rightarrow> u32" where
  "trail_bits b j = ucast (b ! j AND 0x3F)"

definition next_char :: "bytes \<Rightarrow> nat + (u32 \<times> nat)" where
  "next_char b =
     (let c = hd b in
      if 0xC2 \<le> c \<and> c \<le> 0xDF then
        (if \<not> trail_at b 1 then Inl (cut_at b 2)
         else Inr (push_bit 6 (ucast c AND 0x1F) OR trail_bits b 1, 2))
      else if 0xE0 \<le> c \<and> c \<le> 0xEF then
        (if \<not> (trail_at b 1 \<and> trail_at b 2) then Inl (cut_at b 3)
         else
           let cp = push_bit 12 (ucast c AND 0x0F) OR push_bit 6 (trail_bits b 1) OR trail_bits b 2 in
           if cp < 0x800 \<or> (0xD800 \<le> cp \<and> cp \<le> 0xDFFF) then Inl 3 else Inr (cp, 3))
      else if 0xF0 \<le> c \<and> c \<le> 0xF4 then
        (if \<not> (trail_at b 1 \<and> trail_at b 2 \<and> trail_at b 3) then Inl (cut_at b 4)
         else
           let cp = push_bit 18 (ucast c AND 0x07) OR push_bit 12 (trail_bits b 1)
                 OR push_bit 6 (trail_bits b 2) OR trail_bits b 3 in
           if \<not> (0x10000 \<le> cp \<and> cp \<le> 0x10FFFF) then Inl 4 else Inr (cp, 4))
      else Inl 1)"

definition enc_plain :: "bool \<Rightarrow> u8 \<Rightarrow> bool" where
  "enc_plain slash_plain c \<longleftrightarrow>
     \<not> (c = 0x22 \<or> c = 0x5C \<or> (c = 0x2F \<and> \<not> slash_plain) \<or> \<not> (0x20 \<le> c \<and> c < 0x80))"

definition short_letter :: "u8 \<Rightarrow> u8" where
  "short_letter c =
     (if c = 0x08 then 0x62 else if c = 0x0C then 0x66 else if c = 0x0A then 0x6E
      else if c = 0x0D then 0x72 else if c = 0x09 then 0x74 else c)"

text \<open>What a code point beyond ASCII is written as when it is escaped.\<close>

definition char_escape :: "u32 \<Rightarrow> bytes" where
  "char_escape cp =
     (if 0x10000 \<le> cp then
        let v = cp - 0x10000 in u16_escape (0xD800 OR drop_bit 10 v) @ u16_escape (0xDC00 OR (v AND 0x3FF))
      else u16_escape cp)"

definition simple_ascii :: "i64 \<Rightarrow> bool" where
  "simple_ascii flags \<longleftrightarrow>
     \<not> json_flag flags (json_hex_tag OR json_hex_amp OR json_hex_apos OR json_hex_quot)"

lemma cut_at_pos: "0 < need \<Longrightarrow> 0 < cut_at b need"
proof -
  assume n: "0 < need"
  show ?thesis
  proof (cases "filter (\<lambda>j. length b \<le> j \<or> lead_at b j) [1..<need]")
    case (Cons j js)
    then have "j \<in> set (filter (\<lambda>j. length b \<le> j \<or> lead_at b j) [1..<need])" by simp
    then show ?thesis using Cons by (simp add: cut_at_def)
  qed (simp add: cut_at_def n)
qed

lemma next_char_pos: "next_char b = Inl n \<Longrightarrow> 0 < n" "next_char b = Inr (cp, n) \<Longrightarrow> 0 < n"
  by (auto simp: next_char_def Let_def cut_at_pos split: if_splits)

text \<open>The loop of \<open>string\<close>: what is written, the run not yet copied, the rest; \<open>None\<close> is malformed text.\<close>

function enc_string :: "i64 \<Rightarrow> bytes \<Rightarrow> bytes \<Rightarrow> bytes \<Rightarrow> bytes option" where
  "enc_string flags out run s =
     (let esc = escape_table flags;
          n = (if simple_ascii flags then length (takeWhile (enc_plain (esc ! 0x2F = e_copy)) s) else 0);
          run = run @ take n s; s = drop n s;
          unescaped = json_flag flags json_unescaped_unicode in
      if s = [] then Some (out @ run)
      else
        let c = hd s in
        if c < 0x80 then
          (if esc ! unat c = e_copy then enc_string flags out (run @ [c]) (tl s)
           else if esc ! unat c = e_short
           then enc_string flags (out @ run @ [0x5C, short_letter c]) [] (tl s)
           else
             let hex = (if c < 0x20 then hex_lower else hex_upper) in
             enc_string flags (out @ run @ [0x5C, 0x75, 0x30, 0x30, hex ! unat (drop_bit 4 c), hex ! unat (c AND 15)]) [] (tl s))
        else
          (case next_char s of
             Inr (cp, n) \<Rightarrow>
               if unescaped \<and> (json_flag flags json_unescaped_line_terminators \<or> (cp \<noteq> 0x2028 \<and> cp \<noteq> 0x2029))
               then enc_string flags out (run @ take n s) (drop n s)
               else enc_string flags (out @ run @ char_escape cp) [] (drop n s)
           | Inl n \<Rightarrow>
               (case utf8_from_encode_flags flags of
                  Utf8Error \<Rightarrow> None
                | Utf8Ignore \<Rightarrow> enc_string flags (out @ run) [] (drop n s)
                | Utf8Substitute \<Rightarrow>
                    enc_string flags (out @ run @ (if unescaped then [0xEF, 0xBF, 0xBD] else [0x5C, 0x75, 0x66, 0x66, 0x66, 0x64])) []
                      (drop n s))))"
  by pat_completeness auto
termination
  by (relation "measure (\<lambda>(flags, out, run, s). length s)")
    (auto simp: neq_Nil_conv next_char_pos diff_less intro: le_less_trans [OF diff_le_self] dest: next_char_pos)

declare enc_string.simps [simp del]

section \<open>The writer\<close>

text \<open>What a call fixes, and what it changes.  Frames have their top first.\<close>

record enc_config =
  ec_flags :: i64
  ec_partial :: bool
  ec_pretty :: bool
  ec_precision :: int
  ec_max_depth :: "32 word"
  ec_max_nesting :: "nat option"

record enc_frame =
  ef_arr :: "nat option"
  ef_pos :: nat
  ef_map :: bool
  ef_first :: bool
  ef_props :: bool
  ef_js_pops :: nat

record encoder =
  en_out :: bytes
  en_err :: json_error
  en_frames :: "enc_frame list"
  en_guards :: guards

datatype 'x halt = Stop | Exception 'x

type_synonym ('e, 'x) enc_result = "('x halt + unit) \<times> encoder \<times> 'e json_state"

definition emit_bytes :: "bytes \<Rightarrow> encoder \<Rightarrow> encoder" where
  "emit_bytes b E = E\<lparr>en_out := en_out E @ b\<rparr>"

definition enc_fail :: "enc_config \<Rightarrow> json_error \<Rightarrow> bytes \<Rightarrow> encoder \<Rightarrow> 'e json_state \<Rightarrow> ('e, 'x) enc_result" where
  "enc_fail C e stand_in E st =
     (let E = E\<lparr>en_err := e\<rparr> in
      if ec_partial C then (Inr (), emit_bytes stand_in E, st) else (Inl Stop, E, st))"

definition enc_indent :: "nat \<Rightarrow> encoder \<Rightarrow> encoder" where
  "enc_indent level E = emit_bytes (0x0A # replicate (4 * level) 0x20) E"

definition enc_depth_check :: "enc_config \<Rightarrow> nat \<Rightarrow> encoder \<Rightarrow> 'e json_state \<Rightarrow> ('e, 'x) enc_result" where
  "enc_depth_check C level E st =
     (if sint (ec_max_depth C) < int level then
        let E = E\<lparr>en_err := JDepth\<rparr> in (if ec_partial C then Inr () else Inl Stop, E, st)
      else (Inr (), E, st))"

definition enc_open :: "enc_config \<Rightarrow> nat option \<Rightarrow> bool \<Rightarrow> bool \<Rightarrow> encoder \<Rightarrow> 'e json_state \<Rightarrow> ('e, 'x) enc_result" where
  "enc_open C a as_map props E st =
     (if (case ec_max_nesting C of None \<Rightarrow> False | Some n \<Rightarrow> n \<le> length (en_frames E))
      then (Inl Stop, E\<lparr>en_err := JDepth\<rparr>, st)
      else
        let E = emit_bytes [if as_map then 0x7B else 0x5B] E in
        (Inr (), E\<lparr>en_frames := \<lparr>ef_arr = a, ef_pos = 0, ef_map = as_map, ef_first = True, ef_props = props,
           ef_js_pops = 0\<rparr> # en_frames E\<rparr>, st))"

definition enc_empty :: "enc_config \<Rightarrow> bool \<Rightarrow> encoder \<Rightarrow> 'e json_state \<Rightarrow> ('e, 'x) enc_result" where
  "enc_empty C as_map E st =
     enc_depth_check C (length (en_frames E) + 1) (emit_bytes (if as_map then [0x7B, 0x7D] else [0x5B, 0x5D]) E) st"

definition set_guard_arrays :: "(guard_stack \<Rightarrow> guard_stack) \<Rightarrow> encoder \<Rightarrow> encoder" where
  "set_guard_arrays f E = E\<lparr>en_guards := (en_guards E)\<lparr>g_arrays := f (g_arrays (en_guards E))\<rparr>\<rparr>"

definition set_guard_objects :: "(guard_stack \<Rightarrow> guard_stack) \<Rightarrow> encoder \<Rightarrow> encoder" where
  "set_guard_objects f E = E\<lparr>en_guards := (en_guards E)\<lparr>g_objects := f (g_objects (en_guards E))\<rparr>\<rparr>"

definition set_guard_serializable :: "(guard_stack \<Rightarrow> guard_stack) \<Rightarrow> encoder \<Rightarrow> encoder" where
  "set_guard_serializable f E = E\<lparr>en_guards := (en_guards E)\<lparr>g_serializable := f (g_serializable (en_guards E))\<rparr>\<rparr>"

text \<open>\<open>serialize_precision = 0\<close>: one significant digit.\<close>

definition format_precision0 :: "f64 \<Rightarrow> bytes" where
  "format_precision0 f =
     (let sign = (if f64_sign f then [0x2D] else []); a = f_abs f in
      if f_eq a (F64 0) then sign @ ascii ''0.0e+0''
      else
        let (ds, x) = the (fixed_digits a 1) in
        if \<not> (- 4 \<le> x \<and> x < 0)
        then push_int (sign @ [ds ! 0] @ ascii ''.0e'' @ [if x < 0 then 0x2D else 0x2B]) (word_of_int \<bar>x\<bar>)
        else sign @ ascii ''0.'' @ replicate (nat (- x - 1)) 0x30 @ [ds ! 0])"

definition enc_float_text :: "enc_config \<Rightarrow> f64 \<Rightarrow> bytes" where
  "enc_float_text C f =
     (let t = (if ec_precision C = 0 then format_precision0 f else the (format_php_repr f (ec_precision C) 0x65)) in
      if json_flag (ec_flags C) json_preserve_zero_fraction \<and> list_all (\<lambda>c. is_ascii_digit c \<or> c = 0x2D) t
      then t @ ascii ''.0'' else t)"

definition enc_float :: "enc_config \<Rightarrow> f64 \<Rightarrow> encoder \<Rightarrow> encoder" where
  "enc_float C f E =
     (if \<not> is_finite f then emit_bytes [0x30] (E\<lparr>en_err := JInfOrNan\<rparr>) else emit_bytes (enc_float_text C f) E)"

definition enc_string_text :: "enc_config \<Rightarrow> bytes \<Rightarrow> bytes option" where
  "enc_string_text C b = map_option (\<lambda>t. t @ [0x22]) (enc_string (ec_flags C) [0x22] [] b)"

definition enc_string_value :: "enc_config \<Rightarrow> bytes \<Rightarrow> encoder \<Rightarrow> 'e json_state \<Rightarrow> ('e, 'x) enc_result" where
  "enc_string_value C b E st =
     (let as_string = (case enc_string_text C b of
            Some t \<Rightarrow> (Inr (), emit_bytes t E, st) | None \<Rightarrow> enc_fail C JUtf8 (ascii ''null'') E st) in
      if json_flag (ec_flags C) json_numeric_check then
        (case numeric_value b of
           Some (NInt i) \<Rightarrow> (Inr (), E\<lparr>en_out := push_int (en_out E) i\<rparr>, st)
         | Some (NFloat f) \<Rightarrow> if is_finite f then (Inr (), enc_float C f E, st) else as_string
         | None \<Rightarrow> as_string)
      else as_string)"

definition enc_key :: "enc_config \<Rightarrow> key \<Rightarrow> encoder \<Rightarrow> encoder" where
  "enc_key C k E =
     (case k of
        KInt i \<Rightarrow> emit_bytes [0x22] (E\<lparr>en_out := push_int (en_out E @ [0x22]) i\<rparr>)
      | KStr s \<Rightarrow> (case enc_string_text C s of
            Some t \<Rightarrow> emit_bytes t E | None \<Rightarrow> (emit_bytes [0x22, 0x22] E)\<lparr>en_err := JUtf8\<rparr>))"

definition enc_array :: "enc_config \<Rightarrow> nat option \<Rightarrow> encoder \<Rightarrow> 'e json_state \<Rightarrow> ('e, 'x) enc_result" where
  "enc_array C a E st =
     (let W = js_world st; force = json_flag (ec_flags C) json_force_object in
      if php_is_empty W a then enc_empty C force E st
      else
        let id = data_addr a in
        if guard_contains (g_arrays (en_guards E)) id then enc_fail C JRecursion (ascii ''null'') E st
        else
          let as_map = force \<or> \<not> arr_is_list (array_at W a) in
          enc_open C a as_map False (set_guard_arrays (guard_push id) E) st)"

text \<open>A callback of the engine sees the guards of this call.\<close>

definition call_host :: "('e json_state \<Rightarrow> ('x + 'r) \<times> 'e json_state) \<Rightarrow> encoder \<Rightarrow> 'e json_state \<Rightarrow>
    ('x halt + 'r) \<times> encoder \<times> 'e json_state" where
  "call_host f E st =
     (let own = js_guards st;
          (r, st) = f (st\<lparr>js_guards := en_guards E\<rparr>);
          E = E\<lparr>en_guards := js_guards st\<rparr>; st = st\<lparr>js_guards := own\<rparr> in
      (case r of Inl x \<Rightarrow> Inl (Exception x) | Inr v \<Rightarrow> Inr v, E, st))"

definition enc_plain_object ::
  "('e, 'x) json_host \<Rightarrow> enc_config \<Rightarrow> nat \<Rightarrow> encoder \<Rightarrow> 'e json_state \<Rightarrow> ('e, 'x) enc_result" where
  "enc_plain_object H C obj E st =
     (if guard_contains (g_objects (en_guards E)) obj then enc_fail C JRecursion (ascii ''null'') E st
      else
        (case call_host (jh_object_properties H obj) E st of
           (Inl h, E, st) \<Rightarrow> (Inl h, E, st)
         | (Inr props, E, st) \<Rightarrow>
             if php_is_empty (js_world st) props then enc_empty C True E st
             else enc_open C props True True (set_guard_objects (guard_push obj) E) st))"

text \<open>\<open>value\<close>, \<open>object\<close> and \<open>serializable\<close>, given \<open>value\<close> for what nests.\<close>

definition enc_serializable ::
  "(val \<Rightarrow> encoder \<Rightarrow> 'e json_state \<Rightarrow> ('e, 'x) enc_result option) \<Rightarrow>
    ('e, 'x) json_host \<Rightarrow> enc_config \<Rightarrow> nat \<Rightarrow> encoder \<Rightarrow> 'e json_state \<Rightarrow> ('e, 'x) enc_result option" where
  "enc_serializable rec H C obj E st =
     (if guard_contains (g_serializable (en_guards E)) obj then Some (enc_fail C JRecursion (ascii ''null'') E st)
      else
        (case call_host (jh_json_serialize H obj) (set_guard_serializable (guard_push obj) E) st of
           (Inl h, E, st) \<Rightarrow> Some (Inl h, E, st)
         | (Inr r, E, st) \<Rightarrow>
             if r = VObject obj then Some (enc_plain_object H C obj (set_guard_serializable guard_pop E) st)
             else
               let frames0 = length (en_frames E) in
               (case rec r E st of
                  None \<Rightarrow> None
                | Some (Inl h, E, st) \<Rightarrow> Some (Inl h, E, st)
                | Some (Inr _, E, st) \<Rightarrow>
                    if frames0 < length (en_frames E) then
                      (case en_frames E of
                         f # fs \<Rightarrow> Some (Inr (), E\<lparr>en_frames := f\<lparr>ef_js_pops := ef_js_pops f + 1\<rparr> # fs\<rparr>, st)
                       | [] \<Rightarrow> Some (Inr (), E, st))
                    else Some (Inr (), set_guard_serializable guard_pop E, st))))"

fun enc_value ::
  "nat \<Rightarrow> ('e, 'x) json_host \<Rightarrow> enc_config \<Rightarrow> val \<Rightarrow> encoder \<Rightarrow> 'e json_state \<Rightarrow> ('e, 'x) enc_result option" where
  "enc_value 0 H C v E st = None"
| "enc_value (Suc fuel) H C v E st =
     (case v of
        VNull \<Rightarrow> Some (Inr (), emit_bytes (ascii ''null'') E, st)
      | VBool b \<Rightarrow> Some (Inr (), emit_bytes (ascii (if b then ''true'' else ''false'')) E, st)
      | VInt i \<Rightarrow> Some (Inr (), E\<lparr>en_out := push_int (en_out E) i\<rparr>, st)
      | VFloat f \<Rightarrow> Some (Inr (), enc_float C f E, st)
      | VStr b \<Rightarrow> Some (enc_string_value C b E st)
      | VArray a \<Rightarrow> Some (enc_array C a E st)
      | VObject obj \<Rightarrow>
          (case jh_object_kind H obj st of
             (KPlain, st) \<Rightarrow> Some (enc_plain_object H C obj E st)
           | (KSerializable, st) \<Rightarrow> enc_serializable (enc_value fuel H C) H C obj E st
           | (KUnitEnum, st) \<Rightarrow> Some (enc_fail C JNonBackedEnum [0x30] E st)
           | (KBackedEnum w, st) \<Rightarrow> enc_value fuel H C w E st)
      | VResource _ \<Rightarrow> Some (enc_fail C JUnsupportedType (ascii ''null'') E st)
      | VRef r \<Rightarrow> enc_value fuel H C (ref_get (w_refs (js_world st)) r) E st)"

definition enc_close :: "enc_config \<Rightarrow> encoder \<Rightarrow> 'e json_state \<Rightarrow> ('e, 'x) enc_result" where
  "enc_close C E st =
     (case en_frames E of
        [] \<Rightarrow> (Inr (), E, st)
      | f # fs \<Rightarrow>
          let level = length (en_frames E); E = E\<lparr>en_frames := fs\<rparr>;
              E = (if ec_pretty C \<and> \<not> ef_first f then enc_indent (level - 1) E else E);
              E = emit_bytes [if ef_map f then 0x7D else 0x5D] E;
              E = (if ef_props f then set_guard_objects guard_pop E else set_guard_arrays guard_pop E);
              E = set_guard_serializable (guard_pop ^^ ef_js_pops f) E in
          enc_depth_check C level E st)"

text \<open>The next element of the innermost container, or its end.\<close>

definition enc_step ::
  "nat \<Rightarrow> ('e, 'x) json_host \<Rightarrow> enc_config \<Rightarrow> encoder \<Rightarrow> 'e json_state \<Rightarrow> ('e, 'x) enc_result option" where
  "enc_step fuel H C E st =
     (case en_frames E of
        [] \<Rightarrow> Some (Inr (), E, st)
      | f # fs \<Rightarrow>
          let level = length (en_frames E) in
          (case next_from (array_at (js_world st) (ef_arr f)) (ef_pos f) of
             None \<Rightarrow> Some (enc_close C E st)
           | Some (p, k, v) \<Rightarrow>
               let f = f\<lparr>ef_pos := p + 1\<rparr> in
               if ef_props f \<and> (case k of KStr s \<Rightarrow> s \<noteq> [] \<and> hd s = 0 | KInt _ \<Rightarrow> False)
               then Some (Inr (), E\<lparr>en_frames := f # fs\<rparr>, st)
               else
                 let E = E\<lparr>en_frames := f\<lparr>ef_first := False\<rparr> # fs\<rparr>;
                     E = (if \<not> ef_first f then emit_bytes [0x2C] E else E);
                     E = (if ec_pretty C then enc_indent level E else E);
                     E = (if ef_map f then
                            let E = emit_bytes [0x3A] (enc_key C k E) in
                            if ec_pretty C then emit_bytes [0x20] E else E
                          else E) in
                 enc_value fuel H C v E st))"

text \<open>The loop: \<open>fuel\<close> bounds the steps and, in each, what nests without a container.\<close>

fun enc_loop ::
  "nat \<Rightarrow> nat \<Rightarrow> ('e, 'x) json_host \<Rightarrow> enc_config \<Rightarrow> encoder \<Rightarrow> 'e json_state \<Rightarrow> ('e, 'x) enc_result option" where
  "enc_loop fuel n H C E st =
     (if en_frames E = [] then Some (Inr (), E, st)
      else
        (case n of
           0 \<Rightarrow> None
         | Suc m \<Rightarrow>
             (case enc_step fuel H C E st of
                None \<Rightarrow> None
              | Some (Inl h, E, st) \<Rightarrow> Some (Inl h, E, st)
              | Some (Inr _, E, st) \<Rightarrow> enc_loop fuel m H C E st)))"

declare enc_loop.simps [simp del]

definition enc_run ::
  "nat \<Rightarrow> ('e, 'x) json_host \<Rightarrow> enc_config \<Rightarrow> val \<Rightarrow> encoder \<Rightarrow> 'e json_state \<Rightarrow> ('e, 'x) enc_result option" where
  "enc_run fuel H C v E st =
     (case enc_value fuel H C v E st of
        None \<Rightarrow> None
      | Some (Inl h, E, st) \<Rightarrow> Some (Inl h, E, st)
      | Some (Inr _, E, st) \<Rightarrow> enc_loop fuel fuel H C E st)"

definition enc_config_of :: "('e, 'x) json_host \<Rightarrow> i64 \<Rightarrow> 32 word \<Rightarrow> 'e json_state \<Rightarrow> enc_config" where
  "enc_config_of H flags depth st =
     \<lparr>ec_flags = flags, ec_partial = json_flag flags json_partial_output_on_error,
      ec_pretty = json_flag flags json_pretty_print, ec_precision = jh_serialize_precision H st,
      ec_max_depth = depth, ec_max_nesting = jh_max_encode_nesting H st\<rparr>"

text \<open>The guards are taken for the call; when the encoder is dropped they go back, cut to what they were.\<close>

definition drop_encoder :: "guards \<Rightarrow> encoder \<Rightarrow> 'e json_state \<Rightarrow> 'e json_state" where
  "drop_encoder base E st =
     (let g = en_guards E in
      st\<lparr>js_guards :=
        \<lparr>g_arrays = guard_truncate (guard_len (g_arrays base)) (g_arrays g),
         g_objects = guard_truncate (guard_len (g_objects base)) (g_objects g),
         g_serializable = guard_truncate (guard_len (g_serializable base)) (g_serializable g)\<rparr>\<rparr>)"

definition encode ::
  "nat \<Rightarrow> ('e, 'x) json_host \<Rightarrow> val \<Rightarrow> i64 \<Rightarrow> 32 word \<Rightarrow> 'e json_state \<Rightarrow>
    (('x + bytes \<times> json_error) \<times> 'e json_state) option" where
  "encode fuel H v flags depth st =
     (let base = js_guards st; st = st\<lparr>js_guards := guards_empty\<rparr>;
          C = enc_config_of H flags depth st;
          E = \<lparr>en_out = [], en_err = JNoError, en_frames = [], en_guards = base\<rparr> in
      map_option (\<lambda>(r, E, st).
        (case r of Inl (Exception x) \<Rightarrow> Inl x | _ \<Rightarrow> Inr (en_out E, en_err E), drop_encoder base E st))
        (enc_run fuel H C v E st))"

end
