(* ===== verification/JsonDecode.thy ===== *)
theory JsonDecode
  imports Json
begin

text \<open>
  The decoder (\<open>crates/goro-ext-json/src/decode.rs\<close>): an iterative parser with an explicit stack of
  open containers.  The position in the text is the rest of the text from there.  \<open>build\<close> is the
  constant parameter of the source: without it the text is only checked.
\<close>

section \<open>Tokens\<close>

definition json_ws :: "u8 \<Rightarrow> bool" where
  "json_ws c \<longleftrightarrow> c = 0x20 \<or> c = 0x09 \<or> c = 0x0A \<or> c = 0x0D"

definition skip_ws :: "bytes \<Rightarrow> bytes" where
  "skip_ws s = dropWhile json_ws s"

text \<open>A byte that a string is copied over: neither a quote, a backslash, a control character nor beyond ASCII.\<close>

definition json_plain :: "u8 \<Rightarrow> bool" where
  "json_plain c \<longleftrightarrow> \<not> (c = 0x22 \<or> c = 0x5C \<or> \<not> (0x20 \<le> c \<and> c < 0x80))"

definition cont_byte :: "bytes \<Rightarrow> nat \<Rightarrow> u8 \<Rightarrow> u8 \<Rightarrow> bool" where
  "cont_byte s j lo hi \<longleftrightarrow> j < length s \<and> lo \<le> s ! j \<and> s ! j \<le> hi"

text \<open>The length of the well-formed UTF-8 sequence at the head of the text.\<close>

definition utf8_len :: "bytes \<Rightarrow> nat option" where
  "utf8_len s =
     (let c = hd s; then_some = (\<lambda>b n. if b then Some n else None) in
      if c \<le> 0x7F then Some 1
      else if 0xC2 \<le> c \<and> c \<le> 0xDF then then_some (cont_byte s 1 0x80 0xBF) 2
      else if c = 0xE0 then then_some (cont_byte s 1 0xA0 0xBF \<and> cont_byte s 2 0x80 0xBF) 3
      else if c = 0xED then then_some (cont_byte s 1 0x80 0x9F \<and> cont_byte s 2 0x80 0xBF) 3
      else if 0xE1 \<le> c \<and> c \<le> 0xEF then then_some (cont_byte s 1 0x80 0xBF \<and> cont_byte s 2 0x80 0xBF) 3
      else if c = 0xF0 then
        then_some (cont_byte s 1 0x90 0xBF \<and> cont_byte s 2 0x80 0xBF \<and> cont_byte s 3 0x80 0xBF) 4
      else if c = 0xF4 then
        then_some (cont_byte s 1 0x80 0x8F \<and> cont_byte s 2 0x80 0xBF \<and> cont_byte s 3 0x80 0xBF) 4
      else if 0xF1 \<le> c \<and> c \<le> 0xF3 then
        then_some (cont_byte s 1 0x80 0xBF \<and> cont_byte s 2 0x80 0xBF \<and> cont_byte s 3 0x80 0xBF) 4
      else None)"

definition push_utf8 :: "u32 \<Rightarrow> bytes" where
  "push_utf8 cp =
     (if cp < 0x80 then [ucast cp]
      else if cp < 0x800 then [0xC0 OR ucast (drop_bit 6 cp), 0x80 OR ucast (cp AND 0x3F)]
      else if cp < 0x10000 then
        [0xE0 OR ucast (drop_bit 12 cp), 0x80 OR ucast (drop_bit 6 cp AND 0x3F), 0x80 OR ucast (cp AND 0x3F)]
      else
        [0xF0 OR ucast (drop_bit 18 cp), 0x80 OR ucast (drop_bit 12 cp AND 0x3F),
         0x80 OR ucast (drop_bit 6 cp AND 0x3F), 0x80 OR ucast (cp AND 0x3F)])"

definition hex_digit :: "u8 \<Rightarrow> u8 option" where
  "hex_digit c =
     (if 0x30 \<le> c \<and> c \<le> 0x39 then Some (c - 0x30)
      else if 0x61 \<le> c \<and> c \<le> 0x66 then Some (c - 0x61 + 10)
      else if 0x41 \<le> c \<and> c \<le> 0x46 then Some (c - 0x41 + 10) else None)"

fun hex_digits :: "u32 \<Rightarrow> bytes \<Rightarrow> u32 option" where
  "hex_digits v [] = Some v"
| "hex_digits v (c # s) =
     (case hex_digit c of None \<Rightarrow> None | Some d \<Rightarrow> hex_digits (push_bit 4 v OR ucast d) s)"

definition hex4 :: "bytes \<Rightarrow> u32 option" where
  "hex4 s = (if 4 \<le> length s then hex_digits 0 (take 4 s) else None)"

text \<open>The character of an escape \<open>\uXXXX\<close> and the text after it; a high surrogate needs its low one.\<close>

definition unicode_escape :: "bytes \<Rightarrow> json_error + bytes \<times> bytes" where
  "unicode_escape s =
     (case hex4 (drop 2 s) of
        None \<Rightarrow> Inl JSyntax
      | Some u \<Rightarrow>
          let t = drop 6 s in
          if 0xD800 \<le> u \<and> u \<le> 0xDBFF then
            (case (t, hex4 (drop 2 t)) of
               (a # b # _, Some lo) \<Rightarrow>
                 if a = 0x5C \<and> b = 0x75 \<and> 0xDC00 \<le> lo \<and> lo \<le> 0xDFFF
                 then Inr (push_utf8 (0x10000 + push_bit 10 (u - 0xD800) + (lo - 0xDC00)), drop 6 t)
                 else Inl JUtf16
             | _ \<Rightarrow> Inl JUtf16)
          else if 0xDC00 \<le> u \<and> u \<le> 0xDFFF then Inl JUtf16
          else Inr (push_utf8 u, t))"

definition short_escape :: "u8 \<Rightarrow> u8 option" where
  "short_escape c =
     (if c = 0x22 \<or> c = 0x5C \<or> c = 0x2F then Some c
      else if c = 0x62 then Some 0x08 else if c = 0x66 then Some 0x0C else if c = 0x6E then Some 0x0A
      else if c = 0x72 then Some 0x0D else if c = 0x74 then Some 0x09 else None)"

definition json_escape :: "bytes \<Rightarrow> json_error + bytes \<times> bytes" where
  "json_escape s =
     (case tl s of
        [] \<Rightarrow> Inl JSyntax
      | c # t \<Rightarrow>
          if c = 0x75 then unicode_escape s
          else (case short_escape c of Some ch \<Rightarrow> Inr ([ch], t) | None \<Rightarrow> Inl JSyntax))"

lemma unicode_escape_rest:
  assumes "unicode_escape s = Inr (out, t)"
  shows "\<exists>n. 0 < n \<and> t = drop n s"
proof -
  have "t = drop 6 s \<or> t = drop 6 (drop 6 s)"
    using assms by (auto simp: unicode_escape_def Let_def simp del: drop_drop split: list.splits option.splits if_splits)
  then have "t = drop 6 s \<or> t = drop 12 s" by simp
  then show ?thesis by (metis zero_less_numeral)
qed

lemma json_escape_shorter:
  assumes "json_escape s = Inr (out, t)"
  shows "length t < length s"
proof -
  obtain c u where s: "tl s = c # u" using assms by (auto simp: json_escape_def split: list.splits)
  then have ne: "s \<noteq> []" by auto
  show ?thesis
  proof (cases "c = 0x75")
    case True
    then have "unicode_escape s = Inr (out, t)" using assms s by (simp add: json_escape_def)
    then obtain n where "0 < n" "t = drop n s" using unicode_escape_rest by blast
    then show ?thesis using ne by (cases s) auto
  next
    case False
    then have "t = u" using assms s by (auto simp: json_escape_def split: option.splits)
    then show ?thesis using s by (cases s) auto
  qed
qed

lemma utf8_len_pos: "utf8_len s = Some n \<Longrightarrow> 0 < n"
  by (auto simp: utf8_len_def Let_def split: if_splits)

lemma dropWhile_rest:
  assumes "c # t = dropWhile p s"
  shows "length t < length s"
proof -
  have "length (c # t) \<le> length s" unfolding assms by (rule length_dropWhile_le)
  then show ?thesis by simp
qed

text \<open>The slow path of \<open>string\<close>: what was built, the run of bytes not yet copied, the rest.\<close>

function str_slow :: "bool \<Rightarrow> utf8_mode \<Rightarrow> bytes \<Rightarrow> bytes \<Rightarrow> bytes \<Rightarrow> json_error + bytes \<times> bytes" where
  "str_slow build mode buf run s =
     (let run = run @ takeWhile json_plain s; s = dropWhile json_plain s;
          flushed = (if build then buf @ run else buf) in
      case s of
        [] \<Rightarrow> Inl JCtrlChar
      | c # t \<Rightarrow>
          if c = 0x22 then Inr (flushed, t)
          else if c = 0x5C then
            (case json_escape s of
               Inl e \<Rightarrow> Inl e
             | Inr (out, t) \<Rightarrow> str_slow build mode (if build then flushed @ out else flushed) [] t)
          else if c < 0x20 then Inl JCtrlChar
          else
            (case utf8_len s of
              Some n \<Rightarrow> str_slow build mode buf (run @ take n s) (drop n s)
            | None \<Rightarrow>
                (case mode of
                   Utf8Error \<Rightarrow> Inl JUtf8
                 | Utf8Ignore \<Rightarrow> str_slow build mode flushed [] t
                 | Utf8Substitute \<Rightarrow>
                     str_slow build mode (if build then flushed @ [0xEF, 0xBF, 0xBD] else flushed) [] t)))"
  by pat_completeness auto
termination
proof (relation "measure (\<lambda>(build, mode, buf, run, s). length s)", goal_cases)
  case (2 build mode buf run s r s' f c t res out t')
  have "json_escape s' = Inr (out, t')" using 2 by simp
  then have "length t' < length s'" by (rule json_escape_shorter)
  also have "\<dots> \<le> length s" using 2 by (simp add: length_dropWhile_le)
  finally show ?case by simp
next
  case (5 build mode buf run s r s' f c t n)
  have "0 < n" using 5 by (simp add: utf8_len_pos)
  moreover have "length s' = Suc (length t)" using 5 by (metis length_Cons)
  ultimately show ?case using dropWhile_rest [of c t json_plain s] 5 by simp
qed (auto dest: dropWhile_rest)

declare str_slow.simps [simp del]

text \<open>The fast path: the bytes since the opening quote and the rest.\<close>

function str_fast :: "bool \<Rightarrow> utf8_mode \<Rightarrow> bytes \<Rightarrow> bytes \<Rightarrow> json_error + bytes \<times> bytes" where
  "str_fast build mode run s =
     (let run = run @ takeWhile json_plain s; s = dropWhile json_plain s;
          slow = str_slow build mode (if build then run else []) [] s in
      case s of
        [] \<Rightarrow> Inl JCtrlChar
      | c # t \<Rightarrow>
          if c = 0x22 then Inr (run, t)
          else if c = 0x5C then slow
          else if c < 0x20 then Inl JCtrlChar
          else
            (case utf8_len s of
              Some n \<Rightarrow> str_fast build mode (run @ take n s) (drop n s)
            | None \<Rightarrow> if mode = Utf8Error then Inl JUtf8 else slow))"
  by pat_completeness auto
termination
proof (relation "measure (\<lambda>(build, mode, run, s). length s)", goal_cases)
  case (2 build mode run s r s' slow c t n)
  have "0 < n" using 2 by (simp add: utf8_len_pos)
  moreover have "length s' = Suc (length t)" using 2 by (metis length_Cons)
  ultimately show ?case using dropWhile_rest [of c t json_plain s] 2 by simp
qed auto

declare str_fast.simps [simp del]

text \<open>\<open>string\<close>, at the opening quote.\<close>

definition json_string :: "bool \<Rightarrow> utf8_mode \<Rightarrow> bytes \<Rightarrow> json_error + bytes \<times> bytes" where
  "json_string build mode s = str_fast build mode [] (tl s)"

section \<open>Numbers\<close>

text \<open>The digits before the point, the fraction and the exponent, each with the rest.\<close>

definition json_int :: "bytes \<Rightarrow> (bytes \<times> bytes) option" where
  "json_int s =
     (case s of
        [] \<Rightarrow> None
      | c # t \<Rightarrow>
          if c = 0x30 then Some ([c], t)
          else if 0x31 \<le> c \<and> c \<le> 0x39 then Some (c # takeWhile is_ascii_digit t, dropWhile is_ascii_digit t)
          else None)"

definition json_frac :: "bytes \<Rightarrow> bytes \<times> bytes" where
  "json_frac s =
     (case s of
        c # d # t \<Rightarrow>
          if c = 0x2E \<and> is_ascii_digit d
          then (c # d # takeWhile is_ascii_digit t, dropWhile is_ascii_digit t) else ([], s)
      | _ \<Rightarrow> ([], s))"

definition json_exp :: "bytes \<Rightarrow> bytes \<times> bytes" where
  "json_exp s =
     (case s of
        c # t \<Rightarrow>
          if c = 0x65 \<or> c = 0x45 then
            let (sign, t) = (case t of x # t' \<Rightarrow> if x = 0x2B \<or> x = 0x2D then ([x], t') else ([], t) | [] \<Rightarrow> ([], [])) in
            (case t of
               d # t' \<Rightarrow>
                 if is_ascii_digit d
                 then (c # sign @ d # takeWhile is_ascii_digit t', dropWhile is_ascii_digit t') else ([], s)
             | [] \<Rightarrow> ([], s))
          else ([], s)
      | [] \<Rightarrow> ([], s))"

definition int_value :: "bool \<Rightarrow> bytes \<Rightarrow> i64 option" where
  "int_value neg digits =
     (if length digits \<le> 18 then let v = fast_digits 0 digits in Some (if neg then - v else v)
      else (case num_digits 0 digits of
        Some v \<Rightarrow>
          if \<not> neg \<and> v \<le> 2 ^ 63 - 1 then Some (word_of_nat v)
          else if neg \<and> v \<le> 2 ^ 63 then Some (- word_of_nat v) else None
      | None \<Rightarrow> None))"

definition number_value :: "bool \<Rightarrow> bool \<Rightarrow> bytes \<Rightarrow> bytes \<Rightarrow> bytes \<Rightarrow> val" where
  "number_value bigint neg digits fp ex =
     (let text = (if neg then [0x2D] else []) @ digits @ fp @ ex in
      case (if fp = [] \<and> ex = [] then int_value neg digits else None) of
        Some i \<Rightarrow> VInt i
      | None \<Rightarrow> if fp = [] \<and> ex = [] \<and> bigint then VStr text else VFloat (parse_float_ascii text))"

definition json_number :: "bool \<Rightarrow> bool \<Rightarrow> bytes \<Rightarrow> json_error + val \<times> bytes" where
  "json_number build bigint s =
     (let neg = (hd s = 0x2D); s = (if neg then tl s else s) in
      case json_int s of
        None \<Rightarrow> Inl JSyntax
      | Some (digits, s) \<Rightarrow>
          let (fp, s) = json_frac s; (ex, s) = json_exp s in
          Inr (if build then number_value bigint neg digits fp ex else VNull, s))"

section \<open>Member names\<close>

text \<open>\<open>KeyCache\<close>: a table of names picked by the FNV hash of the bytes.\<close>

type_synonym key_cache = "bytes option list"

definition cache_size :: nat where "cache_size = 256"
definition cache_max_len :: nat where "cache_max_len = 24"

definition fnv :: "bytes \<Rightarrow> u32" where
  "fnv b = foldl (\<lambda>h c. (h XOR ucast c) * 0x01000193) 0x811c9dc5 b"

definition cache_key :: "key_cache \<Rightarrow> bytes \<Rightarrow> key_cache \<times> key" where
  "cache_key slots b =
     (if b = [] \<or> cache_max_len < length b then (slots, key_from_bytes b)
      else
        (case (if is_ascii_digit (hd b) \<or> hd b = 0x2D then canonical_int b else None) of
          Some i \<Rightarrow> (slots, KInt i)
        | None \<Rightarrow>
            let slots = (if slots = [] then replicate cache_size None else slots);
                i = unat (fnv b AND 255) in
            (case slots ! i of
              Some s \<Rightarrow> if s = b then (slots, KStr s) else (slots[i := Some b], KStr b)
            | None \<Rightarrow> (slots[i := Some b], KStr b))))"

section \<open>The parser\<close>

record decode_options =
  do_assoc :: bool
  do_depth :: nat
  do_bigint :: bool
  do_utf8 :: utf8_mode

record json_frame =
  jf_obj :: bool
  jf_vals :: nat
  jf_keys :: nat

text \<open>Values and names are vectors; the stacks of containers and of name flags have their top first.\<close>

record json_parser =
  jp_rest :: bytes
  jp_stack :: "json_frame list"
  jp_vals :: "val list"
  jp_keys :: "key list"
  jp_key_nul :: "bool list"
  jp_cache :: key_cache

definition parser_new :: "bytes \<Rightarrow> json_parser" where
  "parser_new s = \<lparr>jp_rest = s, jp_stack = [], jp_vals = [], jp_keys = [], jp_key_nul = [], jp_cache = []\<rparr>"

text \<open>The error for a token that is not accepted: its own lexical error or a syntax error.\<close>

definition json_unexpected :: "utf8_mode \<Rightarrow> bytes \<Rightarrow> json_error" where
  "json_unexpected mode s =
     (case s of
        [] \<Rightarrow> JSyntax
      | c # t \<Rightarrow>
          if c = 0x22 then (case json_string False mode s of Inl e \<Rightarrow> e | Inr _ \<Rightarrow> JSyntax)
          else if c \<le> 0x1F then JCtrlChar
          else if 0x80 \<le> c then (if utf8_len s \<noteq> None then JSyntax else JUtf8)
          else JSyntax)"

text \<open>A member name and the colon after it.\<close>

definition json_key :: "bool \<Rightarrow> decode_options \<Rightarrow> json_parser \<Rightarrow> json_error + json_parser" where
  "json_key build opt p =
     (case json_string build (do_utf8 opt) (jp_rest p) of
        Inl e \<Rightarrow> Inl e
      | Inr (b, s) \<Rightarrow>
          let p = (if build then
                     let (cache, k) = cache_key (jp_cache p) b in
                     p\<lparr>jp_key_nul := (if do_assoc opt then jp_key_nul p else (b \<noteq> [] \<and> hd b = 0) # jp_key_nul p),
                       jp_keys := jp_keys p @ [k], jp_cache := cache\<rparr>
                   else p);
              s = skip_ws s in
          if s \<noteq> [] \<and> hd s = 0x3A then Inr (p\<lparr>jp_rest := tl s\<rparr>)
          else Inl (json_unexpected (do_utf8 opt) s))"

definition push_values :: "val list \<Rightarrow> array_data \<Rightarrow> array_data" where
  "push_values vs a = foldl (\<lambda>a v. fst (arr_push a v)) a vs"

definition insert_members :: "(key \<times> val) list \<Rightarrow> array_data \<Rightarrow> array_data" where
  "insert_members es a = foldl (\<lambda>a (k, v). fst (arr_insert a k v)) a es"

text \<open>The array of a container: no allocation for an empty one.\<close>

definition container :: "array_data \<Rightarrow> nat \<Rightarrow> 'e world \<Rightarrow> 'e world \<times> nat option" where
  "container d n W = (if n = 0 then (W, None) else new_array W d)"

text \<open>The innermost container ends; its value goes to the values.\<close>

definition json_close ::
  "bool \<Rightarrow> decode_options \<Rightarrow> ('e, 'x) json_host option \<Rightarrow> json_parser \<Rightarrow> 'e json_state \<Rightarrow> json_parser \<times> 'e json_state" where
  "json_close build opt H p st =
     (case jp_stack p of
        [] \<Rightarrow> (p, st)
      | f # fs \<Rightarrow>
          if \<not> build then (p\<lparr>jp_stack := fs\<rparr>, st)
          else
            let vs = drop (jf_vals f) (jp_vals p); n = length vs in
            if \<not> jf_obj f then
              let (W, a) = container (push_values vs arr_new) n (js_world st) in
              (p\<lparr>jp_stack := fs, jp_vals := take (jf_vals f) (jp_vals p) @ [VArray a]\<rparr>, st\<lparr>js_world := W\<rparr>)
            else
              let ks = drop (jf_keys f) (jp_keys p);
                  (W, a) = container (insert_members (zip ks vs) arr_new) n (js_world st);
                  st = st\<lparr>js_world := W\<rparr>;
                  (v, st) = (if do_assoc opt then (VArray a, st)
                             else (case H of Some H \<Rightarrow> jh_new_object H a st | None \<Rightarrow> (VNull, st)));
                  p = p\<lparr>jp_keys := (if n = 0 then jp_keys p else take (jf_keys f) (jp_keys p))\<rparr> in
              (p\<lparr>jp_stack := fs, jp_vals := take (jf_vals f) (jp_vals p) @ [v]\<rparr>, st))"

datatype json_phase = NeedValue | HaveValue

definition json_literal :: "u8 \<Rightarrow> bytes \<times> val" where
  "json_literal c =
     (if c = 0x74 then (ascii ''true'', VBool True)
      else if c = 0x66 then (ascii ''false'', VBool False) else (ascii ''null'', VNull))"

definition push_value :: "bool \<Rightarrow> val \<Rightarrow> json_parser \<Rightarrow> json_parser" where
  "push_value build v p = (if build then p\<lparr>jp_vals := jp_vals p @ [v]\<rparr> else p)"

text \<open>A value is expected: the part of the loop before a value is complete.\<close>

definition open_container ::
  "bool \<Rightarrow> decode_options \<Rightarrow> ('e, 'x) json_host option \<Rightarrow> bool \<Rightarrow> json_parser \<Rightarrow> 'e json_state \<Rightarrow>
    (json_error + json_phase \<times> json_parser) \<times> 'e json_state" where
  "open_container build opt H obj p st =
     (if do_depth opt \<le> length (jp_stack p) + 1 then (Inl JDepth, st)
      else
        let s = skip_ws (tl (jp_rest p));
            p = p\<lparr>jp_rest := s,
              jp_stack := \<lparr>jf_obj = obj, jf_vals = length (jp_vals p), jf_keys = length (jp_keys p)\<rparr> # jp_stack p\<rparr> in
        case s of
          [] \<Rightarrow> if obj then (Inl (json_unexpected (do_utf8 opt) s), st) else (Inr (NeedValue, p), st)
        | c # t \<Rightarrow>
            if c = (if obj then 0x7D else 0x5D) then
              let (p, st) = json_close build opt H (p\<lparr>jp_rest := t\<rparr>) st in (Inr (HaveValue, p), st)
            else if c = 0x7D \<or> c = 0x5D then (Inl JStateMismatch, st)
            else if obj then
              if c = 0x22 then
                (case json_key build opt p of Inl e \<Rightarrow> (Inl e, st) | Inr p \<Rightarrow> (Inr (NeedValue, p), st))
              else (Inl (json_unexpected (do_utf8 opt) s), st)
            else (Inr (NeedValue, p), st))"

definition json_need ::
  "bool \<Rightarrow> decode_options \<Rightarrow> ('e, 'x) json_host option \<Rightarrow> json_parser \<Rightarrow> 'e json_state \<Rightarrow>
    (json_error + json_phase \<times> json_parser) \<times> 'e json_state" where
  "json_need build opt H p st =
     (let s = skip_ws (jp_rest p); p = p\<lparr>jp_rest := s\<rparr> in
      case s of
        [] \<Rightarrow> (Inl JSyntax, st)
      | c # t \<Rightarrow>
          if c = 0x5B \<or> c = 0x7B then open_container build opt H (c = 0x7B) p st
          else if c = 0x22 then
            (case json_string build (do_utf8 opt) s of
               Inl e \<Rightarrow> (Inl e, st)
             | Inr (b, s) \<Rightarrow> (Inr (HaveValue, push_value build (VStr b) (p\<lparr>jp_rest := s\<rparr>)), st))
          else if c = 0x2D \<or> is_ascii_digit c then
            (case json_number build (do_bigint opt) s of
               Inl e \<Rightarrow> (Inl e, st)
             | Inr (v, s) \<Rightarrow> (Inr (HaveValue, push_value build v (p\<lparr>jp_rest := s\<rparr>)), st))
          else if c = 0x74 \<or> c = 0x66 \<or> c = 0x6E then
            let (lit, v) = json_literal c in
            if take (length lit) s = lit
            then (Inr (HaveValue, push_value build v (p\<lparr>jp_rest := drop (length lit) s\<rparr>)), st)
            else (Inl JSyntax, st)
          else (Inl (json_unexpected (do_utf8 opt) s), st))"

text \<open>A value is complete: what may follow depends on the container.\<close>

definition json_have ::
  "bool \<Rightarrow> decode_options \<Rightarrow> ('e, 'x) json_host option \<Rightarrow> json_parser \<Rightarrow> 'e json_state \<Rightarrow>
    (json_error + val + json_phase \<times> json_parser) \<times> 'e json_state" where
  "json_have build opt H p st =
     (let s = skip_ws (jp_rest p) in
      case jp_stack p of
        [] \<Rightarrow>
          (if s = [] then
             Inr (Inl (if build then (if jp_vals p = [] then VNull else last (jp_vals p)) else VNull))
           else Inl (json_unexpected (do_utf8 opt) s), st)
      | f # fs \<Rightarrow>
          let check = jf_obj f \<and> \<not> do_assoc opt;
              bad = (check \<and> jp_key_nul p \<noteq> [] \<and> hd (jp_key_nul p));
              p = p\<lparr>jp_rest := s, jp_key_nul := (if check then tl (jp_key_nul p) else jp_key_nul p)\<rparr> in
          if bad then (Inl JInvalidPropertyName, st)
          else
            (case s of
              [] \<Rightarrow> (Inl (json_unexpected (do_utf8 opt) s), st)
            | c # t \<Rightarrow>
                if c = 0x2C then
                  if jf_obj f then
                    let t = skip_ws t in
                    if t \<noteq> [] \<and> hd t = 0x22 then
                      (case json_key build opt (p\<lparr>jp_rest := t\<rparr>) of
                         Inl e \<Rightarrow> (Inl e, st) | Inr p \<Rightarrow> (Inr (Inr (NeedValue, p)), st))
                    else (Inl (json_unexpected (do_utf8 opt) t), st)
                  else (Inr (Inr (NeedValue, p\<lparr>jp_rest := t\<rparr>)), st)
                else if c = (if jf_obj f then 0x7D else 0x5D) then
                  let (p, st) = json_close build opt H (p\<lparr>jp_rest := t\<rparr>) st in (Inr (Inr (HaveValue, p)), st)
                else if c = 0x5D \<or> c = 0x7D then (Inl JStateMismatch, st)
                else (Inl (json_unexpected (do_utf8 opt) s), st)))"

definition json_step ::
  "bool \<Rightarrow> decode_options \<Rightarrow> ('e, 'x) json_host option \<Rightarrow> json_phase \<Rightarrow> json_parser \<Rightarrow> 'e json_state \<Rightarrow>
    (json_error + val + json_phase \<times> json_parser) \<times> 'e json_state" where
  "json_step build opt H ph p st =
     (case ph of
        NeedValue \<Rightarrow>
          (case json_need build opt H p st of (Inl e, st) \<Rightarrow> (Inl e, st) | (Inr q, st) \<Rightarrow> (Inr (Inr q), st))
      | HaveValue \<Rightarrow> json_have build opt H p st)"

section \<open>The loop ends\<close>

text \<open>Every token is a non-empty piece of the text.\<close>

lemma skip_ws_le: "length (skip_ws s) \<le> length s"
  by (simp add: skip_ws_def length_dropWhile_le)

text \<open>The loops of \<open>string\<close>, one byte at a time.\<close>

lemma plain_cases:
  obtains "json_plain c" | "c = 0x22" | "c = 0x5C" | "c < 0x20" "c \<noteq> 0x22" "c \<noteq> 0x5C" "\<not> json_plain c"
    | "0x80 \<le> c" "c \<noteq> 0x22" "c \<noteq> 0x5C" "\<not> c < 0x20" "\<not> json_plain c"
proof -
  have "c < 0x80 \<or> 0x80 \<le> c" "c < 0x20 \<or> 0x20 \<le> c" by auto
  then show ?thesis using that by (cases "json_plain c"; cases "c < 0x20") (auto simp: json_plain_def)
qed

lemma not_plain_simps [simp]: "\<not> json_plain 0x22" "\<not> json_plain 0x5C"
  by (simp_all add: json_plain_def)

lemma str_slow_simps:
  "str_slow build mode buf run [] = Inl JCtrlChar"
  "json_plain c \<Longrightarrow> str_slow build mode buf run (c # s) = str_slow build mode buf (run @ [c]) s"
  "str_slow build mode buf run (0x22 # s) = Inr (if build then buf @ run else buf, s)"
  "str_slow build mode buf run (0x5C # s) =
     (case json_escape (0x5C # s) of
        Inl e \<Rightarrow> Inl e
      | Inr (out, t) \<Rightarrow> str_slow build mode (if build then buf @ run @ out else buf) [] t)"
  "c < 0x20 \<Longrightarrow> str_slow build mode buf run (c # s) = Inl JCtrlChar"
  "0x80 \<le> c \<Longrightarrow> str_slow build mode buf run (c # s) =
     (case utf8_len (c # s) of
        Some n \<Rightarrow> str_slow build mode buf (run @ take n (c # s)) (drop n (c # s))
      | None \<Rightarrow>
          (case mode of
             Utf8Error \<Rightarrow> Inl JUtf8
           | Utf8Ignore \<Rightarrow> str_slow build mode (if build then buf @ run else buf) [] s
           | Utf8Substitute \<Rightarrow> str_slow build mode (if build then buf @ run @ [0xEF, 0xBF, 0xBD] else buf) [] s))"
proof -
  have hi: "\<not> json_plain c" "c \<noteq> 0x22" "c \<noteq> 0x5C" "\<not> c < 0x20" if "0x80 \<le> c" for c :: u8
    using that by (auto simp: json_plain_def word_le_nat_alt word_less_nat_alt)
  have lo: "\<not> json_plain c" "c \<noteq> 0x22" "c \<noteq> 0x5C" if "c < 0x20" for c :: u8
    using that by (auto simp: json_plain_def word_le_nat_alt word_less_nat_alt)
  show "str_slow build mode buf run [] = Inl JCtrlChar" by (simp add: str_slow.simps [of _ _ _ _ "[]"])
  show "str_slow build mode buf run (c # s) = str_slow build mode buf (run @ [c]) s" if "json_plain c"
    using that by (subst (1 2) str_slow.simps) (simp add: Let_def)
  show "str_slow build mode buf run (0x22 # s) = Inr (if build then buf @ run else buf, s)"
    by (subst str_slow.simps) simp
  show "str_slow build mode buf run (0x5C # s) =
     (case json_escape (0x5C # s) of
        Inl e \<Rightarrow> Inl e
      | Inr (out, t) \<Rightarrow> str_slow build mode (if build then buf @ run @ out else buf) [] t)"
    by (subst str_slow.simps) (simp add: Let_def split: sum.splits)
  show "str_slow build mode buf run (c # s) = Inl JCtrlChar" if "c < 0x20"
    using lo [OF that] that by (subst str_slow.simps) simp
  show "str_slow build mode buf run (c # s) =
     (case utf8_len (c # s) of
        Some n \<Rightarrow> str_slow build mode buf (run @ take n (c # s)) (drop n (c # s))
      | None \<Rightarrow>
          (case mode of
             Utf8Error \<Rightarrow> Inl JUtf8
           | Utf8Ignore \<Rightarrow> str_slow build mode (if build then buf @ run else buf) [] s
           | Utf8Substitute \<Rightarrow> str_slow build mode (if build then buf @ run @ [0xEF, 0xBF, 0xBD] else buf) [] s))"
    if "0x80 \<le> c"
    using hi [OF that] by (subst str_slow.simps) (simp add: Let_def split: option.splits utf8_mode.splits)
qed

lemma str_fast_simps:
  "str_fast build mode run [] = Inl JCtrlChar"
  "json_plain c \<Longrightarrow> str_fast build mode run (c # s) = str_fast build mode (run @ [c]) s"
  "str_fast build mode run (0x22 # s) = Inr (run, s)"
  "str_fast build mode run (0x5C # s) = str_slow build mode (if build then run else []) [] (0x5C # s)"
  "c < 0x20 \<Longrightarrow> str_fast build mode run (c # s) = Inl JCtrlChar"
  "0x80 \<le> c \<Longrightarrow> str_fast build mode run (c # s) =
     (case utf8_len (c # s) of
        Some n \<Rightarrow> str_fast build mode (run @ take n (c # s)) (drop n (c # s))
      | None \<Rightarrow> if mode = Utf8Error then Inl JUtf8 else str_slow build mode (if build then run else []) [] (c # s))"
proof -
  have hi: "\<not> json_plain c" "c \<noteq> 0x22" "c \<noteq> 0x5C" "\<not> c < 0x20" if "0x80 \<le> c" for c :: u8
    using that by (auto simp: json_plain_def word_le_nat_alt word_less_nat_alt)
  have lo: "\<not> json_plain c" "c \<noteq> 0x22" "c \<noteq> 0x5C" if "c < 0x20" for c :: u8
    using that by (auto simp: json_plain_def word_le_nat_alt word_less_nat_alt)
  show "str_fast build mode run [] = Inl JCtrlChar" by (simp add: str_fast.simps [of _ _ _ "[]"])
  show "str_fast build mode run (c # s) = str_fast build mode (run @ [c]) s" if "json_plain c"
    using that by (subst (1 2) str_fast.simps) (simp add: Let_def)
  show "str_fast build mode run (0x22 # s) = Inr (run, s)"
    by (subst str_fast.simps) simp
  show "str_fast build mode run (0x5C # s) = str_slow build mode (if build then run else []) [] (0x5C # s)"
    by (subst str_fast.simps) (simp add: Let_def)
  show "str_fast build mode run (c # s) = Inl JCtrlChar" if "c < 0x20"
    using lo [OF that] that by (subst str_fast.simps) simp
  show "str_fast build mode run (c # s) =
     (case utf8_len (c # s) of
        Some n \<Rightarrow> str_fast build mode (run @ take n (c # s)) (drop n (c # s))
      | None \<Rightarrow> if mode = Utf8Error then Inl JUtf8 else str_slow build mode (if build then run else []) [] (c # s))"
    if "0x80 \<le> c"
    using hi [OF that] by (subst str_fast.simps) (simp add: Let_def split: option.splits)
qed

lemma drop_shorter: "0 < n \<Longrightarrow> length t < length (drop n (c # s)) \<Longrightarrow> length t < length (c # s)"
  by simp

lemma str_slow_shorter: "str_slow build mode buf run s = Inr (b, t) \<Longrightarrow> length t < length s"
proof (induction "length s" arbitrary: buf run s rule: less_induct)
  case less
  show ?case
  proof (cases s)
    case Nil
    then show ?thesis using less.prems by (simp add: str_slow_simps)
  next
    case (Cons c v)
    have IH: "length t < length w" if "str_slow build mode buf' run' w = Inr (b, t)" "length w < length s" for buf' run' w
      using less.hyps [OF that(2,1)] .
    show ?thesis
    proof (cases c rule: plain_cases)
      case 1
      then have "length t < length v" using less.prems Cons by (intro IH) (simp_all add: str_slow_simps)
      then show ?thesis using Cons by simp
    next
      case 2
      then show ?thesis using less.prems Cons by (simp add: str_slow_simps)
    next
      case 3
      obtain out w where e: "json_escape s = Inr (out, w)"
        using less.prems 3 Cons by (auto simp: str_slow_simps split: sum.splits)
      have w: "length w < length s" by (rule json_escape_shorter [OF e])
      have "length t < length w"
        using less.prems 3 Cons e w by (intro IH [where w = w]) (simp_all add: str_slow_simps)
      then show ?thesis using w by simp
    next
      case 4
      then show ?thesis using less.prems Cons by (simp add: str_slow_simps)
    next
      case 5
      show ?thesis
      proof (cases "utf8_len s")
        case (Some n)
        have n: "0 < n" using Some by (rule utf8_len_pos)
        have "length t < length (drop n s)"
          using less.prems 5 Cons Some n by (intro IH [where w = "drop n s"]) (simp_all add: str_slow_simps)
        then show ?thesis by simp
      next
        case None
        then have "length t < length v" using less.prems 5(1) Cons
          by (cases mode) (auto simp: str_slow_simps intro: IH)
        then show ?thesis using Cons by simp
      qed
    qed
  qed
qed

lemma str_fast_shorter: "str_fast build mode run s = Inr (b, t) \<Longrightarrow> length t < length s"
proof (induction "length s" arbitrary: run s rule: less_induct)
  case less
  show ?case
  proof (cases s)
    case Nil
    then show ?thesis using less.prems by (simp add: str_fast_simps)
  next
    case (Cons c v)
    have IH: "length t < length w" if "str_fast build mode run' w = Inr (b, t)" "length w < length s" for run' w
      using less.hyps [OF that(2,1)] .
    show ?thesis
    proof (cases c rule: plain_cases)
      case 1
      then have "length t < length v" using less.prems Cons by (intro IH) (simp_all add: str_fast_simps)
      then show ?thesis using Cons by simp
    next
      case 2
      then show ?thesis using less.prems Cons by (simp add: str_fast_simps)
    next
      case 3
      then have "str_slow build mode (if build then run else []) [] s = Inr (b, t)"
        using less.prems Cons by (simp add: str_fast_simps)
      then show ?thesis by (rule str_slow_shorter)
    next
      case 4
      then show ?thesis using less.prems Cons by (simp add: str_fast_simps)
    next
      case 5
      show ?thesis
      proof (cases "utf8_len s")
        case (Some n)
        have n: "0 < n" using Some by (rule utf8_len_pos)
        have "length t < length (drop n s)"
          using less.prems 5 Cons Some n by (intro IH [where w = "drop n s"]) (simp_all add: str_fast_simps)
        then show ?thesis by simp
      next
        case None
        then have "str_slow build mode (if build then run else []) [] s = Inr (b, t)"
          using less.prems 5(1) Cons by (simp add: str_fast_simps split: if_splits)
        then show ?thesis by (rule str_slow_shorter)
      qed
    qed
  qed
qed

lemma json_string_shorter: "json_string build mode s = Inr (b, t) \<Longrightarrow> length t < length s"
  unfolding json_string_def using str_fast_shorter [of build mode "[]" "tl s"] by (cases s) (auto dest: less_SucI)

lemma json_int_shorter: "json_int s = Some (d, t) \<Longrightarrow> length t < length s"
  by (auto simp: json_int_def length_dropWhile_le less_Suc_eq_le split: list.splits if_splits)

lemma json_frac_le: "json_frac s = (d, t) \<Longrightarrow> length t \<le> length s"
  by (auto simp: json_frac_def length_dropWhile_le le_SucI split: list.splits if_splits)

lemma json_exp_le: "json_exp s = (d, t) \<Longrightarrow> length t \<le> length s"
  by (auto simp: json_exp_def length_dropWhile_le le_SucI Let_def split: list.splits if_splits prod.splits)

lemma json_number_shorter:
  assumes "json_number build bigint s = Inr (v, t)"
  shows "length t < length s"
proof -
  define s' where "s' = (if hd s = 0x2D then tl s else s)"
  obtain d r where d: "json_int s' = Some (d, r)"
    using assms by (auto simp: json_number_def Let_def simp flip: s'_def split: option.splits prod.splits)
  obtain f r' where f: "json_frac r = (f, r')" by (cases "json_frac r")
  obtain x r'' where x: "json_exp r' = (x, r'')" by (cases "json_exp r'")
  have "t = r''" using assms d f x by (simp add: json_number_def Let_def flip: s'_def)
  moreover have "length r'' < length s'"
    using json_int_shorter [OF d] json_frac_le [OF f] json_exp_le [OF x] by linarith
  ultimately have "length t < length s'" by simp
  then show ?thesis by (auto simp: s'_def split: if_splits)
qed

lemma json_key_shorter:
  assumes "json_key build opt p = Inr p'"
  shows "length (jp_rest p') < length (jp_rest p)"
proof -
  obtain b s where s: "json_string build (do_utf8 opt) (jp_rest p) = Inr (b, s)"
    using assms by (auto simp: json_key_def split: sum.splits)
  have "jp_rest p' = tl (skip_ws s)"
    using assms s by (auto simp: json_key_def Let_def split: if_splits prod.splits)
  then show ?thesis
    using json_string_shorter [OF s] skip_ws_le [of s] by (simp add: less_imp_le_nat order.strict_trans1)
qed

lemma json_close_rest [simp]: "jp_rest (fst (json_close build opt H p st)) = jp_rest p"
  by (auto simp: json_close_def Let_def split: list.splits prod.splits option.splits if_splits)

lemma push_value_rest [simp]: "jp_rest (push_value build v p) = jp_rest p"
  by (simp add: push_value_def)

lemma skip_ws_tl: "skip_ws s = c # t \<Longrightarrow> length t < length s"
  using skip_ws_le [of s] by simp

lemma open_container_shorter:
  assumes "open_container build opt H obj p st = (Inr (ph, p'), st')" "jp_rest p = c # t"
  shows "length (jp_rest p') < length (jp_rest p)"
proof -
  define s where "s = skip_ws t"
  define q where "q = p\<lparr>jp_rest := s,
    jp_stack := \<lparr>jf_obj = obj, jf_vals = length (jp_vals p), jf_keys = length (jp_keys p)\<rparr> # jp_stack p\<rparr>"
  have s: "length s < length (jp_rest p)" using skip_ws_le [of t] assms(2) by (simp add: s_def)
  have q: "jp_rest q = s" by (simp add: q_def)
  have "length (jp_rest p') \<le> length s"
  proof (cases s)
    case Nil
    then show ?thesis using assms(1) assms(2)
      by (auto simp: open_container_def Let_def simp flip: s_def split: if_splits)
  next
    case (Cons x u)
    have "p' = fst (json_close build opt H (q\<lparr>jp_rest := u\<rparr>) st) \<or> p' = q \<or> json_key build opt q = Inr p'"
      using assms(1) Cons
      by (auto simp: open_container_def Let_def assms(2) q_def simp flip: s_def split: if_splits prod.splits sum.splits)
    then show ?thesis
    proof (elim disjE)
      assume "json_key build opt q = Inr p'"
      then show ?thesis using json_key_shorter [of build opt q p'] q by simp
    qed (use Cons q in simp_all)
  qed
  then show ?thesis using s by linarith
qed

lemma json_need_shorter:
  assumes "json_need build opt H p st = (Inr (ph, p'), st')"
  shows "length (jp_rest p') < length (jp_rest p)"
proof -
  define s where "s = skip_ws (jp_rest p)"
  define q where "q = p\<lparr>jp_rest := s\<rparr>"
  obtain c t where s: "s = c # t" using assms by (cases s) (auto simp: json_need_def simp flip: s_def)
  have le: "length s \<le> length (jp_rest p)" using skip_ws_le by (simp add: s_def)
  have q: "jp_rest q = s" by (simp add: q_def)
  consider (opn) "open_container build opt H (c = 0x7B) q st = (Inr (ph, p'), st')"
    | (str) b u where "json_string build (do_utf8 opt) s = Inr (b, u)" "jp_rest p' = u"
    | (num) v u where "json_number build (do_bigint opt) s = Inr (v, u)" "jp_rest p' = u"
    | (lit) "jp_rest p' = drop (length (fst (json_literal c))) s"
  proof -
    show thesis
    proof (cases "c = 0x5B \<or> c = 0x7B")
      case True
      then show thesis using assms opn by (simp add: json_need_def Let_def s q_def flip: s_def)
    next
      case o: False
      show thesis
      proof (cases "c = 0x22")
        case True
        then show thesis using assms o str
          by (auto simp: json_need_def Let_def s simp flip: s_def split: sum.splits prod.splits)
      next
        case q: False
        show thesis
        proof (cases "c = 0x2D \<or> is_ascii_digit c")
          case True
          then show thesis using assms o q num
            by (cases "json_number build (do_bigint opt) s") (auto simp: json_need_def Let_def s simp flip: s_def)
        next
          case False
          then show thesis using assms o q lit
            by (auto simp: json_need_def Let_def s simp flip: s_def split: if_splits prod.splits)
        qed
      qed
    qed
  qed
  then show ?thesis
  proof cases
    case opn
    then show ?thesis using open_container_shorter [OF opn, of c t] q s le by simp
  next
    case str
    then show ?thesis using json_string_shorter [OF str(1)] le by simp
  next
    case num
    then show ?thesis using json_number_shorter [OF num(1)] le by simp
  next
    case lit
    have "0 < length (fst (json_literal c))" by (simp add: json_literal_def ascii_def)
    then have "length (drop (length (fst (json_literal c))) s) < length s" unfolding length_drop s by simp
    then show ?thesis using le unfolding lit by linarith
  qed
qed

lemma json_have_shorter:
  assumes "json_have build opt H p st = (Inr (Inr (ph, p')), st')"
  shows "length (jp_rest p') < length (jp_rest p)"
proof -
  define s where "s = skip_ws (jp_rest p)"
  obtain f fs where f: "jp_stack p = f # fs"
    using assms by (cases "jp_stack p") (auto simp: json_have_def Let_def split: if_splits)
  define q where "q = p\<lparr>jp_rest := s, jp_key_nul := (if jf_obj f \<and> \<not> do_assoc opt then tl (jp_key_nul p) else jp_key_nul p)\<rparr>"
  obtain c t where s: "s = c # t"
    using assms by (cases s) (auto simp: json_have_def Let_def f simp flip: s_def split: if_splits)
  have lt: "length t < length (jp_rest p)" using s unfolding s_def by (rule skip_ws_tl)
  have "p' = q\<lparr>jp_rest := t\<rparr> \<or> p' = fst (json_close build opt H (q\<lparr>jp_rest := t\<rparr>) st)
      \<or> json_key build opt (q\<lparr>jp_rest := skip_ws t\<rparr>) = Inr p'"
    using assms by (auto simp: json_have_def Let_def f s q_def simp flip: s_def split: if_splits prod.splits sum.splits)
  then show ?thesis
  proof (elim disjE)
    assume "json_key build opt (q\<lparr>jp_rest := skip_ws t\<rparr>) = Inr p'"
    then have "length (jp_rest p') < length (skip_ws t)" by (auto dest: json_key_shorter)
    then show ?thesis using skip_ws_le [of t] lt by linarith
  qed (use lt in simp_all)
qed

lemma json_step_shorter:
  "json_step build opt H ph p st = (Inr (Inr (ph', p')), st') \<Longrightarrow> length (jp_rest p') < length (jp_rest p)"
  by (cases ph) (auto simp: json_step_def intro: json_need_shorter json_have_shorter split: prod.splits sum.splits)

section \<open>Decoding\<close>

function json_run ::
  "bool \<Rightarrow> decode_options \<Rightarrow> ('e, 'x) json_host option \<Rightarrow> json_phase \<Rightarrow> json_parser \<Rightarrow> 'e json_state \<Rightarrow>
    (json_error + val) \<times> 'e json_state" where
  "json_run build opt H ph p st =
     (case json_step build opt H ph p st of
        (Inl e, st) \<Rightarrow> (Inl e, st)
      | (Inr (Inl v), st) \<Rightarrow> (Inr v, st)
      | (Inr (Inr (ph, p)), st) \<Rightarrow> json_run build opt H ph p st)"
  by pat_completeness auto
termination
  by (relation "measure (\<lambda>(build, opt, H, ph, p, st). length (jp_rest p))") (auto dest: json_step_shorter sym)

declare json_run.simps [simp del]

definition decode ::
  "('e, 'x) json_host \<Rightarrow> bytes \<Rightarrow> decode_options \<Rightarrow> 'e json_state \<Rightarrow> (json_error + val) \<times> 'e json_state" where
  "decode H json opt st = json_run True opt (Some H) NeedValue (parser_new json) st"

text \<open>\<open>validate\<close> builds nothing and has no host; the state is a placeholder that it does not change.\<close>

definition validate :: "bytes \<Rightarrow> nat \<Rightarrow> utf8_mode \<Rightarrow> 'e json_state \<Rightarrow> json_error" where
  "validate json depth mode st =
     (let opt = \<lparr>do_assoc = True, do_depth = depth, do_bigint = False, do_utf8 = mode\<rparr> in
      case fst (json_run False opt (None :: ('e, unit) json_host option) NeedValue (parser_new json) st) of
        Inr _ \<Rightarrow> JNoError | Inl e \<Rightarrow> e)"

end
