(* ===== verification/JsonUtf8.thy ===== *)
theory JsonUtf8
  imports JsonEncode JsonDecode
begin

text \<open>
  UTF-8 in the json extension.  The decoder measures a sequence by its bytes (\<open>utf8_len\<close>), the encoder
  assembles a code point from bits (\<open>next_char\<close>), and escapes are written by \<open>push_utf8\<close>: all three agree
  with the encoding of Unicode scalar values, stated with division and remainder.
\<close>

section \<open>Bits and numbers\<close>

lemma or_disjoint: "x AND y = 0 \<Longrightarrow> x OR y = x + y" for x y :: nat
  by (simp add: disjunctive_add_eq_or)

lemma nat_or_push: "y < 2 ^ k \<Longrightarrow> push_bit k x OR y = x * 2 ^ k + y" for x y :: nat
proof -
  assume "y < 2 ^ k"
  then have y: "take_bit k y = y" by (simp add: take_bit_nat_eq_self_iff)
  have "push_bit k x AND y = 0"
    by (subst y [symmetric]) (auto simp: bit_eq_iff bit_simps)
  then show ?thesis by (simp add: or_disjoint push_bit_eq_mult)
qed

lemma unat_or_push:
  fixes x y :: u32
  assumes "unat y < 2 ^ k" "unat x * 2 ^ k < 2 ^ 32"
  shows "unat (push_bit k x OR y) = unat x * 2 ^ k + unat y"
proof -
  have "push_bit k (unat x) < 2 ^ 32" using assms(2) unfolding push_bit_eq_mult .
  then have "take_bit 32 (push_bit k (unat x)) = push_bit k (unat x)" unfolding take_bit_nat_eq_self_iff .
  then have "unat (push_bit k x) = push_bit k (unat x)" by (simp only: unsigned_push_bit_eq) simp
  then show ?thesis using nat_or_push [OF assms(1)] by (simp only: unsigned_or_eq)
qed

lemma unat_low6: "unat (x AND 0x3F) = unat x mod 64" for x :: "'a::len word"
  using unat_and_mask [of x 6] by (simp add: mask_eq_exp_minus_1)

lemma unat_ucast8: "unat x < 256 \<Longrightarrow> unat (ucast x :: u8) = unat x" for x :: u32
  by (simp add: unsigned_ucast_eq take_bit_nat_eq_self_iff)

lemma unat_or_8:
  fixes x y :: u8
  assumes "unat y < 2 ^ k" "unat x AND mask k = 0"
  shows "unat (x OR y) = unat x + unat y"
proof -
  have y: "take_bit k (unat y) = unat y" using assms(1) by (simp add: take_bit_nat_eq_self_iff)
  have "unat x AND unat y = (unat x AND mask k) AND unat y"
    by (subst (1) y [symmetric], simp only: take_bit_eq_mask ac_simps)
  then have "unat x AND unat y = 0" using assms(2) by simp
  then show ?thesis by (simp add: unsigned_or_eq or_disjoint)
qed

lemma lead_bytes:
  fixes y :: u8
  shows "unat y < 64 \<Longrightarrow> unat (0x80 OR y) = 128 + unat y" "unat y < 32 \<Longrightarrow> unat (0xC0 OR y) = 192 + unat y"
    "unat y < 16 \<Longrightarrow> unat (0xE0 OR y) = 224 + unat y" "unat y < 8 \<Longrightarrow> unat (0xF0 OR y) = 240 + unat y"
  using unat_or_8 [of y 6 "0x80"] unat_or_8 [of y 5 "0xC0"] unat_or_8 [of y 4 "0xE0"] unat_or_8 [of y 3 "0xF0"]
  by (simp_all add: mask_eq_exp_minus_1)

lemma byte_eqI: "unat x = n \<Longrightarrow> word_of_nat n = x" for x :: u8
  by auto

section \<open>UTF-8\<close>

text \<open>Unicode scalar values and their encoding, in numbers.\<close>

definition scalar_value :: "nat \<Rightarrow> bool" where
  "scalar_value u \<longleftrightarrow> u < 0xD800 \<or> 0xE000 \<le> u \<and> u < 0x110000"

definition utf8_bytes :: "nat \<Rightarrow> bytes" where
  "utf8_bytes u = map word_of_nat
     (if u < 0x80 then [u]
      else if u < 0x800 then [0xC0 + u div 64, 0x80 + u mod 64]
      else if u < 0x10000 then [0xE0 + u div 4096, 0x80 + u div 64 mod 64, 0x80 + u mod 64]
      else [0xF0 + u div 262144, 0x80 + u div 4096 mod 64, 0x80 + u div 64 mod 64, 0x80 + u mod 64])"

lemma unat_drop: "unat (drop_bit k u) = unat u div 2 ^ k" for u :: "'a::len word"
  unfolding unat_drop_bit_eq by (rule drop_bit_eq_div)

lemma unat_shift_low: "unat (ucast (drop_bit k u AND 0x3F) :: u8) = unat u div 2 ^ k mod 64" for u :: u32
proof -
  have "unat (drop_bit k u AND 0x3F) = unat u div 2 ^ k mod 64" by (simp only: unat_low6 unat_drop)
  moreover have "unat u div 2 ^ k mod 64 < 256" by (rule order.strict_trans [OF mod_less_divisor]) simp_all
  ultimately show ?thesis by (metis unat_ucast8)
qed

lemma unat_shift_high:
  fixes u :: u32
  assumes "unat u div 2 ^ k < 256"
  shows "unat (ucast (drop_bit k u) :: u8) = unat u div 2 ^ k"
  using unat_ucast8 [of "drop_bit k u"] assms by (simp only: unat_drop)

lemma push_utf8_bytes:
  assumes "unat u < 0x110000"
  shows "push_utf8 u = utf8_bytes (unat u)"
proof -
  define n where "n = unat u"
  have low: "unat (ucast (u AND 0x3F) :: u8) = n mod 64" using unat_shift_low [of 0 u] by (simp add: n_def)
  have mid: "unat (ucast (drop_bit 6 u AND 0x3F) :: u8) = n div 64 mod 64"
    "unat (ucast (drop_bit 12 u AND 0x3F) :: u8) = n div 4096 mod 64"
    using unat_shift_low [of 6 u] unat_shift_low [of 12 u] by (simp_all add: n_def)
  have cont: "word_of_nat (0x80 + n mod 64) = (0x80 OR ucast (u AND 0x3F) :: u8)"
    "word_of_nat (0x80 + n div 64 mod 64) = (0x80 OR ucast (drop_bit 6 u AND 0x3F) :: u8)"
    "word_of_nat (0x80 + n div 4096 mod 64) = (0x80 OR ucast (drop_bit 12 u AND 0x3F) :: u8)"
    by (rule byte_eqI, subst lead_bytes; simp add: low mid)+
  consider "n < 0x80" | "0x80 \<le> n" "n < 0x800" | "0x800 \<le> n" "n < 0x10000" | "0x10000 \<le> n" by linarith
  then show ?thesis
  proof cases
    case 1
    have "unat (ucast u :: u8) = n" using 1 unat_ucast8 [of u] by (simp add: n_def)
    then have "word_of_nat n = (ucast u :: u8)" by (rule byte_eqI)
    with 1 show ?thesis by (simp add: push_utf8_def utf8_bytes_def word_less_nat_alt flip: n_def)
  next
    case 2
    have "unat (ucast (drop_bit 6 u) :: u8) = n div 64" using 2 unat_shift_high [of u 6] by (simp add: n_def)
    then have "word_of_nat (0xC0 + n div 64) = (0xC0 OR ucast (drop_bit 6 u) :: u8)"
      using 2 by (intro byte_eqI, subst lead_bytes) simp_all
    with 2 cont(1) show ?thesis
      by (simp add: push_utf8_def utf8_bytes_def word_less_nat_alt flip: n_def)
  next
    case 3
    have "unat (ucast (drop_bit 12 u) :: u8) = n div 4096" using 3 unat_shift_high [of u 12] by (simp add: n_def)
    then have "word_of_nat (0xE0 + n div 4096) = (0xE0 OR ucast (drop_bit 12 u) :: u8)"
      using 3 by (intro byte_eqI, subst lead_bytes) simp_all
    with 3 cont(1,2) show ?thesis
      by (simp add: push_utf8_def utf8_bytes_def word_less_nat_alt flip: n_def)
  next
    case 4
    have "unat (ucast (drop_bit 18 u) :: u8) = n div 262144"
      using 4 assms unat_shift_high [of u 18] by (simp add: n_def)
    then have "word_of_nat (0xF0 + n div 262144) = (0xF0 OR ucast (drop_bit 18 u) :: u8)"
      using assms by (intro byte_eqI, subst lead_bytes) (simp_all add: n_def)
    with 4 cont show ?thesis
      by (simp add: push_utf8_def utf8_bytes_def word_less_nat_alt flip: n_def)
  qed
qed

lemma utf8_bytes_nats:
  "map unat (utf8_bytes u) =
     (if u < 0x80 then [u]
      else if u < 0x800 then [0xC0 + u div 64, 0x80 + u mod 64]
      else if u < 0x10000 then [0xE0 + u div 4096, 0x80 + u div 64 mod 64, 0x80 + u mod 64]
      else [0xF0 + u div 262144, 0x80 + u div 4096 mod 64, 0x80 + u div 64 mod 64, 0x80 + u mod 64])"
  if "u < 0x110000"
proof -
  have small: "unat (word_of_nat m :: u8) = m" if "m < 256" for m
    using that by (simp add: unat_of_nat)
  have mods: "0x80 + m mod 64 < 256" for m :: nat
    using mod_less_divisor [of 64 m] by linarith
  have "u < 0x800 \<Longrightarrow> 0xC0 + u div 64 < 256" "u < 0x10000 \<Longrightarrow> 0xE0 + u div 4096 < 256" "0xF0 + u div 262144 < 256"
    using that by auto
  then show ?thesis
    by (simp add: utf8_bytes_def small mods del: of_nat_add)
qed

text \<open>The test of the lead byte and its continuation bytes, in numbers.\<close>

definition inside :: "nat list \<Rightarrow> nat \<Rightarrow> nat \<Rightarrow> nat \<Rightarrow> bool" where
  "inside s j lo hi \<longleftrightarrow> j < length s \<and> lo \<le> s ! j \<and> s ! j \<le> hi"

definition utf8_table :: "nat list \<Rightarrow> nat option" where
  "utf8_table s =
     (let c = hd s; then_some = (\<lambda>b n. if b then Some n else None) in
      if c \<le> 0x7F then Some 1
      else if 0xC2 \<le> c \<and> c \<le> 0xDF then then_some (inside s 1 0x80 0xBF) 2
      else if c = 0xE0 then then_some (inside s 1 0xA0 0xBF \<and> inside s 2 0x80 0xBF) 3
      else if c = 0xED then then_some (inside s 1 0x80 0x9F \<and> inside s 2 0x80 0xBF) 3
      else if 0xE1 \<le> c \<and> c \<le> 0xEF then then_some (inside s 1 0x80 0xBF \<and> inside s 2 0x80 0xBF) 3
      else if c = 0xF0 then
        then_some (inside s 1 0x90 0xBF \<and> inside s 2 0x80 0xBF \<and> inside s 3 0x80 0xBF) 4
      else if c = 0xF4 then
        then_some (inside s 1 0x80 0x8F \<and> inside s 2 0x80 0xBF \<and> inside s 3 0x80 0xBF) 4
      else if 0xF1 \<le> c \<and> c \<le> 0xF3 then
        then_some (inside s 1 0x80 0xBF \<and> inside s 2 0x80 0xBF \<and> inside s 3 0x80 0xBF) 4
      else None)"

lemma utf8_len_table:
  assumes "s \<noteq> []"
  shows "utf8_len s = utf8_table (map unat s)"
proof -
  have cont: "cont_byte s j lo hi = inside (map unat s) j (unat lo) (unat hi)" for j lo hi
    by (auto simp: cont_byte_def inside_def word_le_nat_alt)
  have eq: "c = k \<longleftrightarrow> unat c = unat k" for c k :: u8 by (simp only: word_unat_eq_iff)
  have hd: "hd (map unat s) = unat (hd s)" using assms by (simp add: hd_map)
  have num: "unat (0x7F :: u8) = 0x7F" "unat (0xC2 :: u8) = 0xC2" "unat (0xDF :: u8) = 0xDF" "unat (0x80 :: u8) = 0x80"
    "unat (0xBF :: u8) = 0xBF" "unat (0xE0 :: u8) = 0xE0" "unat (0xA0 :: u8) = 0xA0" "unat (0xED :: u8) = 0xED"
    "unat (0x9F :: u8) = 0x9F" "unat (0xE1 :: u8) = 0xE1" "unat (0xEF :: u8) = 0xEF" "unat (0xF0 :: u8) = 0xF0"
    "unat (0x90 :: u8) = 0x90" "unat (0xF4 :: u8) = 0xF4" "unat (0x8F :: u8) = 0x8F" "unat (0xF1 :: u8) = 0xF1"
    "unat (0xF3 :: u8) = 0xF3" by simp_all
  show ?thesis
    unfolding utf8_len_def utf8_table_def Let_def word_le_nat_alt eq hd cont num by (rule refl)
qed

lemma inside_simps [simp]:
  "inside (a # s) 0 lo hi \<longleftrightarrow> lo \<le> a \<and> a \<le> hi"
  "inside (a # b # s) 1 lo hi \<longleftrightarrow> lo \<le> b \<and> b \<le> hi" "inside (a # b # s) (Suc 0) lo hi \<longleftrightarrow> lo \<le> b \<and> b \<le> hi"
  "inside (a # b # c # s) 2 lo hi \<longleftrightarrow> lo \<le> c \<and> c \<le> hi"
  "inside (a # b # c # d # s) 3 lo hi \<longleftrightarrow> lo \<le> d \<and> d \<le> hi"
  by (simp_all add: inside_def)

lemma six_bit_digits:
  "u = u div 4096 * 4096 + u div 64 mod 64 * 64 + u mod 64"
  "u = u div 262144 * 262144 + u div 4096 mod 64 * 4096 + u div 64 mod 64 * 64 + u mod 64" for u :: nat
proof -
  have d: "u div 4096 = u div 64 div 64" "u div 262144 = u div 4096 div 64" by (simp_all add: div_mult2_eq [symmetric])
  have "u = u div 64 * 64 + u mod 64" "u div 64 = u div 64 div 64 * 64 + u div 64 mod 64"
    "u div 4096 = u div 4096 div 64 * 64 + u div 4096 mod 64" by simp_all
  then show "u = u div 4096 * 4096 + u div 64 mod 64 * 64 + u mod 64"
    "u = u div 262144 * 262144 + u div 4096 mod 64 * 4096 + u div 64 mod 64 * 64 + u mod 64"
    unfolding d by linarith+
qed

lemma table_of_scalar:
  assumes "scalar_value u"
  shows "utf8_table (map unat (utf8_bytes u) @ t) = Some (length (utf8_bytes u))"
proof -
  have u: "u < 0x110000" "\<not> (0xD800 \<le> u \<and> u < 0xE000)" using assms by (auto simp: scalar_value_def)
  define ns where "ns = map unat (utf8_bytes u)"
  have len: "length (utf8_bytes u) = length ns" by (simp add: ns_def)
  note ns = utf8_bytes_nats [OF u(1), folded ns_def]
  have low: "m mod 64 \<le> 63" for m :: nat using mod_less_divisor [of 64 m] by linarith
  consider "u < 0x80" | "0x80 \<le> u" "u < 0x800" | "0x800 \<le> u" "u < 0x10000" | "0x10000 \<le> u" by linarith
  then show ?thesis unfolding len ns_def [symmetric]
  proof cases
    case 1
    then show "utf8_table (ns @ t) = Some (length ns)" by (simp add: ns utf8_table_def)
  next
    case 2
    define a b where "a = u div 64" and "b = u mod 64"
    have a: "2 \<le> a" "a \<le> 31" using 2 by (auto simp: a_def)
    have b: "b \<le> 63" using low by (simp add: b_def)
    have ns': "ns = [0xC0 + a, 0x80 + b]" using 2 by (simp add: ns a_def b_def)
    show "utf8_table (ns @ t) = Some (length ns)"
      using a b unfolding ns' utf8_table_def by (simp add: Let_def)
  next
    case 3
    define a b c where "a = u div 4096" and "b = u div 64 mod 64" and "c = u mod 64"
    have a: "a \<le> 15" using 3 by (auto simp: a_def)
    have bc: "b \<le> 63" "c \<le> 63" using low by (simp_all add: b_def c_def)
    have "u = a * 4096 + b * 64 + c" unfolding a_def b_def c_def by (rule six_bit_digits)
    then have b: "a = 0 \<Longrightarrow> 32 \<le> b" "a = 13 \<Longrightarrow> b \<le> 31" using 3 u(2) bc by linarith+
    have ns': "ns = [0xE0 + a, 0x80 + b, 0x80 + c]" using 3 by (simp add: ns a_def b_def c_def)
    consider "a = 0" | "a = 13" | "a \<noteq> 0" "a \<noteq> 13" by blast
    then show "utf8_table (ns @ t) = Some (length ns)"
      using a b bc unfolding ns' utf8_table_def by cases (simp_all add: Let_def)
  next
    case 4
    define a b c d where "a = u div 262144" and "b = u div 4096 mod 64" and "c = u div 64 mod 64" and "d = u mod 64"
    have a: "a \<le> 4" using u(1) by (auto simp: a_def)
    have bc: "b \<le> 63" "c \<le> 63" "d \<le> 63" using low by (simp_all add: b_def c_def d_def)
    have "u = a * 262144 + b * 4096 + c * 64 + d" unfolding a_def b_def c_def d_def by (rule six_bit_digits)
    then have b: "a = 0 \<Longrightarrow> 16 \<le> b" "a = 4 \<Longrightarrow> b \<le> 15" using 4 u(1) bc by linarith+
    have ns': "ns = [0xF0 + a, 0x80 + b, 0x80 + c, 0x80 + d]" using 4 by (simp add: ns a_def b_def c_def d_def)
    consider "a = 0" | "a = 4" | "a \<noteq> 0" "a \<noteq> 4" by blast
    then show "utf8_table (ns @ t) = Some (length ns)"
      using a b bc unfolding ns' utf8_table_def by cases (simp_all add: Let_def)
  qed
qed

lemma second_block: "n = k + n mod 64 \<Longrightarrow> k = 128 \<longleftrightarrow> 128 \<le> n \<and> n \<le> 191" for n k :: nat
proof -
  assume "n = k + n mod 64"
  then have "k = 64 * (n div 64)" using div_mult_mod_eq [of n 64] by linarith
  then have "k = 128 \<longleftrightarrow> n div 64 = 2" by simp
  also have "\<dots> \<longleftrightarrow> 128 \<le> n \<and> n \<le> 191" by auto
  finally show ?thesis .
qed

lemma trail_byte: "b AND 0xC0 = 0x80 \<longleftrightarrow> 0x80 \<le> unat b \<and> unat b \<le> 0xBF" for b :: u8
proof -
  have m: "0xC0 = (NOT (mask 6) :: u8)" by code_simp
  define x where "x = b AND NOT (mask 6)"
  have "b = x OR b AND mask 6" unfolding x_def by (rule bit_word_eqI) (auto simp: bit_simps)
  moreover have "x AND mask 6 = 0" unfolding x_def by (rule bit_word_eqI) (auto simp: bit_simps)
  then have "unat x AND unat (mask 6 :: u8) = 0" by (metis unsigned_and_eq unsigned_0)
  moreover have "unat (mask 6 :: u8) = mask 6" by (simp add: mask_eq_exp_minus_1)
  moreover have "unat (b AND mask 6) = unat b mod 64" by (simp only: unat_and_mask) simp
  ultimately have "unat b = unat x + unat b mod 64"
    using unat_or_8 [of "b AND mask 6" 6 x] by simp
  moreover have "x = 0x80 \<longleftrightarrow> unat x = 0x80" by (simp only: word_unat_eq_iff) simp
  ultimately show ?thesis using second_block [of "unat b" "unat x"] unfolding m x_def [symmetric] by blast
qed

lemma lead_masks: "unat (c AND 0x1F) = unat c mod 32" "unat (c AND 0x0F) = unat c mod 16" "unat (c AND 0x07) = unat c mod 8"
  for c :: "'a::len word"
  using unat_and_mask [of c 5] unat_and_mask [of c 4] unat_and_mask [of c 3] by (simp_all add: mask_eq_exp_minus_1)


text \<open>The decoding of a sequence whose lead and continuation bytes fit, in numbers.\<close>

lemma mod_in_block: "k * m \<le> x \<Longrightarrow> x < k * m + m \<Longrightarrow> x mod m = x - k * m" for x m k :: nat
  by (intro mod_nat_eqI) simp_all

lemma unat_widen: "unat (ucast c :: u32) = unat c" for c :: u8
proof -
  have "unat c < 2 ^ LENGTH(8)" by (rule unsigned_less)
  then show ?thesis by (simp add: unsigned_ucast_eq take_bit_nat_eq_self_iff)
qed

lemma trail_bits_nat:
  assumes "0x80 \<le> unat (b ! j)" "unat (b ! j) \<le> 0xBF"
  shows "unat (trail_bits b j) = unat (b ! j) - 0x80"
proof -
  have "unat (trail_bits b j) = unat (b ! j) mod 64"
    by (simp only: trail_bits_def unat_low6 unat_widen)
  also have "\<dots> = unat (b ! j) - 0x80" using assms mod_in_block [of 2 64 "unat (b ! j)"] by simp
  finally show ?thesis .
qed

lemma lead_bits_nat:
  fixes c :: u8
  shows "0xC2 \<le> unat c \<Longrightarrow> unat c \<le> 0xDF \<Longrightarrow> unat (ucast c AND 0x1F :: u32) = unat c - 0xC0"
    "0xE0 \<le> unat c \<Longrightarrow> unat c \<le> 0xEF \<Longrightarrow> unat (ucast c AND 0x0F :: u32) = unat c - 0xE0"
    "0xF0 \<le> unat c \<Longrightarrow> unat c \<le> 0xF4 \<Longrightarrow> unat (ucast c AND 0x07 :: u32) = unat c - 0xF0"
  using mod_in_block [of 6 32 "unat c"] mod_in_block [of 14 16 "unat c"] mod_in_block [of 30 8 "unat c"]
  unfolding lead_masks unat_widen by simp_all

lemma join_two: "unat a < 2048 \<Longrightarrow> unat b < 64 \<Longrightarrow> unat (push_bit 6 a OR b) = unat a * 64 + unat b" for a b :: u32
  using unat_or_push [of b 6 a] by simp

lemma join_three:
  fixes a b c :: u32
  assumes "unat a < 1024" "unat b < 64" "unat c < 64"
  shows "unat (push_bit 12 a OR push_bit 6 b OR c) = unat a * 4096 + unat b * 64 + unat c"
proof -
  have "unat (push_bit 6 b OR c) = unat b * 64 + unat c" using assms by (intro join_two) auto
  then show ?thesis using unat_or_push [of "push_bit 6 b OR c" 12 a] assms unfolding or.assoc by simp
qed

lemma join_four:
  fixes a b c d :: u32
  assumes "unat a < 32" "unat b < 64" "unat c < 64" "unat d < 64"
  shows "unat (push_bit 18 a OR push_bit 12 b OR push_bit 6 c OR d)
    = unat a * 262144 + unat b * 4096 + unat c * 64 + unat d"
proof -
  have "unat (push_bit 12 b OR push_bit 6 c OR d) = unat b * 4096 + unat c * 64 + unat d"
    using assms by (intro join_three) auto
  then show ?thesis using unat_or_push [of "push_bit 12 b OR push_bit 6 c OR d" 18 a] assms unfolding or.assoc by simp
qed

lemma trail_at_inside: "trail_at b j \<longleftrightarrow> inside (map unat b) j 0x80 0xBF"
  unfolding trail_at_def inside_def trail_byte by auto

lemma bytes_of_nats: "map unat xs = map unat ys \<Longrightarrow> xs = (ys :: bytes)"
  by (rule map_injective [of unat]) (auto intro: injI)

lemma div_mod_64: "c < 64 \<Longrightarrow> u = q * 64 + c \<Longrightarrow> u div 64 = q \<and> u mod 64 = c" for u q c :: nat
  by simp

lemma utf8_bytes_join:
  fixes a b c d :: nat
  assumes "b < 64" "c < 64" "d < 64"
  shows "2 \<le> a \<Longrightarrow> a < 32 \<Longrightarrow> map unat (utf8_bytes (a * 64 + b)) = [0xC0 + a, 0x80 + b]"
    "0x800 \<le> a * 4096 + b * 64 + c \<Longrightarrow> a < 16 \<Longrightarrow>
       map unat (utf8_bytes (a * 4096 + b * 64 + c)) = [0xE0 + a, 0x80 + b, 0x80 + c]"
    "0x10000 \<le> a * 262144 + b * 4096 + c * 64 + d \<Longrightarrow> a * 262144 + b * 4096 + c * 64 + d < 0x110000 \<Longrightarrow>
       map unat (utf8_bytes (a * 262144 + b * 4096 + c * 64 + d)) = [0xF0 + a, 0x80 + b, 0x80 + c, 0x80 + d]"
proof -
  show "map unat (utf8_bytes (a * 64 + b)) = [0xC0 + a, 0x80 + b]" if "2 \<le> a" "a < 32"
  proof -
    have "(a * 64 + b) div 64 = a" "(a * 64 + b) mod 64 = b" using assms by simp_all
    moreover have "a * 64 + b < 0x800" "\<not> a * 64 + b < 0x80" "a * 64 + b < 0x110000" using that assms by linarith+
    ultimately show ?thesis by (simp only: utf8_bytes_nats if_True if_False)
  qed
  show "map unat (utf8_bytes (a * 4096 + b * 64 + c)) = [0xE0 + a, 0x80 + b, 0x80 + c]"
    if "0x800 \<le> a * 4096 + b * 64 + c" "a < 16"
  proof -
    define u where "u = a * 4096 + b * 64 + c"
    have "u = (a * 64 + b) * 64 + c" by (simp add: u_def)
    then have d: "u div 64 = a * 64 + b" "u mod 64 = c" using div_mod_64 assms(2) by blast+
    have "u div 4096 = u div 64 div 64" by (simp add: div_mult2_eq [symmetric])
    then have "u div 4096 = a" "u div 64 mod 64 = b" unfolding d using assms by simp_all
    moreover have "\<not> u < 0x80" "\<not> u < 0x800" "u < 0x10000" "u < 0x110000" using that assms unfolding u_def by linarith+
    ultimately show ?thesis unfolding u_def [symmetric] using d(2) by (simp only: utf8_bytes_nats if_True if_False)
  qed
  show "map unat (utf8_bytes (a * 262144 + b * 4096 + c * 64 + d)) = [0xF0 + a, 0x80 + b, 0x80 + c, 0x80 + d]"
    if "0x10000 \<le> a * 262144 + b * 4096 + c * 64 + d" "a * 262144 + b * 4096 + c * 64 + d < 0x110000"
  proof -
    define u where "u = a * 262144 + b * 4096 + c * 64 + d"
    have "u = (a * 4096 + b * 64 + c) * 64 + d" by (simp add: u_def)
    then have d1: "u div 64 = a * 4096 + b * 64 + c" "u mod 64 = d" using div_mod_64 assms(3) by blast+
    have "u div 64 = (a * 64 + b) * 64 + c" unfolding d1 by simp
    then have d2: "u div 64 div 64 = a * 64 + b" "u div 64 mod 64 = c" using div_mod_64 assms(2) by blast+
    have "u div 4096 = u div 64 div 64" "u div 262144 = u div 64 div 64 div 64" by (simp_all add: div_mult2_eq [symmetric])
    then have "u div 4096 mod 64 = b" "u div 262144 = a" unfolding d2 using assms by simp_all
    moreover have "\<not> u < 0x80" "\<not> u < 0x800" "\<not> u < 0x10000" "u < 0x110000" using that unfolding u_def by linarith+
    ultimately show ?thesis unfolding u_def [symmetric] using d1(2) d2(2) by (simp only: utf8_bytes_nats if_True if_False)
  qed
qed


text \<open>Both decoders of the program agree with the encoding of scalar values.\<close>

definition decoded_char :: "bytes \<Rightarrow> nat + (u32 \<times> nat) \<Rightarrow> bool" where
  "decoded_char s r = (case r of
       Inl _ \<Rightarrow> utf8_len s = None
     | Inr (cp, n) \<Rightarrow> scalar_value (unat cp) \<and> 0x80 \<le> unat cp \<and> take n s = utf8_bytes (unat cp)
          \<and> n = length (utf8_bytes (unat cp)))"

lemma next_char_two:
  assumes c: "0xC2 \<le> unat c" "unat c \<le> 0xDF"
  shows "decoded_char (c # t) (next_char (c # t))"
proof -
  define cp where "cp = (push_bit 6 (ucast c AND 0x1F) OR trail_bits (c # t) 1 :: u32)"
  have nc: "next_char (c # t) = (if \<not> trail_at (c # t) 1 then Inl (cut_at (c # t) 2) else Inr (cp, 2))"
    using c by (simp add: next_char_def word_le_nat_alt cp_def)
  have tab: "utf8_table (map unat (c # t)) = (if inside (map unat (c # t)) 1 0x80 0xBF then Some 2 else None)"
    using c by (simp add: utf8_table_def Let_def)
  show ?thesis
  proof (cases "trail_at (c # t) 1")
    case False
    then show ?thesis using tab by (simp add: nc decoded_char_def utf8_len_table trail_at_inside)
  next
    case True
    then obtain b t' where t: "t = b # t'" by (cases t) (auto simp: trail_at_inside inside_def)
    have b: "0x80 \<le> unat b" "unat b \<le> 0xBF" using True by (simp_all add: trail_at_inside t)
    define x y where "x = unat c - 0xC0" and "y = unat b - 0x80"
    have xy: "unat c = 0xC0 + x" "unat b = 0x80 + y" "2 \<le> x" "x < 32" "y < 64"
      using b c by (simp_all add: x_def y_def)
    have "unat (trail_bits (c # t) 1) = y" "unat (ucast c AND 0x1F :: u32) = x"
      using trail_bits_nat [of "c # t" 1] lead_bits_nat(1) [of c] b c by (simp_all add: t x_def y_def)
    then have cp: "unat cp = x * 64 + y" unfolding cp_def using xy by (subst join_two) simp_all
    have "map unat (utf8_bytes (unat cp)) = map unat [c, b]"
      unfolding cp using utf8_bytes_join(1) [of y 0 0 x] xy by simp
    then have "utf8_bytes (unat cp) = [c, b]" by (rule bytes_of_nats)
    moreover have "scalar_value (unat cp)" "0x80 \<le> unat cp" using xy unfolding cp scalar_value_def by linarith+
    ultimately show ?thesis using True nc by (simp add: decoded_char_def t)
  qed
qed


lemma next_char_three:
  assumes c: "0xE0 \<le> unat c" "unat c \<le> 0xEF"
  shows "decoded_char (c # t) (next_char (c # t))"
proof -
  define cp where "cp = (push_bit 12 (ucast c AND 0x0F) OR push_bit 6 (trail_bits (c # t) 1) OR trail_bits (c # t) 2 :: u32)"
  have nc: "next_char (c # t) = (if \<not> (trail_at (c # t) 1 \<and> trail_at (c # t) 2) then Inl (cut_at (c # t) 3)
      else if cp < 0x800 \<or> (0xD800 \<le> cp \<and> cp \<le> 0xDFFF) then Inl 3 else Inr (cp, 3))"
    using c by (simp add: next_char_def word_le_nat_alt Let_def cp_def)
  have tab: "utf8_table (map unat (c # t)) = (if inside (map unat (c # t)) 1 (if unat c = 0xE0 then 0xA0 else 0x80) (if unat c = 0xED then 0x9F else 0xBF)
      \<and> inside (map unat (c # t)) 2 0x80 0xBF then Some 3 else None)"
    using c by (simp add: utf8_table_def Let_def)
  show ?thesis
  proof (cases "trail_at (c # t) 1 \<and> trail_at (c # t) 2")
    case False
    then have "utf8_table (map unat (c # t)) = None"
      unfolding tab by (auto simp: trail_at_inside inside_def split: if_splits)
    with False show ?thesis by (simp add: nc decoded_char_def utf8_len_table)
  next
    case True
    then obtain b d t' where t: "t = b # d # t'"
      by (cases t; cases "tl t") (auto simp: trail_at_inside inside_def)
    have b: "0x80 \<le> unat b" "unat b \<le> 0xBF" "0x80 \<le> unat d" "unat d \<le> 0xBF"
      using True by (simp_all add: trail_at_inside t)
    define x y z where "x = unat c - 0xE0" and "y = unat b - 0x80" and "z = unat d - 0x80"
    have xy: "unat c = 0xE0 + x" "unat b = 0x80 + y" "unat d = 0x80 + z" "x < 16" "y < 64" "z < 64"
      using b c by (simp_all add: x_def y_def z_def)
    have "unat (trail_bits (c # t) 1) = y" "unat (trail_bits (c # t) 2) = z" "unat (ucast c AND 0x0F :: u32) = x"
      using trail_bits_nat [of "c # t" 1] trail_bits_nat [of "c # t" 2] lead_bits_nat(2) [of c] b c
      by (simp_all add: t x_def y_def z_def)
    then have cp: "unat cp = x * 4096 + y * 64 + z" unfolding cp_def using xy by (subst join_three) simp_all
    show ?thesis
    proof (cases "cp < 0x800 \<or> (0xD800 \<le> cp \<and> cp \<le> 0xDFFF)")
      case bad: True
      then have "unat cp < 0x800 \<or> (0xD800 \<le> unat cp \<and> unat cp \<le> 0xDFFF)"
        by (simp add: word_less_nat_alt word_le_nat_alt)
      then have "(x < 1 \<and> y < 32) \<or> (\<not> x < 13 \<and> \<not> 13 < x \<and> 32 \<le> y)" unfolding cp using xy
        by (elim disjE conjE; cases "x < 1"; cases "x < 13"; cases "13 < x") linarith+
      then have "x = 0 \<and> y < 32 \<or> x = 13 \<and> 32 \<le> y" by auto
      then have "utf8_table (map unat (c # t)) = None" unfolding tab by (auto simp: t xy)
      with True bad show ?thesis by (simp add: nc decoded_char_def utf8_len_table)
    next
      case False
      then have n: "0x800 \<le> unat cp" "\<not> (0xD800 \<le> unat cp \<and> unat cp \<le> 0xDFFF)"
        by (auto simp: word_less_nat_alt word_le_nat_alt)
      have "map unat (utf8_bytes (unat cp)) = map unat [c, b, d]"
        using n utf8_bytes_join(2) [of y z 0 x] xy unfolding cp by simp
      then have "utf8_bytes (unat cp) = [c, b, d]" by (rule bytes_of_nats)
      moreover have "scalar_value (unat cp)" "0x80 \<le> unat cp" using n xy unfolding cp scalar_value_def by linarith+
      moreover have "next_char (c # t) = Inr (cp, 3)" unfolding nc using True False by auto
      ultimately show ?thesis by (simp add: decoded_char_def t)
    qed
  qed
qed

lemma next_char_four:
  assumes c: "0xF0 \<le> unat c" "unat c \<le> 0xF4"
  shows "decoded_char (c # t) (next_char (c # t))"
proof -
  define cp where "cp = (push_bit 18 (ucast c AND 0x07) OR push_bit 12 (trail_bits (c # t) 1)
     OR push_bit 6 (trail_bits (c # t) 2) OR trail_bits (c # t) 3 :: u32)"
  have nc: "next_char (c # t) = (if \<not> (trail_at (c # t) 1 \<and> trail_at (c # t) 2 \<and> trail_at (c # t) 3) then Inl (cut_at (c # t) 4)
      else if \<not> (0x10000 \<le> cp \<and> cp \<le> 0x10FFFF) then Inl 4 else Inr (cp, 4))"
    using c by (simp add: next_char_def word_le_nat_alt Let_def cp_def)
  have tab: "utf8_table (map unat (c # t)) = (if inside (map unat (c # t)) 1 (if unat c = 0xF0 then 0x90 else 0x80) (if unat c = 0xF4 then 0x8F else 0xBF)
      \<and> inside (map unat (c # t)) 2 0x80 0xBF \<and> inside (map unat (c # t)) 3 0x80 0xBF then Some 4 else None)"
    using c by (simp add: utf8_table_def Let_def)
  show ?thesis
  proof (cases "trail_at (c # t) 1 \<and> trail_at (c # t) 2 \<and> trail_at (c # t) 3")
    case False
    then have "utf8_table (map unat (c # t)) = None"
      unfolding tab by (auto simp: trail_at_inside inside_def split: if_splits)
    with False show ?thesis by (simp add: nc decoded_char_def utf8_len_table)
  next
    case True
    then obtain b d e t' where t: "t = b # d # e # t'"
      by (cases t; cases "tl t"; cases "tl (tl t)") (auto simp: trail_at_inside inside_def)
    have b: "0x80 \<le> unat b" "unat b \<le> 0xBF" "0x80 \<le> unat d" "unat d \<le> 0xBF" "0x80 \<le> unat e" "unat e \<le> 0xBF"
      using True by (simp_all add: trail_at_inside t)
    define x y z w where "x = unat c - 0xF0" and "y = unat b - 0x80" and "z = unat d - 0x80" and "w = unat e - 0x80"
    have xy: "unat c = 0xF0 + x" "unat b = 0x80 + y" "unat d = 0x80 + z" "unat e = 0x80 + w"
      "x \<le> 4" "y < 64" "z < 64" "w < 64"
      using b c by (simp_all add: x_def y_def z_def w_def)
    have "unat (trail_bits (c # t) 1) = y" "unat (trail_bits (c # t) 2) = z" "unat (trail_bits (c # t) 3) = w"
      "unat (ucast c AND 0x07 :: u32) = x"
      using trail_bits_nat [of "c # t" 1] trail_bits_nat [of "c # t" 2] trail_bits_nat [of "c # t" 3] lead_bits_nat(3) [of c] b c
      by (simp_all add: t x_def y_def z_def w_def)
    then have cp: "unat cp = x * 262144 + y * 4096 + z * 64 + w" unfolding cp_def using xy by (subst join_four) simp_all
    show ?thesis
    proof (cases "\<not> (0x10000 \<le> cp \<and> cp \<le> 0x10FFFF)")
      case bad: True
      then have "unat cp < 0x10000 \<or> 0x10FFFF < unat cp"
        by (auto simp: word_less_nat_alt word_le_nat_alt)
      then have "(x < 1 \<and> y < 16) \<or> (\<not> x < 4 \<and> 16 \<le> y)" unfolding cp using xy
        by (elim disjE; cases "x < 1"; cases "x < 4") linarith+
      then have "x = 0 \<and> y < 16 \<or> x = 4 \<and> 16 \<le> y" using xy(5) by auto
      then have "utf8_table (map unat (c # t)) = None" unfolding tab by (auto simp: t xy)
      with True bad show ?thesis by (simp add: nc decoded_char_def utf8_len_table)
    next
      case False
      then have n: "0x10000 \<le> unat cp" "unat cp < 0x110000"
        by (auto simp: word_less_nat_alt word_le_nat_alt)
      have "map unat (utf8_bytes (unat cp)) = map unat [c, b, d, e]"
        using n utf8_bytes_join(3) [of y z w x] xy unfolding cp by simp
      then have "utf8_bytes (unat cp) = [c, b, d, e]" by (rule bytes_of_nats)
      moreover have "scalar_value (unat cp)" "0x80 \<le> unat cp" using n xy unfolding scalar_value_def by linarith+
      moreover have "next_char (c # t) = Inr (cp, 4)" unfolding nc using True False by auto
      ultimately show ?thesis by (simp add: decoded_char_def t)
    qed
  qed
qed

lemma next_char_decodes:
  assumes "0x80 \<le> unat c"
  shows "decoded_char (c # t) (next_char (c # t))"
proof -
  consider "0xC2 \<le> unat c" "unat c \<le> 0xDF" | "0xE0 \<le> unat c" "unat c \<le> 0xEF" | "0xF0 \<le> unat c" "unat c \<le> 0xF4"
    | "unat c < 0xC2 \<or> 0xF4 < unat c" by linarith
  then show ?thesis
  proof cases
    case 4
    then have "next_char (c # t) = Inl 1" by (auto simp: next_char_def word_le_nat_alt)
    moreover have "utf8_table (map unat (c # t)) = None" using assms 4 by (auto simp: utf8_table_def)
    ultimately show ?thesis by (simp add: decoded_char_def utf8_len_table)
  qed (simp_all only: next_char_two next_char_three next_char_four)
qed

lemma utf8_len_scalar: "scalar_value u \<Longrightarrow> utf8_len (utf8_bytes u @ t) = Some (length (utf8_bytes u))"
proof -
  assume u: "scalar_value u"
  have "utf8_bytes u @ t \<noteq> []" by (simp add: utf8_bytes_def)
  then show ?thesis using table_of_scalar [OF u, of "map unat t"] by (simp add: utf8_len_table)
qed

lemma utf8_len_some:
  assumes "0x80 \<le> unat c" "utf8_len (c # t) = Some n"
  obtains u r where "scalar_value u" "0x80 \<le> u" "c # t = utf8_bytes u @ r" "n = length (utf8_bytes u)"
proof -
  obtain cp m where n: "next_char (c # t) = Inr (cp, m)"
    using next_char_decodes [OF assms(1), of t] assms(2) by (cases "next_char (c # t)") (auto simp: decoded_char_def)
  then have d: "scalar_value (unat cp)" "0x80 \<le> unat cp" "take m (c # t) = utf8_bytes (unat cp)" "m = length (utf8_bytes (unat cp))"
    using next_char_decodes [OF assms(1), of t] unfolding n decoded_char_def sum.case prod.case by blast+
  have s: "c # t = utf8_bytes (unat cp) @ drop m (c # t)" using d(3) by (metis append_take_drop_id)
  then have "utf8_len (c # t) = Some (length (utf8_bytes (unat cp)))" using utf8_len_scalar [OF d(1)] by metis
  then show thesis using that [OF d(1,2) s] assms(2) by simp
qed

end
