(* ===== verification/JsonText.thy ===== *)
theory JsonText
  imports JsonUtf8
begin

text \<open>
  The strings of JSON texts (RFC 8259, section 7) as a grammar with the bytes each character stands
  for, and the decoder's string reader and the encoder's string writer against it.
\<close>

section \<open>The grammar of strings\<close>

text \<open>Four hexadecimal digits and their number.\<close>

definition hex_text :: "bytes \<Rightarrow> nat \<Rightarrow> bool" where
  "hex_text t u \<longleftrightarrow> length t = 4 \<and>
     (\<exists>ds. list_all2 (\<lambda>c d. hex_digit c = Some d) t ds \<and> u = foldl (\<lambda>v d. v * 16 + unat d) 0 ds)"

inductive json_char :: "bytes \<Rightarrow> bytes \<Rightarrow> bool" where
  char_plain: "json_plain c \<Longrightarrow> json_char [c] [c]"
| char_wide: "scalar_value u \<Longrightarrow> 0x80 \<le> u \<Longrightarrow> json_char (utf8_bytes u) (utf8_bytes u)"
| char_short: "short_escape l = Some c \<Longrightarrow> json_char [0x5C, l] [c]"
| char_hex: "hex_text t u \<Longrightarrow> scalar_value u \<Longrightarrow> json_char (0x5C # 0x75 # t) (utf8_bytes u)"
| char_pair: "hex_text t hi \<Longrightarrow> hex_text t' lo \<Longrightarrow> 0xD800 \<le> hi \<Longrightarrow> hi < 0xDC00 \<Longrightarrow> 0xDC00 \<le> lo \<Longrightarrow> lo < 0xE000 \<Longrightarrow>
    json_char (0x5C # 0x75 # t @ 0x5C # 0x75 # t') (utf8_bytes (0x10000 + (hi - 0xD800) * 0x400 + (lo - 0xDC00)))"

inductive json_chars :: "bytes \<Rightarrow> bytes \<Rightarrow> bool" where
  chars_nil: "json_chars [] []"
| chars_cons: "json_char t b \<Longrightarrow> json_chars ts bs \<Longrightarrow> json_chars (t @ ts) (b @ bs)"

definition json_str :: "bytes \<Rightarrow> bytes \<Rightarrow> bool" where
  "json_str t b \<longleftrightarrow> (\<exists>m. t = 0x22 # m @ [0x22] \<and> json_chars m b)"

section \<open>Hexadecimal digits\<close>

lemma hex_digit_less: "hex_digit c = Some d \<Longrightarrow> unat d < 16"
  by (auto simp: hex_digit_def word_le_nat_alt unat_sub unat_word_ariths split: if_splits)

lemma hex_step:
  assumes "unat v * 16 < 2 ^ 32" "unat (d :: u8) < 16"
  shows "unat (push_bit 4 v OR ucast d :: u32) = unat v * 16 + unat d"
  using unat_or_push [of "ucast d" 4 v] assms by (simp add: unat_widen)

lemma hex_digits_nat:
  "unat v < 16 ^ k \<Longrightarrow> k + length t \<le> 8 \<Longrightarrow>
     (hex_digits v t = Some w \<longleftrightarrow>
       (\<exists>ds. list_all2 (\<lambda>c d. hex_digit c = Some d) t ds \<and> unat w = foldl (\<lambda>v d. v * 16 + unat d) (unat v) ds))"
proof (induction t arbitrary: v k)
  case (Cons c t)
  show ?case
  proof (cases "hex_digit c")
    case None
    then show ?thesis by (simp add: list_all2_Cons1)
  next
    case (Some d)
    let ?v = "push_bit 4 v OR ucast d"
    have "(16 :: nat) ^ k \<le> 16 ^ 7" using Cons.prems(2) by (intro power_increasing) simp_all
    then have "unat v * 16 < 2 ^ 32" using Cons.prems(1) by simp
    then have v: "unat ?v = unat v * 16 + unat d" using hex_digit_less [OF Some] by (rule hex_step)
    have "unat ?v < 16 ^ Suc k" using Cons.prems(1) hex_digit_less [OF Some] unfolding v by simp
    have "(\<exists>ds. list_all2 (\<lambda>c d. hex_digit c = Some d) (c # t) ds \<and> P ds)
        \<longleftrightarrow> (\<exists>ds. list_all2 (\<lambda>c d. hex_digit c = Some d) t ds \<and> P (d # ds))" for P
      by (auto simp: list_all2_Cons1 Some)
    with Cons.IH [OF \<open>unat ?v < 16 ^ Suc k\<close>] Cons.prems(2) show ?thesis by (simp add: Some v)
  qed
qed (auto simp: word_unat_eq_iff)

lemma hex4_text: "hex4 s = Some u \<longleftrightarrow> (\<exists>t r. s = t @ r \<and> hex_text t (unat u))"
proof
  assume h: "hex4 s = Some u"
  then have len: "length (take 4 s) = 4" "hex_digits 0 (take 4 s) = Some u" by (auto simp: hex4_def split: if_splits)
  then have "hex_text (take 4 s) (unat u)"
    using hex_digits_nat [of 0 0 "take 4 s" u] by (simp add: hex_text_def)
  then show "\<exists>t r. s = t @ r \<and> hex_text t (unat u)" by (metis append_take_drop_id)
next
  assume "\<exists>t r. s = t @ r \<and> hex_text t (unat u)"
  then obtain t r where s: "s = t @ r" and t: "hex_text t (unat u)" by blast
  then have "length t = 4" by (simp add: hex_text_def)
  then show "hex4 s = Some u"
    using t hex_digits_nat [of 0 0 t u] by (simp add: s hex4_def hex_text_def)
qed

lemma hex_text_less: "hex_text t u \<Longrightarrow> u < 0x10000"
proof -
  assume "hex_text t u"
  then obtain ds where ds: "length t = 4" "list_all2 (\<lambda>c d. hex_digit c = Some d) t ds" "u = foldl (\<lambda>v d. v * 16 + unat d) 0 ds"
    by (auto simp: hex_text_def)
  have "foldl (\<lambda>v d. v * 16 + unat d) v ds < (v + 1) * 16 ^ length t"
    if "list_all2 (\<lambda>c d. hex_digit c = Some d) t ds" for v t and ds :: bytes
    using that
  proof (induction t ds arbitrary: v rule: list_all2_induct)
    case (Cons c t d ds)
    have "foldl (\<lambda>v d. v * 16 + unat d) (v * 16 + unat d) ds < (v * 16 + unat d + 1) * 16 ^ length t" by (rule Cons.IH)
    also have "\<dots> \<le> ((v + 1) * 16) * 16 ^ length t" using hex_digit_less [OF Cons.hyps(1)] by (intro mult_right_mono) simp_all
    finally show ?case by (simp add: algebra_simps)
  qed simp
  from this [OF ds(2), of 0] show ?thesis by (simp add: ds)
qed

lemma hex_text_word: "hex_text t u \<Longrightarrow> hex_text t (unat (word_of_nat u :: u32)) \<and> unat (word_of_nat u :: u32) = u"
  using hex_text_less [of t u] by (simp add: unat_of_nat)

section \<open>Escapes\<close>

lemma surrogate_pair:
  assumes "0xD800 \<le> unat hi" "unat hi < 0xDC00" "0xDC00 \<le> unat lo" "unat lo < 0xE000"
  shows "unat (0x10000 + push_bit 10 (hi - 0xD800) + (lo - 0xDC00) :: u32)
      = 0x10000 + (unat hi - 0xD800) * 0x400 + (unat lo - 0xDC00)"
proof -
  have d: "unat (hi - 0xD800) = unat hi - 0xD800" "unat (lo - 0xDC00) = unat lo - 0xDC00"
    using assms by (simp_all add: unat_sub word_le_nat_alt)
  have join: "unat (0x10000 + push_bit 10 a + b :: u32) = 0x10000 + unat a * 0x400 + unat b"
    if "unat a < 1024" "unat b < 1024" for a b :: u32
    using that by (simp add: push_bit_eq_mult unat_word_ariths)
  have "unat (hi - 0xD800) < 1024" "unat (lo - 0xDC00) < 1024" using assms unfolding d by simp_all
  from join [OF this] show ?thesis unfolding d .
qed

lemma json_escape_char:
  assumes "json_escape (0x5C # s) = Inr (out, r)"
  shows "\<exists>t. 0x5C # s = t @ r \<and> json_char t out"
proof -
  obtain l u where s: "s = l # u" using assms by (cases s) (auto simp: json_escape_def)
  show ?thesis
  proof (cases "l = 0x75")
    case False
    then have "short_escape l = Some (hd out)" "out = [hd out]" "r = u"
      using assms by (auto simp: s json_escape_def split: option.splits)
    then have "json_char [0x5C, l] out" by (metis char_short)
    with \<open>r = u\<close> show ?thesis by (intro exI [of _ "[0x5C, l]"]) (simp add: s)
  next
    case True
    then have e: "unicode_escape (0x5C # 0x75 # u) = Inr (out, r)" using assms by (simp add: s json_escape_def)
    then obtain hi where hi: "hex4 u = Some hi" by (auto simp: unicode_escape_def split: option.splits)
    then obtain t v where t: "u = t @ v" "hex_text t (unat hi)" unfolding hex4_text by blast
    then have len: "length t = 4" by (simp add: hex_text_def)
    then have drop: "drop 6 (0x5C # 0x75 # u) = v" by (simp add: t(1))
    show ?thesis
    proof (cases "0xD800 \<le> hi \<and> hi \<le> 0xDBFF")
      case False
      then have out: "\<not> (0xDC00 \<le> hi \<and> hi \<le> 0xDFFF)" "out = push_utf8 hi" "r = v"
        using e hi drop by (auto simp: unicode_escape_def Let_def split: if_splits)
      have n: "scalar_value (unat hi)" "unat hi < 0x110000"
        using hex_text_less [OF t(2)] False out(1) by (auto simp: scalar_value_def word_le_nat_alt)
      have "json_char (0x5C # 0x75 # t) out"
        using char_hex [OF t(2) n(1)] n(2) by (simp add: out push_utf8_bytes)
      then show ?thesis using True by (intro exI [of _ "0x5C # 0x75 # t"]) (simp add: s t(1) out(3))
    next
      case high: True
      obtain a b w lo where v: "v = a # b # w" "a = 0x5C" "b = 0x75" "hex4 w = Some lo" "0xDC00 \<le> lo" "lo \<le> 0xDFFF"
        "out = push_utf8 (0x10000 + push_bit 10 (hi - 0xD800) + (lo - 0xDC00))" "r = drop 6 v"
        using e hi drop high by (auto simp: unicode_escape_def Let_def split: if_splits list.splits option.splits)
      obtain t' x where t': "w = t' @ x" "hex_text t' (unat lo)" using v(4) unfolding hex4_text by blast
      have r: "r = x" using t' v(1,8) by (simp add: hex_text_def)
      have n: "0xD800 \<le> unat hi" "unat hi < 0xDC00" "0xDC00 \<le> unat lo" "unat lo < 0xE000"
        using high v(5,6) by (auto simp: word_le_nat_alt)
      have "json_char (0x5C # 0x75 # t @ 0x5C # 0x75 # t') out"
        using char_pair [OF t(2) t'(2) n] n surrogate_pair [OF n] by (simp add: v(7) push_utf8_bytes)
      then show ?thesis
        using True by (intro exI [of _ "0x5C # 0x75 # t @ 0x5C # 0x75 # t'"]) (simp add: s t(1) v(1,2,3) t'(1) r)
    qed
  qed
qed

lemma json_char_escape:
  assumes "json_char t out" "hd t = 0x5C"
  shows "json_escape (t @ r) = Inr (out, r) \<and> (\<exists>s. t = 0x5C # s)"
  using assms(1)
proof (cases rule: json_char.cases)
  case (char_plain c)
  then show ?thesis using assms(2) by simp
next
  case (char_wide u)
  have "0x80 \<le> unat (hd (utf8_bytes u))" if "u < 0x110000"
    using that utf8_bytes_nats [OF that] char_wide by (cases "utf8_bytes u") (auto split: if_splits)
  then show ?thesis using char_wide assms(2) by (auto simp: scalar_value_def)
next
  case (char_short l c)
  then show ?thesis by (auto simp: json_escape_def short_escape_def split: if_splits)
next
  case (char_hex v u)
  have len: "length v = 4" using char_hex(3) by (simp add: hex_text_def)
  define w where "w = (word_of_nat u :: u32)"
  have w: "hex_text v (unat w)" "unat w = u" using hex_text_word [OF char_hex(3)] unfolding w_def by blast+
  have "\<not> (0xD800 \<le> w \<and> w \<le> 0xDBFF)" "\<not> (0xDC00 \<le> w \<and> w \<le> 0xDFFF)"
    using char_hex(4) w(2) by (auto simp: scalar_value_def word_le_nat_alt)
  moreover have "hex4 (v @ r) = Some w" unfolding hex4_text using w by blast
  moreover have "push_utf8 w = utf8_bytes u" using push_utf8_bytes [of w] hex_text_less [OF char_hex(3)] w by simp
  ultimately have "unicode_escape (0x5C # 0x75 # v @ r) = Inr (utf8_bytes u, r)"
    using len by (auto simp: unicode_escape_def Let_def)
  then show ?thesis using char_hex by (simp add: json_escape_def)
next
  case (char_pair v hi v' lo)
  have len: "length v = 4" "length v' = 4" using char_pair(3,4) by (simp_all add: hex_text_def)
  define h l where "h = (word_of_nat hi :: u32)" and "l = (word_of_nat lo :: u32)"
  have h: "hex_text v (unat h)" "unat h = hi" using hex_text_word [OF char_pair(3)] unfolding h_def by blast+
  have l: "hex_text v' (unat l)" "unat l = lo" using hex_text_word [OF char_pair(4)] unfolding l_def by blast+
  have "0xD800 \<le> h" "h \<le> 0xDBFF" "0xDC00 \<le> l" "l \<le> 0xDFFF"
    using char_pair(5-8) h(2) l(2) by (auto simp: word_le_nat_alt)
  moreover have "hex4 (v @ x) = Some h" for x unfolding hex4_text using h by blast
  moreover have "hex4 (v' @ r) = Some l" unfolding hex4_text using l by blast
  moreover have "push_utf8 (0x10000 + push_bit 10 (h - 0xD800) + (l - 0xDC00)) = out"
    using surrogate_pair [of h l] char_pair(2,5-8) h(2) l(2) by (simp add: push_utf8_bytes)
  ultimately show ?thesis
    using char_pair len by (simp add: json_escape_def unicode_escape_def Let_def)
qed

section \<open>The string reader\<close>

lemma utf8_bytes_nonempty [simp]: "utf8_bytes u \<noteq> []"
  by (simp add: utf8_bytes_def)

lemma utf8_bytes_wide:
  assumes "scalar_value u" "0x80 \<le> u"
  obtains c r where "utf8_bytes u = c # r" "0x80 \<le> c"
proof -
  have u: "u < 0x110000" using assms by (auto simp: scalar_value_def)
  obtain c r where c: "utf8_bytes u = c # r" using utf8_bytes_nonempty by (cases "utf8_bytes u") auto
  have "0x80 \<le> unat c" using utf8_bytes_nats [OF u] assms(2) by (auto simp: c split: if_splits)
  then show thesis using that c by (simp add: word_le_nat_alt)
qed

lemma json_char_cases:
  assumes "json_char t b"
  obtains (plain) c where "t = [c]" "b = [c]" "json_plain c"
    | (wide) c r where "t = c # r" "b = t" "0x80 \<le> c" "\<And>s. utf8_len (t @ s) = Some (length t)"
    | (escape) s where "t = 0x5C # s" "\<And>r. json_escape (t @ r) = Inr (b, r)"
  using assms
proof (cases rule: json_char.cases)
  case (char_plain c)
  then show thesis by (intro plain)
next
  case (char_wide u)
  obtain c r where "utf8_bytes u = c # r" "0x80 \<le> c" using utf8_bytes_wide char_wide(3,4) by blast
  then show thesis using char_wide utf8_len_scalar [OF char_wide(3)] by (intro wide [of c r]) simp_all
next
  case char_short
  then show thesis using json_char_escape [OF assms] escape by auto
next
  case char_hex
  then show thesis using json_char_escape [OF assms] escape by auto
next
  case char_pair
  then show thesis using json_char_escape [OF assms] escape by auto
qed

lemma str_slow_char:
  assumes "json_char t b"
  obtains buf' run' where "str_slow True m buf run (t @ s) = str_slow True m buf' run' s" "buf' @ run' = buf @ run @ b"
  using assms
proof (cases rule: json_char_cases)
  case (plain c)
  then show thesis using that [of buf "run @ [c]"] by (simp add: str_slow_simps)
next
  case (wide c r)
  then show thesis using that [of buf "run @ t"] wide(4) [of s] by (simp add: str_slow_simps)
next
  case (escape u)
  then show thesis using that [of "buf @ run @ b" "[]"] escape(2) [of s] by (simp add: str_slow_simps)
qed

lemma str_slow_chars:
  "json_chars t b \<Longrightarrow> str_slow True m buf run (t @ 0x22 # s) = Inr (buf @ run @ b, s)"
proof (induction arbitrary: buf run rule: json_chars.induct)
  case chars_nil
  then show ?case by (simp add: str_slow_simps)
next
  case (chars_cons t b ts bs)
  obtain buf' run' where "str_slow True m buf run (t @ ts @ 0x22 # s) = str_slow True m buf' run' (ts @ 0x22 # s)"
    "buf' @ run' = buf @ run @ b" using str_slow_char [OF chars_cons.hyps(1)] by blast
  then show ?case using chars_cons.IH [of buf' run'] by (metis append.assoc)
qed

lemma str_fast_chars:
  "json_chars t b \<Longrightarrow> str_fast True m run (t @ 0x22 # s) = Inr (run @ b, s)"
proof (induction arbitrary: run rule: json_chars.induct)
  case chars_nil
  then show ?case by (simp add: str_fast_simps)
next
  case (chars_cons t b ts bs)
  let ?s = "ts @ 0x22 # s"
  show ?case using chars_cons.hyps(1)
  proof (cases rule: json_char_cases)
    case (plain c)
    then show ?thesis using chars_cons.IH [of "run @ [c]"] by (simp add: str_fast_simps)
  next
    case (wide c r)
    then show ?thesis using chars_cons.IH [of "run @ t"] wide(4) [of ?s] by (simp add: str_fast_simps)
  next
    case (escape u)
    have "json_chars (t @ ts) (b @ bs)" by (rule json_chars.chars_cons [OF chars_cons.hyps])
    from str_slow_chars [OF this, of m run "[]" s] show ?thesis by (simp add: escape(1) str_fast_simps)
  qed
qed

lemma str_slow_sound:
  "str_slow True Utf8Error buf run s = Inr (b, r) \<Longrightarrow> \<exists>t b'. s = t @ 0x22 # r \<and> json_chars t b' \<and> b = buf @ run @ b'"
proof (induction "length s" arbitrary: buf run s rule: less_induct)
  case less
  have IH: "\<exists>t b'. w = t @ 0x22 # r \<and> json_chars t b' \<and> b = buf' @ run' @ b'"
    if "str_slow True Utf8Error buf' run' w = Inr (b, r)" "length w < length s" for buf' run' w
    using less.hyps [OF that(2,1)] .
  have step: ?case if c: "json_char t c" "s = t @ w" "t \<noteq> []" "str_slow True Utf8Error buf' run' w = Inr (b, r)"
      "buf' @ run' = buf @ run @ c" for t c w buf' run'
  proof -
    obtain t' b' where "w = t' @ 0x22 # r" "json_chars t' b'" "b = buf' @ run' @ b'"
      using IH [OF c(4)] c(2,3) by auto
    then show ?thesis
      using chars_cons [OF c(1)] c(2,5) by (intro exI [of _ "t @ t'"] exI [of _ "c @ b'"]) (metis append.assoc)
  qed
  show ?case
  proof (cases s)
    case Nil
    then show ?thesis using less.prems by (simp add: str_slow_simps)
  next
    case (Cons c v)
    show ?thesis
    proof (cases c rule: plain_cases)
      case 1
      then show ?thesis using less.prems Cons by (intro step [OF char_plain, of c v buf "run @ [c]"]) (simp_all add: str_slow_simps)
    next
      case 2
      then show ?thesis using less.prems Cons chars_nil by (auto simp: str_slow_simps)
    next
      case 3
      obtain out w where e: "json_escape s = Inr (out, w)"
        using less.prems 3 Cons by (auto simp: str_slow_simps split: sum.splits)
      then obtain t where t: "s = t @ w" "json_char t out" using json_escape_char [of v out w] 3 Cons by blast
      have "t \<noteq> []" using json_escape_shorter [OF e] t(1) by auto
      then show ?thesis
        using less.prems 3 Cons e by (intro step [OF t(2,1), of "buf @ run @ out" "[]"]) (simp_all add: str_slow_simps)
    next
      case 4
      then show ?thesis using less.prems Cons by (simp add: str_slow_simps)
    next
      case 5
      obtain n where n: "utf8_len s = Some n"
        using less.prems 5(1) Cons by (auto simp: str_slow_simps split: option.splits)
      obtain u w where u: "scalar_value u" "0x80 \<le> u" "s = utf8_bytes u @ w" "n = length (utf8_bytes u)"
        using utf8_len_some [of c v n] 5(1) n by (auto simp: Cons word_le_nat_alt)
      have "str_slow True Utf8Error buf run s = str_slow True Utf8Error buf (run @ take n s) (drop n s)"
        using 5(1) n by (simp add: Cons str_slow_simps)
      moreover have "take n s = utf8_bytes u" "drop n s = w" by (simp_all add: u(3,4))
      ultimately have "str_slow True Utf8Error buf (run @ utf8_bytes u) w = Inr (b, r)" using less.prems by simp
      then show ?thesis by (intro step [OF char_wide [OF u(1,2)] u(3)]) simp_all
    qed
  qed
qed


lemma str_fast_sound:
  "str_fast True Utf8Error run s = Inr (b, r) \<Longrightarrow> \<exists>t b'. s = t @ 0x22 # r \<and> json_chars t b' \<and> b = run @ b'"
proof (induction "length s" arbitrary: run s rule: less_induct)
  case less
  have step: ?case if c: "json_char t t" "s = t @ w" "t \<noteq> []" "str_fast True Utf8Error (run @ t) w = Inr (b, r)" for t w
  proof -
    obtain t' b' where "w = t' @ 0x22 # r" "json_chars t' b'" "b = run @ t @ b'"
      using less.hyps [of w "run @ t"] c by auto
    then show ?thesis
      using chars_cons [OF c(1)] c(2) by (intro exI [of _ "t @ t'"] exI [of _ "t @ b'"]) simp
  qed
  show ?case
  proof (cases s)
    case Nil
    then show ?thesis using less.prems by (simp add: str_fast_simps)
  next
    case (Cons c v)
    show ?thesis
    proof (cases c rule: plain_cases)
      case 1
      then show ?thesis using less.prems Cons by (intro step [OF char_plain, of c v]) (simp_all add: str_fast_simps)
    next
      case 2
      then show ?thesis using less.prems Cons chars_nil by (auto simp: str_fast_simps)
    next
      case 3
      then have "str_slow True Utf8Error run [] s = Inr (b, r)" using less.prems by (simp add: Cons str_fast_simps)
      from str_slow_sound [OF this] show ?thesis by simp
    next
      case 4
      then show ?thesis using less.prems Cons by (simp add: str_fast_simps)
    next
      case 5
      obtain n where n: "utf8_len s = Some n"
        using less.prems 5(1) Cons by (auto simp: str_fast_simps split: option.splits)
      obtain u w where u: "scalar_value u" "0x80 \<le> u" "s = utf8_bytes u @ w" "n = length (utf8_bytes u)"
        using utf8_len_some [of c v n] 5(1) n by (auto simp: Cons word_le_nat_alt)
      have "str_fast True Utf8Error run s = str_fast True Utf8Error (run @ take n s) (drop n s)"
        using 5(1) n by (simp add: Cons str_fast_simps)
      moreover have "take n s = utf8_bytes u" "drop n s = w" by (simp_all add: u(3,4))
      ultimately have "str_fast True Utf8Error (run @ utf8_bytes u) w = Inr (b, r)" using less.prems by simp
      then show ?thesis by (intro step [OF char_wide [OF u(1,2)] u(3)]) simp_all
    qed
  qed
qed

text \<open>The reader accepts exactly the strings of the grammar and gives the bytes they stand for.\<close>

lemma json_string_iff:
  "json_string True Utf8Error (0x22 # s) = Inr (b, r) \<longleftrightarrow> (\<exists>t. 0x22 # s = t @ r \<and> json_str t b)"
proof
  assume "json_string True Utf8Error (0x22 # s) = Inr (b, r)"
  then obtain t where "s = t @ 0x22 # r" "json_chars t b"
    using str_fast_sound [of "[]" s b r] by (auto simp: json_string_def)
  then show "\<exists>t. 0x22 # s = t @ r \<and> json_str t b"
    by (intro exI [of _ "0x22 # t @ [0x22]"]) (auto simp: json_str_def)
next
  assume "\<exists>t. 0x22 # s = t @ r \<and> json_str t b"
  then obtain m where "s = m @ 0x22 # r" "json_chars m b" by (auto simp: json_str_def)
  then show "json_string True Utf8Error (0x22 # s) = Inr (b, r)"
    using str_fast_chars [of m b Utf8Error "[]" r] by (simp add: json_string_def)
qed

lemma json_string_str: "json_str t b \<Longrightarrow> json_string True m (t @ r) = Inr (b, r)"
  using str_fast_chars [of _ b m "[]" r] by (auto simp: json_str_def json_string_def)

section \<open>The string writer\<close>

lemma length_escape_table [simp]: "length (escape_table flags) = 128"
  by (simp add: escape_table_def Let_def)

lemma escape_table_nth:
  assumes "i < 128"
  shows "escape_table flags ! i =
    (if i = 0x22 then (if json_flag flags json_hex_quot then e_hex else e_short)
     else if i \<in> {0x08, 0x0C, 0x0A, 0x0D, 0x09, 0x5C} then e_short
     else if i < 0x20 then e_hex
     else if i = 0x2F \<and> \<not> json_flag flags json_unescaped_slashes then e_short
     else if (i = 0x3C \<or> i = 0x3E) \<and> json_flag flags json_hex_tag \<or> i = 0x26 \<and> json_flag flags json_hex_amp
       \<or> i = 0x27 \<and> json_flag flags json_hex_apos then e_hex
     else e_copy)"
  using assms unfolding escape_table_def Let_def
  by (cases "i < 0x20") (auto simp: nth_list_update nth_append)

lemma escape_kinds: "e_copy \<noteq> e_short" "e_copy \<noteq> e_hex" "e_short \<noteq> e_hex"
  by (simp_all add: e_copy_def e_short_def e_hex_def)

lemma enc_plain_json: "enc_plain slash c \<Longrightarrow> json_plain c"
  by (auto simp: enc_plain_def json_plain_def)

lemma copied_plain:
  assumes "c < 0x80" "escape_table flags ! unat c = e_copy"
  shows "json_plain c"
proof -
  have u: "unat c < 128" using assms(1) by (simp add: word_less_nat_alt)
  have eq: "c = k \<longleftrightarrow> unat c = unat k" for k by (simp only: word_unat_eq_iff)
  have "unat c \<noteq> 0x22" "unat c \<noteq> 0x5C" "0x20 \<le> unat c"
    using assms(2) escape_kinds u unfolding escape_table_nth [OF u] by (auto split: if_splits)
  then show ?thesis using u by (auto simp: json_plain_def eq word_less_nat_alt word_le_nat_alt)
qed

lemma short_char:
  assumes "c < 0x80" "escape_table flags ! unat c = e_short"
  shows "json_char [0x5C, short_letter c] [c]"
proof -
  have u: "unat c < 128" using assms(1) by (simp add: word_less_nat_alt)
  have "unat c \<in> {0x22, 0x08, 0x0C, 0x0A, 0x0D, 0x09, 0x5C, 0x2F}"
    using assms(2) escape_kinds unfolding escape_table_nth [OF u] by (auto split: if_splits)
  then have "c \<in> {0x22, 0x08, 0x0C, 0x0A, 0x0D, 0x09, 0x5C, 0x2F}"
    by (simp add: word_unat_eq_iff)
  then have "short_escape (short_letter c) = Some c" by (auto simp: short_escape_def short_letter_def)
  then show ?thesis by (rule char_short)
qed

lemma hex_nth:
  assumes "i < 16"
  shows "hex_digit (hex_lower ! i) = Some (word_of_nat i)" "hex_digit (hex_upper ! i) = Some (word_of_nat i)"
proof -
  have "\<forall>i\<in>set [0..<16]. hex_digit (hex_lower ! i) = Some (word_of_nat i) \<and> hex_digit (hex_upper ! i) = Some (word_of_nat i)"
    by code_simp
  then show "hex_digit (hex_lower ! i) = Some (word_of_nat i)" "hex_digit (hex_upper ! i) = Some (word_of_nat i)"
    using assms by simp_all
qed

lemma hex_text_digits:
  assumes "hex_digit a = Some (word_of_nat i)" "hex_digit b = Some (word_of_nat j)" "hex_digit c = Some (word_of_nat k)"
    "hex_digit d = Some (word_of_nat l)" "i < 16" "j < 16" "k < 16" "l < 16"
  shows "hex_text [a, b, c, d] (i * 4096 + j * 256 + k * 16 + l)"
  unfolding hex_text_def using assms
  by (auto intro!: exI [of _ "[word_of_nat i, word_of_nat j, word_of_nat k, word_of_nat l]"] simp: unat_of_nat)

lemma nibble: "unat (drop_bit k u AND 15) = unat u div 2 ^ k mod 16" for u :: "'a::len word"
  using unat_and_mask [of "drop_bit k u" 4] by (simp add: mask_eq_exp_minus_1 unat_drop)

lemma hex_nibbles: "u < 65536 \<Longrightarrow> u div 4096 mod 16 * 4096 + u div 256 mod 16 * 256 + u div 16 mod 16 * 16 + u mod 16 = u" for u :: nat
proof -
  assume u: "u < 65536"
  have d: "u div 256 = u div 16 div 16" "u div 4096 = u div 256 div 16" by (simp_all add: div_mult2_eq [symmetric])
  have "u div 4096 mod 16 = u div 4096" using u by auto
  moreover have "u = u div 16 * 16 + u mod 16" "u div 16 = u div 256 * 16 + u div 16 mod 16"
    "u div 256 = u div 4096 * 16 + u div 256 mod 16" unfolding d by simp_all
  ultimately show ?thesis by linarith
qed

lemma u16_escape_text:
  assumes "unat u < 65536"
  obtains t where "u16_escape u = 0x5C # 0x75 # t" "hex_text t (unat u)"
proof -
  let ?n = "unat u"
  let ?t = "[hex_lower ! unat (drop_bit 12 u AND 15), hex_lower ! unat (drop_bit 8 u AND 15),
      hex_lower ! unat (drop_bit 4 u AND 15), hex_lower ! unat (u AND 15)]"
  have n: "unat (drop_bit 12 u AND 15) = ?n div 4096 mod 16" "unat (drop_bit 8 u AND 15) = ?n div 256 mod 16"
    "unat (drop_bit 4 u AND 15) = ?n div 16 mod 16" "unat (u AND 15) = ?n mod 16"
    using nibble [of 12 u] nibble [of 8 u] nibble [of 4 u] nibble [of 0 u] by simp_all
  have "hex_text ?t (?n div 4096 mod 16 * 4096 + ?n div 256 mod 16 * 256 + ?n div 16 mod 16 * 16 + ?n mod 16)"
    unfolding n by (rule hex_text_digits) (rule hex_nth(1); simp | simp)+
  then have "hex_text ?t ?n" unfolding hex_nibbles [OF assms] .
  moreover have "u16_escape u = 0x5C # 0x75 # ?t" by (simp add: u16_escape_def)
  ultimately show thesis using that by blast
qed

lemma char_escape_char:
  assumes "scalar_value (unat cp)"
  shows "json_char (char_escape cp) (utf8_bytes (unat cp))"
proof (cases "0x10000 \<le> cp")
  case False
  then have "unat cp < 65536" by (simp add: word_le_nat_alt)
  then obtain t where "u16_escape cp = 0x5C # 0x75 # t" "hex_text t (unat cp)" by (rule u16_escape_text)
  then show ?thesis using False assms by (simp add: char_escape_def char_hex)
next
  case True
  define v where "v = cp - 0x10000"
  have cp: "unat cp = 0x10000 + unat v" "unat v < 0x100000"
    using True assms by (auto simp: v_def unat_sub word_le_nat_alt scalar_value_def)
  have hi: "unat (0xD800 OR drop_bit 10 v) = 0xD800 + unat v div 1024"
    using unat_or_push [of "drop_bit 10 v" 10 54] cp(2) by (simp add: unat_drop)
  have "unat (v AND 0x3FF) = unat v mod 1024" using unat_and_mask [of v 10] by (simp add: mask_eq_exp_minus_1)
  then have lo: "unat (0xDC00 OR (v AND 0x3FF)) = 0xDC00 + unat v mod 1024"
    using unat_or_push [of "v AND 0x3FF" 10 55] by simp
  have n: "unat v div 1024 < 1024" "unat v mod 1024 < 1024" using cp(2) by auto
  obtain t where t: "u16_escape (0xD800 OR drop_bit 10 v) = 0x5C # 0x75 # t" "hex_text t (0xD800 + unat v div 1024)"
    using u16_escape_text [of "0xD800 OR drop_bit 10 v"] n unfolding hi by force
  obtain t' where t': "u16_escape (0xDC00 OR (v AND 0x3FF)) = 0x5C # 0x75 # t'" "hex_text t' (0xDC00 + unat v mod 1024)"
    using u16_escape_text [of "0xDC00 OR (v AND 0x3FF)"] n unfolding lo by force
  have "json_char (0x5C # 0x75 # t @ 0x5C # 0x75 # t')
      (utf8_bytes (0x10000 + (0xD800 + unat v div 1024 - 0xD800) * 0x400 + (0xDC00 + unat v mod 1024 - 0xDC00)))"
    using n by (intro char_pair t(2) t'(2)) simp_all
  moreover have "0x10000 + (0xD800 + unat v div 1024 - 0xD800) * 0x400 + (0xDC00 + unat v mod 1024 - 0xDC00) = unat cp"
    unfolding cp(1) by simp
  moreover have "char_escape cp = 0x5C # 0x75 # t @ 0x5C # 0x75 # t'"
    using True by (simp add: char_escape_def Let_def t t' flip: v_def)
  ultimately show ?thesis by simp
qed

lemma hex_char:
  assumes "c < 0x80" "hex = hex_lower \<or> hex = hex_upper"
  shows "json_char [0x5C, 0x75, 0x30, 0x30, hex ! unat (drop_bit 4 c), hex ! unat (c AND 15)] [c]"
proof -
  have c: "unat c < 128" using assms(1) by (simp add: word_less_nat_alt)
  have n: "unat (drop_bit 4 c) = unat c div 16" "unat (c AND 15) = unat c mod 16"
    using nibble [of 0 c] by (simp_all add: unat_drop)
  have h: "hex_digit (hex ! i) = Some (word_of_nat i)" if "i < 16" for i
    using assms(2) hex_nth [OF that] by blast
  have z: "hex_digit 0x30 = Some (word_of_nat 0)" by (simp add: hex_digit_def)
  have "hex_text [0x30, 0x30, hex ! (unat c div 16), hex ! (unat c mod 16)] (0 * 4096 + 0 * 256 + unat c div 16 * 16 + unat c mod 16)"
    using c by (intro hex_text_digits z h) auto
  then have "hex_text [0x30, 0x30, hex ! unat (drop_bit 4 c), hex ! unat (c AND 15)] (unat c)" unfolding n by simp
  moreover have "scalar_value (unat c)" "utf8_bytes (unat c) = [c]" using c by (simp_all add: scalar_value_def utf8_bytes_def)
  ultimately show ?thesis using char_hex by metis
qed

text \<open>What each character is written as, one character at a time.\<close>

lemma enc_string_plain:
  assumes "simple_ascii flags" "enc_plain (escape_table flags ! 0x2F = e_copy) c"
  shows "enc_string flags out run (c # s) = enc_string flags out (run @ [c]) s"
proof -
  let ?p = "enc_plain (escape_table flags ! 0x2F = e_copy)"
  have "length (takeWhile ?p (c # s)) = Suc (length (takeWhile ?p s))" using assms(2) by simp
  then show ?thesis
    by (subst (1 2) enc_string.simps)
      (simp only: Let_def assms(1) if_True take_Suc_Cons drop_Suc_Cons append.assoc append_Cons append_Nil)
qed

lemma enc_string_head:
  assumes "\<not> (simple_ascii flags \<and> enc_plain (escape_table flags ! 0x2F = e_copy) c)"
  shows "enc_string flags out run (c # s) =
     (let esc = escape_table flags; unescaped = json_flag flags json_unescaped_unicode in
      if c < 0x80 then
        (if esc ! unat c = e_copy then enc_string flags out (run @ [c]) s
         else if esc ! unat c = e_short
         then enc_string flags (out @ run @ [0x5C, short_letter c]) [] s
         else
           let hex = (if c < 0x20 then hex_lower else hex_upper) in
           enc_string flags (out @ run @ [0x5C, 0x75, 0x30, 0x30, hex ! unat (drop_bit 4 c), hex ! unat (c AND 15)]) [] s)
      else
        (case next_char (c # s) of
           Inr (cp, n) \<Rightarrow>
             if unescaped \<and> (json_flag flags json_unescaped_line_terminators \<or> (cp \<noteq> 0x2028 \<and> cp \<noteq> 0x2029))
             then enc_string flags out (run @ take n (c # s)) (drop n (c # s))
             else enc_string flags (out @ run @ char_escape cp) [] (drop n (c # s))
         | Inl n \<Rightarrow>
             (case utf8_from_encode_flags flags of
                Utf8Error \<Rightarrow> None
              | Utf8Ignore \<Rightarrow> enc_string flags (out @ run) [] (drop n (c # s))
              | Utf8Substitute \<Rightarrow>
                  enc_string flags (out @ run @ (if unescaped then [0xEF, 0xBF, 0xBD] else [0x5C, 0x75, 0x66, 0x66, 0x66, 0x64])) []
                    (drop n (c # s)))))"
proof -
  have n: "(if simple_ascii flags then length (takeWhile (enc_plain (escape_table flags ! 0x2F = e_copy)) (c # s)) else 0) = 0"
    using assms by simp
  show ?thesis
    by (subst enc_string.simps) (simp only: Let_def n take_0 drop_0 append_Nil2 list.simps if_False list.sel)
qed

text \<open>Well-formed UTF-8.\<close>

inductive utf8_text :: "bytes \<Rightarrow> bool" where
  utf8_nil: "utf8_text []"
| utf8_cons: "scalar_value u \<Longrightarrow> utf8_text s \<Longrightarrow> utf8_text (utf8_bytes u @ s)"

lemma utf8_text_tail: "utf8_text (utf8_bytes u @ s) \<Longrightarrow> scalar_value u \<Longrightarrow> utf8_text s"
proof -
  assume u: "scalar_value u" and t: "utf8_text (utf8_bytes u @ s)"
  obtain v w where v: "scalar_value v" "utf8_text w" "utf8_bytes u @ s = utf8_bytes v @ w"
    using t by (cases rule: utf8_text.cases) auto
  have "length (utf8_bytes u) = length (utf8_bytes v)"
    using utf8_len_scalar [OF u, of s] utf8_len_scalar [OF v(1), of w] unfolding v(3) by simp
  then show "utf8_text s" using v(2,3) by simp
qed

lemma utf8_byte: "c < 0x80 \<Longrightarrow> utf8_bytes (unat c) = [c] \<and> scalar_value (unat c)"
  by (simp add: utf8_bytes_def scalar_value_def word_less_nat_alt)

text \<open>When malformed text is an error, the writer fails exactly on malformed text and otherwise writes
  a string of the grammar for it.\<close>

lemma enc_string_chars:
  assumes "utf8_from_encode_flags flags = Utf8Error"
  shows "case enc_string flags out run s of
      Some t \<Rightarrow> utf8_text s \<and> (\<exists>m. t = out @ run @ m \<and> json_chars m s)
    | None \<Rightarrow> \<not> utf8_text s"
proof (induction "length s" arbitrary: out run s rule: less_induct)
  case less
  have step: ?case if c: "json_char m (utf8_bytes u)" "scalar_value u" "s = utf8_bytes u @ w"
      "enc_string flags out run s = enc_string flags out' run' w" "out' @ run' = out @ run @ m" for m u w out' run'
  proof -
    have "utf8_text s \<longleftrightarrow> utf8_text w" unfolding c(3) using utf8_text_tail c(2) utf8_cons by blast
    moreover have "\<exists>m'. t = out @ run @ m' \<and> json_chars m' s" if "t = out' @ run' @ n" "json_chars n w" for t n
      unfolding c(3) using that chars_cons [OF c(1) that(2)] c(5)
      by (intro exI [of _ "m @ n"]) (metis append.assoc)
    moreover have "length w < length s" by (simp add: c(3))
    note less.hyps [OF this, of out' run']
    ultimately show ?thesis unfolding c(4) by (auto split: option.splits)
  qed
  show ?case
  proof (cases s)
    case Nil
    have "enc_string flags out run [] = Some (out @ run)" by (subst enc_string.simps) simp
    then show ?thesis using Nil utf8_nil chars_nil by auto
  next
    case (Cons c w)
    have sc: "s = utf8_bytes (unat c) @ w" "scalar_value (unat c)" if "c < 0x80"
      using utf8_byte [OF that] Cons by simp_all
    show ?thesis
    proof (cases "simple_ascii flags \<and> enc_plain (escape_table flags ! 0x2F = e_copy) c")
      case True
      then have p: "json_plain c" using enc_plain_json by blast
      then have lo: "c < 0x80" by (simp add: json_plain_def)
      show ?thesis using True p utf8_byte [OF lo]
        by (intro step [of "[c]" "unat c" w out "run @ [c]"]) (simp_all add: Cons char_plain enc_string_plain)
    next
      case False
      note head = enc_string_head [OF False, of out run w, folded Cons]
      show ?thesis
      proof (cases "c < 0x80")
        case lo: True
        let ?e = "escape_table flags ! unat c"
        consider "?e = e_copy" | "?e = e_short" | "?e \<noteq> e_copy" "?e \<noteq> e_short" by blast
        then show ?thesis
        proof cases
          case 1
          then show ?thesis using utf8_byte [OF lo] copied_plain [OF lo] lo head
            by (intro step [of "[c]" "unat c" w out "run @ [c]"]) (simp_all add: Cons char_plain)
        next
          case 2
          then show ?thesis using utf8_byte [OF lo] short_char [OF lo] lo head escape_kinds
            by (intro step [of "[0x5C, short_letter c]" "unat c" w "out @ run @ [0x5C, short_letter c]" "[]"]) (simp_all add: Cons)
        next
          case 3
          define hex where "hex = (if c < 0x20 then hex_lower else hex_upper)"
          let ?m = "[0x5C, 0x75, 0x30, 0x30, hex ! unat (drop_bit 4 c), hex ! unat (c AND 15)]"
          have "json_char ?m [c]" using hex_char [OF lo, of hex] by (simp add: hex_def)
          then show ?thesis using utf8_byte [OF lo] lo head 3
            by (intro step [of ?m "unat c" w "out @ run @ ?m" "[]"]) (simp_all add: Cons Let_def flip: hex_def)
        qed
      next
        case hi: False
        then have hi': "0x80 \<le> unat c" unfolding not_less word_le_nat_alt by simp
        note dec = next_char_decodes [OF hi', of w, folded Cons]
        show ?thesis
        proof (cases "next_char s")
          case (Inl n)
          then have none: "enc_string flags out run s = None" using head hi assms by simp
          have "\<not> utf8_text s"
          proof
            assume "utf8_text s"
            then obtain u v where "scalar_value u" "s = utf8_bytes u @ v" using Cons by (cases rule: utf8_text.cases) (simp, metis)
            then have "utf8_len s \<noteq> None" using utf8_len_scalar by simp
            then show False using dec Inl by (simp add: decoded_char_def)
          qed
          with none show ?thesis by simp
        next
          case (Inr r)
          obtain cp n where r: "r = (cp, n)" by fastforce
          note d = dec [unfolded Inr r decoded_char_def sum.case prod.case]
          have s: "s = utf8_bytes (unat cp) @ drop n s" using d by (metis append_take_drop_id)
          let ?raw = "json_flag flags json_unescaped_unicode \<and> (json_flag flags json_unescaped_line_terminators \<or> (cp \<noteq> 0x2028 \<and> cp \<noteq> 0x2029))"
          show ?thesis
          proof (cases ?raw)
            case True
            then have "enc_string flags out run s = enc_string flags out (run @ take n s) (drop n s)"
              using head hi Inr r by (simp add: Let_def)
            then have "enc_string flags out run s = enc_string flags out (run @ utf8_bytes (unat cp)) (drop n s)"
              using d by metis
            then show ?thesis using d char_wide by (intro step [OF _ _ s]) auto
          next
            case False
            then have "enc_string flags out run s = enc_string flags (out @ run @ char_escape cp) [] (drop n s)"
              using head hi Inr r by (auto simp: Let_def)
            moreover have "json_char (char_escape cp) (utf8_bytes (unat cp))" using d char_escape_char by blast
            ultimately show ?thesis using d by (intro step [OF _ _ s, of _ "out @ run @ char_escape cp" "[]"]) simp_all
          qed
        qed
      qed
    qed
  qed
qed


lemma enc_string_text_str:
  assumes "utf8_from_encode_flags (ec_flags C) = Utf8Error"
  shows "case enc_string_text C b of Some t \<Rightarrow> utf8_text b \<and> json_str t b | None \<Rightarrow> \<not> utf8_text b"
  using enc_string_chars [OF assms, where out = "[0x22]" and run = "[]" and s = b]
  by (auto simp: enc_string_text_def json_str_def split: option.splits)

text \<open>C37: for every combination of escaping flags, when malformed UTF-8 is an error, writing a string fails
  exactly on malformed UTF-8, and the decoder reads what was written back as the same bytes.\<close>

theorem json_string_round_trip:
  assumes "utf8_from_encode_flags (ec_flags C) = Utf8Error"
  shows "case enc_string_text C b of
      Some t \<Rightarrow> utf8_text b \<and> json_string True m (t @ r) = Inr (b, r)
    | None \<Rightarrow> \<not> utf8_text b"
  using enc_string_text_str [OF assms, of b] json_string_str by (auto split: option.splits)

definition plain_config :: "i64 \<Rightarrow> enc_config" where
  "plain_config flags = \<lparr>ec_flags = flags, ec_partial = False, ec_pretty = False, ec_precision = 17,
     ec_max_depth = 512, ec_max_nesting = None\<rparr>"

theorem json_string_round_trip_witness:
  "utf8_from_encode_flags (ec_flags (plain_config 0)) = Utf8Error \<and>
   enc_string_text (plain_config 0) [0x2F, 0xC3, 0xA9] = Some [0x22, 0x5C, 0x2F, 0x5C, 0x75, 0x30, 0x30, 0x65, 0x39, 0x22] \<and>
   json_string True Utf8Error ([0x22, 0x5C, 0x2F, 0x5C, 0x75, 0x30, 0x30, 0x65, 0x39, 0x22] @ [0x2C]) = Inr ([0x2F, 0xC3, 0xA9], [0x2C])"
proof -
  have f: "utf8_from_encode_flags (ec_flags (plain_config 0)) = Utf8Error" by code_simp
  have e: "enc_string_text (plain_config 0) [0x2F, 0xC3, 0xA9] = Some [0x22, 0x5C, 0x2F, 0x5C, 0x75, 0x30, 0x30, 0x65, 0x39, 0x22]"
    by code_simp
  show ?thesis
    using json_string_round_trip [OF f, of "[0x2F, 0xC3, 0xA9]" Utf8Error "[0x2C]"] f e by simp
qed

end
