(* ===== verification/JsonApi.thy ===== *)
theory JsonApi
  imports JsonEncode JsonDecode
begin

text \<open>
  The functions PHP sees (\<open>json_encode\<close>, \<open>json_decode\<close> and \<open>json_validate\<close> of
  \<open>crates/goro-ext-json/src/lib.rs\<close>): the error state, the flags, and what is thrown.
\<close>

definition json_encode ::
  "nat \<Rightarrow> ('e, 'x) json_host \<Rightarrow> val \<Rightarrow> i64 \<Rightarrow> i64 \<Rightarrow> 'e json_state \<Rightarrow> (('x + val) \<times> 'e json_state) option" where
  "json_encode fuel H v flags depth st =
     (let throw = json_flag flags json_throw_on_error \<and> \<not> json_flag flags json_partial_output_on_error;
          st = (if throw then st else set_last_error JNoError st) in
      map_option (\<lambda>(r, st).
        case r of
          Inl x \<Rightarrow> (Inl x, st)
        | Inr (out, err) \<Rightarrow>
            let st = (if throw then st else set_last_error err st) in
            if err = JNoError then (Inr (VStr out), st)
            else if throw then (case jh_json_exception H err st of (x, st) \<Rightarrow> (Inl x, st))
            else if json_flag flags json_partial_output_on_error then (Inr (VStr out), st)
            else (Inr (VBool False), st))
        (encode fuel H v flags (ucast depth) st))"

definition depth_error :: "bytes \<Rightarrow> string \<Rightarrow> php_error" where
  "depth_error fn what = new_error ValueError (fn @ ascii ''($depth) must be '' @ ascii what)"

text \<open>The range check of \<open>$depth\<close> that \<open>json_decode\<close> and \<open>json_validate\<close> share.\<close>

definition check_depth :: "('e, 'x) json_host \<Rightarrow> string \<Rightarrow> i64 \<Rightarrow> 'e json_state \<Rightarrow> ('x \<times> 'e json_state) option" where
  "check_depth H fn depth st =
     (if depth \<le>s 0 then Some (jh_throw_error H (depth_error (ascii fn) ''greater than 0'') st)
      else if 2147483647 <s depth then Some (jh_throw_error H (depth_error (ascii fn) ''less than 2147483647'') st)
      else None)"

definition json_decode ::
  "('e, 'x) json_host \<Rightarrow> bytes \<Rightarrow> bool option \<Rightarrow> i64 \<Rightarrow> i64 \<Rightarrow> 'e json_state \<Rightarrow> ('x + val) \<times> 'e json_state" where
  "json_decode H json assoc depth flags st =
     (let throw = json_flag flags json_throw_on_error;
          st = (if throw then st else set_last_error JNoError st);
          fail = (\<lambda>e st.
            if throw then (case jh_json_exception H e st of (x, st) \<Rightarrow> (Inl x, st))
            else (Inr VNull, set_last_error e st)) in
      if json = [] then fail JSyntax st
      else
        (case check_depth H ''json_decode(): Argument #3 '' depth st of
           Some (x, st) \<Rightarrow> (Inl x, st)
         | None \<Rightarrow>
             let opt = \<lparr>do_assoc = (case assoc of Some b \<Rightarrow> b | None \<Rightarrow> json_flag flags json_object_as_array),
                        do_depth = unat depth, do_bigint = json_flag flags json_bigint_as_string,
                        do_utf8 = utf8_from_decode_flags flags\<rparr> in
             (case decode H json opt st of
                (Inr v, st) \<Rightarrow> (Inr v, st)
              | (Inl e, st) \<Rightarrow> fail e st)))"

definition validate_flags_error :: php_error where
  "validate_flags_error = new_error ValueError
     (ascii ''json_validate(): Argument #3 ($flags) must be a valid flag (allowed flags: JSON_INVALID_UTF8_IGNORE)'')"

definition json_validate ::
  "('e, 'x) json_host \<Rightarrow> bytes \<Rightarrow> i64 \<Rightarrow> i64 \<Rightarrow> 'e json_state \<Rightarrow> ('x + bool) \<times> 'e json_state" where
  "json_validate H json depth flags st =
     (let st = set_last_error JNoError st in
      if flags AND NOT json_invalid_utf8_ignore \<noteq> 0
      then (case jh_throw_error H validate_flags_error st of (x, st) \<Rightarrow> (Inl x, st))
      else if json = [] then (Inr False, set_last_error JSyntax st)
      else
        (case check_depth H ''json_validate(): Argument #2 '' depth st of
           Some (x, st) \<Rightarrow> (Inl x, st)
         | None \<Rightarrow>
             let mode = (if json_flag flags json_invalid_utf8_ignore then Utf8Ignore else Utf8Error);
                 e = validate json (unat depth) mode st in
             if e = JNoError then (Inr True, st) else (Inr False, set_last_error e st)))"

end
