(* ===== verification/JsonGrammar.thy ===== *)
theory JsonGrammar
  imports JsonText JsonApi ArraySpec
begin

text \<open>
  The texts of RFC 8259 as a grammar, with the value each denotes in PHP: the reference for the
  decoder.
\<close>

section \<open>Values\<close>

text \<open>A PHP value without its addresses: arrays are their entries.\<close>

datatype pval = PNull | PBool bool | PInt i64 | PFloat f64 | PStr bytes | PArr "(key \<times> pval) list"

section \<open>Numbers\<close>

text \<open>An integer that fits is an int; the others are floats, correctly rounded, or the text of the integer.\<close>

definition num_meaning :: "bool \<Rightarrow> bytes \<Rightarrow> bytes \<Rightarrow> bytes \<Rightarrow> bytes \<Rightarrow> pval" where
  "num_meaning big sg d fr ex =
     (if fr = [] \<and> ex = [] \<and> in_i64 (signed_decimal (sg \<noteq> []) d) then PInt (word_of_int (signed_decimal (sg \<noteq> []) d))
      else if fr = [] \<and> ex = [] \<and> big then PStr (sg @ d)
      else PFloat (decimal_f64 (sg \<noteq> []) (dec_val 0 (d @ tl fr)) (exp_value ex - int (length (tl fr)))))"

definition json_num_parts :: "bytes \<Rightarrow> bytes \<Rightarrow> bytes \<Rightarrow> bytes \<Rightarrow> bool" where
  "json_num_parts sg d fr ex \<longleftrightarrow> (sg = [] \<or> sg = [0x2D]) \<and> d \<noteq> [] \<and> list_all is_ascii_digit d \<and> (hd d = 0x30 \<longrightarrow> tl d = [])
     \<and> (fr = [] \<or> (\<exists>y. fr = 0x2E # y \<and> y \<noteq> [] \<and> list_all is_ascii_digit y)) \<and> exp_ok ex"

definition json_num :: "bool \<Rightarrow> bytes \<Rightarrow> pval \<Rightarrow> bool" where
  "json_num big t x \<longleftrightarrow>
     (\<exists>sg d fr ex. t = sg @ d @ fr @ ex \<and> json_num_parts sg d fr ex \<and> x = num_meaning big sg d fr ex)"

definition num_end :: "bytes \<Rightarrow> bool" where
  "num_end r \<longleftrightarrow> \<not> starts (\<lambda>c. is_ascii_digit c \<or> c = 0x2E \<or> is_exp c) r"

lemma json_int_runs:
  assumes "d \<noteq> []" "list_all is_ascii_digit d" "hd d = 0x30 \<longrightarrow> tl d = []" "\<not> starts is_ascii_digit r"
  shows "json_int (d @ r) = Some (d, r)"
proof (cases d)
  case (Cons c t)
  have t: "takeWhile is_ascii_digit (t @ r) = t" "dropWhile is_ascii_digit (t @ r) = r"
    using assms by (simp_all add: Cons takeWhile_digits dropWhile_digits)
  have "c \<noteq> 0x30 \<Longrightarrow> 0x31 \<le> c \<and> c \<le> 0x39"
    using assms(2) by (auto simp: Cons is_ascii_digit_def word_le_nat_alt word_unat_eq_iff)
  then show ?thesis using assms(3) t by (auto simp: Cons json_int_def)
qed (use assms in simp)

lemma json_frac_runs:
  assumes "fr = [] \<or> (\<exists>y. fr = 0x2E # y \<and> y \<noteq> [] \<and> list_all is_ascii_digit y)" "\<not> starts is_ascii_digit r"
    "\<not> starts (\<lambda>c. c = 0x2E) r"
  shows "json_frac (fr @ r) = (fr, r)"
proof (cases "fr = []")
  case True
  then show ?thesis using assms(3) by (auto simp: json_frac_def split: list.splits)
next
  case False
  then obtain c t where "fr = 0x2E # c # t" "is_ascii_digit c" "list_all is_ascii_digit t"
    using assms(1) by (auto simp: neq_Nil_conv)
  then show ?thesis using assms(2) by (simp add: json_frac_def takeWhile_digits dropWhile_digits)
qed

lemma json_exp_runs:
  assumes "exp_ok ex" "\<not> starts is_ascii_digit r" "\<not> starts is_exp r"
  shows "json_exp (ex @ r) = (ex, r)"
proof (cases "ex = []")
  case True
  then show ?thesis using assms(3) by (cases r) (auto simp: json_exp_def)
next
  case False
  then obtain c sg d t where ex: "ex = c # sg @ d # t" "is_exp c" "sign_opt sg" "is_ascii_digit d" "list_all is_ascii_digit t"
    using assms(1) by (auto simp: exp_ok_def neq_Nil_conv)
  have "takeWhile is_ascii_digit (t @ r) = t" "dropWhile is_ascii_digit (t @ r) = r"
    using assms(2) ex(5) by (simp_all add: takeWhile_digits dropWhile_digits)
  moreover have "d \<noteq> 0x2B" "d \<noteq> 0x2D" using ex(4) by (auto simp: is_ascii_digit_def word_le_nat_alt)
  ultimately show ?thesis using ex(2,3,4) by (auto simp: ex(1) json_exp_def sign_opt_def)
qed

lemma number_value_meaning:
  assumes "json_num_parts sg d fr ex"
  shows "number_value big (sg \<noteq> []) d fr ex =
    (case num_meaning big sg d fr ex of PInt i \<Rightarrow> VInt i | PStr t \<Rightarrow> VStr t | PFloat f \<Rightarrow> VFloat f | _ \<Rightarrow> VNull)"
proof -
  note a = assms [unfolded json_num_parts_def]
  let ?neg = "sg \<noteq> []"
  let ?n = "dec_val 0 d"
  have lead: "(if ?neg then [0x2D] else []) = sg" using a by auto
  have sg: "sign_opt sg" "sg = [0x2D] \<longleftrightarrow> ?neg" using a by (auto simp: sign_opt_def)
  have fr: "frac_ok d fr" using a by (auto simp: frac_ok_def)
  have float: "parse_float_ascii (sg @ d @ fr @ ex) = decimal_f64 ?neg (dec_val 0 (d @ tl fr)) (exp_value ex - int (length (tl fr)))"
    using std_parse_decimal [of sg d fr ex] sg fr a by (simp add: parse_float_ascii_def)
  have int: "int_value ?neg d = (if in_i64 (signed_decimal ?neg d) then Some (word_of_int (signed_decimal ?neg d)) else None)"
  proof (cases "length d \<le> 18")
    case True
    have "dec_val 0 d < 10 ^ length d" using dec_val_less [of d 0] a by simp
    also have "\<dots> \<le> 10 ^ 18" using True by (intro power_increasing) simp_all
    finally have "in_i64 (signed_decimal ?neg d)" by (simp add: signed_decimal_def signed_nat_def in_i64_def)
    then show ?thesis
      using True fast_digits_eq [of 0 d] by (simp add: int_value_def signed_decimal_def signed_nat_def)
  next
    case False
    then show ?thesis using a
      by (auto simp: int_value_def num_digits_eq signed_decimal_def signed_nat_def in_i64_def)
  qed
  show ?thesis
    unfolding number_value_def lead int Let_def float by (auto simp: num_meaning_def)
qed

lemma json_number_runs:
  assumes "json_num_parts sg d fr ex" "num_end r"
  shows "json_number build big (sg @ d @ fr @ ex @ r)
    = Inr (if build then number_value big (sg \<noteq> []) d fr ex else VNull, r)"
proof -
  note a = assms(1) [unfolded json_num_parts_def]
  have r: "\<not> starts is_ascii_digit r" "\<not> starts (\<lambda>c. c = 0x2E) r" "\<not> starts is_exp r"
    using assms(2) by (cases r; simp add: num_end_def)+
  have e: "\<not> starts is_ascii_digit (ex @ r)" "\<not> starts (\<lambda>c. c = 0x2E) (ex @ r)"
    using exp_ok_starts [of ex] a r by (simp_all add: starts_append)
  have f: "\<not> starts is_ascii_digit (fr @ ex @ r)"
    using a e by (auto simp: starts_append is_ascii_digit_def word_le_nat_alt)
  have d: "json_int (d @ fr @ ex @ r) = Some (d, fr @ ex @ r)" using json_int_runs a f by blast
  have fx: "json_frac (fr @ ex @ r) = (fr, ex @ r)" using json_frac_runs a e by blast
  have x: "json_exp (ex @ r) = (ex, r)" using json_exp_runs a r by blast
  have dash: "hd (d @ fr @ ex @ r) \<noteq> 0x2D" using a by (cases d) (auto simp: is_ascii_digit_def word_le_nat_alt)
  have "(hd (sg @ d @ fr @ ex @ r) = 0x2D) = (sg \<noteq> [])"
    "(if sg \<noteq> [] then tl (sg @ d @ fr @ ex @ r) else sg @ d @ fr @ ex @ r) = d @ fr @ ex @ r"
    using a dash by auto
  then show ?thesis by (simp add: json_number_def Let_def d fx x)
qed

lemma json_int_parts:
  assumes "json_int s = Some (d, r)"
  shows "s = d @ r \<and> d \<noteq> [] \<and> list_all is_ascii_digit d \<and> (hd d = 0x30 \<longrightarrow> tl d = [])"
proof -
  obtain c t where s: "s = c # t" using assms by (cases s) (auto simp: json_int_def)
  have digit: "c = 0x30 \<Longrightarrow> is_ascii_digit c" "0x31 \<le> c \<and> c \<le> 0x39 \<Longrightarrow> is_ascii_digit c"
    by (auto simp: is_ascii_digit_def word_le_nat_alt)
  show ?thesis using assms digit
    by (auto simp: s json_int_def list_all_iff word_le_nat_alt dest: set_takeWhileD split: if_splits)
qed

lemma json_frac_parts:
  "json_frac s = (fr, r) \<Longrightarrow> s = fr @ r \<and> (fr = [] \<or> (\<exists>y. fr = 0x2E # y \<and> y \<noteq> [] \<and> list_all is_ascii_digit y))"
  by (auto simp: json_frac_def list_all_iff dest: set_takeWhileD split: list.splits if_splits)

lemma json_exp_parts:
  assumes "json_exp s = (ex, r)"
  shows "s = ex @ r \<and> exp_ok ex"
proof (cases "ex = []")
  case True
  then show ?thesis using assms
    by (auto simp: json_exp_def exp_ok_def Let_def split: list.splits if_splits prod.splits)
next
  case False
  then obtain c t where s: "s = c # t" "is_exp c" using assms by (auto simp: json_exp_def split: list.splits if_splits)
  define sg where "sg = (case t of x # t' \<Rightarrow> if x = 0x2B \<or> x = 0x2D then [x] else [] | [] \<Rightarrow> ([] :: bytes))"
  define u where "u = (case t of x # t' \<Rightarrow> if x = 0x2B \<or> x = 0x2D then t' else t | [] \<Rightarrow> [])"
  have t: "t = sg @ u" "sign_opt sg" by (auto simp: sg_def u_def sign_opt_def split: list.splits)
  have split: "(case t of x # t' \<Rightarrow> if x = 0x2B \<or> x = 0x2D then ([x], t') else ([], t) | [] \<Rightarrow> ([], [])) = (sg, u)"
    by (auto simp: sg_def u_def split: list.splits)
  obtain d v where u: "u = d # v" "is_ascii_digit d" "ex = c # sg @ d # takeWhile is_ascii_digit v" "r = dropWhile is_ascii_digit v"
    using assms False s(2) by (auto simp: s(1) json_exp_def split split: list.splits if_splits)
  have "exp_ok ex" unfolding u(3)
    using s(2) t(2) u(2) by (intro exp_okI) (auto simp: list_all_iff dest: set_takeWhileD)
  then show ?thesis by (simp add: s(1) t(1) u(1,3,4))
qed

lemma json_number_parts:
  assumes "json_number build big s = Inr (v, r)" "s \<noteq> []"
  shows "\<exists>sg d fr ex. s = sg @ d @ fr @ ex @ r \<and> json_num_parts sg d fr ex"
proof -
  define sg u where "sg = (if hd s = 0x2D then [0x2D :: u8] else [])" and "u = (if hd s = 0x2D then tl s else s)"
  have s: "s = sg @ u" using assms(2) by (cases s) (simp_all add: sg_def u_def)
  obtain d u1 where d: "json_int u = Some (d, u1)"
    using assms by (auto simp: json_number_def Let_def simp flip: u_def split: option.splits prod.splits)
  obtain fr u2 where fr: "json_frac u1 = (fr, u2)" by fastforce
  obtain ex u3 where ex: "json_exp u2 = (ex, u3)" by fastforce
  have "r = u3" using assms(1) d fr ex by (simp add: json_number_def Let_def flip: u_def)
  then have "s = sg @ d @ fr @ ex @ r" using s json_int_parts [OF d] json_frac_parts [OF fr] json_exp_parts [OF ex] by simp
  moreover have "json_num_parts sg d fr ex"
    using json_int_parts [OF d] json_frac_parts [OF fr] json_exp_parts [OF ex] by (auto simp: json_num_parts_def sg_def)
  ultimately show ?thesis by blast
qed

section \<open>Documents\<close>

definition json_blank :: "bytes \<Rightarrow> bool" where
  "json_blank w \<longleftrightarrow> list_all json_ws w"

text \<open>
  \<open>json_value big d t x\<close>: the text \<open>t\<close> is a value that nests at most \<open>d\<close> arrays and objects and denotes
  \<open>x\<close>.  The members of an object become the entries of an array: a repeated name keeps its place and
  takes the last value, and a name that spells an integer is an integer key.
\<close>

inductive json_value :: "bool \<Rightarrow> nat \<Rightarrow> bytes \<Rightarrow> pval \<Rightarrow> bool"
  and json_elems :: "bool \<Rightarrow> nat \<Rightarrow> bytes \<Rightarrow> pval list \<Rightarrow> bool"
  and json_members :: "bool \<Rightarrow> nat \<Rightarrow> bytes \<Rightarrow> (key \<times> pval) list \<Rightarrow> bool"
  for big :: bool where
  v_null: "json_value big d (ascii ''null'') PNull"
| v_true: "json_value big d (ascii ''true'') (PBool True)"
| v_false: "json_value big d (ascii ''false'') (PBool False)"
| v_num: "json_num big t x \<Longrightarrow> json_value big d t x"
| v_str: "json_str t b \<Longrightarrow> json_value big d t (PStr b)"
| v_arr0: "json_blank w \<Longrightarrow> json_value big (Suc d) (0x5B # w @ [0x5D]) (PArr [])"
| v_arr: "json_elems big d t xs \<Longrightarrow> json_value big (Suc d) (0x5B # t @ [0x5D]) (PArr (int_keyed 0 xs))"
| v_obj0: "json_blank w \<Longrightarrow> json_value big (Suc d) (0x7B # w @ [0x7D]) (PArr [])"
| v_obj: "json_members big d t ms \<Longrightarrow>
    json_value big (Suc d) (0x7B # t @ [0x7D]) (PArr (fold (\<lambda>(k, x). AList.update k x) ms []))"
| e_last: "json_blank w \<Longrightarrow> json_value big d t x \<Longrightarrow> json_blank w' \<Longrightarrow> json_elems big d (w @ t @ w') [x]"
| e_more: "json_blank w \<Longrightarrow> json_value big d t x \<Longrightarrow> json_blank w' \<Longrightarrow> json_elems big d ts xs \<Longrightarrow>
    json_elems big d (w @ t @ w' @ 0x2C # ts) (x # xs)"
| m_last: "json_blank w1 \<Longrightarrow> json_str k b \<Longrightarrow> json_blank w2 \<Longrightarrow> json_blank w3 \<Longrightarrow> json_value big d t x \<Longrightarrow> json_blank w4 \<Longrightarrow>
    json_members big d (w1 @ k @ w2 @ 0x3A # w3 @ t @ w4) [(key_from_bytes b, x)]"
| m_more: "json_blank w1 \<Longrightarrow> json_str k b \<Longrightarrow> json_blank w2 \<Longrightarrow> json_blank w3 \<Longrightarrow> json_value big d t x \<Longrightarrow> json_blank w4 \<Longrightarrow>
    json_members big d ts ms \<Longrightarrow>
    json_members big d (w1 @ k @ w2 @ 0x3A # w3 @ t @ w4 @ 0x2C # ts) ((key_from_bytes b, x) # ms)"

definition json_doc :: "bool \<Rightarrow> nat \<Rightarrow> bytes \<Rightarrow> pval \<Rightarrow> bool" where
  "json_doc big d s x \<longleftrightarrow> (\<exists>w t w'. s = w @ t @ w' \<and> json_blank w \<and> json_value big d t x \<and> json_blank w')"

lemma blank_simps [simp]: "json_blank []" "json_blank (c # w) \<longleftrightarrow> json_ws c \<and> json_blank w"
  "json_blank (v @ w) \<longleftrightarrow> json_blank v \<and> json_blank w"
  by (simp_all add: json_blank_def)

lemma skip_ws_blank: "json_blank w \<Longrightarrow> skip_ws (w @ s) = skip_ws s"
  by (induction w) (simp_all add: skip_ws_def)

lemma skip_ws_stop: "\<not> starts json_ws s \<Longrightarrow> skip_ws s = s"
  by (cases s) (simp_all add: skip_ws_def)

lemma not_starts_dropWhile: "\<not> starts p (dropWhile p s)"
  by (induction s) simp_all

lemma skip_ws_split: obtains w where "json_blank w" "s = w @ skip_ws s" "\<not> starts json_ws (skip_ws s)"
proof
  show "json_blank (takeWhile json_ws s)" by (auto simp: json_blank_def list_all_iff dest: set_takeWhileD)
  show "s = takeWhile json_ws s @ skip_ws s" by (simp add: skip_ws_def)
  show "\<not> starts json_ws (skip_ws s)"
    unfolding skip_ws_def by (rule not_starts_dropWhile)
qed

lemma skip_ws_idem [simp]: "skip_ws (skip_ws s) = skip_ws s"
  using skip_ws_split [of s] by (metis skip_ws_stop)

text \<open>How a value starts.\<close>

definition value_start :: "u8 \<Rightarrow> bool" where
  "value_start c \<longleftrightarrow> c \<in> {0x6E, 0x74, 0x66, 0x2D, 0x22, 0x5B, 0x7B} \<or> is_ascii_digit c"

lemma json_num_start: "json_num big t x \<Longrightarrow> starts (\<lambda>c. c = 0x2D \<or> is_ascii_digit c) t"
  by (auto simp: json_num_def json_num_parts_def starts_append neq_Nil_conv)

lemma json_value_start:
  assumes "json_value big d t x"
  shows "starts value_start t"
  using assms
proof (cases rule: json_value.cases)
  case v_num
  then have "starts (\<lambda>c. c = 0x2D \<or> is_ascii_digit c) t" using json_num_start by blast
  then show ?thesis by (cases t) (auto simp: value_start_def)
qed (auto simp: value_start_def ascii_def of_char_def json_str_def)

lemma value_start_not_ws: "value_start c \<Longrightarrow> \<not> json_ws c \<and> c \<noteq> 0x5D \<and> c \<noteq> 0x7D"
  by (auto simp: value_start_def json_ws_def is_ascii_digit_def word_le_nat_alt)

end
