(* ===== verification/JsonBuild.thy ===== *)
theory JsonBuild
  imports JsonDecode
begin

text \<open>
  Checking a text and building its value are one parser: without \<open>BUILD\<close> it takes the same steps and
  reports the same errors.
\<close>

lemma str_slow_build:
  "map_sum id snd (str_slow False m buf' run' s) = map_sum id snd (str_slow True m buf run s)"
proof (induction "length s" arbitrary: buf run buf' run' s rule: less_induct)
  case less
  show ?case
  proof (cases s)
    case Nil
    then show ?thesis by (simp add: str_slow_simps)
  next
    case (Cons c v)
    have IH: "map_sum id snd (str_slow False m b' r' w) = map_sum id snd (str_slow True m b r w)" if "length w < length s" for b r b' r' w
      using less.hyps [OF that] .
    show ?thesis
    proof (cases c rule: plain_cases)
      case 1
      then show ?thesis using IH [of v] by (simp add: Cons str_slow_simps)
    next
      case 2
      then show ?thesis by (simp add: Cons str_slow_simps)
    next
      case 3
      show ?thesis
      proof (cases "json_escape s")
        case (Inl e)
        then show ?thesis using 3 by (simp add: Cons str_slow_simps)
      next
        case (Inr r)
        then have "length (snd r) < length s" using json_escape_shorter by (cases r) auto
        from IH [OF this] show ?thesis using 3 Inr by (cases r) (simp add: Cons str_slow_simps)
      qed
    next
      case 4
      then show ?thesis by (simp add: Cons str_slow_simps)
    next
      case 5
      show ?thesis
      proof (cases "utf8_len s")
        case None
        then show ?thesis using 5(1) IH [of v] by (cases m) (simp_all add: Cons str_slow_simps)
      next
        case (Some n)
        have "length (drop n s) < length s" using utf8_len_pos [OF Some] by (simp add: Cons)
        from IH [OF this] show ?thesis using 5(1) Some by (simp add: Cons str_slow_simps)
      qed
    qed
  qed
qed

lemma str_fast_build:
  "map_sum id snd (str_fast False m run' s) = map_sum id snd (str_fast True m run s)"
proof (induction "length s" arbitrary: run run' s rule: less_induct)
  case less
  show ?case
  proof (cases s)
    case Nil
    then show ?thesis by (simp add: str_fast_simps)
  next
    case (Cons c v)
    have IH: "map_sum id snd (str_fast False m r' w) = map_sum id snd (str_fast True m r w)" if "length w < length s" for r r' w
      using less.hyps [OF that] .
    show ?thesis
    proof (cases c rule: plain_cases)
      case 1
      then show ?thesis using IH [of v] by (simp add: Cons str_fast_simps)
    next
      case 5
      show ?thesis
      proof (cases "utf8_len s")
        case None
        then show ?thesis using 5(1) str_slow_build by (simp add: Cons str_fast_simps)
      next
        case (Some n)
        have "length (drop n s) < length s" using utf8_len_pos [OF Some] by (simp add: Cons)
        from IH [OF this] show ?thesis using 5(1) Some by (simp add: Cons str_fast_simps)
      qed
    qed (simp_all add: Cons str_fast_simps str_slow_build)
  qed
qed

lemma json_string_build: "map_sum id snd (json_string False m s) = map_sum id snd (json_string True m s)"
  unfolding json_string_def by (rule str_fast_build)

lemma json_number_build: "map_sum id snd (json_number False b s) = map_sum id snd (json_number True b' s)"
  by (simp add: json_number_def Let_def split: option.splits prod.splits)

text \<open>Parsers that read the same text in containers of the same kind.\<close>

definition same_place :: "json_parser \<Rightarrow> json_parser \<Rightarrow> bool" where
  "same_place p q \<longleftrightarrow> jp_rest p = jp_rest q \<and> map jf_obj (jp_stack p) = map jf_obj (jp_stack q)"

lemma map_sum_snd_cases:
  assumes "map_sum id snd r = map_sum id snd r'"
  obtains (error) e where "r = Inl e" "r' = Inl e" | (ok) a b s where "r = Inr (a, s)" "r' = Inr (b, s)"
  using assms by (cases r; cases r') auto

lemma json_close_stack [simp]: "jp_stack (fst (json_close build opt H p st)) = tl (jp_stack p)"
  by (auto simp: json_close_def Let_def split: list.splits prod.splits option.splits if_splits)

lemma close_same: "same_place p q \<Longrightarrow> same_place (fst (json_close b opt H p st)) (fst (json_close b' opt' H' q st'))"
  by (simp add: same_place_def map_tl)

lemma key_same:
  assumes "same_place q p" "do_utf8 opt = do_utf8 opt'"
  shows "rel_sum (=) same_place (json_key False opt q) (json_key True opt' p)"
  using json_string_build [of "do_utf8 opt" "jp_rest q"]
proof (cases rule: map_sum_snd_cases)
  case (error e)
  then show ?thesis using assms by (simp add: json_key_def same_place_def)
next
  case (ok a b s)
  then show ?thesis using assms by (auto simp: json_key_def same_place_def Let_def split: prod.splits)
qed

lemma push_same: "same_place q p \<Longrightarrow> same_place (push_value b v q) (push_value b' v' p)"
  by (simp add: same_place_def push_value_def)

definition same_options :: "decode_options \<Rightarrow> decode_options \<Rightarrow> bool" where
  "same_options opt opt' \<longleftrightarrow> do_assoc opt \<and> do_assoc opt' \<and> do_depth opt = do_depth opt' \<and> do_utf8 opt = do_utf8 opt'"

abbreviation (input) same_phase :: "json_phase \<times> json_parser \<Rightarrow> json_phase \<times> json_parser \<Rightarrow> bool" where
  "same_phase \<equiv> rel_prod (=) same_place"

lemma same_length: "same_place q p \<Longrightarrow> length (jp_stack q) = length (jp_stack p)"
  unfolding same_place_def by (metis length_map)

lemma open_same:
  assumes "same_place q p" "same_options opt opt'"
  shows "rel_sum (=) same_phase (fst (open_container False opt H obj q st)) (fst (open_container True opt' H' obj p st'))"
proof -
  define s where "s = skip_ws (tl (jp_rest p))"
  define q1 where "q1 = q\<lparr>jp_rest := s, jp_stack := \<lparr>jf_obj = obj, jf_vals = length (jp_vals q), jf_keys = length (jp_keys q)\<rparr> # jp_stack q\<rparr>"
  define p1 where "p1 = p\<lparr>jp_rest := s, jp_stack := \<lparr>jf_obj = obj, jf_vals = length (jp_vals p), jf_keys = length (jp_keys p)\<rparr> # jp_stack p\<rparr>"
  have rest: "jp_rest q = jp_rest p" using assms(1) by (simp add: same_place_def)
  have same: "same_place q1 p1" using assms(1) by (simp add: same_place_def q1_def p1_def)
  have opt: "do_depth opt = do_depth opt'" "do_utf8 opt = do_utf8 opt'" using assms(2) by (simp_all add: same_options_def)
  have q: "open_container False opt H obj q st =
    (if do_depth opt \<le> length (jp_stack p) + 1 then (Inl JDepth, st)
     else case s of
          [] \<Rightarrow> if obj then (Inl (json_unexpected (do_utf8 opt) s), st) else (Inr (NeedValue, q1), st)
        | c # t \<Rightarrow>
            if c = (if obj then 0x7D else 0x5D) then
              let (p, st) = json_close False opt H (q1\<lparr>jp_rest := t\<rparr>) st in (Inr (HaveValue, p), st)
            else if c = 0x7D \<or> c = 0x5D then (Inl JStateMismatch, st)
            else if obj then
              if c = 0x22 then
                (case json_key False opt q1 of Inl e \<Rightarrow> (Inl e, st) | Inr p \<Rightarrow> (Inr (NeedValue, p), st))
              else (Inl (json_unexpected (do_utf8 opt) s), st)
            else (Inr (NeedValue, q1), st))"
    unfolding open_container_def Let_def rest same_length [OF assms(1)] s_def [symmetric] q1_def [symmetric] by (rule refl)
  have p: "open_container True opt' H' obj p st' =
    (if do_depth opt' \<le> length (jp_stack p) + 1 then (Inl JDepth, st')
     else case s of
          [] \<Rightarrow> if obj then (Inl (json_unexpected (do_utf8 opt') s), st') else (Inr (NeedValue, p1), st')
        | c # t \<Rightarrow>
            if c = (if obj then 0x7D else 0x5D) then
              let (p, st) = json_close True opt' H' (p1\<lparr>jp_rest := t\<rparr>) st' in (Inr (HaveValue, p), st)
            else if c = 0x7D \<or> c = 0x5D then (Inl JStateMismatch, st')
            else if obj then
              if c = 0x22 then
                (case json_key True opt' p1 of Inl e \<Rightarrow> (Inl e, st') | Inr p \<Rightarrow> (Inr (NeedValue, p), st'))
              else (Inl (json_unexpected (do_utf8 opt') s), st')
            else (Inr (NeedValue, p1), st'))"
    unfolding open_container_def Let_def s_def [symmetric] p1_def [symmetric] by (rule refl)
  have key: "rel_sum (=) same_place (json_key False opt q1) (json_key True opt' p1)"
    by (rule key_same [OF same opt(2)])
  have close: "same_place (fst (json_close False opt H (q1\<lparr>jp_rest := t\<rparr>) st)) (fst (json_close True opt' H' (p1\<lparr>jp_rest := t\<rparr>) st'))" for t
    using same by (intro close_same) (simp add: same_place_def)
  show ?thesis
    unfolding q p opt using same key close
    by (auto split: list.splits sum.splits prod.splits) (metis fst_conv)+
qed

lemma need_same:
  assumes "same_place q p" "same_options opt opt'"
  shows "rel_sum (=) same_phase (fst (json_need False opt H q st)) (fst (json_need True opt' H' p st'))"
proof -
  define s where "s = skip_ws (jp_rest p)"
  have rest: "jp_rest q = jp_rest p" using assms(1) by (simp add: same_place_def)
  have same: "same_place (q\<lparr>jp_rest := u\<rparr>) (p\<lparr>jp_rest := u\<rparr>)" for u using assms(1) by (simp add: same_place_def)
  have opt: "do_utf8 opt = do_utf8 opt'" using assms(2) by (simp add: same_options_def)
  show ?thesis
  proof (cases s)
    case Nil
    then show ?thesis by (simp add: json_need_def Let_def rest flip: s_def)
  next
    case (Cons c t)
    consider (opn) "c = 0x5B \<or> c = 0x7B" | (str) "c = 0x22" | (num) "c \<noteq> 0x5B" "c \<noteq> 0x7B" "c \<noteq> 0x22" "c = 0x2D \<or> is_ascii_digit c"
      | (other) "c \<noteq> 0x5B" "c \<noteq> 0x7B" "c \<noteq> 0x22" "c \<noteq> 0x2D" "\<not> is_ascii_digit c" by blast
    then show ?thesis
    proof cases
      case opn
      then show ?thesis using open_same [OF same assms(2)] by (simp add: json_need_def Let_def rest Cons flip: s_def)
    next
      case str
      show ?thesis using json_string_build [of "do_utf8 opt'" s]
      proof (cases rule: map_sum_snd_cases)
        case (error e)
        then show ?thesis using str by (simp add: json_need_def Let_def rest Cons opt flip: s_def)
      next
        case (ok a b u)
        then show ?thesis using str push_same [OF same] by (simp add: json_need_def Let_def rest Cons opt flip: s_def)
      qed
    next
      case num
      show ?thesis using json_number_build [of "do_bigint opt" s "do_bigint opt'"]
      proof (cases rule: map_sum_snd_cases)
        case (error e)
        then show ?thesis using num by (simp add: json_need_def Let_def rest Cons flip: s_def)
      next
        case (ok a b u)
        then show ?thesis using num push_same [OF same] by (simp add: json_need_def Let_def rest Cons flip: s_def)
      qed
    next
      case other
      then show ?thesis using push_same [OF same]
        by (simp add: json_need_def Let_def rest Cons opt flip: s_def split: prod.splits)
    qed
  qed
qed

lemma have_same:
  assumes "same_place q p" "same_options opt opt'"
  shows "rel_sum (=) (rel_sum (\<lambda>_ _. True) same_phase) (fst (json_have False opt H q st)) (fst (json_have True opt' H' p st'))"
proof -
  define s where "s = skip_ws (jp_rest p)"
  have rest: "jp_rest q = jp_rest p" using assms(1) by (simp add: same_place_def)
  have same: "same_place (q\<lparr>jp_rest := u\<rparr>) (p\<lparr>jp_rest := u\<rparr>)" for u using assms(1) by (simp add: same_place_def)
  have opt: "do_utf8 opt = do_utf8 opt'" "do_assoc opt" "do_assoc opt'" using assms(2) by (simp_all add: same_options_def)
  show ?thesis
  proof (cases "jp_stack p")
    case Nil
    then have "jp_stack q = []" using assms(1) by (simp add: same_place_def)
    then show ?thesis using Nil by (simp add: json_have_def Let_def rest opt flip: s_def)
  next
    case (Cons f fs)
    then obtain g gs where g: "jp_stack q = g # gs" "jf_obj g = jf_obj f"
      using assms(1) by (cases "jp_stack q") (auto simp: same_place_def)
    have key: "rel_sum (=) same_place (json_key False opt (q\<lparr>jp_rest := u\<rparr>)) (json_key True opt' (p\<lparr>jp_rest := u\<rparr>))" for u
      by (rule key_same [OF same opt(1)])
    have close: "same_place (fst (json_close False opt H (q\<lparr>jp_rest := t\<rparr>) st)) (fst (json_close True opt' H' (p\<lparr>jp_rest := t\<rparr>) st'))" for t
      by (rule close_same [OF same])
    have id: "q\<lparr>jp_rest := u, jp_key_nul := jp_key_nul q\<rparr> = q\<lparr>jp_rest := u\<rparr>"
      "p\<lparr>jp_rest := u, jp_key_nul := jp_key_nul p\<rparr> = p\<lparr>jp_rest := u\<rparr>" for u by simp_all
    show ?thesis
    proof (cases s)
      case Nil
      then show ?thesis by (simp add: json_have_def Let_def rest opt Cons g flip: s_def)
    next
      case s: (Cons c t)
      show ?thesis
      proof (cases "c = 0x2C")
        case True
        then show ?thesis using key [of "skip_ws t"] same [of t]
          by (auto simp: json_have_def Let_def rest opt Cons g s id simp flip: s_def split: sum.splits)
      next
        case False
        then show ?thesis using close [of t]
          by (cases "json_close False opt H (q\<lparr>jp_rest := t\<rparr>) st"; cases "json_close True opt' H' (p\<lparr>jp_rest := t\<rparr>) st'")
            (simp add: json_have_def Let_def rest opt Cons g s id flip: s_def)
      qed
    qed
  qed
qed

lemma step_same:
  assumes "same_place q p" "same_options opt opt'"
  shows "rel_sum (=) (rel_sum (\<lambda>_ _. True) same_phase) (fst (json_step False opt H ph q st)) (fst (json_step True opt' H' ph p st'))"
proof (cases ph)
  case NeedValue
  then show ?thesis using need_same [OF assms, of H st H' st']
    by (cases "json_need False opt H q st"; cases "json_need True opt' H' p st'")
      (auto simp: json_step_def elim!: rel_sum.cases)
next
  case HaveValue
  then show ?thesis using have_same [OF assms] by (simp add: json_step_def)
qed

lemma run_same:
  assumes "same_options opt opt'"
  shows "same_place q p \<Longrightarrow>
    rel_sum (=) (\<lambda>_ _. True) (fst (json_run False opt H ph q st)) (fst (json_run True opt' H' ph p st'))"
proof (induction "length (jp_rest q)" arbitrary: ph q p st st' rule: less_induct)
  case less
  obtain r u where r: "json_step False opt H ph q st = (r, u)" by fastforce
  obtain r' u' where r': "json_step True opt' H' ph p st' = (r', u')" by fastforce
  have "rel_sum (=) (rel_sum (\<lambda>_ _. True) same_phase) r r'"
    using step_same [OF less.prems assms, of H ph st H' st'] by (simp add: r r')
  then show ?case
  proof (cases rule: rel_sum.cases)
    case (1 e e')
    then show ?thesis by (subst (1 2) json_run.simps) (simp add: r r')
  next
    case (2 x x')
    from 2(3) show ?thesis
    proof (cases rule: rel_sum.cases)
      case (1 v v')
      then show ?thesis using 2 by (subst (1 2) json_run.simps) (simp add: r r')
    next
      case y: (2 y y')
      then obtain ph' q' p' where "y = (ph', q')" "y' = (ph', p')" "same_place q' p'" by (cases y; cases y') auto
      then have eqs: "r = Inr (Inr (ph', q'))" "r' = Inr (Inr (ph', p'))" "same_place q' p'" using 2 y by simp_all
      have "length (jp_rest q') < length (jp_rest q)" by (rule json_step_shorter [OF r [unfolded eqs(1)]])
      from less.hyps [OF this eqs(3), of ph' u u'] show ?thesis
        by (subst (1 2) json_run.simps) (simp add: r r' eqs)
    qed
  qed
qed

text \<open>C40: \<open>json_validate\<close> reports exactly the error that \<open>json_decode\<close> to arrays reports, or none when it succeeds.\<close>

theorem validate_is_decode:
  fixes H :: "('e, 'x) json_host"
  shows "validate json depth mode st =
     (case fst (decode H json \<lparr>do_assoc = True, do_depth = depth, do_bigint = big, do_utf8 = mode\<rparr> st) of
        Inr _ \<Rightarrow> JNoError | Inl e \<Rightarrow> e)"
proof -
  have "same_options \<lparr>do_assoc = True, do_depth = depth, do_bigint = False, do_utf8 = mode\<rparr>
      \<lparr>do_assoc = True, do_depth = depth, do_bigint = big, do_utf8 = mode\<rparr>"
    by (simp add: same_options_def)
  from run_same [OF this, of "parser_new json" "parser_new json"
    "None :: ('e, unit) json_host option" NeedValue st "Some H" st]
  show ?thesis
    unfolding validate_def decode_def Let_def
    by (auto simp: same_place_def elim!: rel_sum.cases)
qed

end
