(* ===== verification/JsonSpec.thy ===== *)
theory JsonSpec
  imports JsonGrammar JsonBuild
begin

text \<open>
  The decoder against the grammar: every text of the grammar is decoded to the value it denotes, and
  only those texts are accepted.
\<close>

section \<open>Values in a world\<close>

text \<open>\<open>represents W v x\<close>: with the arrays and references of \<open>W\<close>, \<open>v\<close> is the value \<open>x\<close>.\<close>

inductive represents :: "'e world \<Rightarrow> val \<Rightarrow> pval \<Rightarrow> bool"
  and rep_entries :: "'e world \<Rightarrow> (key \<times> val) list \<Rightarrow> (key \<times> pval) list \<Rightarrow> bool"
  for W :: "'e world" where
  rep_null: "represents W VNull PNull"
| rep_bool: "represents W (VBool b) (PBool b)"
| rep_int: "represents W (VInt i) (PInt i)"
| rep_float: "represents W (VFloat f) (PFloat f)"
| rep_str: "represents W (VStr s) (PStr s)"
| rep_empty: "represents W (VArray None) (PArr [])"
| rep_array: "p < length (w_arrays W) \<Longrightarrow> arr_inv (w_arrays W ! p) \<Longrightarrow> rep_entries W (a_list (w_arrays W ! p)) es \<Longrightarrow>
    represents W (VArray (Some p)) (PArr es)"
| rep_ref: "r < length (w_refs W) \<Longrightarrow> represents W (ref_get (w_refs W) r) x \<Longrightarrow> represents W (VRef r) x"
| rep_nil: "rep_entries W [] []"
| rep_cons: "represents W v x \<Longrightarrow> rep_entries W vs xs \<Longrightarrow> rep_entries W ((k, v) # vs) ((k, x) # xs)"

inductive_simps rep_entries_simps: "rep_entries W [] xs" "rep_entries W (e # es) xs"
inductive_cases represents_array: "represents W (VArray (Some p)) x"

text \<open>More arrays.\<close>

definition more_arrays :: "'e world \<Rightarrow> 'e world \<Rightarrow> bool" where
  "more_arrays W W' \<longleftrightarrow> (\<exists>ds. W' = W\<lparr>w_arrays := w_arrays W @ ds\<rparr>)"

lemma more_arrays_refl [simp]: "more_arrays W W"
  unfolding more_arrays_def by (rule exI [of _ "[]"]) simp

lemma more_arrays_trans: "more_arrays W W' \<Longrightarrow> more_arrays W' W'' \<Longrightarrow> more_arrays W W''"
  by (auto simp: more_arrays_def)

lemma represents_more:
  assumes "more_arrays W W'"
  shows "represents W v x \<Longrightarrow> represents W' v x" "rep_entries W vs xs \<Longrightarrow> rep_entries W' vs xs"
proof (induction rule: represents_rep_entries.inducts)
  case (rep_array p es)
  then show ?case using assms by (auto simp: more_arrays_def nth_append intro!: represents_rep_entries.rep_array)
next
  case (rep_ref r x)
  then show ?case using assms by (auto simp: more_arrays_def intro!: represents_rep_entries.rep_ref)
qed (auto intro: represents_rep_entries.intros)

lemma rep_entries_append: "rep_entries W a x \<Longrightarrow> rep_entries W b y \<Longrightarrow> rep_entries W (a @ b) (x @ y)"
  by (induction a arbitrary: x) (auto simp: rep_entries_simps)

lemma rep_entries_int_keyed: "list_all2 (represents W) vs xs \<Longrightarrow> rep_entries W (int_keyed i vs) (int_keyed i xs)"
  by (induction vs xs arbitrary: i rule: list_all2_induct) (auto intro: rep_nil rep_cons)

lemma rep_entries_update:
  "rep_entries W vs xs \<Longrightarrow> represents W v x \<Longrightarrow> rep_entries W (AList.update k v vs) (AList.update k x xs)"
  by (induction vs arbitrary: xs) (auto simp: rep_entries_simps)

lemma rep_entries_fold:
  "rep_entries W ms ns \<Longrightarrow> rep_entries W vs xs \<Longrightarrow>
     rep_entries W (fold (\<lambda>(k, v). AList.update k v) ms vs) (fold (\<lambda>(k, x). AList.update k x) ns xs)"
  by (induction ms arbitrary: ns vs xs) (auto simp: rep_entries_simps rep_entries_update)

lemma rep_entries_zip: "list_all2 (represents W) vs (map snd ms) \<Longrightarrow> rep_entries W (zip (map fst ms) vs) ms"
proof (induction ms arbitrary: vs)
  case (Cons m ms)
  obtain v w where "vs = v # w" "represents W v (snd m)" "list_all2 (represents W) w (map snd ms)"
    using Cons.prems by (auto simp: list_all2_Cons2)
  then show ?case using Cons.IH by (cases m) (auto intro: rep_cons)
qed (simp add: rep_nil)

text \<open>The arrays a container ends in.\<close>

lemma push_values_all: "push_all vs a = Some b \<Longrightarrow> push_values vs a = b"
  by (induction vs arbitrary: a) (auto simp: push_values_def split: prod.splits sum.splits)

lemma push_values_list:
  assumes "length vs < max_entries"
  shows "arr_inv (push_values vs arr_new)" "a_list (push_values vs arr_new) = int_keyed 0 vs"
proof -
  have "arr_inv arr_new" "a_store arr_new = Packed []" "next_index arr_new = Some (word_of_nat (length ([] :: val list)))"
    using arr_new_ok(1) by (simp_all add: arr_new_def next_index_def n_full_def)
  from push_all_packed [OF this] assms obtain b where "push_all vs arr_new = Some b" "arr_inv b" "a_store b = Packed vs"
    by auto
  then show "arr_inv (push_values vs arr_new)" "a_list (push_values vs arr_new) = int_keyed 0 vs"
    using push_values_all by (simp_all add: a_list_def)
qed

lemma insert_members_fold: "insert_members ms a = fold (\<lambda>(k, v). arr_put_key k v) ms a"
  by (induction ms arbitrary: a) (auto simp: insert_members_def arr_put_key_def)

lemma insert_members_list:
  assumes "length ms < max_entries"
  shows "arr_inv (insert_members ms arr_new)"
    "a_list (insert_members ms arr_new) = fold (\<lambda>(k, v). AList.update k v) ms []"
proof -
  have "arr_ok (length ms + 0) arr_new" using arr_ok_new assms by simp
  from php.put_all [OF this] arr_new_ok(2) abs_arr_sel(1) [of arr_new]
  show "arr_inv (insert_members ms arr_new)"
    "a_list (insert_members ms arr_new) = fold (\<lambda>(k, v). AList.update k v) ms []"
    by (simp_all add: insert_members_fold arr_ok_def)
qed

section \<open>Every text of the grammar is read\<close>

text \<open>One step of the loop.\<close>

lemma run_step: "json_step b opt H ph p st = (Inr (Inr (ph', p')), st') \<Longrightarrow>
    json_run b opt H ph p st = json_run b opt H ph' p' st'"
  by (subst json_run.simps) simp

lemma cache_key_key: "snd (cache_key slots b) = key_from_bytes b"
proof (cases "b = [] \<or> cache_max_len < length b")
  case False
  have "canonical_int b = None" if "\<not> (is_ascii_digit (hd b) \<or> hd b = 0x2D)"
    using that False by (cases b) (auto simp: canonical_int_def)
  then have "(if is_ascii_digit (hd b) \<or> hd b = 0x2D then canonical_int b else None) = canonical_int b" by auto
  with False show ?thesis
    by (auto simp: cache_key_def key_from_bytes_def Let_def split: option.splits)
qed (simp add: cache_key_def)

text \<open>What may follow a value.\<close>

definition value_end :: "bytes \<Rightarrow> bool" where
  "value_end r \<longleftrightarrow> r = [] \<or> json_ws (hd r) \<or> hd r \<in> {0x2C, 0x5D, 0x7D}"

lemma value_end_num: "value_end r \<Longrightarrow> num_end r"
  by (cases r) (auto simp: value_end_def num_end_def json_ws_def is_ascii_digit_def word_le_nat_alt)

lemma value_end_blank: "json_blank w \<Longrightarrow> value_end r \<Longrightarrow> value_end (w @ r)"
  by (cases w) (auto simp: value_end_def)

lemma value_end_simps [simp]: "value_end []" "value_end (0x2C # r)" "value_end (0x5D # r)" "value_end (0x7D # r)"
  by (simp_all add: value_end_def)

lemma skip_ws_value: "json_value big d t x \<Longrightarrow> skip_ws (t @ r) = t @ r"
  using json_value_start [of big d t x] value_start_not_ws
  by (intro skip_ws_stop) (cases t; auto)

text \<open>Values without containers.\<close>

lemma need_literal:
  assumes "skip_ws (jp_rest p) = fst (json_literal c) @ r" "c \<in> {0x74, 0x66, 0x6E}"
  shows "json_need True opt H p st = (Inr (HaveValue, p\<lparr>jp_rest := r, jp_vals := jp_vals p @ [snd (json_literal c)]\<rparr>), st)"
proof -
  obtain t where t: "fst (json_literal c) = c # t" using assms(2) by (auto simp: json_literal_def ascii_def of_char_def)
  have s: "skip_ws (jp_rest p) = c # t @ r" using assms(1) t by simp
  have c: "\<not> (c = 0x5B \<or> c = 0x7B)" "c \<noteq> 0x22" "\<not> (c = 0x2D \<or> is_ascii_digit c)" "c = 0x74 \<or> c = 0x66 \<or> c = 0x6E"
    using assms(2) by (auto simp: is_ascii_digit_def word_le_nat_alt)
  obtain v where lit: "json_literal c = (c # t, v)" using t by (cases "json_literal c") simp
  have take: "take (length (c # t)) (c # t @ r) = c # t" "drop (length (c # t)) (c # t @ r) = r" by simp_all
  show ?thesis
    unfolding json_need_def Let_def s list.case if_not_P [OF c(1)] if_not_P [OF c(2)] if_not_P [OF c(3)] if_P [OF c(4)]
      lit prod.case take if_P [OF refl] snd_conv by (simp add: push_value_def)
qed

lemma need_string:
  assumes "skip_ws (jp_rest p) = t @ r" "json_str t b"
  shows "json_need True opt H p st = (Inr (HaveValue, p\<lparr>jp_rest := r, jp_vals := jp_vals p @ [VStr b]\<rparr>), st)"
proof -
  obtain u where t: "t = 0x22 # u" using assms(2) by (auto simp: json_str_def)
  have "json_string True (do_utf8 opt) (t @ r) = Inr (b, r)" using json_string_str [OF assms(2)] .
  then show ?thesis using assms(1) by (simp add: json_need_def Let_def t push_value_def)
qed

lemma need_number:
  assumes "skip_ws (jp_rest p) = t @ r" "json_num (do_bigint opt) t x" "value_end r"
  obtains v where "json_need True opt H p st = (Inr (HaveValue, p\<lparr>jp_rest := r, jp_vals := jp_vals p @ [v]\<rparr>), st)"
    "\<And>W :: 'e world. represents W v x"
proof -
  obtain sg d fr ex where t: "t = sg @ d @ fr @ ex" "json_num_parts sg d fr ex" "x = num_meaning (do_bigint opt) sg d fr ex"
    using assms(2) by (auto simp: json_num_def)
  define v where "v = number_value (do_bigint opt) (sg \<noteq> []) d fr ex"
  have n: "json_number True (do_bigint opt) (t @ r) = Inr (v, r)"
    using json_number_runs [OF t(2) value_end_num [OF assms(3)]] by (simp add: t(1) v_def)
  have "starts (\<lambda>c. c = 0x2D \<or> is_ascii_digit c) t" using json_num_start [OF assms(2)] .
  then obtain c u where c: "t = c # u" "c = 0x2D \<or> is_ascii_digit c" by (cases t) auto
  then have "c \<noteq> 0x5B" "c \<noteq> 0x7B" "c \<noteq> 0x22" by (auto simp: is_ascii_digit_def word_le_nat_alt)
  then have "json_need True opt H p st = (Inr (HaveValue, p\<lparr>jp_rest := r, jp_vals := jp_vals p @ [v]\<rparr>), st)"
    using assms(1) n c by (simp add: json_need_def Let_def push_value_def)
  moreover have "represents W v x" for W :: "'e world"
    unfolding v_def number_value_meaning [OF t(2)] t(3)
    by (auto simp: num_meaning_def intro: represents_rep_entries.intros)
  ultimately show thesis by (rule that)
qed

text \<open>Names, commas and closing brackets.\<close>

lemma key_reads:
  assumes "do_assoc opt" "jp_rest p = k @ w @ 0x3A # r" "json_str k b" "json_blank w"
  obtains c where "json_key True opt p = Inr (p\<lparr>jp_rest := r, jp_keys := jp_keys p @ [key_from_bytes b], jp_cache := c\<rparr>)"
proof -
  have s: "json_string True (do_utf8 opt) (jp_rest p) = Inr (b, w @ 0x3A # r)"
    unfolding assms(2) by (rule json_string_str [OF assms(3)])
  have ws: "skip_ws (w @ 0x3A # r) = 0x3A # r"
    using skip_ws_blank [OF assms(4)] by (simp add: skip_ws_stop json_ws_def)
  obtain c k' where c: "cache_key (jp_cache p) b = (c, k')" by fastforce
  then have "k' = key_from_bytes b" using cache_key_key [of "jp_cache p" b] by simp
  then show thesis using that [of c] s ws assms(1) c by (simp add: json_key_def Let_def)
qed

lemma have_comma_array:
  assumes "jp_stack p = f # fs" "\<not> jf_obj f" "skip_ws (jp_rest p) = 0x2C # t"
  shows "json_have True opt H p st = (Inr (Inr (NeedValue, p\<lparr>jp_rest := t\<rparr>)), st)"
  using assms by (simp add: json_have_def Let_def)

lemma have_comma_object:
  assumes "do_assoc opt" "jp_stack p = f # fs" "jf_obj f" "skip_ws (jp_rest p) = 0x2C # t"
    "json_key True opt (p\<lparr>jp_rest := skip_ws t\<rparr>) = Inr q" "skip_ws t = 0x22 # u"
  shows "json_have True opt H p st = (Inr (Inr (NeedValue, q)), st)"
  using assms by (simp add: json_have_def Let_def)

lemma have_close:
  assumes "do_assoc opt" "jp_stack p = f # fs" "skip_ws (jp_rest p) = (if jf_obj f then 0x7D else 0x5D) # t"
    "json_close True opt H (p\<lparr>jp_rest := t\<rparr>) st = (q, st')"
  shows "json_have True opt H p st = (Inr (Inr (HaveValue, q)), st')"
  using assms by (cases "jf_obj f") (simp_all add: json_have_def Let_def)

definition grown :: "'e json_state \<Rightarrow> 'e json_state \<Rightarrow> bool" where
  "grown st st' \<longleftrightarrow> (\<exists>W. more_arrays (js_world st) W \<and> st' = st\<lparr>js_world := W\<rparr>)"

lemma grown_refl [simp]: "grown st st"
  unfolding grown_def by (rule exI [of _ "js_world st"]) simp

lemma grown_trans: "grown st st' \<Longrightarrow> grown st' st'' \<Longrightarrow> grown st st''"
  unfolding grown_def using more_arrays_trans by fastforce

lemma grown_represents:
  "grown st st' \<Longrightarrow> list_all2 (represents (js_world st)) vs xs \<Longrightarrow> list_all2 (represents (js_world st')) vs xs"
  by (auto simp: grown_def elim!: list_all2_mono dest: represents_more(1))

lemma container_new:
  assumes "container d n W = (W', a)"
  shows "more_arrays W W'" "n = 0 \<Longrightarrow> es = [] \<Longrightarrow> represents W' (VArray a) (PArr es)"
    "n \<noteq> 0 \<Longrightarrow> arr_inv d \<Longrightarrow> rep_entries W (a_list d) es \<Longrightarrow> represents W' (VArray a) (PArr es)"
proof -
  have eqs: "n = 0 \<Longrightarrow> W' = W \<and> a = None"
    "n \<noteq> 0 \<Longrightarrow> W' = W\<lparr>w_arrays := w_arrays W @ [d]\<rparr> \<and> a = Some (length (w_arrays W))"
    using assms by (auto simp: container_def new_array_def)
  then show more: "more_arrays W W'" by (cases "n = 0") (auto simp: more_arrays_def)
  show "n = 0 \<Longrightarrow> es = [] \<Longrightarrow> represents W' (VArray a) (PArr es)" using eqs rep_empty by simp
  show "n \<noteq> 0 \<Longrightarrow> arr_inv d \<Longrightarrow> rep_entries W (a_list d) es \<Longrightarrow> represents W' (VArray a) (PArr es)"
    using eqs represents_more(2) [OF more] by (auto intro!: rep_array)
qed

lemma close_array:
  assumes "jp_stack p = f # fs" "\<not> jf_obj f" "json_close True opt H p st = (q, st')"
    "list_all2 (represents (js_world st)) (drop (jf_vals f) (jp_vals p)) xs \<or> \<not> ok" "ok \<Longrightarrow> length xs < max_entries"
  shows "grown st st' \<and> (\<exists>v. q = p\<lparr>jp_stack := fs, jp_vals := take (jf_vals f) (jp_vals p) @ [v]\<rparr>
    \<and> (ok \<longrightarrow> represents (js_world st') v (PArr (int_keyed 0 xs))))"
proof -
  define vs where "vs = drop (jf_vals f) (jp_vals p)"
  obtain W a where c: "container (push_values vs arr_new) (length vs) (js_world st) = (W, a)" by fastforce
  have q: "q = p\<lparr>jp_stack := fs, jp_vals := take (jf_vals f) (jp_vals p) @ [VArray a]\<rparr>" "st' = st\<lparr>js_world := W\<rparr>"
    using assms(1,2,3) c by (simp_all add: json_close_def Let_def flip: vs_def)
  have "represents W (VArray a) (PArr (int_keyed 0 xs))" if ok
  proof -
    have vs: "list_all2 (represents (js_world st)) vs xs" using assms(4) that by (simp add: vs_def)
    then have len: "length vs = length xs" by (rule list_all2_lengthD)
    show ?thesis
    proof (cases "length vs = 0")
      case True
      then show ?thesis using container_new(2) [OF c] len by simp
    next
      case False
      show ?thesis
        using container_new(3) [OF c False] push_values_list [of vs] rep_entries_int_keyed [OF vs] assms(5) [OF that] len by simp
    qed
  qed
  then show ?thesis using container_new(1) [OF c] by (auto simp: q grown_def)
qed

lemma close_object:
  assumes "do_assoc opt" "jp_stack p = f # fs" "jf_obj f" "json_close True opt H p st = (q, st')"
    "drop (jf_keys f) (jp_keys p) = map fst ms" "length (drop (jf_vals f) (jp_vals p)) = length ms"
    "list_all2 (represents (js_world st)) (drop (jf_vals f) (jp_vals p)) (map snd ms) \<or> \<not> ok" "ok \<Longrightarrow> length ms < max_entries"
    "jf_keys f \<le> length (jp_keys p)"
  shows "grown st st' \<and> (\<exists>v. q = p\<lparr>jp_stack := fs, jp_vals := take (jf_vals f) (jp_vals p) @ [v], jp_keys := take (jf_keys f) (jp_keys p)\<rparr>
    \<and> (ok \<longrightarrow> represents (js_world st') v (PArr (fold (\<lambda>(k, x). AList.update k x) ms []))))"
proof -
  define vs where "vs = drop (jf_vals f) (jp_vals p)"
  obtain W a where c: "container (insert_members (zip (map fst ms) vs) arr_new) (length vs) (js_world st) = (W, a)" by fastforce
  have len: "length vs = length ms" using assms(6) by (simp add: vs_def)
  have keys: "jp_keys p = take (jf_keys f) (jp_keys p)" if "length vs = 0"
    using assms(5,9) that len by simp
  have q: "q = p\<lparr>jp_stack := fs, jp_vals := take (jf_vals f) (jp_vals p) @ [VArray a], jp_keys := take (jf_keys f) (jp_keys p)\<rparr>"
    "st' = st\<lparr>js_world := W\<rparr>"
    using assms(1,2,3,4,5) c keys by (auto simp: json_close_def Let_def simp flip: vs_def)
  have "represents W (VArray a) (PArr (fold (\<lambda>(k, x). AList.update k x) ms []))" if ok
  proof -
    have vs: "list_all2 (represents (js_world st)) vs (map snd ms)" using assms(7) that by (simp add: vs_def)
    show ?thesis
    proof (cases "length vs = 0")
      case True
      then show ?thesis using container_new(2) [OF c] len by simp
    next
      case False
      have "rep_entries (js_world st) (fold (\<lambda>(k, v). AList.update k v) (zip (map fst ms) vs) []) (fold (\<lambda>(k, x). AList.update k x) ms [])"
        using rep_entries_fold [OF rep_entries_zip [OF vs] rep_nil] .
      then show ?thesis
        using container_new(3) [OF c False] insert_members_list [of "zip (map fst ms) vs"] assms(8) [OF that] len by simp
    qed
  qed
  then show ?thesis using container_new(1) [OF c] by (auto simp: q grown_def)
qed

lemma elems_length:
  "json_elems big d t xs \<Longrightarrow> length xs \<le> length t" "json_members big d t ms \<Longrightarrow> length ms \<le> length t"
proof -
  have "(json_value big d t x \<longrightarrow> True) \<and> (json_elems big d t xs \<longrightarrow> length xs \<le> length t)
      \<and> (json_members big d t ms \<longrightarrow> length ms \<le> length t)" for x
  proof (induction rule: json_value_json_elems_json_members.induct)
    case (e_last w d t x w')
    then show ?case using json_value_start [OF \<open>json_value big d t x\<close>] by (cases t) simp_all
  qed auto
  then show "json_elems big d t xs \<Longrightarrow> length xs \<le> length t" "json_members big d t ms \<Longrightarrow> length ms \<le> length t"
    by blast+
qed

text \<open>From where a value is expected to where it is complete: what was read is on the stacks of values and names.\<close>

definition reads :: "bool \<Rightarrow> decode_options \<Rightarrow> ('e, 'x) json_host \<Rightarrow> json_parser \<Rightarrow> 'e json_state \<Rightarrow>
    bytes \<Rightarrow> key list \<Rightarrow> pval list \<Rightarrow> bool" where
  "reads ok opt H p st r ks xs \<longleftrightarrow> (\<exists>p' st' vs.
     json_run True opt (Some H) NeedValue p st = json_run True opt (Some H) HaveValue p' st'
     \<and> skip_ws (jp_rest p') = skip_ws r \<and> jp_stack p' = jp_stack p \<and> jp_vals p' = jp_vals p @ vs
     \<and> jp_keys p' = jp_keys p @ ks \<and> grown st st' \<and> length vs = length xs
     \<and> (ok \<longrightarrow> list_all2 (represents (js_world st')) vs xs))"

lemma reads_scalar:
  assumes "json_need True opt (Some H) p st = (Inr (HaveValue, p\<lparr>jp_rest := r, jp_vals := jp_vals p @ [v]\<rparr>), st)"
    "represents (js_world st) v x"
  shows "reads ok opt H p st r [] [x]"
proof -
  have "json_step True opt (Some H) NeedValue p st = (Inr (Inr (HaveValue, p\<lparr>jp_rest := r, jp_vals := jp_vals p @ [v]\<rparr>)), st)"
    using assms(1) by (simp add: json_step_def)
  from run_step [OF this] assms(2) show ?thesis unfolding reads_def
    by (intro exI [of _ "p\<lparr>jp_rest := r, jp_vals := jp_vals p @ [v]\<rparr>"] exI [of _ st] exI [of _ "[v]"]) simp
qed

lemma list_all2_more:
  "(ok \<longrightarrow> list_all2 (represents (js_world st)) vs xs) \<Longrightarrow> grown st st' \<Longrightarrow>
    (ok \<longrightarrow> list_all2 (represents (js_world st')) ws ys) \<Longrightarrow> ok \<longrightarrow> list_all2 (represents (js_world st')) (vs @ ws) (xs @ ys)"
  using grown_represents [of st st' vs xs] by (auto intro: list_all2_appendI)

text \<open>A comma in an array, and the elements after it.\<close>

lemma reads_more:
  assumes "reads ok opt H p st (0x2C # t) [] [x]" "jp_stack p = f # fs" "\<not> jf_obj f"
    "\<And>q st. jp_stack q = f # fs \<Longrightarrow> jp_rest q = t \<Longrightarrow> reads ok opt H q st r [] xs"
  shows "reads ok opt H p st r [] (x # xs)"
proof -
  obtain p' st' vs where p': "json_run True opt (Some H) NeedValue p st = json_run True opt (Some H) HaveValue p' st'"
    "skip_ws (jp_rest p') = skip_ws (0x2C # t)" "jp_stack p' = f # fs" "jp_vals p' = jp_vals p @ vs" "jp_keys p' = jp_keys p"
    "grown st st'" "length vs = 1" "ok \<longrightarrow> list_all2 (represents (js_world st')) vs [x]"
    using assms(1,2) by (auto simp: reads_def)
  have s: "skip_ws (jp_rest p') = 0x2C # t" unfolding p'(2) by (simp add: skip_ws_stop json_ws_def)
  then have "json_step True opt (Some H) HaveValue p' st' = (Inr (Inr (NeedValue, p'\<lparr>jp_rest := t\<rparr>)), st')"
    using have_comma_array [OF p'(3) assms(3) s] by (simp add: json_step_def)
  note run = p'(1) [unfolded run_step [OF this]]
  obtain p2 st2 ws where p2: "json_run True opt (Some H) NeedValue (p'\<lparr>jp_rest := t\<rparr>) st' = json_run True opt (Some H) HaveValue p2 st2"
    "skip_ws (jp_rest p2) = skip_ws r" "jp_stack p2 = f # fs" "jp_vals p2 = jp_vals p' @ ws" "jp_keys p2 = jp_keys p'"
    "grown st' st2" "length ws = length xs" "ok \<longrightarrow> list_all2 (represents (js_world st2)) ws xs"
    using assms(4) [of "p'\<lparr>jp_rest := t\<rparr>" st'] p'(3) by (auto simp: reads_def)
  have "ok \<longrightarrow> list_all2 (represents (js_world st2)) (vs @ ws) ([x] @ xs)" using list_all2_more [OF p'(8) p2(6,8)] .
  then show ?thesis unfolding reads_def
    using run p2 p' grown_trans [OF p'(6) p2(6)] assms(2)
    by (intro exI [of _ p2] exI [of _ st2] exI [of _ "vs @ ws"]) simp
qed

text \<open>A comma in an object.\<close>

lemma reads_member:
  assumes "do_assoc opt" "reads ok opt H p st (0x2C # t) [] [x]" "jp_stack p = f # fs" "jf_obj f" "skip_ws t = 0x22 # u"
    "\<And>q st. jp_stack q = f # fs \<Longrightarrow> jp_rest q = skip_ws t \<Longrightarrow>
       \<exists>p. json_key True opt q = Inr p \<and> jp_stack p = f # fs \<and> jp_vals p = jp_vals q \<and> jp_keys p = jp_keys q @ [k] \<and>
         reads ok opt H p st r ks xs"
  shows "reads ok opt H p st r (k # ks) (x # xs)"
proof -
  obtain p' st' vs where p': "json_run True opt (Some H) NeedValue p st = json_run True opt (Some H) HaveValue p' st'"
    "skip_ws (jp_rest p') = skip_ws (0x2C # t)" "jp_stack p' = f # fs" "jp_vals p' = jp_vals p @ vs" "jp_keys p' = jp_keys p"
    "grown st st'" "length vs = 1" "ok \<longrightarrow> list_all2 (represents (js_world st')) vs [x]"
    using assms(2,3) by (auto simp: reads_def)
  have s: "skip_ws (jp_rest p') = 0x2C # t" unfolding p'(2) by (simp add: skip_ws_stop json_ws_def)
  obtain q where q: "json_key True opt (p'\<lparr>jp_rest := skip_ws t\<rparr>) = Inr q" "jp_stack q = f # fs" "jp_vals q = jp_vals p'"
    "jp_keys q = jp_keys p' @ [k]" "reads ok opt H q st' r ks xs"
    using assms(6) [of "p'\<lparr>jp_rest := skip_ws t\<rparr>" st'] p'(3) by auto
  have "json_step True opt (Some H) HaveValue p' st' = (Inr (Inr (NeedValue, q)), st')"
    using have_comma_object [OF assms(1) p'(3) assms(4) s q(1) assms(5)] by (simp add: json_step_def)
  note run = p'(1) [unfolded run_step [OF this]]
  obtain p2 st2 ws where p2: "json_run True opt (Some H) NeedValue q st' = json_run True opt (Some H) HaveValue p2 st2"
    "skip_ws (jp_rest p2) = skip_ws r" "jp_stack p2 = f # fs" "jp_vals p2 = jp_vals p' @ ws" "jp_keys p2 = jp_keys p' @ k # ks"
    "grown st' st2" "length ws = length xs" "ok \<longrightarrow> list_all2 (represents (js_world st2)) ws xs"
    using q by (auto simp: reads_def)
  have "ok \<longrightarrow> list_all2 (represents (js_world st2)) (vs @ ws) ([x] @ xs)" using list_all2_more [OF p'(8) p2(6,8)] .
  then show ?thesis unfolding reads_def
    using run p2 p' grown_trans [OF p'(6) p2(6)] assms(3)
    by (intro exI [of _ p2] exI [of _ st2] exI [of _ "vs @ ws"]) simp
qed

text \<open>Opening a container, and what closing it gives.\<close>

abbreviation (input) opened :: "bool \<Rightarrow> bytes \<Rightarrow> json_parser \<Rightarrow> json_parser" where
  "opened obj s p \<equiv> p\<lparr>jp_rest := s,
     jp_stack := \<lparr>jf_obj = obj, jf_vals = length (jp_vals p), jf_keys = length (jp_keys p)\<rparr> # jp_stack p\<rparr>"

lemma need_opens:
  assumes "skip_ws (jp_rest p) = (if obj then 0x7B else 0x5B) # t"
  shows "json_need b opt H p st = open_container b opt H obj (p\<lparr>jp_rest := skip_ws (jp_rest p)\<rparr>) st"
  using assms by (cases obj) (simp_all add: json_need_def Let_def)

lemma open_array:
  assumes "skip_ws (jp_rest p) = 0x5B # t" "length (jp_stack p) + 1 < do_depth opt" "starts value_start (skip_ws t)"
  shows "json_need True opt H p st = (Inr (NeedValue, opened False (skip_ws t) p), st)"
proof -
  obtain c u where c: "skip_ws t = c # u" "value_start c" using assms(3) by (cases "skip_ws t") auto
  then have "c \<noteq> 0x5D" "c \<noteq> 0x7D" using value_start_not_ws by blast+
  then show ?thesis
    using assms c by (simp add: need_opens [of p False] open_container_def Let_def)
qed

lemma open_object:
  assumes "skip_ws (jp_rest p) = 0x7B # t" "length (jp_stack p) + 1 < do_depth opt" "skip_ws t = 0x22 # u"
    "json_key True opt (opened True (skip_ws t) p) = Inr q"
  shows "json_need True opt H p st = (Inr (NeedValue, q), st)"
  using assms by (simp add: need_opens [of p True] open_container_def Let_def)

lemma open_empty:
  assumes "skip_ws (jp_rest p) = (if obj then 0x7B else 0x5B) # t" "length (jp_stack p) + 1 < do_depth opt"
    "skip_ws t = (if obj then 0x7D else 0x5D) # r" "json_close True opt H ((opened obj r p)\<lparr>jp_rest := r\<rparr>) st = (q, st')"
  shows "json_need True opt H p st = (Inr (HaveValue, q), st')"
  using assms by (cases obj) (simp_all add: need_opens [of p True] need_opens [of p False] open_container_def Let_def)

lemma reads_array:
  assumes "do_assoc opt" "skip_ws (jp_rest p) = 0x5B # t" "length (jp_stack p) + 1 < do_depth opt" "starts value_start (skip_ws t)"
    "reads ok opt H (opened False (skip_ws t) p) st (0x5D # r) [] xs" "ok \<Longrightarrow> length xs < max_entries"
  shows "reads ok opt H p st r [] [PArr (int_keyed 0 xs)]"
proof -
  have "json_step True opt (Some H) NeedValue p st = (Inr (Inr (NeedValue, opened False (skip_ws t) p)), st)"
    by (simp add: json_step_def open_array [OF assms(2-4)])
  note run = run_step [OF this]
  obtain p' st' vs where p': "json_run True opt (Some H) NeedValue (opened False (skip_ws t) p) st = json_run True opt (Some H) HaveValue p' st'"
    "skip_ws (jp_rest p') = skip_ws (0x5D # r)" "jp_stack p' = \<lparr>jf_obj = False, jf_vals = length (jp_vals p), jf_keys = length (jp_keys p)\<rparr> # jp_stack p"
    "jp_vals p' = jp_vals p @ vs" "jp_keys p' = jp_keys p" "grown st st'" "length vs = length xs"
    "ok \<longrightarrow> list_all2 (represents (js_world st')) vs xs"
    using assms(5) by (auto simp: reads_def)
  have s: "skip_ws (jp_rest p') = 0x5D # r" unfolding p'(2) by (simp add: skip_ws_stop json_ws_def)
  obtain q st2 where q: "json_close True opt (Some H) (p'\<lparr>jp_rest := r\<rparr>) st' = (q, st2)" by fastforce
  have "json_step True opt (Some H) HaveValue p' st' = (Inr (Inr (HaveValue, q)), st2)"
    using have_close [OF assms(1) p'(3) _ q] s by (simp add: json_step_def)
  note run = run [unfolded p'(1) run_step [OF this]]
  have "grown st' st2 \<and> (\<exists>v. q = p'\<lparr>jp_rest := r, jp_stack := jp_stack p, jp_vals := jp_vals p @ [v]\<rparr>
    \<and> (ok \<longrightarrow> represents (js_world st2) v (PArr (int_keyed 0 xs))))"
    using close_array [OF _ _ q, of "\<lparr>jf_obj = False, jf_vals = length (jp_vals p), jf_keys = length (jp_keys p)\<rparr>" "jp_stack p" xs ok]
      p' assms(6) by (simp, blast)
  then obtain v where v: "grown st' st2" "q = p'\<lparr>jp_rest := r, jp_stack := jp_stack p, jp_vals := jp_vals p @ [v]\<rparr>"
    "ok \<longrightarrow> represents (js_world st2) v (PArr (int_keyed 0 xs))" by blast
  show ?thesis unfolding reads_def
    using run v p'(5) grown_trans [OF p'(6) v(1)]
    by (intro exI [of _ q] exI [of _ st2] exI [of _ "[v]"]) simp
qed

lemma reads_object:
  assumes "do_assoc opt" "skip_ws (jp_rest p) = 0x7B # t" "length (jp_stack p) + 1 < do_depth opt" "skip_ws t = 0x22 # u"
    "json_key True opt (opened True (skip_ws t) p) = Inr q"
    "jp_stack q = jp_stack (opened True (skip_ws t) p)" "jp_vals q = jp_vals p" "jp_keys q = jp_keys p @ [k]"
    "reads ok opt H q st (0x7D # r) ks (map snd ms)" "k # ks = map fst ms" "ok \<Longrightarrow> length ms < max_entries"
  shows "reads ok opt H p st r [] [PArr (fold (\<lambda>(k, x). AList.update k x) ms [])]"
proof -
  let ?f = "\<lparr>jf_obj = True, jf_vals = length (jp_vals p), jf_keys = length (jp_keys p)\<rparr>"
  have "json_step True opt (Some H) NeedValue p st = (Inr (Inr (NeedValue, q)), st)"
    by (simp add: json_step_def open_object [OF assms(2-5)])
  note run = run_step [OF this]
  obtain p' st' vs where p': "json_run True opt (Some H) NeedValue q st = json_run True opt (Some H) HaveValue p' st'"
    "skip_ws (jp_rest p') = skip_ws (0x7D # r)" "jp_stack p' = ?f # jp_stack p"
    "jp_vals p' = jp_vals p @ vs" "jp_keys p' = jp_keys p @ k # ks" "grown st st'" "length vs = length ms"
    "ok \<longrightarrow> list_all2 (represents (js_world st')) vs (map snd ms)"
    using assms(6-9) by (auto simp: reads_def)
  have s: "skip_ws (jp_rest p') = 0x7D # r" unfolding p'(2) by (simp add: skip_ws_stop json_ws_def)
  obtain q' st2 where q: "json_close True opt (Some H) (p'\<lparr>jp_rest := r\<rparr>) st' = (q', st2)" by fastforce
  have "json_step True opt (Some H) HaveValue p' st' = (Inr (Inr (HaveValue, q')), st2)"
    using have_close [OF assms(1) p'(3) _ q] s by (simp add: json_step_def)
  note run = run [unfolded p'(1) run_step [OF this]]
  have "grown st' st2 \<and> (\<exists>v. q' = p'\<lparr>jp_rest := r, jp_stack := jp_stack p, jp_vals := jp_vals p @ [v], jp_keys := jp_keys p\<rparr>
    \<and> (ok \<longrightarrow> represents (js_world st2) v (PArr (fold (\<lambda>(k, x). AList.update k x) ms []))))"
    using close_object [OF assms(1) _ _ q, of ?f "jp_stack p" ms ok] p' assms(10,11) by (simp, blast)
  then obtain v where v: "grown st' st2" "q' = p'\<lparr>jp_rest := r, jp_stack := jp_stack p, jp_vals := jp_vals p @ [v], jp_keys := jp_keys p\<rparr>"
    "ok \<longrightarrow> represents (js_world st2) v (PArr (fold (\<lambda>(k, x). AList.update k x) ms []))" by blast
  show ?thesis unfolding reads_def
    using run v grown_trans [OF p'(6) v(1)]
    by (intro exI [of _ q'] exI [of _ st2] exI [of _ "[v]"]) simp
qed

lemma reads_empty:
  assumes "do_assoc opt" "skip_ws (jp_rest p) = (if obj then 0x7B else 0x5B) # w @ (if obj then 0x7D else 0x5D) # r"
    "length (jp_stack p) + 1 < do_depth opt" "json_blank w"
  shows "reads ok opt H p st r [] [PArr []]"
proof -
  let ?f = "\<lparr>jf_obj = obj, jf_vals = length (jp_vals p), jf_keys = length (jp_keys p)\<rparr>"
  have s: "skip_ws (w @ (if obj then 0x7D else 0x5D) # r) = (if obj then 0x7D else 0x5D) # r"
    using skip_ws_blank [OF assms(4)] by (simp add: skip_ws_stop json_ws_def)
  obtain q st2 where q: "json_close True opt (Some H) ((opened obj r p)\<lparr>jp_rest := r\<rparr>) st = (q, st2)" by fastforce
  have "json_step True opt (Some H) NeedValue p st = (Inr (Inr (HaveValue, q)), st2)"
    using open_empty [OF assms(2,3) s q] by (simp add: json_step_def)
  note run = run_step [OF this]
  have "grown st st2 \<and> (\<exists>v. q = p\<lparr>jp_rest := r, jp_vals := jp_vals p @ [v]\<rparr> \<and> represents (js_world st2) v (PArr []))"
  proof (cases obj)
    case False
    then show ?thesis
      using close_array [OF _ _ q, of ?f "jp_stack p" "[]" True] by (auto simp: max_entries_def)
  next
    case True
    then show ?thesis
      using close_object [OF assms(1) _ _ q, of ?f "jp_stack p" "[]" True] by (auto simp: max_entries_def)
  qed
  then obtain v where v: "grown st st2" "q = p\<lparr>jp_rest := r, jp_vals := jp_vals p @ [v]\<rparr>" "represents (js_world st2) v (PArr [])" by blast
  show ?thesis unfolding reads_def
    using run v by (intro exI [of _ q] exI [of _ st2] exI [of _ "[v]"]) simp
qed

lemma json_str_start: "json_str k b \<Longrightarrow> \<exists>u. k = 0x22 # u"
  by (auto simp: json_str_def)

lemma skip_ws_str: "json_str k b \<Longrightarrow> skip_ws (k @ r) = k @ r"
  by (intro skip_ws_stop) (auto simp: json_str_def json_ws_def)

lemma reads_literal:
  assumes "skip_ws (jp_rest p) = fst (json_literal c) @ r" "c \<in> {0x74, 0x66, 0x6E}"
    "represents (js_world st) (snd (json_literal c)) x"
  shows "reads ok opt H p st r [] [x]"
  by (rule reads_scalar [OF need_literal [OF assms(1,2)] assms(3)])

lemma reads_blank: "json_blank w \<Longrightarrow> reads ok opt H p st (w @ r) ks xs = reads ok opt H p st r ks xs"
  by (simp add: reads_def skip_ws_blank)

lemma grammar_reads:
  assumes opt: "do_assoc opt"
  shows "json_value (do_bigint opt) d t x \<Longrightarrow>
      \<forall>p (st :: 'e json_state) r. skip_ws (jp_rest p) = t @ r \<longrightarrow> value_end r \<longrightarrow> length (jp_stack p) + 1 + d \<le> do_depth opt \<longrightarrow>
        (ok \<longrightarrow> length t < max_entries) \<longrightarrow> reads ok opt H p st r [] [x]"
    and "json_elems (do_bigint opt) d ts xs \<Longrightarrow>
      \<forall>p (st :: 'e json_state) r f fs. jp_stack p = f # fs \<longrightarrow> \<not> jf_obj f \<longrightarrow> skip_ws (jp_rest p) = skip_ws (ts @ 0x5D # r) \<longrightarrow>
        length (jp_stack p) + 1 + d \<le> do_depth opt \<longrightarrow> (ok \<longrightarrow> length ts < max_entries) \<longrightarrow> reads ok opt H p st (0x5D # r) [] xs"
    and "json_members (do_bigint opt) d us ms \<Longrightarrow>
      \<forall>q (st :: 'e json_state) r f fs. jp_stack q = f # fs \<longrightarrow> jf_obj f \<longrightarrow> jp_rest q = skip_ws (us @ 0x7D # r) \<longrightarrow>
        length (jp_stack q) + 1 + d \<le> do_depth opt \<longrightarrow> (ok \<longrightarrow> length us < max_entries) \<longrightarrow>
        (\<exists>u p k ks. jp_rest q = 0x22 # u \<and> json_key True opt q = Inr p \<and> jp_stack p = jp_stack q \<and> jp_vals p = jp_vals q \<and>
           jp_keys p = jp_keys q @ [k] \<and> k # ks = map fst ms \<and> reads ok opt H p st (0x7D # r) ks (map snd ms))"
proof (induction rule: json_value_json_elems_json_members.inducts)
  case (v_null d)
  show ?case
  proof (intro allI impI)
    fix p :: json_parser and st :: "'e json_state" and r
    assume a: "skip_ws (jp_rest p) = ascii ''null'' @ r"
    show "reads ok opt H p st r [] [PNull]"
      by (rule reads_literal [of p "0x6E"]) (simp_all add: a json_literal_def rep_null)
  qed
next
  case (v_true d)
  show ?case
  proof (intro allI impI)
    fix p :: json_parser and st :: "'e json_state" and r
    assume a: "skip_ws (jp_rest p) = ascii ''true'' @ r"
    show "reads ok opt H p st r [] [PBool True]"
      by (rule reads_literal [of p "0x74"]) (simp_all add: a json_literal_def rep_bool)
  qed
next
  case (v_false d)
  show ?case
  proof (intro allI impI)
    fix p :: json_parser and st :: "'e json_state" and r
    assume a: "skip_ws (jp_rest p) = ascii ''false'' @ r"
    show "reads ok opt H p st r [] [PBool False]"
      by (rule reads_literal [of p "0x66"]) (simp_all add: a json_literal_def rep_bool)
  qed
next
  case (v_num t x d)
  show ?case
  proof (intro allI impI)
    fix p :: json_parser and st :: "'e json_state" and r
    assume a: "skip_ws (jp_rest p) = t @ r" "value_end r"
    obtain v where "json_need True opt (Some H) p st = (Inr (HaveValue, p\<lparr>jp_rest := r, jp_vals := jp_vals p @ [v]\<rparr>), st)"
      "\<And>W :: 'e world. represents W v x" using need_number [OF a(1) v_num a(2)] by blast
    then show "reads ok opt H p st r [] [x]" by (rule reads_scalar)
  qed
next
  case (v_str t b d)
  then show ?case using need_string by (auto intro!: reads_scalar rep_str)
next
  case (v_arr0 w d)
  then show ?case by (auto intro!: reads_empty [OF opt, where obj = False and w = w])
next
  case (v_obj0 w d)
  then show ?case by (auto intro!: reads_empty [OF opt, where obj = True and w = w])
next
  case (v_arr d t xs)
  have len: "length xs \<le> length t" using elems_length(1) [OF v_arr(1)] .
  obtain w t' x' t'' where t: "t = w @ t' @ t''" "json_blank w" "json_value (do_bigint opt) d t' x'"
    using v_arr(1) by (cases rule: json_elems.cases) auto
  have start: "starts value_start (skip_ws (t @ r))" for r
    using json_value_start [OF t(3)] skip_ws_blank [OF t(2)] skip_ws_value [OF t(3)] by (auto simp: t(1) starts_append)
  show ?case
  proof (intro allI impI)
    fix p :: json_parser and st :: "'e json_state" and r
    assume a: "skip_ws (jp_rest p) = (0x5B # t @ [0x5D]) @ r" "value_end r" "length (jp_stack p) + 1 + Suc d \<le> do_depth opt"
      "ok \<longrightarrow> length (0x5B # t @ [0x5D]) < max_entries"
    have "reads ok opt H (opened False (skip_ws (t @ 0x5D # r)) p) st (0x5D # r) [] xs"
      by (rule v_arr(2) [rule_format]) (use a(3,4) in auto)
    then show "reads ok opt H p st r [] [PArr (int_keyed 0 xs)]"
      using a start len by (intro reads_array [OF opt]) auto
  qed
next
  case (v_obj d t ms)
  have len: "length ms \<le> length t" using elems_length(2) [OF v_obj(1)] .
  show ?case
  proof (intro allI impI)
    fix p :: json_parser and st :: "'e json_state" and r
    assume a: "skip_ws (jp_rest p) = (0x7B # t @ [0x7D]) @ r" "value_end r" "length (jp_stack p) + 1 + Suc d \<le> do_depth opt"
      "ok \<longrightarrow> length (0x7B # t @ [0x7D]) < max_entries"
    let ?q = "opened True (skip_ws (t @ 0x7D # r)) p"
    have "\<exists>u q k ks. jp_rest ?q = 0x22 # u \<and> json_key True opt ?q = Inr q \<and> jp_stack q = jp_stack ?q \<and> jp_vals q = jp_vals ?q
        \<and> jp_keys q = jp_keys ?q @ [k] \<and> k # ks = map fst ms \<and> reads ok opt H q st (0x7D # r) ks (map snd ms)"
      by (rule v_obj(2) [rule_format]) (use a(3,4) in auto)
    then obtain u q k ks where q: "jp_rest ?q = 0x22 # u" "json_key True opt ?q = Inr q" "jp_stack q = jp_stack ?q" "jp_vals q = jp_vals ?q"
      "jp_keys q = jp_keys ?q @ [k]" "k # ks = map fst ms" "reads ok opt H q st (0x7D # r) ks (map snd ms)"
      by (elim exE conjE)
    show "reads ok opt H p st r [] [PArr (fold (\<lambda>(k, x). AList.update k x) ms [])]"
      using a q len by (intro reads_object [OF opt, of p "t @ 0x7D # r" u q k ok H st r ks ms]) auto
  qed
next
  case (e_last w d t x w')
  show ?case
  proof (intro allI impI)
    fix p :: json_parser and st :: "'e json_state" and r f fs
    assume a: "skip_ws (jp_rest p) = skip_ws ((w @ t @ w') @ 0x5D # r)" "length (jp_stack p) + 1 + d \<le> do_depth opt"
      "ok \<longrightarrow> length (w @ t @ w') < max_entries"
    have "skip_ws (jp_rest p) = t @ w' @ 0x5D # r"
      using a(1) skip_ws_blank [OF e_last(1)] skip_ws_value [OF e_last(3)] by simp
    then have "reads ok opt H p st (w' @ 0x5D # r) [] [x]"
      by (rule e_last(4) [rule_format]) (use a(2,3) value_end_blank [OF e_last(2)] in auto)
    then show "reads ok opt H p st (0x5D # r) [] [x]" by (simp add: reads_blank e_last(2))
  qed
next
  case (e_more w d t x w' ts xs)
  show ?case
  proof (intro allI impI)
    fix p :: json_parser and st :: "'e json_state" and r f fs
    assume a: "jp_stack p = f # fs" "\<not> jf_obj f" "skip_ws (jp_rest p) = skip_ws ((w @ t @ w' @ 0x2C # ts) @ 0x5D # r)"
      "length (jp_stack p) + 1 + d \<le> do_depth opt" "ok \<longrightarrow> length (w @ t @ w' @ 0x2C # ts) < max_entries"
    have "skip_ws (jp_rest p) = t @ w' @ 0x2C # ts @ 0x5D # r"
      using a(3) skip_ws_blank [OF e_more(1)] skip_ws_value [OF e_more(3)] by simp
    then have "reads ok opt H p st (w' @ 0x2C # ts @ 0x5D # r) [] [x]"
      by (rule e_more(4) [rule_format]) (use a(4,5) value_end_blank [OF e_more(2)] in auto)
    then have "reads ok opt H p st (0x2C # ts @ 0x5D # r) [] [x]" by (simp add: reads_blank e_more(2))
    then show "reads ok opt H p st (0x5D # r) [] (x # xs)"
    proof (rule reads_more [OF _ a(1,2)])
      fix q :: json_parser and st' :: "'e json_state"
      assume "jp_stack q = f # fs" "jp_rest q = ts @ 0x5D # r"
      then show "reads ok opt H q st' (0x5D # r) [] xs"
        by (intro e_more(6) [rule_format, of q f fs]) (use a in auto)
    qed
  qed
next
  case (m_last w1 k b w2 w3 d t x w4)
  show ?case
  proof (intro allI impI)
    fix q :: json_parser and st :: "'e json_state" and r f fs
    assume a: "jp_rest q = skip_ws ((w1 @ k @ w2 @ 0x3A # w3 @ t @ w4) @ 0x7D # r)" "length (jp_stack q) + 1 + d \<le> do_depth opt"
      "ok \<longrightarrow> length (w1 @ k @ w2 @ 0x3A # w3 @ t @ w4) < max_entries"
    have rest: "jp_rest q = k @ w2 @ 0x3A # w3 @ t @ w4 @ 0x7D # r"
      using a(1) skip_ws_blank [OF m_last(1)] skip_ws_str [OF m_last(2)] by simp
    obtain c where c: "json_key True opt q = Inr (q\<lparr>jp_rest := w3 @ t @ w4 @ 0x7D # r, jp_keys := jp_keys q @ [key_from_bytes b], jp_cache := c\<rparr>)"
      using key_reads [OF opt rest m_last(2,3)] by blast
    obtain u where u: "k = 0x22 # u" using json_str_start [OF m_last(2)] by blast
    let ?p = "q\<lparr>jp_rest := w3 @ t @ w4 @ 0x7D # r, jp_keys := jp_keys q @ [key_from_bytes b], jp_cache := c\<rparr>"
    have "skip_ws (jp_rest ?p) = t @ w4 @ 0x7D # r"
      using skip_ws_blank [OF m_last(4)] skip_ws_value [OF m_last(6)] by simp
    then have "reads ok opt H ?p st (w4 @ 0x7D # r) [] [x]"
      by (rule m_last(7) [rule_format]) (use a(2,3) value_end_blank [OF m_last(5)] in auto)
    then have "reads ok opt H ?p st (0x7D # r) [] [x]" by (simp add: reads_blank m_last(5))
    then show "\<exists>u p k' ks. jp_rest q = 0x22 # u \<and> json_key True opt q = Inr p \<and> jp_stack p = jp_stack q \<and> jp_vals p = jp_vals q \<and>
        jp_keys p = jp_keys q @ [k'] \<and> k' # ks = map fst [(key_from_bytes b, x)] \<and> reads ok opt H p st (0x7D # r) ks (map snd [(key_from_bytes b, x)])"
      using c u rest by auto
  qed
next
  case (m_more w1 k b w2 w3 d t x w4 ts ms)
  show ?case
  proof (intro allI impI)
    fix q :: json_parser and st :: "'e json_state" and r f fs
    assume a: "jp_stack q = f # fs" "jf_obj f" "jp_rest q = skip_ws ((w1 @ k @ w2 @ 0x3A # w3 @ t @ w4 @ 0x2C # ts) @ 0x7D # r)"
      "length (jp_stack q) + 1 + d \<le> do_depth opt" "ok \<longrightarrow> length (w1 @ k @ w2 @ 0x3A # w3 @ t @ w4 @ 0x2C # ts) < max_entries"
    let ?r = "0x2C # ts @ 0x7D # r"
    have rest: "jp_rest q = k @ w2 @ 0x3A # w3 @ t @ w4 @ ?r"
      using a(3) skip_ws_blank [OF m_more(1)] skip_ws_str [OF m_more(2)] by simp
    obtain c where c: "json_key True opt q = Inr (q\<lparr>jp_rest := w3 @ t @ w4 @ ?r, jp_keys := jp_keys q @ [key_from_bytes b], jp_cache := c\<rparr>)"
      using key_reads [OF opt rest m_more(2,3)] by blast
    obtain u where u: "k = 0x22 # u" using json_str_start [OF m_more(2)] by blast
    let ?p = "q\<lparr>jp_rest := w3 @ t @ w4 @ ?r, jp_keys := jp_keys q @ [key_from_bytes b], jp_cache := c\<rparr>"
    have "skip_ws (jp_rest ?p) = t @ w4 @ ?r"
      using skip_ws_blank [OF m_more(4)] skip_ws_value [OF m_more(6)] by simp
    then have "reads ok opt H ?p st (w4 @ ?r) [] [x]"
      by (rule m_more(7) [rule_format]) (use a(4,5) value_end_blank [OF m_more(5)] in auto)
    then have one: "reads ok opt H ?p st ?r [] [x]" by (simp add: reads_blank m_more(5))
    have rest_reads: "\<exists>u p k' ks. jp_rest q' = 0x22 # u \<and> json_key True opt q' = Inr p \<and> jp_stack p = jp_stack q' \<and> jp_vals p = jp_vals q'
        \<and> jp_keys p = jp_keys q' @ [k'] \<and> k' # ks = map fst ms \<and> reads ok opt H p st' (0x7D # r) ks (map snd ms)"
      if "jp_stack q' = f # fs" "jp_rest q' = skip_ws (ts @ 0x7D # r)" for q' :: json_parser and st' :: "'e json_state"
      by (rule m_more(9) [rule_format, of q' f fs]) (use that a in auto)
    obtain m ms' where ms: "ms = m # ms'" using rest_reads [of "q\<lparr>jp_rest := skip_ws (ts @ 0x7D # r)\<rparr>" st] a(1) by (cases ms) auto
    obtain v where v: "skip_ws (ts @ 0x7D # r) = 0x22 # v"
      using rest_reads [of "q\<lparr>jp_rest := skip_ws (ts @ 0x7D # r)\<rparr>" st] a(1) by auto
    have "reads ok opt H ?p st (0x7D # r) (fst m # map fst ms') (x # map snd ms)"
    proof (rule reads_member [OF opt one _ a(2) v])
      show "jp_stack ?p = f # fs" using a(1) by simp
      fix q' :: json_parser and st' :: "'e json_state"
      assume "jp_stack q' = f # fs" "jp_rest q' = skip_ws (ts @ 0x7D # r)"
      from rest_reads [OF this, of st']
      show "\<exists>p. json_key True opt q' = Inr p \<and> jp_stack p = f # fs \<and> jp_vals p = jp_vals q' \<and> jp_keys p = jp_keys q' @ [fst m]
          \<and> reads ok opt H p st' (0x7D # r) (map fst ms') (map snd ms)"
        using \<open>jp_stack q' = f # fs\<close> unfolding ms by auto
    qed
    then show "\<exists>u p k' ks. jp_rest q = 0x22 # u \<and> json_key True opt q = Inr p \<and> jp_stack p = jp_stack q \<and> jp_vals p = jp_vals q \<and>
        jp_keys p = jp_keys q @ [k'] \<and> k' # ks = map fst ((key_from_bytes b, x) # ms)
        \<and> reads ok opt H p st (0x7D # r) ks (map snd ((key_from_bytes b, x) # ms))"
      using c u rest ms by auto
  qed
qed

end
