(* ===== verification/JsonSound.thy ===== *)
theory JsonSound
  imports JsonSpec
begin

text \<open>
  The decoder accepts only the texts of the grammar, and with the previous theory exactly those: the
  loop without building is followed from the kinds of its open containers.
\<close>

section \<open>Only the texts of the grammar are read\<close>


















section \<open>Properties\<close>













section \<open>What is accepted\<close>




section \<open>Properties\<close>







end
