(* ===== verification/Spec2Isabelle.thy ===== *)
theory Spec2Isabelle
  imports ArraySpec GetFloat Legacy CivilSpec Numeric Shortest ConvertSpec OpsSpec CompareSpec BcDiv JsonSound
begin

text \<open>
  Verification of the core of goro-rs, an implementation of PHP in Rust.

  \<^bold>\<open>The program.\<close>  PHP values (\<open>crates/goro-runtime/src\<close>) are null, bools, 64 bit integers, floats,
  byte strings, ordered hash tables, objects, resources and references to shared cells.  Conversions
  turn one type into another, operators and comparisons are built on conversions, and all three
  report diagnostics to the engine through the trait \<open>Ctx\<close> and return thrown errors as values.
  Arrays are the program's central data structure: a packed or hashed store, the next append index,
  the internal pointer and the iterators of \<open>foreach\<close> by reference.  On top of the runtime the
  development covers the extension \<open>random\<close> (\<open>crates/goro-ext-random/src\<close>) and the calendar of the
  extension \<open>date\<close> (\<open>crates/goro-ext-date/src/civil.rs\<close>).

  \<^bold>\<open>Conventions.\<close>  An \<open>i64\<close> or \<open>u64\<close> is a \<open>64 word\<close>, lengths and indices are naturals, strings are
  lists of bytes, \<open>Result\<close> is a sum with the error on the left and \<open>Option\<close> an option.  What Rust
  mutates is passed in and returned.  \<open>Rc\<close> handles are addresses: reference cells, array data, objects
  and resources live in lists indexed by them.  Floats are their 64 bits; arithmetic decodes them
  (\<open>view\<close>), computes exactly and rounds once to the nearest, ties to even (\<open>F64\<close>).

  \<^bold>\<open>Theories and code.\<close>
  \<^item> \<open>Prelude\<close>: words, bytes, checked arithmetic; \<open>F64\<close>: IEEE 754 doubles.
  \<^item> \<open>IntText\<close>: \<open>int_digits\<close>, \<open>canonical_int\<close> and \<open>Key\<close> of \<open>convert.rs\<close> and \<open>array.rs\<close>.
  \<^item> \<open>HashStore\<close>: \<open>hash_bytes\<close> of \<open>string.rs\<close>, \<open>Bucket\<close> and \<open>HashStore\<close> of \<open>array.rs\<close>: insertion-ordered
    buckets with tombstones and an index probed with triangular steps.
  \<^item> \<open>Values\<close>: \<open>value.rs\<close> and \<open>reference.rs\<close>.
  \<^item> \<open>ArrayData\<close>: the operations of \<open>ArrayData\<close>; \<open>ArrayMap\<close>: the abstraction to an association list with
    next index, cursor and iterators; \<open>ArraySpec\<close>: the interface \<open>ordered_map\<close>, its interpretation
    and the properties of every operation.
  \<^item> \<open>Numeric\<close>: \<open>numeric.rs\<close> against the grammar of the manual.
  \<^item> \<open>BigNum\<close>, \<open>FloatFmt\<close>, \<open>FloatLogs\<close>, \<open>FloatExact\<close>, \<open>Shortest\<close>: \<open>float_fmt.rs\<close>: limbs, exact digit
    generation, the Schubfach algorithm with its table, and the layout of PHP.
  \<^item> \<open>Runtime\<close>: \<open>error.rs\<close>, \<open>ctx.rs\<close> and the world of handles; \<open>Convert\<close>, \<open>ConvertSpec\<close>: \<open>convert.rs\<close>;
    \<open>Ops\<close>, \<open>OpsSpec\<close>: \<open>ops.rs\<close>; \<open>Compare\<close>, \<open>CompareSpec\<close>: \<open>compare.rs\<close>.
  \<^item> \<open>RandomCore\<close>, \<open>Pcg\<close>, \<open>Xoshiro\<close>, \<open>Mt19937\<close>, \<open>Ranges\<close>, \<open>Randomizer\<close>, \<open>GetFloat\<close>, \<open>Legacy\<close>: the engines, range
    reduction, the methods of \<open>Randomizer\<close> and the global functions.
  \<^item> \<open>Civil\<close>, \<open>CivilSpec\<close>: \<open>civil.rs\<close>.

  \<^bold>\<open>What is shown.\<close>  Every array operation refines the corresponding change of an ordered association
  list and keeps the invariant; probing ends.  Numeric strings are classified as the grammar says and
  get the integer or the correctly rounded decimal; exact digits are the float rounded half to even;
  the shortest digits lie in the rounding interval (up to \<open>2\<^sup>-\<^sup>6\<^sup>4\<close> of a unit, the precision of the
  table); every float has a text.  Casts truncate and wrap or saturate; integer operators are exact
  whenever the result fits; operators give the types their operands allow; the string increment is the
  successor in a mixed-radix numbering.  String comparison is antisymmetric and agrees with \<open>==\<close>;
  comparisons restore the stack that guards recursion and end on cyclic arrays.  The generators follow
  their published recurrences and serialise faithfully; reduced ranges are uniform, shuffles are
  permutations that each come from one sequence of draws.  The calendar functions are inverse to each
  other and count days.

  \<^bold>\<open>Fuel and bounds.\<close>  Probing carries as much fuel as the index has slots, which is proved enough because
  triangular steps visit every slot of a table whose size is a power of two and one slot is always
  free.  Range reduction draws at most 51 times as the code does.  \<open>div_digit\<close> corrects its estimate at
  most twice.  The bignum of \<open>float_fmt.rs\<close> needs at most 35 of its 40 limbs.  Comparisons take one
  unit of fuel per level of nesting; \<open>None\<close> is an exhausted stack, and the number of arrays plus one is
  proved enough on heaps without objects.  \<open>new_random\<close> of xoshiro reads the list of the system's
  answers.

  \<^bold>\<open>Parameters.\<close>  The operating system's random bytes and clock, the platform's \<open>powf\<close>, engines written
  in PHP and the engine's services (the record \<open>ctx\<close>) are arguments; properties that need their
  behaviour name it as a hypothesis (\<open>keeps_nesting\<close>: a service that runs comparisons returns with the
  stack it found).

  \<^bold>\<open>Not modelled.\<close>  The memory representation of strings, the cycle collector and destructors
  (unsafe code and allocator state), panics' unwinding, \<open>Debug\<close> formatting, the parser, the compiler and
  virtual machine, and the other extensions.
\<close>

end
